(* ===== verification/Prelude.thy ===== *)
theory Prelude
  imports Complex_Main "HOL-Library.Word"
begin

text \<open>
  Shared material of the development: the collections the component theories add to, the
  integer arithmetic of page sizes (\<open>ceil_div\<close>, \<open>ceil_align\<close>, \<open>floor_align\<close>), Python's
  exceptions as values, tensors as lists, and the shape every masked device kernel of the
  sources has: a grid of programs, each of which writes the in-range lanes of its own block.
\<close>

named_theorems page_arith \<open>facts about rounding to pages\<close>
named_theorems tensor_simps \<open>length and element facts of tabulated tensors\<close>

section \<open>Errors as values\<close>

datatype py_error =
    ValueError string
  | RuntimeError string
  | KeyError string
  | IndexError
  | AssertionError
  | TypeError
  | AttributeError
  | ZeroDivisionError

text \<open>Python's \<open>len\<close> and \<open>int\<close> (truncation towards zero of a float).\<close>

abbreviation len :: "'a list \<Rightarrow> int" where
  "len xs \<equiv> int (length xs)"

definition py_int :: "real \<Rightarrow> int" where
  "py_int x = (if 0 \<le> x then \<lfloor>x\<rfloor> else \<lceil>x\<rceil>)"

lemma py_int_pos_iff: "0 < py_int x \<longleftrightarrow> 1 \<le> x"
  by (simp add: py_int_def)

lemma py_int_le: "0 \<le> x \<Longrightarrow> real_of_int (py_int x) \<le> x"
  by (simp add: py_int_def)

lemma py_int_of_int [simp]: "py_int (real_of_int i) = i"
  by (simp add: py_int_def)

lemma py_int_numeral [simp]: "py_int (numeral n) = numeral n"
  by (simp add: py_int_def)

section \<open>Rounding to a multiple\<close>

text \<open>Python's \<open>-(-x // d)\<close>, the idiom the sources use for a ceiling division.\<close>

definition ceil_div :: "int \<Rightarrow> int \<Rightarrow> int" where
  "ceil_div x d = - ((- x) div d)"

definition ceil_align :: "int \<Rightarrow> int \<Rightarrow> int" where
  "ceil_align x d = ceil_div x d * d"

definition floor_align :: "int \<Rightarrow> int \<Rightarrow> int" where
  "floor_align x d = x div d * d"

lemma ceil_align_dvd [page_arith, intro, simp]: "d dvd ceil_align x d"
  by (simp add: ceil_align_def)

lemma floor_align_dvd [page_arith, intro, simp]: "d dvd floor_align x d"
  by (simp add: floor_align_def)

lemma ceil_align_ge [page_arith]:
  assumes "0 < d"
  shows "x \<le> ceil_align x d"
proof -
  have "(- x) div d * d \<le> - x"
    using pos_mod_sign [OF assms, of "- x"] by (simp add: minus_mod_eq_div_mult [symmetric])
  then show ?thesis by (simp add: ceil_align_def ceil_div_def)
qed

lemma ceil_align_less [page_arith]:
  assumes "0 < d"
  shows "ceil_align x d < x + d"
proof -
  have "- x - (- x) div d * d < d"
    using pos_mod_bound [OF assms, of "- x"] by (simp add: minus_div_mult_eq_mod)
  then show ?thesis by (simp add: ceil_align_def ceil_div_def)
qed

lemma floor_align_le [page_arith]:
  assumes "0 < d"
  shows "floor_align x d \<le> x"
  using pos_mod_sign [OF assms, of x] by (simp add: floor_align_def minus_mod_eq_div_mult [symmetric])

lemma floor_align_gt [page_arith]:
  assumes "0 < d"
  shows "x - d < floor_align x d"
  using pos_mod_bound [OF assms, of x] by (simp add: floor_align_def minus_mod_eq_div_mult [symmetric])

lemma floor_align_mono [page_arith]:
  "0 < d \<Longrightarrow> x \<le> y \<Longrightarrow> floor_align x d \<le> floor_align y d"
  by (simp add: floor_align_def zdiv_mono1)

lemma ceil_div_mono [page_arith]: "0 < d \<Longrightarrow> x \<le> y \<Longrightarrow> ceil_div x d \<le> ceil_div y d"
  by (simp add: ceil_div_def zdiv_mono1)

lemma ceil_align_mono [page_arith]: "0 < d \<Longrightarrow> x \<le> y \<Longrightarrow> ceil_align x d \<le> ceil_align y d"
  by (simp add: ceil_align_def ceil_div_mono)

lemma ceil_align_nonneg [page_arith]: "0 < d \<Longrightarrow> 0 \<le> x \<Longrightarrow> 0 \<le> ceil_align x d"
  using ceil_align_ge [of d x] by linarith

lemma floor_align_nonneg [page_arith]: "0 < d \<Longrightarrow> 0 \<le> x \<Longrightarrow> 0 \<le> floor_align x d"
  by (simp add: floor_align_def pos_imp_zdiv_nonneg_iff)

lemma ceil_align_least [page_arith]:
  assumes "0 < d" "d dvd y" "x \<le> y"
  shows "ceil_align x d \<le> y"
proof -
  from assms(2) obtain k where k: "y = d * k" ..
  have "ceil_align x d < d * k + d"
    using ceil_align_less [OF assms(1), of x] assms(3) k by linarith
  then have "d * ceil_div x d < d * (k + 1)"
    by (simp add: ceil_align_def algebra_simps)
  then have "ceil_div x d \<le> k"
    using assms(1) by (simp add: mult_less_cancel_left)
  then show ?thesis
    using assms(1) k by (simp add: ceil_align_def mult.commute)
qed

lemma floor_align_greatest [page_arith]:
  assumes "0 < d" "d dvd y" "y \<le> x"
  shows "y \<le> floor_align x d"
proof -
  from assms(2) obtain k where k: "y = k * d" by (auto simp: dvd_def mult.commute)
  have "k \<le> x div d"
    using assms k by (metis nonzero_mult_div_cancel_right order_less_irrefl zdiv_mono1)
  then show ?thesis using assms(1) k by (simp add: floor_align_def)
qed

lemma ceil_align_id [simp]: "0 < d \<Longrightarrow> d dvd x \<Longrightarrow> ceil_align x d = x"
  by (meson antisym ceil_align_ge ceil_align_least order_refl)

lemma floor_align_id [simp]: "0 < d \<Longrightarrow> d dvd x \<Longrightarrow> floor_align x d = x"
  by (simp add: floor_align_def)

section \<open>Tensors as lists\<close>

definition tabulate :: "nat \<Rightarrow> (nat \<Rightarrow> 'a) \<Rightarrow> 'a list" where
  "tabulate n f = map f [0..<n]"

lemma length_tabulate [simp, tensor_simps]: "length (tabulate n f) = n"
  by (simp add: tabulate_def)

lemma nth_tabulate [simp, tensor_simps]: "i < n \<Longrightarrow> tabulate n f ! i = f i"
  by (simp add: tabulate_def)

lemma tabulate_eqI:
  "length xs = n \<Longrightarrow> (\<And>i. i < n \<Longrightarrow> xs ! i = f i) \<Longrightarrow> xs = tabulate n f"
  by (rule nth_equalityI) auto

lemma tabulate_cong [fundef_cong]:
  "n = m \<Longrightarrow> (\<And>i. i < m \<Longrightarrow> f i = g i) \<Longrightarrow> tabulate n f = tabulate m g"
  by (simp add: tabulate_def)

section \<open>Masked kernel launches\<close>

text \<open>
  A kernel launched over \<open>cdiv(n, BLOCK)\<close> programs; program \<open>pid\<close> computes lane offsets
  \<open>pid * BLOCK + arange(0, BLOCK)\<close> and stores \<open>f off\<close> at every lane with \<open>off < n\<close>. The
  programs run in any order on the device; no two of them write the same offset, so the order
  chosen here is immaterial.
\<close>

definition cdiv :: "nat \<Rightarrow> nat \<Rightarrow> nat" where
  "cdiv n b = (n + b - 1) div b"

definition masked_store :: "nat \<Rightarrow> (nat \<Rightarrow> 'a) \<Rightarrow> nat \<Rightarrow> 'a list \<Rightarrow> 'a list" where
  "masked_store n f off out = (if off < n then out[off := f off] else out)"

definition run_program :: "nat \<Rightarrow> nat \<Rightarrow> (nat \<Rightarrow> 'a) \<Rightarrow> nat \<Rightarrow> 'a list \<Rightarrow> 'a list" where
  "run_program block n f pid out =
     fold (masked_store n f) (map (\<lambda>lane. pid * block + lane) [0..<block]) out"

definition launch :: "nat \<Rightarrow> nat \<Rightarrow> (nat \<Rightarrow> 'a) \<Rightarrow> 'a list \<Rightarrow> 'a list" where
  "launch block n f out = fold (run_program block n f) [0..<cdiv n block] out"

lemma length_fold_masked_store [simp]:
  "length (fold (masked_store n f) offs out) = length out"
  by (induction offs arbitrary: out) (auto simp: masked_store_def)

lemma nth_fold_masked_store:
  "i < length out \<Longrightarrow>
     fold (masked_store n f) offs out ! i = (if i \<in> set offs \<and> i < n then f i else out ! i)"
  by (induction offs arbitrary: out) (auto simp: masked_store_def nth_list_update)

lemma launch_flat:
  "launch block n f out = fold (masked_store n f) [0..<cdiv n block * block] out"
proof -
  have "fold (run_program block n f) [0..<k] out
      = fold (masked_store n f) [0..<k * block] out" for k
  proof (induction k)
    case 0
    then show ?case by simp
  next
    case (Suc k)
    have "[0..<Suc k * block] = [0..<k * block] @ map (\<lambda>l. k * block + l) [0..<block]"
      by (rule nth_equalityI) (auto simp: nth_append)
    with Suc show ?case by (simp add: run_program_def)
  qed
  then show ?thesis by (simp add: launch_def)
qed

lemma cdiv_covers:
  assumes "0 < block"
  shows "n \<le> cdiv n block * block"
proof -
  let ?m = "n + block - 1"
  have "?m = ?m div block * block + ?m mod block" by simp
  moreover have "?m mod block < block" using assms by simp
  ultimately have "?m < ?m div block * block + block" by linarith
  with assms show ?thesis by (simp add: cdiv_def)
qed

text \<open>The point of the mask: a launch into a buffer of \<open>n\<close> cells computes \<open>f\<close> at every cell.\<close>

lemma launch_tabulate [tensor_simps]:
  assumes "0 < block" "length out = n"
  shows "launch block n f out = tabulate n f"
  using cdiv_covers [OF assms(1), of n] assms(2)
  by (intro tabulate_eqI) (auto simp: launch_flat nth_fold_masked_store)

end
