(* ===== verification/TokenStore.thy ===== *)
theory TokenStore
  imports Prelude
begin

text \<open>
  The interface between the paged buffers and their client, the request window: a copy of
  tokens between two stores, the value a reader sees at a location, and the locations a store
  has. The client's facts about chains of copies are proved here once, from the laws alone;
  \<open>KvLayout\<close> interprets the locale on the byte-level copy of the sources.
\<close>

locale token_store =
  fixes copy :: "'b \<Rightarrow> nat list \<Rightarrow> nat list \<Rightarrow> 'b \<Rightarrow> 'b option"
    and tok :: "'b \<Rightarrow> nat \<Rightarrow> 'v"
    and room :: "'b \<Rightarrow> nat \<Rightarrow> bool"
  assumes copy_succeeds:
      "length sl = length dl \<Longrightarrow> list_all (room src) sl \<Longrightarrow> list_all (room dst) dl \<Longrightarrow>
        \<exists>d. copy src sl dl dst = Some d"
    and copy_hit:
      "copy src sl dl dst = Some d \<Longrightarrow> length sl = length dl \<Longrightarrow> i < length dl \<Longrightarrow>
        \<forall>j. i < j \<and> j < length dl \<longrightarrow> dl ! j \<noteq> dl ! i \<Longrightarrow> tok d (dl ! i) = tok src (sl ! i)"
    and copy_miss:
      "copy src sl dl dst = Some d \<Longrightarrow> l \<notin> set dl \<Longrightarrow> tok d l = tok dst l"
    and copy_room:
      "copy src sl dl dst = Some d \<Longrightarrow> room d = room dst"

context token_store
begin

text \<open>A destination that no other position of the list names receives its own source token.\<close>

lemma copy_hit_unique:
  assumes "copy src sl dl dst = Some d" "length sl = length dl" "i < length dl"
    and "\<And>j. j < length dl \<Longrightarrow> dl ! j = dl ! i \<Longrightarrow> j = i"
  shows "tok d (dl ! i) = tok src (sl ! i)"
proof (rule copy_hit [OF assms(1-3)])
  show "\<forall>j. i < j \<and> j < length dl \<longrightarrow> dl ! j \<noteq> dl ! i"
    using assms(4) by (metis nat_neq_iff)
qed

lemma copy_hit_distinct:
  assumes "copy src sl dl dst = Some d" "length sl = length dl" "i < length dl" "distinct dl"
  shows "tok d (dl ! i) = tok src (sl ! i)"
  using assms by (intro copy_hit_unique) (auto simp: nth_eq_iff_index_eq)

text \<open>A gather into the first rows of a store.\<close>

lemma copy_prefix:
  assumes "copy src sl [0..<n] dst = Some d" "length sl = n" "i < n"
  shows "tok d i = tok src (sl ! i)"
  using copy_hit_distinct [OF assms(1), of i] assms(2,3) by simp

text \<open>
  Two copies through a middle store: what the second one reads where the first one wrote is
  what the first one read.
\<close>

lemma copy_chain:
  assumes "copy a sl ml m = Some m'" "length sl = length ml" "distinct ml"
    and "copy m' ml' dl c = Some c'" "length ml' = length dl" "j < length dl"
    and "\<And>k. k < length dl \<Longrightarrow> dl ! k = dl ! j \<Longrightarrow> k = j"
    and "i < length ml" "ml' ! j = ml ! i"
  shows "tok c' (dl ! j) = tok a (sl ! i)"
  using copy_hit_unique [OF assms(4,5,6,7)] copy_hit_distinct [OF assms(1,2,8,3)] assms(9)
  by simp

end

end
