(* ===== verification/KvLayout.thy ===== *)
theory KvLayout
  imports TokenStore
begin

text \<open>
  The paged key/value cache layouts (\<open>sglang-overlay/kv_layout.py\<close>): the sizes of a page, the
  accepted pairs of layouts, and the paged byte buffers of that layout with the token copy of
  \<open>dsv41_request_window.py\<close>. A page holds \<open>page_size\<close> data rows followed by \<open>page_size\<close> scale
  rows. A buffer is a two-dimensional byte tensor; reading or writing outside it is \<open>None\<close>.
\<close>

section \<open>The layouts\<close>

datatype kv_layout = V4 | V41 | V41_FP4

instantiation kv_layout :: linorder
begin

fun kv_rank :: "kv_layout \<Rightarrow> nat" where
  "kv_rank V4 = 0"
| "kv_rank V41 = 1"
| "kv_rank V41_FP4 = 2"

definition less_eq_kv_layout :: "kv_layout \<Rightarrow> kv_layout \<Rightarrow> bool" where
  "less_eq_kv_layout a b \<longleftrightarrow> kv_rank a \<le> kv_rank b"

definition less_kv_layout :: "kv_layout \<Rightarrow> kv_layout \<Rightarrow> bool" where
  "less_kv_layout a b \<longleftrightarrow> kv_rank a < kv_rank b"

instance
proof
  fix x y z :: kv_layout
  show "(x < y) = (x \<le> y \<and> \<not> y \<le> x)"
    by (auto simp: less_kv_layout_def less_eq_kv_layout_def)
  show "x \<le> x" by (simp add: less_eq_kv_layout_def)
  show "x \<le> y \<Longrightarrow> y \<le> z \<Longrightarrow> x \<le> z" by (simp add: less_eq_kv_layout_def)
  show "x \<le> y \<Longrightarrow> y \<le> x \<Longrightarrow> x = y"
    by (cases x; cases y) (simp_all add: less_eq_kv_layout_def)
  show "x \<le> y \<or> y \<le> x" by (auto simp: less_eq_kv_layout_def)
qed

end

fun data_bytes :: "kv_layout \<Rightarrow> int" where
  "data_bytes V4 = 576"
| "data_bytes V41 = 512"
| "data_bytes V41_FP4 = 256"

fun scale_bytes :: "kv_layout \<Rightarrow> int" where
  "scale_bytes V4 = 8"
| "scale_bytes V41 = 16"
| "scale_bytes V41_FP4 = 32"

fun tile_size :: "kv_layout \<Rightarrow> int" where
  "tile_size V4 = 64"
| "tile_size V41 = 32"
| "tile_size V41_FP4 = 16"

definition bytes_per_token :: "kv_layout \<Rightarrow> int" where
  "bytes_per_token l = data_bytes l + scale_bytes l"

fun page_align :: "kv_layout \<Rightarrow> int" where
  "page_align V4 = 576"
| "page_align V41 = 512"
| "page_align V41_FP4 = 256"

definition is_fp4 :: "kv_layout \<Rightarrow> bool" where
  "is_fp4 l \<longleftrightarrow> l = V41_FP4"

definition page_bytes :: "kv_layout \<Rightarrow> int \<Rightarrow> int" where
  "page_bytes l page_size =
     (let raw = page_size * bytes_per_token l in ceil_div raw (page_align l) * page_align l)"

definition scale_offset :: "kv_layout \<Rightarrow> int \<Rightarrow> int" where
  "scale_offset l page_size = page_size * data_bytes l"

fun cpp_name :: "kv_layout \<Rightarrow> string" where
  "cpp_name V4 = ''V4''"
| "cpp_name V41 = ''V41''"
| "cpp_name V41_FP4 = ''V41_FP4''"

text \<open>The enumeration's values, the strings \<open>parse\<close> accepts.\<close>

fun kv_value :: "kv_layout \<Rightarrow> string" where
  "kv_value V4 = ''v4''"
| "kv_value V41 = ''v41''"
| "kv_value V41_FP4 = ''v41_fp4''"

text \<open>\<open>str.lower\<close> on ASCII text: the 26 capital letters move by 32.\<close>

definition lower_char :: "char \<Rightarrow> char" where
  "lower_char c = (if of_char c \<in> {65..90::nat} then char_of (of_char c + 32 :: nat) else c)"

definition str_lower :: "string \<Rightarrow> string" where
  "str_lower = map lower_char"

definition parse_layout :: "string \<Rightarrow> py_error + kv_layout" where
  "parse_layout value =
     (let v = str_lower value in
      if v = ''v4'' then Inr V4
      else if v = ''v41'' then Inr V41
      else if v = ''v41_fp4'' then Inr V41_FP4
      else Inl (ValueError v))"

definition is_valid_kv_layout_pair :: "kv_layout \<Rightarrow> kv_layout \<Rightarrow> bool" where
  "is_valid_kv_layout_pair kv extra_kv \<longleftrightarrow>
     extra_kv = kv \<or> (kv = V41 \<and> extra_kv = V41_FP4)"

definition is_valid_fork_kv_layout_pair :: "kv_layout \<Rightarrow> kv_layout \<Rightarrow> bool" where
  "is_valid_fork_kv_layout_pair kv extra_kv \<longleftrightarrow>
     is_valid_kv_layout_pair kv extra_kv \<or> (kv = V4 \<and> extra_kv = V41_FP4)"

lemma layout_sizes_pos [simp]:
  "0 < data_bytes l" "0 < scale_bytes l" "0 < tile_size l" "0 < page_align l"
  "0 < bytes_per_token l"
  by (cases l; simp add: bytes_per_token_def)+

lemma page_bytes_align: "page_bytes l n = ceil_align (n * bytes_per_token l) (page_align l)"
  by (simp add: page_bytes_def ceil_align_def Let_def)

lemma str_lower_values [simp]:
  "str_lower ''v4'' = ''v4''" "str_lower ''v41'' = ''v41''" "str_lower ''v41_fp4'' = ''v41_fp4''"
  by (simp_all add: str_lower_def lower_char_def)

section \<open>Paged byte buffers\<close>

type_synonym byte = "8 word"

record paged_buf =
  num_pages :: nat
  page_stride :: nat
  mem :: "nat \<Rightarrow> nat \<Rightarrow> byte"

text \<open>
  The row of a token inside a paged buffer: page \<open>loc div page_size\<close>, columns
  \<open>base + (loc mod page_size) * width + arange(width)\<close>.
\<close>

definition row_cols :: "nat \<Rightarrow> nat \<Rightarrow> nat \<Rightarrow> nat \<Rightarrow> nat list" where
  "row_cols page_size base width loc =
     map (\<lambda>c. base + (loc mod page_size) * width + c) [0..<width]"

definition gather_row :: "nat \<Rightarrow> nat \<Rightarrow> nat \<Rightarrow> paged_buf \<Rightarrow> nat \<Rightarrow> byte list" where
  "gather_row page_size base width b loc =
     map (mem b (loc div page_size)) (row_cols page_size base width loc)"

definition put_row :: "nat \<Rightarrow> nat \<Rightarrow> nat \<Rightarrow> nat \<Rightarrow> byte list \<Rightarrow> paged_buf \<Rightarrow> paged_buf" where
  "put_row page_size base width loc vs b =
     (let p = loc div page_size; lo = base + (loc mod page_size) * width in
      b\<lparr>mem := (mem b)(p := (\<lambda>c. if lo \<le> c \<and> c < lo + width then vs ! (c - lo) else mem b p c))\<rparr>)"

text \<open>
  A row can be read or written when the page size is positive (a zero one raises in the integer
  division) and the row lies inside the tensor (an index outside it raises).
\<close>

definition row_in :: "nat \<Rightarrow> nat \<Rightarrow> nat \<Rightarrow> paged_buf \<Rightarrow> nat \<Rightarrow> bool" where
  "row_in page_size base width b loc \<longleftrightarrow>
     0 < page_size \<and> loc div page_size < num_pages b \<and>
     base + (loc mod page_size) * width + width \<le> page_stride b"

text \<open>
  One pass of the loop of \<open>copy_packed_tokens\<close>: gather every source row, then write them in
  order (for a repeated destination the last write stands).
\<close>

definition copy_rows :: "nat \<Rightarrow> nat \<Rightarrow> nat \<Rightarrow> paged_buf \<Rightarrow> nat list \<Rightarrow> nat list
    \<Rightarrow> paged_buf \<Rightarrow> paged_buf option" where
  "copy_rows page_size base width src src_loc dst_loc dst =
     (if length src_loc = length dst_loc
         \<and> list_all (row_in page_size base width src) src_loc
         \<and> list_all (row_in page_size base width dst) dst_loc
      then Some (fold (\<lambda>(d, vs). put_row page_size base width d vs)
                   (zip dst_loc (map (gather_row page_size base width src) src_loc)) dst)
      else None)"

definition copy_packed_tokens :: "nat \<Rightarrow> kv_layout \<Rightarrow> paged_buf \<Rightarrow> nat list \<Rightarrow> nat list
    \<Rightarrow> paged_buf \<Rightarrow> paged_buf option" where
  "copy_packed_tokens page_size layout src src_loc dst_loc dst =
     (if src_loc = [] then Some dst
      else case copy_rows page_size 0 (nat (data_bytes layout)) src src_loc dst_loc dst of
        None \<Rightarrow> None
      | Some dst1 \<Rightarrow>
          copy_rows page_size (page_size * nat (data_bytes layout)) (nat (scale_bytes layout))
            src src_loc dst_loc dst1)"

text \<open>What a reader of the pool sees of a token: its data row and its scale row.\<close>

definition token_at :: "nat \<Rightarrow> kv_layout \<Rightarrow> paged_buf \<Rightarrow> nat \<Rightarrow> byte list \<times> byte list" where
  "token_at page_size layout b loc =
     (gather_row page_size 0 (nat (data_bytes layout)) b loc,
      gather_row page_size (page_size * nat (data_bytes layout)) (nat (scale_bytes layout)) b loc)"

definition token_in :: "nat \<Rightarrow> kv_layout \<Rightarrow> paged_buf \<Rightarrow> nat \<Rightarrow> bool" where
  "token_in page_size layout b loc \<longleftrightarrow>
     row_in page_size 0 (nat (data_bytes layout)) b loc \<and>
     row_in page_size (page_size * nat (data_bytes layout)) (nat (scale_bytes layout)) b loc"

section \<open>Rows do not overlap\<close>

lemma put_row_shape [simp]:
  "num_pages (put_row ps base w l vs b) = num_pages b"
  "page_stride (put_row ps base w l vs b) = page_stride b"
  by (simp_all add: put_row_def Let_def)

lemma row_in_put [simp]: "row_in ps base w (put_row ps' base' w' l vs b) = row_in ps base w b"
  by (simp add: row_in_def fun_eq_iff)

lemma length_gather_row [simp]: "length (gather_row ps base w b l) = w"
  by (simp add: gather_row_def row_cols_def)

lemma gather_row_nth:
  "i < w \<Longrightarrow> gather_row ps base w b l ! i = mem b (l div ps) (base + (l mod ps) * w + i)"
  by (simp add: gather_row_def row_cols_def)

lemma mem_put_row:
  "mem (put_row ps base w l vs b) p c =
     (if p = l div ps \<and> base + (l mod ps) * w \<le> c \<and> c < base + (l mod ps) * w + w
      then vs ! (c - (base + (l mod ps) * w)) else mem b p c)"
  by (simp add: put_row_def Let_def)

lemma gather_put_same: "length vs = w \<Longrightarrow> gather_row ps base w (put_row ps base w l vs b) l = vs"
  by (rule nth_equalityI) (simp_all add: gather_row_nth mem_put_row)

lemma row_disjoint:
  assumes "(r::nat) \<noteq> r'" "c < w"
  shows "\<not> (base + r' * w \<le> base + r * w + c \<and> base + r * w + c < base + r' * w + w)"
proof (cases "r < r'")
  case True
  then have "Suc r * w \<le> r' * w" by (intro mult_le_mono1) simp
  with assms(2) show ?thesis by simp
next
  case False
  with assms(1) have "Suc r' * w \<le> r * w" by (intro mult_le_mono1) simp
  then show ?thesis by simp
qed

lemma gather_put_other:
  assumes "l \<noteq> l'"
  shows "gather_row ps base w (put_row ps base w l' vs b) l = gather_row ps base w b l"
proof (rule nth_equalityI)
  fix i assume "i < length (gather_row ps base w (put_row ps base w l' vs b) l)"
  then have i: "i < w" by simp
  have "l div ps \<noteq> l' div ps \<or> l mod ps \<noteq> l' mod ps"
    using assms by (metis div_mult_mod_eq)
  then show "gather_row ps base w (put_row ps base w l' vs b) l ! i = gather_row ps base w b l ! i"
    using i row_disjoint [of "l mod ps" "l' mod ps" i w base]
    by (auto simp: gather_row_nth mem_put_row)
qed simp

lemma row_end_le:
  assumes "0 < (ps::nat)"
  shows "l mod ps * w + w \<le> ps * w"
proof -
  have "Suc (l mod ps) * w \<le> ps * w"
    using assms by (intro mult_le_mono1) (simp add: Suc_le_eq)
  then show ?thesis by simp
qed

lemma data_row_below:
  assumes "0 < (ps::nat)" "i < w"
  shows "(l mod ps) * w + i < ps * w"
  using row_end_le [OF assms(1), of l w] assms(2) by linarith

lemma gather_scale_put_data:
  assumes "0 < ps"
  shows "gather_row ps (ps * w) v (put_row ps 0 w l' vs b) l = gather_row ps (ps * w) v b l"
proof (rule nth_equalityI)
  fix i assume "i < length (gather_row ps (ps * w) v (put_row ps 0 w l' vs b) l)"
  then have i: "i < v" by simp
  from row_end_le [OF assms, of l' w] have "\<not> (ps * w + l mod ps * v + i < l' mod ps * w + w)" by linarith
  with i show "gather_row ps (ps * w) v (put_row ps 0 w l' vs b) l ! i = gather_row ps (ps * w) v b l ! i"
    by (simp add: gather_row_nth mem_put_row)
qed simp

lemma gather_data_put_scale:
  assumes "0 < ps"
  shows "gather_row ps 0 w (put_row ps (ps * w) v l' vs b) l = gather_row ps 0 w b l"
proof (rule nth_equalityI)
  fix i assume "i < length (gather_row ps 0 w (put_row ps (ps * w) v l' vs b) l)"
  then have "i < w" by simp
  with data_row_below [OF assms this, of l]
  show "gather_row ps 0 w (put_row ps (ps * w) v l' vs b) l ! i = gather_row ps 0 w b l ! i"
    by (simp add: gather_row_nth mem_put_row)
qed simp

section \<open>The copy, token by token\<close>

abbreviation put_all where
  "put_all ps base w xs b \<equiv> fold (\<lambda>(d, vs). put_row ps base w d vs) xs b"

lemma put_all_shape [simp]:
  "num_pages (put_all ps base w xs b) = num_pages b"
  "page_stride (put_all ps base w xs b) = page_stride b"
  by (induction xs arbitrary: b) auto

lemma row_in_put_all [simp]: "row_in ps base w (put_all ps' base' w' xs b) = row_in ps base w b"
  by (simp add: row_in_def fun_eq_iff)

lemma put_all_other:
  "l \<notin> fst ` set xs \<Longrightarrow> gather_row ps base w (put_all ps base w xs b) l = gather_row ps base w b l"
  by (induction xs arbitrary: b) (auto simp: gather_put_other)

lemma put_all_hit:
  assumes "i < length xs" "xs ! i = (l, vs)" "length vs = w"
    and "\<forall>j. i < j \<and> j < length xs \<longrightarrow> fst (xs ! j) \<noteq> l"
  shows "gather_row ps base w (put_all ps base w xs b) l = vs"
proof -
  have split: "xs = take i xs @ (l, vs) # drop (Suc i) xs"
    using assms(1,2) id_take_nth_drop by metis
  have later: "l \<notin> fst ` set (drop (Suc i) xs)"
  proof
    assume "l \<in> fst ` set (drop (Suc i) xs)"
    then obtain k where k: "k < length xs - Suc i" "fst (xs ! (Suc i + k)) = l"
      by (fastforce simp: in_set_conv_nth)
    have "i < Suc i + k" "Suc i + k < length xs" using k(1) by simp_all
    with assms(4) k(2) show False by blast
  qed
  show ?thesis
    by (subst split) (simp add: put_all_other [OF later] gather_put_same assms(3))
qed

lemma put_all_scale_of_data:
  "0 < ps \<Longrightarrow> gather_row ps (ps * w) v (put_all ps 0 w xs b) l = gather_row ps (ps * w) v b l"
  by (induction xs arbitrary: b) (auto simp: gather_scale_put_data)

lemma put_all_data_of_scale:
  "0 < ps \<Longrightarrow> gather_row ps 0 w (put_all ps (ps * w) v xs b) l = gather_row ps 0 w b l"
  by (induction xs arbitrary: b) (auto simp: gather_data_put_scale)

lemma copy_packed_cases:
  assumes "copy_packed_tokens ps layout src sl dl dst = Some d" "sl \<noteq> []"
  obtains "0 < ps" "length sl = length dl"
    "d = put_all ps (ps * nat (data_bytes layout)) (nat (scale_bytes layout))
           (zip dl (map (gather_row ps (ps * nat (data_bytes layout)) (nat (scale_bytes layout)) src) sl))
           (put_all ps 0 (nat (data_bytes layout))
             (zip dl (map (gather_row ps 0 (nat (data_bytes layout)) src) sl)) dst)"
  using assms
  by (cases sl) (auto simp: copy_packed_tokens_def copy_rows_def row_in_def split: if_splits)

lemma copy_packed_hit:
  assumes "copy_packed_tokens ps layout src sl dl dst = Some d" "length sl = length dl"
    and "i < length dl" "\<forall>j. i < j \<and> j < length dl \<longrightarrow> dl ! j \<noteq> dl ! i"
  shows "token_at ps layout d (dl ! i) = token_at ps layout src (sl ! i)"
proof -
  have "sl \<noteq> []" using assms(2,3) by auto
  with assms(1) show ?thesis
  proof (rule copy_packed_cases)
    assume ps: "0 < ps" and d: "d = put_all ps (ps * nat (data_bytes layout)) (nat (scale_bytes layout))
           (zip dl (map (gather_row ps (ps * nat (data_bytes layout)) (nat (scale_bytes layout)) src) sl))
           (put_all ps 0 (nat (data_bytes layout))
             (zip dl (map (gather_row ps 0 (nat (data_bytes layout)) src) sl)) dst)"
    show ?thesis
      unfolding token_at_def d
      using assms(2-4)
      by (simp add: put_all_data_of_scale [OF ps])
        (auto intro!: put_all_hit)
  qed
qed

lemma copy_packed_miss:
  assumes "copy_packed_tokens ps layout src sl dl dst = Some d" "l \<notin> set dl"
  shows "token_at ps layout d l = token_at ps layout dst l"
proof (cases "sl = []")
  case True
  with assms(1) show ?thesis by (simp add: copy_packed_tokens_def)
next
  case False
  have notin: "l \<notin> fst ` set (zip dl xs)" for xs :: "byte list list"
    using assms(2) by (auto dest: set_zip_leftD)
  from assms(1) False show ?thesis
    by (rule copy_packed_cases)
      (simp add: token_at_def put_all_data_of_scale put_all_scale_of_data put_all_other [OF notin])
qed

lemma copy_packed_room:
  assumes "copy_packed_tokens ps layout src sl dl dst = Some d"
  shows "token_in ps layout d = token_in ps layout dst"
proof (cases "sl = []")
  case True
  with assms show ?thesis by (simp add: copy_packed_tokens_def)
next
  case False
  from assms False show ?thesis
    by (rule copy_packed_cases) (simp add: token_in_def fun_eq_iff)
qed

lemma copy_packed_succeeds:
  assumes "length sl = length dl" "list_all (token_in ps layout src) sl"
    and "list_all (token_in ps layout dst) dl"
  shows "\<exists>d. copy_packed_tokens ps layout src sl dl dst = Some d"
  using assms
  by (auto simp: copy_packed_tokens_def copy_rows_def token_in_def list_all_iff)

interpretation kv: token_store "copy_packed_tokens ps layout" "token_at ps layout" "token_in ps layout"
  for ps layout
  by unfold_locales
    (fact copy_packed_succeeds copy_packed_hit copy_packed_miss copy_packed_room)+

section \<open>Properties of the layouts\<close>

text \<open>A page of \<open>n\<close> tokens holds its data rows below the scale rows and its scale rows inside
  the page; the page stride is the least multiple of the reader's TMA row stride that does.\<close>

theorem page_layout_fits:
  assumes "0 \<le> n"
  shows "n * data_bytes l = scale_offset l n \<and>
    scale_offset l n + n * scale_bytes l \<le> page_bytes l n \<and>
    page_align l dvd page_bytes l n \<and>
    (page_align l dvd y \<and> n * bytes_per_token l \<le> y \<longrightarrow> page_bytes l n \<le> y)"
proof -
  have "n * bytes_per_token l \<le> page_bytes l n"
    by (simp add: page_bytes_align ceil_align_ge)
  then have "scale_offset l n + n * scale_bytes l \<le> page_bytes l n"
    by (simp add: scale_offset_def bytes_per_token_def algebra_simps)
  then show ?thesis
    by (simp add: scale_offset_def page_bytes_align ceil_align_least)
qed

theorem page_layout_fits_witness:
  "scale_offset V4 64 + 64 * scale_bytes V4 \<le> page_bytes V4 64 \<and> page_bytes V4 64 \<le> 37440"
  using page_layout_fits [of 64 V4 37440] by (simp add: bytes_per_token_def)

text \<open>Parsing accepts exactly the enumeration's values, in any case of letters, and every
  value parses back to its layout.\<close>

theorem parse_layout_iff:
  "(parse_layout v = Inr l) = (str_lower v = kv_value l) \<and> parse_layout (kv_value l) = Inr l"
  by (cases l) (auto simp: parse_layout_def Let_def)

end
