(* ===== verification/WindowLayout.thy ===== *)
theory WindowLayout
  imports Prelude
begin

text \<open>
  The request-window layout (\<open>window_layout\<close> and \<open>_first_row_offsets\<close> of
  \<open>sglang-overlay/dsv41_request_window.py\<close>): where each query row of a packed batch finds the
  last \<open>window\<close> tokens of its request, in the history rows of the workspace or among the
  batch's own rows. Tensors are lists; the running reductions \<open>cumsum\<close>, \<open>cummax\<close> and \<open>cummin\<close>
  are \<open>accum\<close> with the operation; \<open>scatter_\<close> writes in index order.
\<close>

section \<open>Running reductions and scatter\<close>

fun accum :: "('a \<Rightarrow> 'a \<Rightarrow> 'a) \<Rightarrow> 'a list \<Rightarrow> 'a list" where
  "accum f [] = []"
| "accum f [x] = [x]"
| "accum f (x # y # ys) = x # accum f (f x y # ys)"

definition scatter :: "nat \<Rightarrow> 'a \<Rightarrow> nat list \<Rightarrow> 'a list \<Rightarrow> 'a list" where
  "scatter m d ix vs = fold (\<lambda>(i, v) xs. xs[i := v]) (zip ix vs) (replicate m d)"

definition to_int32 :: "int \<Rightarrow> int" where
  "to_int32 x = signed_take_bit 31 x"

section \<open>Runs of equal request ids\<close>

definition starts_of :: "int list \<Rightarrow> bool list" where
  "starts_of req = tabulate (length req) (\<lambda>i. i = 0 \<or> req ! i \<noteq> req ! (i - 1))"

definition ends_of :: "int list \<Rightarrow> bool list" where
  "ends_of req = tabulate (length req)
     (\<lambda>i. if Suc i < length req then starts_of req ! Suc i else True)"

text \<open>\<open>_first_row_offsets\<close>: the run number of each row and the first and last row of its run.\<close>

definition first_row_offsets :: "int list \<Rightarrow> nat list \<times> nat list \<times> nat list" where
  "first_row_offsets req =
     (let n = length req;
          starts = starts_of req;
          group = map (\<lambda>c. c - 1) (accum (+) (map (\<lambda>b. if b then 1 else 0) starts));
          group_first = accum max (tabulate n (\<lambda>i. if starts ! i then i else 0));
          ends = ends_of req;
          group_last = rev (accum min (rev (tabulate n (\<lambda>i. if ends ! i then i else n - 1))))
      in (group, group_first, group_last))"

section \<open>The layout\<close>

record window_layout =
  wl_req :: "int list"
  wl_pos :: "int list"
  write_loc :: "int list"
  indices :: "int list list"
  lengths :: "int list"
  history_req :: "int list"
  history_pos :: "int list"
  history_loc :: "int list"
  history_valid :: "bool list"
  commit_mask :: "bool list"
  wl_size :: nat

definition floor_ok :: "int list option \<Rightarrow> nat \<Rightarrow> int \<Rightarrow> bool" where
  "floor_ok flr i p = (case flr of None \<Rightarrow> True | Some fl \<Rightarrow> fl ! i \<le> p)"

text \<open>
  The layout of a batch of \<open>n\<close> query rows with request ids \<open>req\<close> and positions \<open>pos\<close>. Row
  tensors have the batch's length; a run number outside the \<open>groups\<close> rows of the scattered
  tensors raises.
\<close>

definition make_window_layout ::
    "int list \<Rightarrow> int list \<Rightarrow> nat \<Rightarrow> nat \<Rightarrow> int list option \<Rightarrow> nat option \<Rightarrow> py_error + window_layout" where
  "make_window_layout req pos window capacity flr num_groups =
    (let n = length pos in
     if n = 0 then Inl (ValueError ''request-window layout needs at least one query'')
     else
       let groups = (case num_groups of None \<Rightarrow> n | Some g \<Rightarrow> g);
           (group, group_first, group_last) = first_row_offsets req;
           first_pos = tabulate n (\<lambda>i. pos ! i - (int i - int (group_first ! i)));
           history_rows = groups * window;
           w_loc = tabulate n (\<lambda>i. to_int32 (int history_rows + int i));
           valid = (\<lambda>i j. let seen = pos ! i - int j in 0 \<le> seen \<and> floor_ok flr i seen);
           loc = (\<lambda>i j. let seen = pos ! i - int j;
                            old_loc = int (group ! i) * int window
                                        + (seen - (first_pos ! i - int window));
                            new_loc = int history_rows + int (group_first ! i) + seen - first_pos ! i
                        in if seen < first_pos ! i then old_loc else new_loc);
           ixs = tabulate n (\<lambda>i. tabulate window
                   (\<lambda>j. to_int32 (if valid i j then loc i j else -1)));
           lens = tabulate n (\<lambda>i. to_int32 (int (length (filter (valid i) [0..<window]))))
       in if list_ex (\<lambda>g. groups \<le> g) group then Inl IndexError
          else
            let g_req = scatter groups 0 group req;
                g_first = scatter groups 0 group first_pos;
                g_live = scatter groups False group (replicate n True);
                g_floor = (case flr of None \<Rightarrow> [] | Some fl \<Rightarrow> scatter groups 0 group fl);
                h_pos = tabulate history_rows
                          (\<lambda>h. g_first ! (h div window) - int window + int (h mod window));
                h_valid = tabulate history_rows
                          (\<lambda>h. 0 \<le> h_pos ! h \<and> g_live ! (h div window)
                               \<and> (case flr of None \<Rightarrow> True
                                  | Some _ \<Rightarrow> g_floor ! (h div window) \<le> h_pos ! h));
                h_req = tabulate history_rows (\<lambda>h. g_req ! (h div window));
                h_loc = tabulate history_rows int;
                c_mask = tabulate n (\<lambda>i. group_last ! i - i < capacity)
            in Inr \<lparr> wl_req = req, wl_pos = pos, write_loc = w_loc, indices = ixs,
                     lengths = lens, history_req = h_req, history_pos = h_pos,
                     history_loc = h_loc, history_valid = h_valid, commit_mask = c_mask,
                     wl_size = history_rows + n \<rparr>)"

section \<open>Reductions, element by element\<close>

lemma length_accum [simp]: "length (accum f xs) = length xs"
  by (induction f xs rule: accum.induct) auto

lemma accum_eq_Nil [simp]: "accum f xs = [] \<longleftrightarrow> xs = []"
  by (metis length_0_conv length_accum)

lemma accum_snoc: "xs \<noteq> [] \<Longrightarrow> accum f (xs @ [y]) = accum f xs @ [f (last (accum f xs)) y]"
  by (induction f xs rule: accum.induct) (auto simp: neq_Nil_conv)

lemma accum_take: "accum f (take k xs) = take k (accum f xs)"
proof (induction f xs arbitrary: k rule: accum.induct)
  case (3 f x y ys)
  show ?case
  proof (cases k)
    case (Suc k')
    then show ?thesis using 3 [of k'] by (cases k') auto
  qed simp
qed (auto simp: take_Cons split: nat.splits)

lemma accum_0: "xs \<noteq> [] \<Longrightarrow> accum f xs ! 0 = xs ! 0"
  by (cases "(f, xs)" rule: accum.cases) auto

lemma accum_Suc:
  assumes "Suc i < length xs"
  shows "accum f xs ! Suc i = f (accum f xs ! i) (xs ! Suc i)"
proof -
  have ne: "take (Suc i) xs \<noteq> []" using assms by auto
  have "take (Suc (Suc i)) (accum f xs) = accum f (take (Suc i) xs @ [xs ! Suc i])"
    using assms by (simp add: accum_take [symmetric] take_Suc_conv_app_nth)
  also have "\<dots> = take (Suc i) (accum f xs) @ [f (last (take (Suc i) (accum f xs))) (xs ! Suc i)]"
    using ne by (simp add: accum_snoc accum_take)
  finally have "take (Suc (Suc i)) (accum f xs) ! Suc i
      = (take (Suc i) (accum f xs) @ [f (last (take (Suc i) (accum f xs))) (xs ! Suc i)]) ! Suc i"
    by simp
  moreover have "last (take (Suc i) (accum f xs)) = accum f xs ! i"
    using assms by (simp add: take_Suc_conv_app_nth)
  ultimately show ?thesis
    using assms by (simp add: nth_append min_def)
qed

abbreviation write_all :: "(nat \<times> 'a) list \<Rightarrow> 'a list \<Rightarrow> 'a list" where
  "write_all ps xs \<equiv> fold (\<lambda>(i, v) xs. xs[i := v]) ps xs"

lemma length_write_all [simp]: "length (write_all ps xs) = length xs"
  by (induction ps arbitrary: xs) auto

lemma length_scatter [simp]: "length (scatter m d ix vs) = m"
  by (simp add: scatter_def)

lemma write_all_nth:
  assumes "c < length xs" "\<forall>p \<in> set ps. fst p = c \<longrightarrow> snd p = v"
  shows "write_all ps xs ! c = (if c \<in> fst ` set ps then v else xs ! c)"
  using assms(2)
proof (induction ps rule: rev_induct)
  case (snoc p ps)
  obtain a b where p: "p = (a, b)" by (cases p)
  from snoc have ih: "write_all ps xs ! c = (if c \<in> fst ` set ps then v else xs ! c)" by simp
  show ?case
  proof (cases "a = c")
    case True
    with snoc.prems p have "b = v" by simp
    with True p assms(1) show ?thesis by simp
  next
    case False
    with p ih show ?thesis by simp
  qed
qed simp

lemma write_all_hit:
  assumes "c < length xs" "c \<in> fst ` set ps" "\<forall>p \<in> set ps. fst p = c \<longrightarrow> snd p = v"
  shows "write_all ps xs ! c = v"
  using write_all_nth [OF assms(1,3)] assms(2) by (rule trans [OF _ if_P])

lemma write_all_miss:
  assumes "c \<notin> fst ` set ps"
  shows "write_all ps xs ! c = xs ! c"
  using assms by (induction ps arbitrary: xs) auto

text \<open>A scattered cell holds the common value of the positions that write it.\<close>

lemma scatter_nth:
  assumes "i < length ix" "length vs = length ix" "ix ! i < m"
    and "\<And>k. k < length ix \<Longrightarrow> ix ! k = ix ! i \<Longrightarrow> vs ! k = vs ! i"
  shows "scatter m d ix vs ! (ix ! i) = vs ! i"
proof -
  have "(ix ! i, vs ! i) \<in> set (zip ix vs)"
    using assms(1,2) by (auto simp: set_zip)
  then have "ix ! i \<in> fst ` set (zip ix vs)" by (force simp: image_iff)
  moreover have "\<forall>p \<in> set (zip ix vs). fst p = ix ! i \<longrightarrow> snd p = vs ! i"
    using assms(2,4) by (auto simp: set_zip)
  ultimately show ?thesis
    using assms(3) write_all_nth [of "ix ! i" "replicate m d" "zip ix vs" "vs ! i"]
    by (simp add: scatter_def)
qed

lemma to_int32_id [simp]: "- (2 ^ 31) \<le> x \<Longrightarrow> x < 2 ^ 31 \<Longrightarrow> to_int32 x = x"
  by (simp add: to_int32_def signed_take_bit_int_eq_self)

section \<open>The runs, by recursion on the row\<close>

text \<open>The first row, the number and the last row of the run a row belongs to.\<close>

fun run_first :: "int list \<Rightarrow> nat \<Rightarrow> nat" where
  "run_first req 0 = 0"
| "run_first req (Suc i) = (if req ! Suc i \<noteq> req ! i then Suc i else run_first req i)"

fun run_no :: "int list \<Rightarrow> nat \<Rightarrow> nat" where
  "run_no req 0 = 0"
| "run_no req (Suc i) = (if req ! Suc i \<noteq> req ! i then Suc (run_no req i) else run_no req i)"

function run_last :: "int list \<Rightarrow> nat \<Rightarrow> nat" where
  "run_last req i =
     (if Suc i < length req \<and> req ! Suc i = req ! i then run_last req (Suc i) else i)"
  by pat_completeness auto
termination
  by (relation "measure (\<lambda>(req, i). length req - i)") auto

declare run_last.simps [simp del]

lemma run_first_le [simp]: "run_first req i \<le> i"
  by (induction i) (auto intro: le_SucI)

lemma starts_of_nth:
  "i < length req \<Longrightarrow> starts_of req ! i = (i = 0 \<or> req ! i \<noteq> req ! (i - 1))"
  by (simp add: starts_of_def)

lemma tabulate_Nil_iff [simp]: "tabulate n f = [] \<longleftrightarrow> n = 0"
  by (simp add: tabulate_def)

lemma group_first_eq:
  assumes "i < length req"
  shows "fst (snd (first_row_offsets req)) ! i = run_first req i"
  using assms
proof (induction i)
  case 0
  then have "req \<noteq> []" by auto
  with 0 show ?case by (simp add: first_row_offsets_def Let_def accum_0 starts_of_nth)
next
  case (Suc i)
  then show ?case
    using le_SucI [OF run_first_le [of req i]]
    by (auto simp: first_row_offsets_def Let_def accum_Suc starts_of_nth max_def)
qed

lemma length_starts_of [simp]: "length (starts_of req) = length req"
  by (simp add: starts_of_def)

lemma count_starts:
  assumes "i < length req"
  shows "accum (+) (map (\<lambda>b. if b then 1 else 0) (starts_of req)) ! i = Suc (run_no req i)"
  using assms
proof (induction i)
  case 0
  then have "starts_of req \<noteq> []" by (metis length_greater_0_conv length_starts_of)
  with 0 show ?case by (simp add: accum_0 starts_of_nth)
next
  case (Suc i)
  then show ?case by (simp add: accum_Suc starts_of_nth)
qed

lemma group_eq:
  "i < length req \<Longrightarrow> fst (first_row_offsets req) ! i = run_no req i"
  by (simp add: first_row_offsets_def Let_def count_starts)

lemma run_last_bounds: "i < length req \<Longrightarrow> i \<le> run_last req i \<and> run_last req i < length req"
proof (induction req i rule: run_last.induct)
  case (1 req i)
  show ?case
  proof (cases "Suc i < length req \<and> req ! Suc i = req ! i")
    case True
    with 1 have "Suc i \<le> run_last req (Suc i) \<and> run_last req (Suc i) < length req" by simp
    with True show ?thesis by (simp add: run_last.simps [of req i])
  next
    case False
    then have "run_last req i = i" by (subst run_last.simps) auto
    with 1(2) show ?thesis by simp
  qed
qed

lemma ends_of_nth:
  "i < length req \<Longrightarrow> ends_of req ! i = (Suc i < length req \<longrightarrow> req ! Suc i \<noteq> req ! i)"
  by (simp add: ends_of_def starts_of_nth)

lemma backward_min:
  assumes "k < length req"
  shows "accum min (rev (tabulate (length req) (\<lambda>i. if ends_of req ! i then i else length req - 1))) ! k
     = run_last req (length req - 1 - k)"
  using assms
proof (induction k)
  case 0
  then have "tabulate (length req) (\<lambda>i. if ends_of req ! i then i else length req - 1) \<noteq> []"
    by (metis length_0_conv length_tabulate less_numeral_extra(3))
  with 0 show ?case by (simp add: accum_0 rev_nth ends_of_nth run_last.simps)
next
  case (Suc k)
  let ?i = "length req - 1 - Suc k"
  have i: "?i < length req" "Suc ?i = length req - 1 - k" "Suc ?i < length req"
    using Suc.prems by auto
  have ih: "accum min (rev (tabulate (length req) (\<lambda>i. if ends_of req ! i then i else length req - 1))) ! k
      = run_last req (Suc ?i)"
    using Suc i(2) by simp
  have "run_last req (Suc ?i) \<le> length req - 1" "Suc ?i \<le> run_last req (Suc ?i)"
    using run_last_bounds [OF i(3)] by auto
  then show ?case
    using Suc.prems i
    by (subst run_last.simps) (auto simp: accum_Suc ih rev_nth ends_of_nth min_def)
qed

lemma group_last_eq:
  "i < length req \<Longrightarrow> snd (snd (first_row_offsets req)) ! i = run_last req i"
  by (simp add: first_row_offsets_def Let_def rev_nth backward_min)

lemma length_first_row_offsets [simp]:
  "length (fst (first_row_offsets req)) = length req"
  "length (fst (snd (first_row_offsets req))) = length req"
  "length (snd (snd (first_row_offsets req))) = length req"
  by (simp_all add: first_row_offsets_def Let_def)

section \<open>Rows of one run\<close>

lemma run_no_mono: "i \<le> k \<Longrightarrow> run_no req i \<le> run_no req k"
  by (induction k) (auto simp: le_Suc_eq)

lemma run_no_le: "run_no req i \<le> i"
  by (induction i) auto

lemma same_run_step:
  assumes "i \<le> k" "run_no req i = run_no req (Suc k)"
  shows "run_no req i = run_no req k \<and> req ! Suc k = req ! k"
  using assms run_no_mono [OF assms(1), of req] by (auto split: if_splits)

lemma same_run:
  assumes "i \<le> k" "run_no req i = run_no req k"
  shows "req ! k = req ! i \<and> run_first req k = run_first req i"
  using assms
proof (induction k)
  case (Suc k)
  show ?case
  proof (cases "i = Suc k")
    case False
    with Suc.prems(1) have "i \<le> k" by simp
    from same_run_step [OF this Suc.prems(2)] Suc.IH [OF this] show ?thesis by simp
  qed simp
qed simp

lemma run_no_first [simp]: "run_no req (run_first req i) = run_no req i"
  by (induction i) auto

lemma between_run:
  assumes "run_first req i \<le> k" "k \<le> i"
  shows "run_no req k = run_no req i"
  using run_no_mono [OF assms(1), of req] run_no_mono [OF assms(2), of req] by simp

lemma same_run_last:
  assumes "i \<le> k" "k < length req" "run_no req i = run_no req k"
  shows "run_last req i = run_last req k"
  using assms
proof (induction k)
  case (Suc k)
  show ?case
  proof (cases "i = Suc k")
    case False
    with Suc.prems(1) have "i \<le> k" by simp
    from same_run_step [OF this Suc.prems(3)] Suc.IH [OF this] Suc.prems(2)
    show ?thesis by (simp add: run_last.simps [of req k])
  qed simp
qed simp

text \<open>The batches the callers pack: within a run the positions count up by one.\<close>

definition consecutive :: "int list \<Rightarrow> int list \<Rightarrow> bool" where
  "consecutive req pos \<longleftrightarrow> length req = length pos \<and>
     (\<forall>k < length pos - 1. req ! Suc k = req ! k \<longrightarrow> pos ! Suc k = pos ! k + 1)"

lemma consecutive_pos:
  assumes "consecutive req pos" "i \<le> k" "k < length pos" "run_no req i = run_no req k"
  shows "pos ! k = pos ! i + (int k - int i)"
  using assms(2-4)
proof (induction k)
  case (Suc k)
  show ?case
  proof (cases "i = Suc k")
    case False
    with Suc.prems(1) have ik: "i \<le> k" by simp
    from same_run_step [OF ik Suc.prems(3)] have r: "run_no req i = run_no req k" "req ! Suc k = req ! k"
      by auto
    have "pos ! Suc k = pos ! k + 1"
      using assms(1) Suc.prems(2) r(2) by (simp add: consecutive_def)
    with Suc.IH [OF ik _ r(1)] Suc.prems(2) show ?thesis by simp
  qed simp
qed simp

section \<open>The fields of a layout\<close>

definition first_pos_of :: "int list \<Rightarrow> int list \<Rightarrow> nat \<Rightarrow> int" where
  "first_pos_of req pos i = pos ! i - (int i - int (run_first req i))"

definition uniform_floor :: "int list \<Rightarrow> int list option \<Rightarrow> bool" where
  "uniform_floor req flr = (case flr of None \<Rightarrow> True
     | Some fl \<Rightarrow> length fl = length req \<and>
         (\<forall>k < length req - 1. req ! Suc k = req ! k \<longrightarrow> fl ! Suc k = fl ! k))"

lemma first_pos_same:
  assumes "consecutive req pos" "i < length pos" "k < length pos" "run_no req i = run_no req k"
  shows "first_pos_of req pos i = first_pos_of req pos k"
proof (cases "i \<le> k")
  case True
  from consecutive_pos [OF assms(1) True assms(3,4)] same_run [OF True assms(4)]
  show ?thesis by (simp add: first_pos_of_def)
next
  case False
  then have "k \<le> i" by simp
  from consecutive_pos [OF assms(1) this assms(2) assms(4) [symmetric]]
    same_run [OF this assms(4) [symmetric]]
  show ?thesis by (simp add: first_pos_of_def)
qed

lemma uniform_floor_same:
  assumes "uniform_floor req (Some fl)" "i \<le> k" "k < length req" "run_no req i = run_no req k"
  shows "fl ! k = fl ! i"
  using assms(2-4)
proof (induction k)
  case (Suc k)
  show ?case
  proof (cases "i = Suc k")
    case False
    with Suc.prems(1) have ik: "i \<le> k" by simp
    from same_run_step [OF ik Suc.prems(3)] have r: "run_no req i = run_no req k" "req ! Suc k = req ! k"
      by auto
    have "fl ! Suc k = fl ! k" using assms(1) Suc.prems(2) r(2) by (simp add: uniform_floor_def)
    with Suc.IH [OF ik _ r(1)] Suc.prems(2) show ?thesis by simp
  qed simp
qed simp

lemma uniform_floor_run:
  assumes "uniform_floor req (Some fl)" "i < length req" "k < length req" "run_no req k = run_no req i"
  shows "fl ! k = fl ! i"
  using uniform_floor_same [OF assms(1), of i k] uniform_floor_same [OF assms(1), of k i] assms(2-4)
  by (cases "i \<le> k") auto

lemma req_run:
  assumes "run_no req k = run_no req i"
  shows "req ! k = req ! i"
  using same_run [of i k req] same_run [of k i req] assms by (cases "i \<le> k") auto

definition seen_ok :: "int list \<Rightarrow> int list option \<Rightarrow> nat \<Rightarrow> nat \<Rightarrow> bool" where
  "seen_ok pos flr i j \<longleftrightarrow> 0 \<le> pos ! i - int j \<and> floor_ok flr i (pos ! i - int j)"

definition look_loc :: "int list \<Rightarrow> int list \<Rightarrow> nat \<Rightarrow> nat \<Rightarrow> nat \<Rightarrow> nat \<Rightarrow> int" where
  "look_loc req pos window history_rows i j =
     (let s = pos ! i - int j; fp = first_pos_of req pos i in
      if s < fp then int (run_no req i) * int window + (s - (fp - int window))
      else int history_rows + int (run_first req i) + s - fp)"

abbreviation groups_of :: "int list \<Rightarrow> nat option \<Rightarrow> nat" where
  "groups_of pos num_groups \<equiv> (case num_groups of None \<Rightarrow> length pos | Some g \<Rightarrow> g)"

lemma offset_parts:
  assumes "length req = n"
  obtains grp gf gl where "first_row_offsets req = (grp, gf, gl)"
    "length grp = n" "\<And>i. i < n \<Longrightarrow> grp ! i = run_no req i"
    "\<And>i. i < n \<Longrightarrow> gf ! i = run_first req i" "\<And>i. i < n \<Longrightarrow> gl ! i = run_last req i"
proof
  show "first_row_offsets req = (fst (first_row_offsets req), fst (snd (first_row_offsets req)),
      snd (snd (first_row_offsets req)))" by simp
qed (use assms group_eq [of _ req] group_first_eq [of _ req] group_last_eq [of _ req]
      in \<open>simp_all\<close>)

lemma layout_groups:
  assumes "make_window_layout req pos window capacity flr num_groups = Inr wl"
    and "length req = length pos"
  shows "0 < length pos \<and> (\<forall>i < length pos. run_no req i < groups_of pos num_groups)"
proof (rule offset_parts [OF assms(2)])
  fix grp gf gl
  assume p: "first_row_offsets req = (grp, gf, gl)" "length grp = length pos"
    "\<And>i. i < length pos \<Longrightarrow> grp ! i = run_no req i"
  from assms(1) p(1) have "\<not> list_ex (\<lambda>g. groups_of pos num_groups \<le> g) grp" "0 < length pos"
    by (auto simp: make_window_layout_def Let_def split: if_splits)
  then have "\<forall>g \<in> set grp. g < groups_of pos num_groups"
    by (simp add: list_ex_iff linorder_not_le)
  with p(2,3) \<open>0 < length pos\<close> show ?thesis by (metis nth_mem)
qed

lemma layout_fields:
  assumes "make_window_layout req pos window capacity flr num_groups = Inr wl"
    and "length req = length pos"
  shows "wl_req wl = req" "wl_pos wl = pos"
    "wl_size wl = groups_of pos num_groups * window + length pos"
    "history_loc wl = tabulate (groups_of pos num_groups * window) int"
    "write_loc wl = tabulate (length pos)
       (\<lambda>i. to_int32 (int (groups_of pos num_groups * window) + int i))"
    "length (history_pos wl) = groups_of pos num_groups * window"
    "length (history_req wl) = groups_of pos num_groups * window"
    "length (history_valid wl) = groups_of pos num_groups * window"
    "length (commit_mask wl) = length pos"
  by (rule offset_parts [OF assms(2)]; use assms(1) in
      \<open>force simp: make_window_layout_def Let_def split: if_splits\<close>)+

lemma layout_indices:
  assumes "make_window_layout req pos window capacity flr num_groups = Inr wl"
    and "length req = length pos" "i < length pos" "j < window"
  shows "indices wl ! i ! j = to_int32 (if seen_ok pos flr i j
           then look_loc req pos window (groups_of pos num_groups * window) i j else -1)"
  by (rule offset_parts [OF assms(2)]; use assms in
      \<open>auto simp: make_window_layout_def seen_ok_def look_loc_def first_pos_of_def Let_def
         split: if_splits\<close>)

lemma layout_lengths:
  assumes "make_window_layout req pos window capacity flr num_groups = Inr wl"
    and "length req = length pos" "i < length pos"
  shows "lengths wl ! i = to_int32 (int (length (filter (seen_ok pos flr i) [0..<window])))"
  by (rule offset_parts [OF assms(2)]; use assms in
      \<open>auto simp: make_window_layout_def seen_ok_def [abs_def] Let_def split: if_splits\<close>)

lemma layout_commit_mask:
  assumes "make_window_layout req pos window capacity flr num_groups = Inr wl"
    and "length req = length pos" "i < length pos"
  shows "commit_mask wl ! i = (run_last req i - i < capacity)"
  by (rule offset_parts [OF assms(2)]; use assms in
      \<open>auto simp: make_window_layout_def Let_def split: if_splits\<close>)

lemma layout_history_raw:
  assumes b: "make_window_layout req pos window capacity flr num_groups = Inr wl"
    and p: "first_row_offsets req = (grp, gf, gl)"
    and h: "h < groups_of pos num_groups * window"
  shows "history_req wl ! h = scatter (groups_of pos num_groups) 0 grp req ! (h div window)"
    and "history_pos wl ! h = scatter (groups_of pos num_groups) 0 grp
           (tabulate (length pos) (\<lambda>i. pos ! i - (int i - int (gf ! i)))) ! (h div window)
           - int window + int (h mod window)"
    and "history_valid wl ! h = (0 \<le> history_pos wl ! h
           \<and> scatter (groups_of pos num_groups) False grp (replicate (length pos) True) ! (h div window)
           \<and> (case flr of None \<Rightarrow> True
              | Some fl \<Rightarrow> scatter (groups_of pos num_groups) 0 grp fl ! (h div window)
                            \<le> history_pos wl ! h))"
proof -
  show "history_req wl ! h = scatter (groups_of pos num_groups) 0 grp req ! (h div window)"
    using b p h by (cases num_groups) (auto simp: make_window_layout_def Let_def split: if_splits)
  show "history_pos wl ! h = scatter (groups_of pos num_groups) 0 grp
           (tabulate (length pos) (\<lambda>i. pos ! i - (int i - int (gf ! i)))) ! (h div window)
           - int window + int (h mod window)"
    using b p h by (cases num_groups) (auto simp: make_window_layout_def Let_def split: if_splits)
  show "history_valid wl ! h = (0 \<le> history_pos wl ! h
           \<and> scatter (groups_of pos num_groups) False grp (replicate (length pos) True) ! (h div window)
           \<and> (case flr of None \<Rightarrow> True
              | Some fl \<Rightarrow> scatter (groups_of pos num_groups) 0 grp fl ! (h div window)
                            \<le> history_pos wl ! h))"
    using b p h
    by (cases num_groups; cases flr) (auto simp: make_window_layout_def Let_def split: if_splits)
qed

text \<open>
  The history rows of run \<open>g\<close>: row \<open>g * window + t\<close> stands for the token \<open>window - t\<close>
  positions before the run's first one.
\<close>

lemma layout_history:
  assumes b: "make_window_layout req pos window capacity flr num_groups = Inr wl"
    and c: "consecutive req pos" and u: "uniform_floor req flr"
    and i: "i < length pos" and t: "t < window"
    and hdef: "h = run_no req i * window + t"
  shows "h < groups_of pos num_groups * window"
    and "history_req wl ! h = req ! i"
    and "history_pos wl ! h = first_pos_of req pos i - int window + int t"
    and "history_valid wl ! h = (0 \<le> first_pos_of req pos i - int window + int t
          \<and> floor_ok flr i (first_pos_of req pos i - int window + int t))"
proof -
  have lr: "length req = length pos" using c by (simp add: consecutive_def)
  have g: "run_no req i < groups_of pos num_groups" using layout_groups [OF b lr] i by blast
  then have "Suc (run_no req i) * window \<le> groups_of pos num_groups * window"
    by (intro mult_le_mono1) simp
  with t show h: "h < groups_of pos num_groups * window" by (simp add: hdef)
  have hd: "h div window = run_no req i" "h mod window = t" using t by (simp_all add: hdef)
  obtain grp gf gl where p: "first_row_offsets req = (grp, gf, gl)" "length grp = length pos"
      "\<And>i. i < length pos \<Longrightarrow> grp ! i = run_no req i"
      "\<And>i. i < length pos \<Longrightarrow> gf ! i = run_first req i"
    by (rule offset_parts [OF lr]) blast
  let ?G = "groups_of pos num_groups"
  let ?fp = "tabulate (length pos) (\<lambda>i. pos ! i - (int i - int (gf ! i)))"
  have gi: "grp ! i = run_no req i" using p(3) i by simp
  have gG: "i < length grp" "grp ! i < ?G" using p(2) i g gi by simp_all
  have same: "k < length pos \<and> run_no req k = run_no req i"
    if "k < length grp" "grp ! k = grp ! i" for k
    using that p(2,3) gi by simp
  have fp: "?fp ! k = first_pos_of req pos k" if "k < length pos" for k
    using that p(4) by (simp add: first_pos_of_def)
  have s1: "scatter ?G 0 grp req ! (grp ! i) = req ! i"
  proof (rule scatter_nth [OF gG(1) _ gG(2)])
    fix k assume "k < length grp" "grp ! k = grp ! i"
    from same [OF this] show "req ! k = req ! i" using req_run by blast
  qed (use lr p(2) in simp)
  have s2: "scatter ?G 0 grp ?fp ! (grp ! i) = ?fp ! i"
  proof (rule scatter_nth [OF gG(1) _ gG(2)])
    fix k assume "k < length grp" "grp ! k = grp ! i"
    from same [OF this] show "?fp ! k = ?fp ! i"
      using fp i first_pos_same [OF c, of k i] by metis
  qed (use p(2) in simp)
  have s3: "scatter ?G False grp (replicate (length pos) True) ! (grp ! i)"
    using scatter_nth [OF gG(1) _ gG(2), of "replicate (length pos) True" False] p(2) i by simp
  have s4: "scatter ?G 0 grp fl ! (grp ! i) = fl ! i" if fl: "flr = Some fl" for fl
  proof (rule scatter_nth [OF gG(1) _ gG(2)])
    show "length fl = length grp" using u fl lr p(2) by (simp add: uniform_floor_def)
    fix k assume "k < length grp" "grp ! k = grp ! i"
    from same [OF this] show "fl ! k = fl ! i"
      using uniform_floor_run [of req fl i k] u fl lr i by simp
  qed
  note raw = layout_history_raw [OF b p(1) h]
  show "history_req wl ! h = req ! i" by (simp only: raw(1) hd gi [symmetric] s1)
  show hp: "history_pos wl ! h = first_pos_of req pos i - int window + int t"
    by (simp only: raw(2) hd gi [symmetric] s2 fp [OF i])
  show "history_valid wl ! h = (0 \<le> first_pos_of req pos i - int window + int t
        \<and> floor_ok flr i (first_pos_of req pos i - int window + int t))"
    using s4 s3 by (cases flr) (simp_all add: raw(3) hp hd gi [symmetric] floor_ok_def)
qed

section \<open>Every visible predecessor is found\<close>

text \<open>Workspace row \<open>ix\<close> stands for position \<open>p\<close> of request \<open>r\<close>: a valid history row or a row of
  the batch.\<close>

definition row_holds :: "window_layout \<Rightarrow> int \<Rightarrow> int \<Rightarrow> int \<Rightarrow> bool" where
  "row_holds wl r p ix \<longleftrightarrow>
     (\<exists>h < length (history_pos wl). ix = history_loc wl ! h \<and> history_valid wl ! h
        \<and> history_req wl ! h = r \<and> history_pos wl ! h = p)
   \<or> (\<exists>k < length (wl_pos wl). ix = write_loc wl ! k \<and> wl_req wl ! k = r \<and> wl_pos wl ! k = p)"

lemma first_pos_le:
  "first_pos_of req pos i \<le> pos ! i"
  using run_first_le [of req i] by (simp add: first_pos_of_def)

lemma look_history:
  assumes b: "make_window_layout req pos window capacity flr num_groups = Inr wl"
    and c: "consecutive req pos" and u: "uniform_floor req flr"
    and i: "i < length pos" and j: "j < window" and ok: "seen_ok pos flr i j"
    and old: "pos ! i - int j < first_pos_of req pos i"
  shows "row_holds wl (req ! i) (pos ! i - int j)
           (look_loc req pos window (groups_of pos num_groups * window) i j)"
proof -
  have lr: "length req = length pos" using c by (simp add: consecutive_def)
  let ?s = "pos ! i - int j" and ?fp = "first_pos_of req pos i"
  define t where "t = nat (?s - ?fp + int window)"
  have t: "int t = ?s - ?fp + int window" "t < window"
    using j old first_pos_le [of req pos i] by (simp_all add: t_def)
  note lh = layout_history [OF b c u i t(2) refl]
  show ?thesis
    unfolding row_holds_def look_loc_def Let_def
    using lh(1) lh(2-4) t(1) old ok
    by (intro disjI1 exI [of _ "run_no req i * window + t"])
      (simp add: layout_fields [OF b lr] seen_ok_def)
qed

lemma look_batch:
  assumes b: "make_window_layout req pos window capacity flr num_groups = Inr wl"
    and c: "consecutive req pos"
    and size: "int (groups_of pos num_groups * window) + int (length pos) < 2 ^ 31"
    and i: "i < length pos" and new: "first_pos_of req pos i \<le> pos ! i - int j"
  shows "row_holds wl (req ! i) (pos ! i - int j)
           (look_loc req pos window (groups_of pos num_groups * window) i j)"
proof -
  have lr: "length req = length pos" using c by (simp add: consecutive_def)
  let ?s = "pos ! i - int j" and ?fp = "first_pos_of req pos i"
  define k where "k = run_first req i + nat (?s - ?fp)"
  have k: "int k = int (run_first req i) + (?s - ?fp)" "k \<le> i"
    using new by (simp_all add: k_def first_pos_of_def)
  have rn: "run_no req k = run_no req i"
    using between_run [of req i k] k(2) by (simp add: k_def)
  have "req ! k = req ! i" by (rule req_run [OF rn])
  moreover have "pos ! k = ?s"
    using consecutive_pos [OF c k(2) i rn] k(1) by (simp add: first_pos_of_def)
  moreover have "k < length pos" using k(2) i by simp
  moreover have "to_int32 (int (groups_of pos num_groups * window) + int k)
      = int (groups_of pos num_groups * window) + int k"
    using size \<open>k < length pos\<close> by (intro to_int32_id) linarith+
  ultimately show ?thesis
    unfolding row_holds_def look_loc_def Let_def
    using new k(1)
    by (intro disjI2 exI [of _ k]) (simp add: layout_fields [OF b lr])
qed

lemma look_loc_range:
  assumes "row_holds wl r p x" "make_window_layout req pos window capacity flr num_groups = Inr wl"
    and "length req = length pos"
    and "int (groups_of pos num_groups * window) + int (length pos) < 2 ^ 31"
  shows "0 \<le> x \<and> x < 2 ^ 31"
proof -
  have "to_int32 (int (groups_of pos num_groups * window) + int k)
      = int (groups_of pos num_groups * window) + int k" if "k < length pos" for k
    using assms(4) that by (intro to_int32_id) linarith+
  moreover have "int h < 2 ^ 31" if "h < groups_of pos num_groups * window" for h
    using assms(4) that by linarith
  ultimately show ?thesis
    using assms(1,4) by (auto simp: row_holds_def layout_fields [OF assms(2,3)])
qed

text \<open>C25: In a packed batch, entry \<open>j\<close> of a query row's index list is the workspace row that
  holds the token \<open>j\<close> positions before the query's own, in the query's request, whenever that
  position exists and is not below the floor; otherwise it is \<open>-1\<close>.\<close>

theorem window_indices_resolve:
  assumes b: "make_window_layout req pos window capacity flr num_groups = Inr wl"
    and c: "consecutive req pos" and u: "uniform_floor req flr"
    and size: "int (groups_of pos num_groups * window) + int (length pos) < 2 ^ 31"
    and i: "i < length pos" and j: "j < window"
  shows "if 0 \<le> pos ! i - int j \<and> floor_ok flr i (pos ! i - int j)
         then row_holds wl (req ! i) (pos ! i - int j) (indices wl ! i ! j)
         else indices wl ! i ! j = - 1"
proof (cases "seen_ok pos flr i j")
  case True
  have lr: "length req = length pos" using c by (simp add: consecutive_def)
  have "row_holds wl (req ! i) (pos ! i - int j)
      (look_loc req pos window (groups_of pos num_groups * window) i j)"
    using look_history [OF b c u i j True] look_batch [OF b c size i, of j] by linarith
  moreover from look_loc_range [OF this b lr size]
  have "to_int32 (look_loc req pos window (groups_of pos num_groups * window) i j)
      = look_loc req pos window (groups_of pos num_groups * window) i j"
    by (intro to_int32_id) auto
  ultimately show ?thesis
    using True by (simp add: layout_indices [OF b lr i j] seen_ok_def)
next
  case False
  have lr: "length req = length pos" using c by (simp add: consecutive_def)
  from False show ?thesis by (auto simp: layout_indices [OF b lr i j] seen_ok_def)
qed

theorem window_indices_resolve_witness:
  "\<exists>wl. make_window_layout [7, 7, 9] [2, 3, 0] 2 4 None None = Inr wl \<and>
     row_holds wl 7 1 (indices wl ! 0 ! 1) \<and> indices wl ! 2 ! 1 = - 1"
proof -
  obtain wl where wl: "make_window_layout [7, 7, 9] [2, 3, 0] 2 4 None None = Inr wl"
    by (simp add: make_window_layout_def first_row_offsets_def starts_of_def ends_of_def
        tabulate_def upt_rec Let_def)
  have c: "consecutive [7, 7, 9] [2, 3, 0]" by (simp add: consecutive_def less_Suc_eq numeral_2_eq_2)
  have u: "uniform_floor [7, 7, 9] None" by (simp add: uniform_floor_def)
  show ?thesis
    using wl window_indices_resolve [OF wl c u, of 0 1] window_indices_resolve [OF wl c u, of 2 1]
    by (simp add: floor_ok_def)
qed

end
