(* ===== verification/RequestWindow.thy ===== *)
theory RequestWindow
  imports KvLayout WindowLayout
begin

text \<open>
  The per-request ring of recent key/value tokens (\<open>RequestWindow\<close> of
  \<open>sglang-overlay/dsv41_request_window.py\<close>): each of \<open>num_slots\<close> request slots owns
  \<open>capacity\<close> rows of every layer's state buffer, position \<open>p\<close> of slot \<open>r\<close> lives at row
  \<open>r * capacity + p mod capacity\<close>, and a tag per row records which position it holds. Two more
  rows serve as the zero row (read for absent history) and the sink row (written for rows that
  are not kept). The operations return an error or the updated state.

  The pool factory is outside the sources; it is the argument \<open>mk\<close>, which gives a fresh buffer
  for a number of rows. Layout objects are compared by identity in the code: a layout carries a
  number that stands for its identity. Whether the CUDA stream is capturing, and whether the
  runner is in its capture scope, are read from the environment and are arguments.
\<close>

section \<open>State and construction\<close>

record request_window =
  rw_capacity :: nat
  rw_page_size :: nat
  num_slots :: nat
  rw_rows :: nat
  kv_layout_of :: kv_layout
  kv_buffer :: "paged_buf list"
  tags :: "int list list"
  workspace :: "(nat \<times> paged_buf) option"
  rw_layout :: "(nat \<times> window_layout) option"
  prepared :: "(nat \<times> bool) option"

definition zero_row :: "request_window \<Rightarrow> nat" where
  "zero_row rw = rw_rows rw"

definition sink_row :: "request_window \<Rightarrow> nat" where
  "sink_row rw = rw_rows rw + 1"

definition round_up :: "nat \<Rightarrow> nat \<Rightarrow> nat" where
  "round_up n page_size = (n + page_size - 1) div page_size * page_size"

definition ensure_workspace :: "(nat \<Rightarrow> paged_buf) \<Rightarrow> bool \<Rightarrow> nat \<Rightarrow> request_window
    \<Rightarrow> py_error + request_window" where
  "ensure_workspace mk capturing n rw =
     (if (case workspace rw of None \<Rightarrow> False | Some (sz, _) \<Rightarrow> n \<le> sz) then Inr rw
      else if capturing then Inl AssertionError
      else let size = round_up n (rw_page_size rw)
           in Inr (rw\<lparr>workspace := Some (size, mk size)\<rparr>))"

definition new_request_window :: "(nat \<Rightarrow> paged_buf) \<Rightarrow> kv_layout \<Rightarrow> bool \<Rightarrow> nat \<Rightarrow> nat \<Rightarrow> nat \<Rightarrow> nat
    \<Rightarrow> nat option \<Rightarrow> py_error + request_window" where
  "new_request_window mk layout capturing slots layers page_size capacity workspace_rows =
     (let cap = round_up capacity page_size; rows = slots * cap;
          rw = \<lparr> rw_capacity = cap, rw_page_size = page_size, num_slots = slots, rw_rows = rows,
                 kv_layout_of = layout, kv_buffer = replicate layers (mk (rows + page_size)),
                 tags = replicate layers (replicate (rows + page_size) (- 1)),
                 workspace = None, rw_layout = None, prepared = None \<rparr>
      in case workspace_rows of
           Some (Suc k) \<Rightarrow> ensure_workspace mk capturing (Suc k) rw
         | _ \<Rightarrow> Inr rw)"

section \<open>Operations\<close>

definition ring_loc :: "request_window \<Rightarrow> int \<Rightarrow> int \<Rightarrow> int" where
  "ring_loc rw r p = r * int (rw_capacity rw) + p mod int (rw_capacity rw)"

definition slot_rows :: "request_window \<Rightarrow> nat list \<Rightarrow> nat list" where
  "slot_rows rw slots =
     concat (map (\<lambda>s. map (\<lambda>c. s * rw_capacity rw + c) [0..<rw_capacity rw]) slots)"

definition reset_slots :: "nat list \<Rightarrow> request_window \<Rightarrow> py_error + request_window" where
  "reset_slots slots rw =
     (let loc = slot_rows rw slots in
      if list_ex (\<lambda>t. list_ex (\<lambda>l. length t \<le> l) loc) (tags rw) then Inl IndexError
      else Inr (rw\<lparr>tags := map (write_all (zip loc (replicate (length loc) (- 1)))) (tags rw),
                    prepared := None\<rparr>))"

definition activate :: "(nat \<Rightarrow> paged_buf) \<Rightarrow> bool \<Rightarrow> nat \<times> window_layout \<Rightarrow> request_window
    \<Rightarrow> py_error + request_window" where
  "activate mk capturing lay rw =
     (if map_option fst (rw_layout rw) = Some (fst lay) then Inr rw
      else let rw1 = rw\<lparr>rw_layout := Some lay, prepared := None\<rparr>
           in case workspace rw1 of
                None \<Rightarrow> ensure_workspace mk capturing (wl_size (snd lay)) rw1
              | Some (sz, _) \<Rightarrow>
                  if sz < wl_size (snd lay)
                  then Inl (RuntimeError ''request-window workspace too small'')
                  else Inr rw1)"

definition history_src :: "request_window \<Rightarrow> window_layout \<Rightarrow> nat list" where
  "history_src rw wl = tabulate (length (history_pos wl))
     (\<lambda>h. if history_valid wl ! h then nat (ring_loc rw (history_req wl ! h) (history_pos wl ! h))
          else zero_row rw)"

definition tags_match :: "int list \<Rightarrow> nat list \<Rightarrow> window_layout \<Rightarrow> bool" where
  "tags_match layer_tags src wl \<longleftrightarrow>
     list_all (\<lambda>h. history_valid wl ! h \<longrightarrow> layer_tags ! (src ! h) = history_pos wl ! h)
       [0..<length (history_pos wl)]"

text \<open>
  \<open>buffer(layer)\<close>: bring the history rows of the active layout into the workspace, unless this
  was already done for this layer and phase; outside capture, raise unless every valid history
  row carries the tag of the position asked for.
\<close>

definition buffer :: "bool \<Rightarrow> nat \<Rightarrow> request_window \<Rightarrow> py_error + (paged_buf \<times> request_window)" where
  "buffer in_capture layer rw =
     (if prepared rw = Some (layer, in_capture)
      then (case workspace rw of None \<Rightarrow> Inl (RuntimeError ''workspace'') | Some (_, w) \<Rightarrow> Inr (w, rw))
      else case rw_layout rw of
        None \<Rightarrow> Inl (RuntimeError ''request-window metadata was not activated'')
      | Some (_, wl) \<Rightarrow>
          let src = history_src rw wl in
          if length (kv_buffer rw) \<le> layer \<or> list_ex (\<lambda>l. length (tags rw ! layer) \<le> l) src
          then Inl IndexError
          else if \<not> in_capture \<and> \<not> tags_match (tags rw ! layer) src wl
          then Inl (RuntimeError ''SWA history is missing: replay or window ownership is invalid'')
          else case workspace rw of
            None \<Rightarrow> Inl (RuntimeError ''workspace'')
          | Some (sz, w) \<Rightarrow>
              (case copy_packed_tokens (rw_page_size rw) (kv_layout_of rw) (kv_buffer rw ! layer)
                      src (map nat (history_loc wl)) w of
                 None \<Rightarrow> Inl IndexError
               | Some w' \<Rightarrow> Inr (w', rw\<lparr>workspace := Some (sz, w'), prepared := Some (layer, in_capture)\<rparr>)))"

definition commit_dst :: "request_window \<Rightarrow> window_layout \<Rightarrow> nat list" where
  "commit_dst rw wl = tabulate (length (wl_pos wl))
     (\<lambda>i. if commit_mask wl ! i then nat (ring_loc rw (wl_req wl ! i) (wl_pos wl ! i))
          else sink_row rw)"

text \<open>\<open>commit(layer)\<close>: copy the kept rows of the batch into their ring rows and tag them.\<close>

definition commit :: "bool \<Rightarrow> nat \<Rightarrow> request_window \<Rightarrow> py_error + request_window" where
  "commit in_capture layer rw =
     (case rw_layout rw of
        None \<Rightarrow> Inl (RuntimeError ''layout'')
      | Some (_, wl) \<Rightarrow>
          let dst = commit_dst rw wl in
          (case buffer in_capture layer rw of
             Inl e \<Rightarrow> Inl e
           | Inr (w, rw1) \<Rightarrow>
               (case copy_packed_tokens (rw_page_size rw1) (kv_layout_of rw1) w
                       (map nat (write_loc wl)) dst (kv_buffer rw1 ! layer) of
                  None \<Rightarrow> Inl IndexError
                | Some b \<Rightarrow>
                    if list_ex (\<lambda>l. length (tags rw1 ! layer) \<le> l) dst then Inl IndexError
                    else Inr (rw1\<lparr>kv_buffer := (kv_buffer rw1)[layer := b],
                         tags := (tags rw1)[layer :=
                            write_all (zip dst (wl_pos wl)) (tags rw1 ! layer)]\<rparr>))))"

text \<open>\<open>initialize_dummy_history\<close>: zero every state buffer and tag the layout's history rows as
  present. \<open>zeroed\<close> is the buffer with every byte 0.\<close>

definition zeroed :: "paged_buf \<Rightarrow> paged_buf" where
  "zeroed b = b\<lparr>mem := (\<lambda>_ _. 0)\<rparr>"

definition initialize_dummy_history :: "request_window \<Rightarrow> py_error + request_window" where
  "initialize_dummy_history rw =
     (case rw_layout rw of
        None \<Rightarrow> Inl (RuntimeError ''layout'')
      | Some (_, wl) \<Rightarrow>
          let loc = map (\<lambda>(r, p). nat (ring_loc rw r p)) (zip (history_req wl) (history_pos wl)) in
          if list_ex (\<lambda>t. list_ex (\<lambda>l. length t \<le> l) loc) (tags rw) then Inl IndexError
          else Inr (rw\<lparr>kv_buffer := map zeroed (kv_buffer rw),
                 tags := map (\<lambda>t. write_all (zip loc (history_pos wl)) (replicate (length t) (- 1)))
                           (tags rw),
                 prepared := None\<rparr>))"

section \<open>Well-formed windows\<close>

definition rw_wf :: "request_window \<Rightarrow> bool" where
  "rw_wf rw \<longleftrightarrow> 0 < rw_capacity rw \<and> 2 \<le> rw_page_size rw \<and>
     rw_page_size rw dvd rw_capacity rw \<and>
     rw_rows rw = num_slots rw * rw_capacity rw \<and>
     length (tags rw) = length (kv_buffer rw) \<and>
     (\<forall>t \<in> set (tags rw). length t = rw_rows rw + rw_page_size rw) \<and>
     (\<forall>l c. prepared rw = Some (l, c) \<longrightarrow> l < length (kv_buffer rw) \<and> workspace rw \<noteq> None)"

lemma round_up_ge: "0 < d \<Longrightarrow> n \<le> round_up n d"
  using cdiv_covers [of d n] by (simp add: round_up_def cdiv_def)

lemma round_up_dvd [simp]: "d dvd round_up n d"
  by (simp add: round_up_def)

lemma ensure_workspace_wf:
  assumes "ensure_workspace mk c n rw = Inr rw'" "rw_wf rw"
  shows "rw_wf rw'"
  using assms by (auto simp: ensure_workspace_def rw_wf_def Let_def split: if_splits option.splits)

lemma new_window_wf:
  assumes "new_request_window mk layout c slots layers ps cap ws = Inr rw" "2 \<le> ps" "0 < cap"
  shows "rw_wf rw"
proof -
  let ?rw = "\<lparr> rw_capacity = round_up cap ps, rw_page_size = ps, num_slots = slots,
      rw_rows = slots * round_up cap ps, kv_layout_of = layout,
      kv_buffer = replicate layers (mk (slots * round_up cap ps + ps)),
      tags = replicate layers (replicate (slots * round_up cap ps + ps) (- 1)),
      workspace = None, rw_layout = None, prepared = None \<rparr>"
  have "0 < round_up cap ps" using round_up_ge [of ps cap] assms(2,3) by linarith
  then have wf: "rw_wf ?rw" using assms(2) by (simp add: rw_wf_def)
  from assms(1) have "rw = ?rw \<or> (\<exists>k. ensure_workspace mk c k ?rw = Inr rw)"
    by (auto simp: new_request_window_def Let_def split: option.splits nat.splits)
  then show ?thesis using wf ensure_workspace_wf by blast
qed

lemma reset_slots_wf:
  "reset_slots slots rw = Inr rw' \<Longrightarrow> rw_wf rw \<Longrightarrow> rw_wf rw'"
  by (auto simp: reset_slots_def rw_wf_def Let_def split: if_splits)

lemma rw_wf_layout: "rw_wf rw \<Longrightarrow> rw_wf (rw\<lparr>rw_layout := x, prepared := None\<rparr>)"
  by (simp add: rw_wf_def)

lemma activate_wf:
  "activate mk c lay rw = Inr rw' \<Longrightarrow> rw_wf rw \<Longrightarrow> rw_wf rw'"
  using ensure_workspace_wf rw_wf_layout
  by (fastforce simp: activate_def Let_def split: if_splits option.splits prod.splits)

lemma buffer_frame:
  assumes "buffer c layer rw = Inr (w, rw')"
  obtains sz where "rw' = rw\<lparr>workspace := Some (sz, w), prepared := Some (layer, c)\<rparr>"
    "workspace rw \<noteq> None"
proof (cases "prepared rw = Some (layer, c)")
  case True
  with assms obtain sz where "workspace rw = Some (sz, w)" "rw' = rw"
    by (auto simp: buffer_def split: option.splits)
  with True that show ?thesis by (metis option.distinct(1) request_window.surjective
      request_window.update_convs(8) request_window.update_convs(10))
next
  case False
  with assms that show ?thesis
    by (auto simp: buffer_def Let_def split: if_splits option.splits)
qed

lemma buffer_wf:
  assumes "buffer c layer rw = Inr (w, rw')" "rw_wf rw"
  shows "rw_wf rw' \<and> layer < length (kv_buffer rw)"
proof -
  have "layer < length (kv_buffer rw)"
    using assms by (auto simp: buffer_def rw_wf_def Let_def split: if_splits option.splits)
  moreover from assms(1) obtain sz
    where "rw' = rw\<lparr>workspace := Some (sz, w), prepared := Some (layer, c)\<rparr>"
    by (rule buffer_frame)
  ultimately show ?thesis using assms(2) by (simp add: rw_wf_def)
qed

lemma commit_cases:
  assumes "commit c layer rw = Inr rw'"
  obtains lid wl w rw1 b where "rw_layout rw = Some (lid, wl)" "buffer c layer rw = Inr (w, rw1)"
    "copy_packed_tokens (rw_page_size rw1) (kv_layout_of rw1) w (map nat (write_loc wl))
       (commit_dst rw wl) (kv_buffer rw1 ! layer) = Some b"
    "\<forall>l \<in> set (commit_dst rw wl). l < length (tags rw1 ! layer)"
    "rw' = rw1\<lparr>kv_buffer := (kv_buffer rw1)[layer := b],
        tags := (tags rw1)[layer := write_all (zip (commit_dst rw wl) (wl_pos wl)) (tags rw1 ! layer)]\<rparr>"
  using assms
  by (auto simp: commit_def Let_def list_ex_iff linorder_not_le
      split: if_splits option.splits sum.splits)

lemma commit_wf:
  assumes "commit c layer rw = Inr rw'" "rw_wf rw"
  shows "rw_wf rw'"
  using assms(1)
proof (rule commit_cases)
  fix lid wl w rw1 b
  assume b: "buffer c layer rw = Inr (w, rw1)"
    and r: "rw' = rw1\<lparr>kv_buffer := (kv_buffer rw1)[layer := b],
        tags := (tags rw1)[layer := write_all (zip (commit_dst rw wl) (wl_pos wl)) (tags rw1 ! layer)]\<rparr>"
  have "rw_wf rw1" "layer < length (kv_buffer rw1)"
    using buffer_wf [OF b assms(2)] buffer_frame [OF b] by force+
  then show ?thesis
    using r by (auto simp: rw_wf_def dest!: set_update_subset_insert [THEN subsetD])
qed

lemma dummy_history_wf:
  "initialize_dummy_history rw = Inr rw' \<Longrightarrow> rw_wf rw \<Longrightarrow> rw_wf rw'"
  by (auto simp: initialize_dummy_history_def rw_wf_def Let_def split: if_splits option.splits)

section \<open>Ring rows\<close>

lemma ring_loc_parts:
  assumes "0 < rw_capacity rw"
  shows "ring_loc rw r p div int (rw_capacity rw) = r"
    and "ring_loc rw r p mod int (rw_capacity rw) = p mod int (rw_capacity rw)"
  using assms by (simp_all add: ring_loc_def)

lemma ring_loc_nonneg: "0 \<le> r \<Longrightarrow> 0 < rw_capacity rw \<Longrightarrow> 0 \<le> ring_loc rw r p"
  by (simp add: ring_loc_def)

lemma ring_loc_bound:
  assumes "rw_wf rw" "0 \<le> r" "r < int (num_slots rw)"
  shows "nat (ring_loc rw r p) < rw_rows rw"
proof -
  let ?C = "int (rw_capacity rw)"
  have C: "0 < ?C" using assms(1) by (simp add: rw_wf_def)
  have "p mod ?C < ?C" using C by simp
  then have "ring_loc rw r p < (r + 1) * ?C" by (simp add: ring_loc_def algebra_simps)
  also have "(r + 1) * ?C \<le> int (num_slots rw) * ?C"
    using assms(3) C by (intro mult_right_mono) auto
  finally show ?thesis
    using assms(1) ring_loc_nonneg [of r rw p] assms(2) C by (simp add: rw_wf_def nat_less_iff)
qed

lemma ring_loc_eqD:
  assumes "0 < rw_capacity rw" "0 \<le> r" "0 \<le> r'"
    and "nat (ring_loc rw r p) = nat (ring_loc rw r' p')"
  shows "r = r' \<and> p mod int (rw_capacity rw) = p' mod int (rw_capacity rw)"
proof -
  have "ring_loc rw r p = ring_loc rw r' p'"
    using assms(4) ring_loc_nonneg [OF assms(2,1), of p] ring_loc_nonneg [OF assms(3,1), of p']
    by (simp add: eq_nat_nat_iff)
  then show ?thesis
    using ring_loc_parts [OF assms(1), of r p] ring_loc_parts [OF assms(1), of r' p'] by metis
qed

text \<open>
  The rows of a batch that \<open>commit\<close> keeps: with the ring at least as long as the layout's
  capacity and every request in one run, no two of them share a ring row.
\<close>

definition one_run :: "int list \<Rightarrow> bool" where
  "one_run req \<longleftrightarrow> (\<forall>i < length req. \<forall>k < length req. req ! i = req ! k \<longrightarrow> run_no req i = run_no req k)"

lemma committed_unique_le:
  assumes "consecutive req pos" "one_run req" "capacity \<le> rw_capacity rw" "0 < rw_capacity rw"
    and "i \<le> k" "k < length pos" "run_last req i - i < capacity" "0 \<le> req ! i" "0 \<le> req ! k"
    and "nat (ring_loc rw (req ! i) (pos ! i)) = nat (ring_loc rw (req ! k) (pos ! k))"
  shows "i = k"
proof -
  let ?C = "int (rw_capacity rw)"
  have len: "length req = length pos" using assms(1) by (simp add: consecutive_def)
  from ring_loc_eqD [OF assms(4) assms(8,9,10)]
  have eq: "req ! i = req ! k" and m: "pos ! k mod ?C = pos ! i mod ?C" by auto
  have "i < length req" "k < length req" using assms(5,6) len by simp_all
  with eq assms(2) have run: "run_no req i = run_no req k" unfolding one_run_def by blast
  have "pos ! k = pos ! i + (int k - int i)"
    by (rule consecutive_pos [OF assms(1,5,6) run])
  with m have "?C dvd (int k - int i)" by (simp add: mod_eq_dvd_iff)
  then have d: "rw_capacity rw dvd (k - i)"
    using assms(5) by (metis of_nat_diff of_nat_dvd_iff)
  have "k \<le> run_last req i"
    using run_last_bounds [of k req] same_run_last [OF assms(5) _ run] assms(6) len by simp
  then have "k - i < rw_capacity rw" using assms(3,7) by linarith
  with d have "k - i = 0" by (meson dvd_imp_le linorder_not_less neq0_conv)
  with assms(5) show ?thesis by simp
qed

definition built_batch :: "request_window \<Rightarrow> window_layout \<Rightarrow> bool" where
  "built_batch rw wl \<longleftrightarrow> (\<exists>window capacity flr ng.
     make_window_layout (wl_req wl) (wl_pos wl) window capacity flr ng = Inr wl
     \<and> consecutive (wl_req wl) (wl_pos wl) \<and> one_run (wl_req wl)
     \<and> capacity \<le> rw_capacity rw
     \<and> (\<forall>r \<in> set (wl_req wl). 0 \<le> r \<and> r < int (num_slots rw)))"

lemma built_batch_len: "built_batch rw wl \<Longrightarrow> length (wl_req wl) = length (wl_pos wl)"
  by (auto simp: built_batch_def consecutive_def)

lemma built_batch_req:
  "built_batch rw wl \<Longrightarrow> i < length (wl_pos wl) \<Longrightarrow> 0 \<le> wl_req wl ! i \<and> wl_req wl ! i < int (num_slots rw)"
  using built_batch_len [of rw wl] by (auto simp: built_batch_def)

lemma commit_dst_nth:
  "i < length (wl_pos wl) \<Longrightarrow> commit_dst rw wl ! i =
     (if commit_mask wl ! i then nat (ring_loc rw (wl_req wl ! i) (wl_pos wl ! i)) else sink_row rw)"
  by (simp add: commit_dst_def)

lemma committed_unique:
  assumes "built_batch rw wl" "rw_wf rw" "i < length (wl_pos wl)" "k < length (wl_pos wl)"
    and "commit_mask wl ! i" "commit_dst rw wl ! k = commit_dst rw wl ! i"
  shows "k = i"
proof -
  from assms(1) obtain window capacity flr ng where
    b: "make_window_layout (wl_req wl) (wl_pos wl) window capacity flr ng = Inr wl"
      "consecutive (wl_req wl) (wl_pos wl)" "one_run (wl_req wl)" "capacity \<le> rw_capacity rw"
    by (auto simp: built_batch_def)
  have C: "0 < rw_capacity rw" using assms(2) by (simp add: rw_wf_def)
  note ri = built_batch_req [OF assms(1,3)] and rk = built_batch_req [OF assms(1,4)]
  have bi: "nat (ring_loc rw (wl_req wl ! i) (wl_pos wl ! i)) < rw_rows rw"
    using ring_loc_bound [OF assms(2)] ri by simp
  with assms(3-6) have mk: "commit_mask wl ! k"
    by (auto simp: commit_dst_nth sink_row_def split: if_splits)
  have eq: "nat (ring_loc rw (wl_req wl ! i) (wl_pos wl ! i)) = nat (ring_loc rw (wl_req wl ! k) (wl_pos wl ! k))"
    using assms(3-6) mk by (simp add: commit_dst_nth)
  note mask = layout_commit_mask [OF b(1) built_batch_len [OF assms(1)]]
  note u = committed_unique_le [OF b(2,3,4) C]
  show ?thesis
  proof (cases "i \<le> k")
    case True
    from u [OF True assms(4)] mask [OF assms(3)] assms(5) ri rk eq show ?thesis by simp
  next
    case False
    then have "k \<le> i" by simp
    from u [OF this assms(3)] mask [OF assms(4)] mk ri rk eq show ?thesis by simp
  qed
qed

section \<open>The ring holds what its tags say\<close>

text \<open>
  \<open>K r p\<close> is the token of position \<open>p\<close> of request slot \<open>r\<close>. A layer's ring is sound when a row
  tagged with a position it can hold contains that position's token.
\<close>

definition ring_sound :: "(int \<Rightarrow> int \<Rightarrow> byte list \<times> byte list) \<Rightarrow> nat \<Rightarrow> request_window \<Rightarrow> bool" where
  "ring_sound K layer rw \<longleftrightarrow>
     (\<forall>r p. 0 \<le> r \<and> r < int (num_slots rw) \<and> 0 \<le> p \<and>
        tags rw ! layer ! nat (ring_loc rw r p) = p \<longrightarrow>
        token_at (rw_page_size rw) (kv_layout_of rw) (kv_buffer rw ! layer) (nat (ring_loc rw r p)) = K r p)"

text \<open>The rows of the batch, written by the layer's forward pass into the workspace.\<close>

definition rows_written :: "(int \<Rightarrow> int \<Rightarrow> byte list \<times> byte list) \<Rightarrow> request_window \<Rightarrow> window_layout \<Rightarrow> paged_buf \<Rightarrow> bool" where
  "rows_written K rw wl w \<longleftrightarrow> (\<forall>i < length (wl_pos wl).
     token_at (rw_page_size rw) (kv_layout_of rw) w (nat (write_loc wl ! i)) = K (wl_req wl ! i) (wl_pos wl ! i))"



lemma commit_tags_nth:
  assumes "built_batch rw wl" "rw_wf rw" "i < length (wl_pos wl)" "commit_mask wl ! i"
    and "commit_dst rw wl ! i < length t"
  shows "write_all (zip (commit_dst rw wl) (wl_pos wl)) t ! (commit_dst rw wl ! i) = wl_pos wl ! i"
proof -
  let ?D = "commit_dst rw wl"
  have len: "length ?D = length (wl_pos wl)" by (simp add: commit_dst_def)
  have "(?D ! i, wl_pos wl ! i) \<in> set (zip ?D (wl_pos wl))"
    using assms(3) len by (auto simp: set_zip)
  then have "?D ! i \<in> fst ` set (zip ?D (wl_pos wl))" by (force simp: image_iff)
  moreover have "\<forall>p \<in> set (zip ?D (wl_pos wl)). fst p = ?D ! i \<longrightarrow> snd p = wl_pos wl ! i"
    using committed_unique [OF assms(1-3) _ assms(4)] len by (auto simp: set_zip)
  ultimately show ?thesis by (rule write_all_hit [OF assms(5)])
qed

lemma commit_tags_other:
  assumes "l \<notin> set (commit_dst rw wl)"
  shows "write_all (zip (commit_dst rw wl) (wl_pos wl)) t ! l = t ! l"
proof (rule write_all_miss)
  show "l \<notin> fst ` set (zip (commit_dst rw wl) (wl_pos wl))"
    using assms by (auto dest: set_zip_leftD)
qed

lemma ring_row_committed:
  assumes "built_batch rw wl" "rw_wf rw" "0 \<le> r" "r < int (num_slots rw)"
    and "nat (ring_loc rw r p) \<in> set (commit_dst rw wl)"
  obtains i where "i < length (wl_pos wl)" "commit_mask wl ! i"
    "nat (ring_loc rw r p) = commit_dst rw wl ! i" "r = wl_req wl ! i"
proof -
  have "length (commit_dst rw wl) = length (wl_pos wl)" by (simp add: commit_dst_def)
  then obtain i where i: "i < length (wl_pos wl)" "commit_dst rw wl ! i = nat (ring_loc rw r p)"
    using assms(5) by (metis in_set_conv_nth)
  have "nat (ring_loc rw r p) < rw_rows rw" by (rule ring_loc_bound [OF assms(2-4)])
  with i have m: "commit_mask wl ! i" by (auto simp: commit_dst_nth sink_row_def split: if_splits)
  have "0 < rw_capacity rw" using assms(2) by (simp add: rw_wf_def)
  from ring_loc_eqD [OF this assms(3) conjunct1 [OF built_batch_req [OF assms(1) i(1)]]]
  have "r = wl_req wl ! i" using i m by (metis commit_dst_nth)
  with i m that show ?thesis by simp
qed

text \<open>C2: Committing a batch whose rows the forward pass wrote keeps the layer's ring sound, and
  tags the ring row of every kept row with its position, so that the next layouts find it.\<close>

theorem commit_ring_sound:
  assumes c: "commit in_capture layer rw = Inr rw'" and wf: "rw_wf rw"
    and lay: "rw_layout rw = Some (lid, wl)" and bb: "built_batch rw wl"
    and prep: "prepared rw = Some (layer, in_capture)" "workspace rw = Some (sz, w)"
    and wr: "rows_written K rw wl w" and rs: "ring_sound K layer rw"
  shows "ring_sound K layer rw' \<and>
    (\<forall>i < length (wl_pos wl). commit_mask wl ! i \<longrightarrow>
       tags rw' ! layer ! nat (ring_loc rw (wl_req wl ! i) (wl_pos wl ! i)) = wl_pos wl ! i)"
proof -
  let ?D = "commit_dst rw wl"
  have buf: "buffer in_capture layer rw = Inr (w, rw)" by (simp add: buffer_def prep)
  have L: "layer < length (kv_buffer rw)" using buffer_wf [OF buf wf] by simp
  from c lay buf obtain b where
    cp: "copy_packed_tokens (rw_page_size rw) (kv_layout_of rw) w (map nat (write_loc wl)) ?D
           (kv_buffer rw ! layer) = Some b"
    and bound: "\<forall>l \<in> set ?D. l < length (tags rw ! layer)"
    and rw': "rw' = rw\<lparr>kv_buffer := (kv_buffer rw)[layer := b],
          tags := (tags rw)[layer := write_all (zip ?D (wl_pos wl)) (tags rw ! layer)]\<rparr>"
    by (auto elim!: commit_cases)
  have lenD: "length ?D = length (wl_pos wl)" by (simp add: commit_dst_def)
  have LT: "layer < length (tags rw)" using L wf by (simp add: rw_wf_def)
  have tag': "tags rw' ! layer = write_all (zip ?D (wl_pos wl)) (tags rw ! layer)"
    and buf': "kv_buffer rw' ! layer = b" using rw' L LT by simp_all
  have wlen: "length (map nat (write_loc wl)) = length ?D"
    using bb by (auto simp: built_batch_def lenD dest: layout_fields(5) [OF _ built_batch_len [OF bb]])
  have same [simp]: "ring_loc rw' = ring_loc rw" "num_slots rw' = num_slots rw"
    "rw_page_size rw' = rw_page_size rw" "kv_layout_of rw' = kv_layout_of rw"
    using rw' by (simp_all add: fun_eq_iff ring_loc_def)
  have kept: "tags rw' ! layer ! (?D ! i) = wl_pos wl ! i \<and>
      token_at (rw_page_size rw) (kv_layout_of rw) b (?D ! i) = K (wl_req wl ! i) (wl_pos wl ! i)"
    if i: "i < length (wl_pos wl)" "commit_mask wl ! i" for i
  proof
    show "tags rw' ! layer ! (?D ! i) = wl_pos wl ! i"
      using commit_tags_nth [OF bb wf i] bound lenD i(1) by (simp add: tag')
    have "token_at (rw_page_size rw) (kv_layout_of rw) b (?D ! i)
        = token_at (rw_page_size rw) (kv_layout_of rw) w (map nat (write_loc wl) ! i)"
      using kv.copy_hit_unique [OF cp wlen, of i] committed_unique [OF bb wf i(1) _ i(2)] i(1) lenD
      by simp
    then show "token_at (rw_page_size rw) (kv_layout_of rw) b (?D ! i) = K (wl_req wl ! i) (wl_pos wl ! i)"
      using wr i(1) wlen lenD by (simp add: rows_written_def)
  qed
  have other: "tags rw' ! layer ! l = tags rw ! layer ! l \<and>
      token_at (rw_page_size rw) (kv_layout_of rw) b l
        = token_at (rw_page_size rw) (kv_layout_of rw) (kv_buffer rw ! layer) l"
    if "l \<notin> set ?D" for l
    using commit_tags_other [OF that] kv.copy_miss [OF cp that] by (simp add: tag')
  have "ring_sound K layer rw'"
    unfolding ring_sound_def
  proof (intro allI impI)
    fix r p
    assume a: "0 \<le> r \<and> r < int (num_slots rw') \<and> 0 \<le> p \<and> tags rw' ! layer ! nat (ring_loc rw' r p) = p"
    show "token_at (rw_page_size rw') (kv_layout_of rw') (kv_buffer rw' ! layer) (nat (ring_loc rw' r p)) = K r p"
    proof (cases "nat (ring_loc rw r p) \<in> set ?D")
      case True
      then obtain i where "i < length (wl_pos wl)" "commit_mask wl ! i"
        "nat (ring_loc rw r p) = ?D ! i" "r = wl_req wl ! i"
        using ring_row_committed [OF bb wf] a by (metis same(2))
      with kept [of i] a show ?thesis by (simp add: buf')
    next
      case False
      with other [OF False] a rs show ?thesis
        by (simp add: ring_sound_def buf')
    qed
  qed
  with kept show ?thesis by (simp add: commit_dst_nth)
qed

text \<open>Well-formedness of a request window (ring size, tag tables as long as the state buffers,
  page size leaving room for the zero and sink rows, a workspace behind every prepared key) is
  established by construction and kept by every operation that returns.\<close>

theorem window_ops_wf:
  "(2 \<le> ps \<and> 0 < cap \<and> new_request_window mk layout c slots layers ps cap ws = Inr rw \<longrightarrow> rw_wf rw)
   \<and> (rw_wf rw \<longrightarrow>
       (reset_slots sl rw = Inr rw' \<longrightarrow> rw_wf rw') \<and>
       (activate mk c lay rw = Inr rw' \<longrightarrow> rw_wf rw') \<and>
       (buffer c layer rw = Inr (w, rw') \<longrightarrow> rw_wf rw') \<and>
       (commit c layer rw = Inr rw' \<longrightarrow> rw_wf rw') \<and>
       (initialize_dummy_history rw = Inr rw' \<longrightarrow> rw_wf rw'))"
  using new_window_wf reset_slots_wf activate_wf buffer_wf commit_wf dummy_history_wf by metis

section \<open>Witnesses\<close>

text \<open>One slot of capacity 2 on pages of two tokens, one layer, all bytes zero; a batch of one row
  at position 1, whose history row is position 0.\<close>

definition blank :: "nat \<Rightarrow> paged_buf" where
  "blank n = \<lparr>num_pages = n, page_stride = 2 * 288, mem = (\<lambda>_ _. 0)\<rparr>"

definition demo_layout :: window_layout where
  "demo_layout = \<lparr>wl_req = [0], wl_pos = [1], write_loc = [1], indices = [[1]], lengths = [1],
     history_req = [0], history_pos = [0], history_loc = [0], history_valid = [True],
     commit_mask = [True], wl_size = 2\<rparr>"

definition demo_window :: "(nat \<times> bool) option \<Rightarrow> request_window" where
  "demo_window prep = \<lparr>rw_capacity = 2, rw_page_size = 2, num_slots = 1, rw_rows = 2,
     kv_layout_of = V41_FP4, kv_buffer = [blank 4], tags = [[0, -1, -1, -1]],
     workspace = Some (2, blank 2), rw_layout = Some (0, demo_layout), prepared = prep\<rparr>"

lemma token_at_zero:
  "mem b = (\<lambda>_ _. 0) \<Longrightarrow> token_at ps l b loc = (replicate (nat (data_bytes l)) 0, replicate (nat (scale_bytes l)) 0)"
  by (simp add: token_at_def gather_row_def row_cols_def map_replicate_const)

lemma demo_layout_built: "make_window_layout [0] [1] 1 2 None None = Inr demo_layout"
  by (simp add: make_window_layout_def first_row_offsets_def starts_of_def ends_of_def tabulate_def
      scatter_def floor_ok_def demo_layout_def Let_def)

lemma demo_batch: "built_batch (demo_window prep) demo_layout"
  unfolding built_batch_def
  using demo_layout_built
  by (intro exI [of _ 1] exI [of _ 2] exI [of _ None])
    (simp add: demo_layout_def demo_window_def consecutive_def one_run_def)

lemma demo_room:
  "0 < k \<Longrightarrow> token_in 2 V41_FP4 (blank k) 0" "0 < k \<Longrightarrow> token_in 2 V41_FP4 (blank k) 1"
  by (simp_all add: token_in_def row_in_def blank_def)

lemma demo_wf: "prep = None \<or> prep = Some (0, c) \<Longrightarrow> rw_wf (demo_window prep)"
  by (auto simp: rw_wf_def demo_window_def)

lemma demo_sound:
  "ring_sound (\<lambda>_ _. (replicate 256 0, replicate 32 0)) 0 (demo_window prep)"
  by (simp add: ring_sound_def demo_window_def token_at_zero blank_def)


theorem commit_ring_sound_witness:
  "\<exists>rw'. commit False 0 (demo_window (Some (0, False))) = Inr rw' \<and> tags rw' ! 0 ! 1 = 1"
proof -
  let ?rw = "demo_window (Some (0, False))"
  have buf: "buffer False 0 ?rw = Inr (blank 2, ?rw)" by (simp add: buffer_def demo_window_def)
  obtain b where "copy_packed_tokens 2 V41_FP4 (blank 2) [1] [1] (blank 4) = Some b"
    using kv.copy_succeeds [of "[1]" "[1]" 2 V41_FP4 "blank 2" "blank 4"] demo_room by auto
  then obtain rw' where c: "commit False 0 ?rw = Inr rw'"
    using buf by (simp add: commit_def commit_dst_def demo_window_def demo_layout_def ring_loc_def
        tabulate_def Let_def)
  have wr: "rows_written (\<lambda>_ _. (replicate 256 0, replicate 32 0)) ?rw demo_layout (blank 2)"
    by (simp add: rows_written_def demo_window_def token_at_zero blank_def)
  have wf: "rw_wf ?rw" using demo_wf by blast
  from commit_ring_sound [OF c wf _ demo_batch _ _ wr demo_sound, where lid = 0 and sz = 2]
  have "tags rw' ! 0 ! 1 = 1"
    by (simp add: demo_window_def demo_layout_def ring_loc_def)
  with c show ?thesis by blast
qed

theorem window_ops_wf_witness:
  "\<exists>rw. new_request_window blank V41_FP4 False 1 1 2 2 None = Inr rw \<and> rw_wf rw \<and>
     (\<exists>rw'. reset_slots [0] rw = Inr rw' \<and> rw_wf rw')"
proof -
  obtain rw where rw: "new_request_window blank V41_FP4 False 1 1 2 2 None = Inr rw"
    by (simp add: new_request_window_def Let_def)
  then have "rw_wf rw" using window_ops_wf [of 2 2 blank V41_FP4 False 1 1 None rw] by simp
  moreover obtain rw' where "reset_slots [0] rw = Inr rw'"
  proof -
    have "round_up 2 2 = 2" by (simp add: round_up_def)
    with rw have "rw_capacity rw = 2" "length (tags rw ! 0) = 4" "length (tags rw) = 1"
      by (auto simp: new_request_window_def Let_def)
    then show ?thesis
      by (cases "tags rw") (auto simp: reset_slots_def slot_rows_def upt_rec Let_def intro: that)
  qed
  ultimately show ?thesis using rw window_ops_wf [where rw = rw and rw' = rw'] by blast
qed

end
