(* ===== verification/SchedReq.thy ===== *)
theory SchedReq
  imports Prelude "HOL-Library.Multiset" "HOL-Library.Product_Lexorder" "HOL-Library.List_Lexorder" "HOL-Library.Char_ord"
begin

text \<open>
  Requests as the scheduler sees them (\<open>Req\<close> of \<open>sglang-overlay/schedule_batch.py\<close>, the fields
  and methods \<open>schedule_policy.py\<close> reads and writes), the split of a cached prefix by storage
  tier, the tile estimate of the prefill budget, and the waiting-queue orders of
  \<open>SchedulePolicy\<close>. Tree nodes are named by numbers. Floats (times, the new-token ratio) are
  exact reals.
\<close>

section \<open>Requests\<close>

record req =
  rid :: nat
  max_new_tokens :: int
  ignore_eos :: bool
  origin_input_ids :: "int list"
  output_ids :: "int list"
  full_untruncated_fill_ids :: "int list"
  prefix_indices :: "int list"
  extra_key :: "string option"
  cache_salt :: "string option"
  last_node :: nat
  last_host_node :: nat
  best_match_node :: nat
  host_hit_length :: int
  swa_host_hit_length :: int
  mamba_host_hit_length :: int
  host_loaded_length :: int
  storage_hit_length :: int
  storage_hit_start :: "int option"
  host_hit_is_storage :: bool
  num_matched_prefix_tokens :: int
  mamba_branching_seqlen :: "int option"
  cache_protected_len :: int
  holds_mamba :: bool
  req_pool_idx :: "nat option"
  is_retracted :: bool
  retracted_stain :: bool
  dllm_incomplete :: bool
  extend_range :: "(int \<times> int) option"
  swa_uuid_for_lock :: "nat option"
  skip_lock_node_ids :: "nat set"
  priority :: int
  wait_entry_time :: real
  routing_key :: "string option"
  req_finished :: bool
  return_logprob :: bool
  logprob_start_len :: int

definition needs_host_load_back :: "req \<Rightarrow> bool" where
  "needs_host_load_back r \<longleftrightarrow>
     0 < host_hit_length r \<or> 0 < swa_host_hit_length r \<or> 0 < mamba_host_hit_length r"

definition materialized_host_hit_len :: "req \<Rightarrow> int" where
  "materialized_host_hit_len r = min (host_hit_length r) (host_loaded_length r)"

definition fulfilled_storage_hit_len :: "req \<Rightarrow> int \<Rightarrow> int" where
  "fulfilled_storage_hit_len r plen =
     (case storage_hit_start r of
        None \<Rightarrow> min plen (storage_hit_length r)
      | Some start \<Rightarrow> max 0 (min plen (start + storage_hit_length r) - start))"

definition set_extend_range :: "int \<Rightarrow> int \<Rightarrow> req \<Rightarrow> req" where
  "set_extend_range start stop r = r\<lparr>extend_range := Some (start, stop)\<rparr>"

definition compute_max_prefix_len :: "req \<Rightarrow> int \<Rightarrow> int" where
  "compute_max_prefix_len r input_len =
     (let m = input_len - 1;
          m' = (if return_logprob r \<and> 0 \<le> logprob_start_len r then min m (logprob_start_len r) else m)
      in max m' 0)"

section \<open>Cached prefix by tier\<close>

definition split_cached_prefix_by_tier ::
    "int \<Rightarrow> int \<Rightarrow> int \<Rightarrow> int option \<Rightarrow> bool \<Rightarrow> int \<times> int \<times> int" where
  "split_cached_prefix_by_tier plen host_hit_len storage_hit_len storage_start host_is_storage =
     (let host_hit = min plen host_hit_len;
          host_start = plen - host_hit;
          (storage, host) =
            (case storage_start of
               None \<Rightarrow> if host_is_storage then (host_hit, 0)
                       else (let st = min host_hit storage_hit_len in (st, host_hit - st))
             | Some start \<Rightarrow>
                 let stop = start + storage_hit_len;
                     st = max 0 (min plen stop - max 0 start);
                     in_host = max 0 (min plen stop - max host_start start)
                 in (st, if host_is_storage then 0 else host_hit - in_host))
      in (plen - host - storage, host, storage))"

section \<open>Tile estimate\<close>

record tile_metrics =
  tm_block_m :: int
  request_count :: nat
  extend_lens :: "int list"
  q_tiles_per_request :: "int list"
  max_extend_len :: int
  sum_extend_len :: int
  legacy_q_tiles :: int
  compact_q_tiles :: int
  saved_q_tiles :: int
  saved_q_tile_ratio :: "real option"

definition max_or_0 :: "int list \<Rightarrow> int" where
  "max_or_0 xs = (if xs = [] then 0 else fold max (tl xs) (hd xs))"

definition estimate_prefill_extend_tile_metrics :: "int list \<Rightarrow> int \<Rightarrow> tile_metrics" where
  "estimate_prefill_extend_tile_metrics lens block_m =
     (let norm = map (max 0) lens;
          tiles = map (\<lambda>l. if 0 < l then ceil_div l block_m else 0) norm;
          legacy = (if tiles = [] then 0 else int (length tiles) * max_or_0 tiles);
          compact = sum_list tiles;
          saved = legacy - compact
      in \<lparr> tm_block_m = block_m, request_count = length norm, extend_lens = norm,
           q_tiles_per_request = tiles, max_extend_len = max_or_0 norm,
           sum_extend_len = sum_list norm, legacy_q_tiles = legacy, compact_q_tiles = compact,
           saved_q_tiles = saved,
           saved_q_tile_ratio = (if legacy = 0 then None
                                 else Some (real_of_int saved / real_of_int legacy)) \<rparr>)"

section \<open>Queue orders\<close>

text \<open>
  Python's list sort is stable, as \<open>sort_key\<close> is. The infinite key of a deprioritized request is
  the first component 1.
\<close>

definition sort_by_longest_prefix :: "nat set \<Rightarrow> req list \<Rightarrow> req list" where
  "sort_by_longest_prefix deprioritized =
     sort_key (\<lambda>r. if rid r \<notin> deprioritized then (0::int, - num_matched_prefix_tokens r) else (1, 0))"

definition sort_by_longest_output :: "bool \<Rightarrow> int \<Rightarrow> req list \<Rightarrow> req list" where
  "sort_by_longest_output enable_priority sign wq =
     (if enable_priority then sort_key (\<lambda>r. (priority r * sign, - max_new_tokens r)) wq
      else sort_key (\<lambda>r. - max_new_tokens r) wq)"

definition sort_by_priority_and_fcfs :: "int \<Rightarrow> req list \<Rightarrow> req list" where
  "sort_by_priority_and_fcfs sign = sort_key (\<lambda>r. (priority r * sign, wait_entry_time r))"

text \<open>The routing keys of the running batch that are set and not empty, with their counts.\<close>

definition routing_keys :: "req list \<Rightarrow> string list" where
  "routing_keys running = [k. Some k \<leftarrow> map routing_key running, k \<noteq> []]"

definition routing_sort_key :: "string list \<Rightarrow> req \<Rightarrow> int \<times> int \<times> string" where
  "routing_sort_key keys r =
     (case routing_key r of
        None \<Rightarrow> (1, 0, '''')
      | Some k \<Rightarrow> if k \<noteq> [] \<and> k \<in> set keys then (0, - int (count_list keys k), k) else (1, 0, k))"

definition sort_by_routing_key :: "req list \<Rightarrow> req list \<Rightarrow> req list" where
  "sort_by_routing_key running wq =
     (let keys = routing_keys running in
      if keys = [] then wq else sort_key (routing_sort_key keys) wq)"

text \<open>The depth-first order comes from the tree cache, as a list of indices into the queue.\<close>

definition sort_by_dfs_weight :: "(nat list \<Rightarrow> nat list) \<Rightarrow> req list \<Rightarrow> req list" where
  "sort_by_dfs_weight order wq = map (\<lambda>i. wq ! i) (order (map last_node wq))"

section \<open>Properties\<close>

text \<open>Splitting a cached prefix by tier never invents tokens: device, host and storage counts are
  nonnegative, add up to the prefix, and storage never exceeds the span fetched from storage when
  that span is placed.\<close>

theorem split_cached_prefix_sound:
  assumes "0 \<le> plen" "0 \<le> host_len" "0 \<le> st_len" "\<And>s. start = Some s \<Longrightarrow> 0 \<le> s"
    and "split_cached_prefix_by_tier plen host_len st_len start is_st = (dev, host, sto)"
  shows "dev + host + sto = plen \<and> 0 \<le> dev \<and> 0 \<le> host \<and> 0 \<le> sto
    \<and> (start \<noteq> None \<or> \<not> is_st \<longrightarrow> sto \<le> st_len) \<and> host \<le> host_len"
proof (cases start)
  case None
  then show ?thesis using assms
    by (auto simp: split_cached_prefix_by_tier_def Let_def split: if_splits)
next
  case (Some s)
  then have "0 \<le> s" using assms(4) by blast
  then show ?thesis using assms(1-3,5) Some
    by (auto simp: split_cached_prefix_by_tier_def Let_def min_def max_def split: if_splits)
qed

theorem split_cached_prefix_sound_witness:
  "split_cached_prefix_by_tier 10 8 5 (Some 3) False = (2, 3, 5) \<and> (2::int) + 3 + 5 = 10 \<and> (3::int) \<le> 8"
proof -
  have e: "split_cached_prefix_by_tier 10 8 5 (Some 3) False = (2, 3, 5)"
    by (simp add: split_cached_prefix_by_tier_def)
  show ?thesis using e split_cached_prefix_sound [OF _ _ _ _ e] by simp
qed

lemma fold_max_ge: "(y::int) \<le> fold max xs y \<and> (\<forall>x \<in> set xs. x \<le> fold max xs y)"
proof (induction xs arbitrary: y)
  case (Cons a xs)
  have "max a y \<le> fold max xs (max a y)" "\<forall>x \<in> set xs. x \<le> fold max xs (max a y)"
    using Cons.IH [of "max a y"] by auto
  then show ?case by simp
qed simp

lemma max_or_0_ge: "x \<in> set xs \<Longrightarrow> x \<le> max_or_0 xs"
  using fold_max_ge [of "hd xs" "tl xs"] by (cases xs) (auto simp: max_or_0_def)

lemma sum_list_le_len: "(\<And>x. x \<in> set xs \<Longrightarrow> (x::int) \<le> m) \<Longrightarrow> sum_list xs \<le> len xs * m"
  by (induction xs) (auto simp: algebra_simps intro: add_mono)

lemma sum_le_legacy: "sum_list xs \<le> (if xs = [] then 0 else len xs * max_or_0 xs)"
  using sum_list_le_len [of xs "max_or_0 xs"] max_or_0_ge by auto

lemma tile_bounds:
  assumes "0 < (b::int)" "0 \<le> l"
  shows "l \<le> b * (if 0 < l then ceil_div l b else 0)
    \<and> b * (if 0 < l then ceil_div l b else 0) \<le> l + (b - 1)"
  using ceil_align_ge [OF assms(1), of l] ceil_align_less [OF assms(1), of l] assms
  by (auto simp: ceil_align_def mult.commute)

lemma tiles_cover:
  assumes "0 < (b::int)" "\<forall>l \<in> set xs. 0 \<le> l"
  shows "sum_list xs \<le> b * (\<Sum>l\<leftarrow>xs. if 0 < l then ceil_div l b else 0)
    \<and> b * (\<Sum>l\<leftarrow>xs. if 0 < l then ceil_div l b else 0) \<le> sum_list xs + len xs * (b - 1)"
  using assms(2)
proof (induction xs)
  case (Cons a xs)
  then show ?case using tile_bounds [OF assms(1), of a]
    by (simp only: list.map sum_list.Cons list.size of_nat_Suc distrib_left distrib_right of_nat_add list.set) auto
qed simp

text \<open>The compact tile estimate covers every token with less than one block of slack per request
  and never exceeds the padded (legacy) estimate, so the reported saving is nonnegative.\<close>

theorem tile_estimate_sound:
  assumes "0 < b"
  shows "let m = estimate_prefill_extend_tile_metrics xs b in
      compact_q_tiles m \<le> legacy_q_tiles m \<and> 0 \<le> saved_q_tiles m
      \<and> sum_extend_len m \<le> b * compact_q_tiles m
      \<and> b * compact_q_tiles m \<le> sum_extend_len m + int (request_count m) * (b - 1)
      \<and> (\<forall>l \<in> set xs. l \<le> max_extend_len m)"
proof -
  let ?n = "map (max 0) xs"
  let ?t = "map (\<lambda>l. if 0 < l then ceil_div l b else 0) ?n"
  have "sum_list ?t \<le> (if ?t = [] then 0 else int (length ?t) * max_or_0 ?t)"
    by (rule sum_le_legacy)
  moreover have "\<forall>l \<in> set xs. l \<le> max_or_0 ?n"
  proof
    fix l assume "l \<in> set xs"
    then have "max 0 l \<le> max_or_0 ?n" by (intro max_or_0_ge) simp
    then show "l \<le> max_or_0 ?n" by simp
  qed
  ultimately show ?thesis using tiles_cover [OF assms, of ?n]
    by (simp add: estimate_prefill_extend_tile_metrics_def Let_def del: map_map)
qed

theorem tile_estimate_sound_witness:
  "let m = estimate_prefill_extend_tile_metrics [100, 64, -3] 64 in
      compact_q_tiles m \<le> legacy_q_tiles m \<and> sum_extend_len m \<le> 64 * compact_q_tiles m
      \<and> (100::int) \<le> max_extend_len m"
  using tile_estimate_sound [of 64 "[100, 64, -3]"] by (simp add: Let_def)

end
