(* ===== verification/SchedPolicy.thy ===== *)
theory SchedPolicy
  imports SchedReq
begin

text \<open>
  The waiting-queue policy of \<open>sglang-overlay/schedule_policy.py\<close>: \<open>match_prefix_for_req\<close> and
  \<open>SchedulePolicy\<close>. The prefix tree and the simulated tree of waiting requests belong to the
  serving framework; their operations are the fields of \<open>tree_ops\<close>, over an abstract state.
\<close>

section \<open>Prefix matching\<close>

record radix_key =
  token_ids :: "int list"
  key_extra :: "string option"
  key_limit :: "int option"
  key_salt :: "string option"

record match_result =
  device_indices :: "int list"
  mr_last_device_node :: nat
  mr_last_host_node :: nat
  mr_best_match_node :: nat
  mr_host_hit_length :: int
  mr_swa_host_hit_length :: int
  mr_mamba_host_hit_length :: int
  mr_mamba_branching_seqlen :: "int option"
  mr_cache_protected_len :: "int option"

record 'c tree_ops =
  swa_reprefill_tail_tokens :: "'c \<Rightarrow> int"
  match_prefix :: "radix_key \<Rightarrow> bool \<Rightarrow> req option \<Rightarrow> 'c \<Rightarrow> match_result \<times> 'c"
  zero_match_result :: "'c \<Rightarrow> match_result \<Rightarrow> string option \<Rightarrow> match_result"
  supports_fast_match_prefix :: "'c \<Rightarrow> bool"
  dfs_weight_order :: "'c \<Rightarrow> nat list \<Rightarrow> nat list"
  tree_disabled :: "'c \<Rightarrow> bool"

definition apply_match :: "match_result \<Rightarrow> int \<Rightarrow> req \<Rightarrow> req" where
  "apply_match m n r =
     (let r1 = r\<lparr>prefix_indices := device_indices m, last_node := mr_last_device_node m,
                 last_host_node := mr_last_host_node m, best_match_node := mr_best_match_node m,
                 host_hit_length := mr_host_hit_length m,
                 swa_host_hit_length := mr_swa_host_hit_length m,
                 mamba_host_hit_length := mr_mamba_host_hit_length m\<rparr>;
          r2 = r1\<lparr>num_matched_prefix_tokens :=
                  min (len (prefix_indices r1) + host_hit_length r1) (compute_max_prefix_len r1 n)\<rparr>;
          r3 = (case mr_mamba_branching_seqlen m of None \<Rightarrow> r2
                | Some s \<Rightarrow> r2\<lparr>mamba_branching_seqlen := Some s\<rparr>)
      in case mr_cache_protected_len m of None \<Rightarrow> r3
         | Some c \<Rightarrow> r3\<lparr>cache_protected_len := c\<rparr>)"

definition match_prefix_for_req ::
    "'c tree_ops \<Rightarrow> bool \<Rightarrow> int list option \<Rightarrow> bool \<Rightarrow> bool \<Rightarrow> req \<Rightarrow> 'c
      \<Rightarrow> match_result \<times> req \<times> 'c" where
  "match_prefix_for_req T force_miss ids cow_mamba include_req r c =
     (let toks = (case ids of None \<Rightarrow> origin_input_ids r @ output_ids r | Some t \<Rightarrow> t);
          tail = swa_reprefill_tail_tokens T c;
          limit = (if tail \<noteq> 0 then Some (max 0 (len toks - tail)) else None);
          (m0, c') = match_prefix T \<lparr>token_ids = toks, key_extra = extra_key r, key_limit = limit,
                                    key_salt = cache_salt r\<rparr>
                       cow_mamba (if include_req then Some r else None) c;
          m = (if force_miss then zero_match_result T c' m0 (extra_key r) else m0)
      in (m, apply_match m (len toks) r, c'))"

section \<open>Policies\<close>

datatype cache_aware_policy = LPM | DFS_WEIGHT
datatype cache_agnostic_policy = FCFS | LOF | RANDOM | ROUTING_KEY
datatype policy = Aware cache_aware_policy | Agnostic cache_agnostic_policy

definition cache_aware_of :: "string \<Rightarrow> cache_aware_policy option" where
  "cache_aware_of s = (if s = ''lpm'' then Some LPM
     else if s = ''dfs-weight'' then Some DFS_WEIGHT else None)"

definition cache_agnostic_of :: "string \<Rightarrow> cache_agnostic_policy option" where
  "cache_agnostic_of s = (if s = ''fcfs'' then Some FCFS else if s = ''lof'' then Some LOF
     else if s = ''random'' then Some RANDOM
     else if s = ''routing-key'' then Some ROUTING_KEY else None)"

definition validate_and_adjust_policy :: "string \<Rightarrow> bool \<Rightarrow> py_error + policy" where
  "validate_and_adjust_policy s disabled =
     (case cache_aware_of s of
        Some p \<Rightarrow> Inr (if disabled then Agnostic FCFS else Aware p)
      | None \<Rightarrow> (case cache_agnostic_of s of
            Some p \<Rightarrow> Inr (Agnostic p)
          | None \<Rightarrow> Inl (ValueError s)))"

record schedule_policy =
  sp_policy :: policy
  sp_enable_hierarchical :: bool
  sp_enable_priority :: bool
  sp_low_first :: bool
  sp_priority_sign :: int

definition new_schedule_policy ::
    "'c tree_ops \<Rightarrow> 'c \<Rightarrow> string \<Rightarrow> bool \<Rightarrow> bool \<Rightarrow> bool \<Rightarrow> py_error + schedule_policy" where
  "new_schedule_policy T c s hier prio low_first =
     (case validate_and_adjust_policy s (tree_disabled T c) of
        Inl e \<Rightarrow> Inl e
      | Inr p \<Rightarrow> Inr \<lparr>sp_policy = p, sp_enable_hierarchical = hier, sp_enable_priority = prio,
                     sp_low_first = low_first, sp_priority_sign = (if low_first then 1 else - 1)\<rparr>)"

definition determine_active_policy :: "schedule_policy \<Rightarrow> req list \<Rightarrow> policy" where
  "determine_active_policy sp wq =
     (if sp_policy sp = Aware LPM \<and> 128 < length wq then Agnostic FCFS else sp_policy sp)"

fun is_aware :: "policy \<Rightarrow> bool" where
  "is_aware (Aware p) = True"
| "is_aware (Agnostic p) = False"

definition waiting_queue_prefix_matched :: "'c tree_ops \<Rightarrow> 'c \<Rightarrow> schedule_policy \<Rightarrow> req list \<Rightarrow> bool" where
  "waiting_queue_prefix_matched T c sp wq \<longleftrightarrow>
     is_aware (determine_active_policy sp wq) \<or> supports_fast_match_prefix T c"

section \<open>In-batch prefix matches\<close>

text \<open>
  The simulated tree of waiting requests: \<open>sim_empty\<close> after a reset, \<open>sim_match\<close> and
  \<open>sim_insert\<close>. The thresholds are environment settings of the module.
\<close>

record 'w sim_ops =
  sim_empty :: 'w
  sim_match :: "radix_key \<Rightarrow> 'w \<Rightarrow> match_result \<times> 'w"
  sim_zero :: "'w \<Rightarrow> match_result \<Rightarrow> string option \<Rightarrow> match_result"
  sim_insert :: "radix_key \<Rightarrow> nat \<Rightarrow> 'w \<Rightarrow> 'w"

record policy_env =
  force_miss :: bool
  check_threshold :: int
  deprioritize_threshold :: int
  is_decode :: bool

definition req_key :: "req \<Rightarrow> radix_key" where
  "req_key r = \<lparr>token_ids = origin_input_ids r @ output_ids r, key_extra = extra_key r,
                key_limit = None, key_salt = cache_salt r\<rparr>"

definition prefix_match_step ::
    "policy_env \<Rightarrow> 'c tree_ops \<Rightarrow> 'w sim_ops \<Rightarrow> req \<Rightarrow> nat set \<times> 'c \<times> 'w
      \<Rightarrow> req \<times> nat set \<times> 'c \<times> 'w" where
  "prefix_match_step E T S r s =
     (case s of (dep, c, w) \<Rightarrow>
       let (m, r', c') = match_prefix_for_req T (force_miss E)
                           (Some (origin_input_ids r @ output_ids r)) False True r c in
       if len (prefix_indices r') \<le> check_threshold E then
         (let (m0, w') = sim_match S (req_key r) w;
              m1 = (if force_miss E then sim_zero S w' m0 (extra_key r) else m0) in
          if deprioritize_threshold E \<le> len (device_indices m1)
          then (r', insert (rid r) dep, c', w')
          else (r', dep, c', sim_insert S (req_key r) (length (token_ids (req_key r))) w'))
       else (r', dep, c', w))"

fun prefix_matches_from ::
    "policy_env \<Rightarrow> 'c tree_ops \<Rightarrow> 'w sim_ops \<Rightarrow> req list \<Rightarrow> nat set \<times> 'c \<times> 'w
      \<Rightarrow> req list \<times> nat set \<times> 'c \<times> 'w" where
  "prefix_matches_from E T S [] s = ([], s)"
| "prefix_matches_from E T S (r # rs) s =
     (let (r', s') = prefix_match_step E T S r s;
          (rs', s'') = prefix_matches_from E T S rs s' in (r' # rs', s''))"

definition compute_prefix_matches ::
    "policy_env \<Rightarrow> 'c tree_ops \<Rightarrow> 'w sim_ops \<Rightarrow> req list \<Rightarrow> 'c \<Rightarrow> req list \<times> nat set \<times> 'c \<times> 'w" where
  "compute_prefix_matches E T S wq c = prefix_matches_from E T S wq ({}, c, sim_empty S)"

section \<open>calc_priority\<close>

fun match_all :: "'c tree_ops \<Rightarrow> bool \<Rightarrow> req list \<Rightarrow> 'c \<Rightarrow> req list \<times> 'c" where
  "match_all T fm [] c = ([], c)"
| "match_all T fm (r # rs) c =
     (let (m, r', c') = match_prefix_for_req T fm None False True r c;
          (rs', c'') = match_all T fm rs c' in (r' # rs', c''))"

definition order_aware ::
    "policy_env \<Rightarrow> 'c tree_ops \<Rightarrow> 'w sim_ops \<Rightarrow> cache_aware_policy \<Rightarrow> req list \<Rightarrow> 'c \<Rightarrow> req list \<times> 'c" where
  "order_aware E T S p wq c =
     (let (wq', dep, c', w) = compute_prefix_matches E T S wq c in
      case p of LPM \<Rightarrow> (sort_by_longest_prefix dep wq', c')
              | DFS_WEIGHT \<Rightarrow> (sort_by_dfs_weight (dfs_weight_order T c') wq', c'))"

definition order_agnostic ::
    "schedule_policy \<Rightarrow> (req list \<Rightarrow> req list) \<Rightarrow> cache_agnostic_policy \<Rightarrow> req list option
      \<Rightarrow> req list \<Rightarrow> req list" where
  "order_agnostic sp shuffle p running wq =
     (case p of FCFS \<Rightarrow> wq
      | LOF \<Rightarrow> sort_by_longest_output (sp_enable_priority sp) (sp_priority_sign sp) wq
      | RANDOM \<Rightarrow> shuffle wq
      | ROUTING_KEY \<Rightarrow> (case running of None \<Rightarrow> wq | Some rb \<Rightarrow> sort_by_routing_key rb wq))"

definition calc_priority ::
    "policy_env \<Rightarrow> 'c tree_ops \<Rightarrow> 'w sim_ops \<Rightarrow> (req list \<Rightarrow> req list) \<Rightarrow> schedule_policy
      \<Rightarrow> req list option \<Rightarrow> req list \<Rightarrow> 'c \<Rightarrow> req list \<times> 'c" where
  "calc_priority E T S shuffle sp running wq c =
     (let policy = determine_active_policy sp wq;
          (wq1, c1) = (if \<not> is_aware policy \<and> supports_fast_match_prefix T c \<and> \<not> is_decode E
                       then match_all T (force_miss E) wq c else (wq, c))
      in if sp_policy sp = Agnostic FCFS
         then (if sp_enable_priority sp then sort_by_priority_and_fcfs (sp_priority_sign sp) wq1
               else wq1, c1)
         else case policy of
                Aware p \<Rightarrow> order_aware E T S p wq1 c1
              | Agnostic p \<Rightarrow> (order_agnostic sp shuffle p running wq1, c1))"

section \<open>Facts\<close>

lemma apply_match_rid [simp]: "rid (apply_match m n r) = rid r"
  by (simp add: apply_match_def Let_def split: option.split)

lemma match_prefix_for_req_rid [simp]:
  "rid (fst (snd (match_prefix_for_req T fm ids cow inc r c))) = rid r"
  by (simp add: match_prefix_for_req_def Let_def split: prod.split option.split)

lemma prefix_match_step_rid [simp]: "rid (fst (prefix_match_step E T S r s)) = rid r"
  by (cases s) (simp add: prefix_match_step_def Let_def split_def)

lemma prefix_matches_rids: "map rid (fst (prefix_matches_from E T S rs s)) = map rid rs"
  by (induction rs arbitrary: s) (simp_all add: Let_def split_def)

lemma match_all_rids: "map rid (fst (match_all T fm rs c)) = map rid rs"
  by (induction rs arbitrary: c) (simp_all add: Let_def split_def)

lemma mset_map_sort_key [simp]: "mset (map f (sort_key k xs)) = mset (map f xs)"
  by (metis mset_map mset_sort)

lemma sort_by_longest_prefix_rids [simp]: "mset (map rid (sort_by_longest_prefix d xs)) = mset (map rid xs)"
  unfolding sort_by_longest_prefix_def by (rule mset_map_sort_key)

lemma sort_by_dfs_weight_rids:
  assumes "mset (order (map last_node xs)) = mset [0..<length xs]"
  shows "mset (map rid (sort_by_dfs_weight order xs)) = mset (map rid xs)"
proof -
  have "mset (map ((!) xs) (order (map last_node xs))) = image_mset ((!) xs) (mset [0..<length xs])"
    using assms by simp
  also have "\<dots> = mset xs"
    by (metis map_nth mset_map)
  finally have "mset (map rid (map ((!) xs) (order (map last_node xs)))) = mset (map rid xs)"
    by (simp only: mset_map)
  then show ?thesis by (simp add: sort_by_dfs_weight_def)
qed

lemma order_agnostic_rids:
  assumes "\<And>xs. mset (shuffle xs) = mset xs"
  shows "mset (map rid (order_agnostic sp shuffle p running xs)) = mset (map rid xs)"
proof -
  have "image_mset rid (mset (shuffle xs)) = mset (map rid xs)" using assms by simp
  then show ?thesis
    by (cases p) (auto simp: order_agnostic_def sort_by_longest_output_def sort_by_routing_key_def Let_def
        simp del: mset_map simp flip: mset_map split: option.split)
qed

lemma compute_prefix_matches_length:
  "length (fst (compute_prefix_matches E T S wq c)) = length wq"
  using arg_cong [OF prefix_matches_rids, of length] by (simp add: compute_prefix_matches_def)

lemma order_aware_rids:
  assumes "\<And>c ns. mset (dfs_weight_order T c ns) = mset [0..<length ns]"
  shows "mset (map rid (fst (order_aware E T S p wq c))) = mset (map rid wq)"
proof -
  obtain wq' dep c' w where cp: "compute_prefix_matches E T S wq c = (wq', dep, c', w)"
    by (metis prod_cases4)
  then have "map rid wq' = map rid wq"
    using prefix_matches_rids [of E T S wq "({}, c, sim_empty S)"] by (simp add: compute_prefix_matches_def)
  moreover have "mset (map rid (sort_by_dfs_weight (dfs_weight_order T c') wq')) = mset (map rid wq')"
    by (rule sort_by_dfs_weight_rids) (simp add: assms)
  ultimately show ?thesis
    using sort_by_longest_prefix_rids [of dep wq']
    by (cases p) (simp_all add: order_aware_def cp)
qed

text \<open>Whatever the policy, prioritizing the queue neither drops nor duplicates a request,
  provided the shuffle permutes and the tree's depth-first order lists every index once.\<close>

theorem calc_priority_permutes:
  assumes "\<And>xs. mset (shuffle xs) = mset xs"
    and "\<And>c ns. mset (dfs_weight_order T c ns) = mset [0..<length ns]"
  shows "mset (map rid (fst (calc_priority E T S shuffle sp running wq c))) = mset (map rid wq)"
proof -
  define pr where "pr = (if \<not> is_aware (determine_active_policy sp wq) \<and> supports_fast_match_prefix T c
      \<and> \<not> is_decode E then match_all T (force_miss E) wq c else (wq, c))"
  obtain wq1 c1 where pr: "pr = (wq1, c1)" by (cases pr)
  have rids: "mset (map rid wq1) = mset (map rid wq)"
    using match_all_rids [of T "force_miss E" wq c] pr unfolding pr_def
    by (auto split: if_splits) (metis fst_conv mset_map)
  have prio: "mset (map rid (sort_by_priority_and_fcfs (sp_priority_sign sp) wq1)) = mset (map rid wq1)"
    unfolding sort_by_priority_and_fcfs_def by (rule mset_map_sort_key)
  have agn: "mset (map rid (order_agnostic sp shuffle p running wq1)) = mset (map rid wq1)" for p
    by (rule order_agnostic_rids) (rule assms(1))
  have aw: "mset (map rid (fst (order_aware E T S p wq1 c1))) = mset (map rid wq1)" for p
    by (rule order_aware_rids) (rule assms(2))
  show ?thesis
    unfolding calc_priority_def Let_def pr_def [symmetric] pr
    by (cases "determine_active_policy sp wq")
      (simp_all add: rids prio agn aw del: mset_map)
qed

definition demo_match :: match_result where
  "demo_match = \<lparr>device_indices = [], mr_last_device_node = 0, mr_last_host_node = 0,
     mr_best_match_node = 0, mr_host_hit_length = 0, mr_swa_host_hit_length = 0,
     mr_mamba_host_hit_length = 0, mr_mamba_branching_seqlen = None, mr_cache_protected_len = None\<rparr>"

definition empty_tree :: "unit tree_ops" where
  "empty_tree = \<lparr>swa_reprefill_tail_tokens = (\<lambda>_. 0), match_prefix = (\<lambda>_ _ _ c. (demo_match, c)),
     zero_match_result = (\<lambda>_ m _. m), supports_fast_match_prefix = (\<lambda>_. True),
     dfs_weight_order = (\<lambda>_ ns. rev [0..<length ns]), tree_disabled = (\<lambda>_. False)\<rparr>"

theorem calc_priority_permutes_witness:
  "\<forall>E (S :: unit sim_ops) sp wq. mset (map rid (fst (calc_priority E empty_tree S rev sp None wq ()))) = mset (map rid wq)"
  by (intro allI calc_priority_permutes) (simp_all add: empty_tree_def)

section \<open>Longest prefix first\<close>

lemma sorted_wrt_sort_key: "sorted_wrt (\<lambda>x y. k x \<le> k y) (sort_key k xs)"
  using sorted_sort_key [of k xs] by (simp add: sorted_wrt_map)

text \<open>Under longest-prefix-match the queue is ordered by descending matched prefix, with every
  temporarily deprioritized request behind all the others and in arrival order.\<close>

theorem longest_prefix_order:
  "sorted_wrt (\<lambda>x y. rid x \<notin> dep \<and> (rid y \<in> dep \<or> num_matched_prefix_tokens y \<le> num_matched_prefix_tokens x)
      \<or> rid x \<in> dep \<and> rid y \<in> dep) (sort_by_longest_prefix dep wq)
    \<and> filter (\<lambda>r. rid r \<in> dep) (sort_by_longest_prefix dep wq) = filter (\<lambda>r. rid r \<in> dep) wq"
proof
  let ?k = "\<lambda>r. if rid r \<notin> dep then (0::int, - num_matched_prefix_tokens r) else (1, 0)"
  show "sorted_wrt (\<lambda>x y. rid x \<notin> dep \<and> (rid y \<in> dep \<or> num_matched_prefix_tokens y \<le> num_matched_prefix_tokens x)
      \<or> rid x \<in> dep \<and> rid y \<in> dep) (sort_by_longest_prefix dep wq)"
    unfolding sort_by_longest_prefix_def
    by (rule sorted_wrt_mono_rel [OF _ sorted_wrt_sort_key [of ?k wq]]) (auto split: if_splits)
  have eq: "(rid r \<in> dep) = (?k r = (1, 0))" for r by simp
  then show "filter (\<lambda>r. rid r \<in> dep) (sort_by_longest_prefix dep wq) = filter (\<lambda>r. rid r \<in> dep) wq"
    unfolding sort_by_longest_prefix_def using sort_key_stable [of ?k "(1, 0)" wq]
    by (simp only: eq [symmetric])
qed

section \<open>In-batch prefix caching\<close>

definition shares :: "int \<Rightarrow> radix_key \<Rightarrow> radix_key \<Rightarrow> bool" where
  "shares t k k' \<longleftrightarrow> key_extra k = key_extra k' \<and> key_salt k = key_salt k'
     \<and> t \<le> len (token_ids k) \<and> t \<le> len (token_ids k')
     \<and> take (nat t) (token_ids k) = take (nat t) (token_ids k')"

text \<open>
  What the simulated tree documents: it holds the inserted keys, a match leaves them alone, and
  what it reports as matched is a prefix some inserted key of the same namespace has.
\<close>

definition sim_laws :: "'w sim_ops \<Rightarrow> ('w \<Rightarrow> radix_key set) \<Rightarrow> bool" where
  "sim_laws S ks \<longleftrightarrow> ks (sim_empty S) = {}
     \<and> (\<forall>k w. ks (snd (sim_match S k w)) = ks w)
     \<and> (\<forall>k n w. ks (sim_insert S k n w) = insert k (ks w))
     \<and> (\<forall>k w. device_indices (fst (sim_match S k w)) \<noteq> [] \<longrightarrow>
          (\<exists>k' \<in> ks w. shares (len (device_indices (fst (sim_match S k w)))) k' k))
     \<and> (\<forall>w m e. device_indices (sim_zero S w m e) = [])"

lemma shares_mono: "shares t k k' \<Longrightarrow> u \<le> t \<Longrightarrow> shares u k k'"
  unfolding shares_def by (metis min_absorb1 nat_mono order_trans take_take)

lemma prefix_match_step_sound:
  assumes "sim_laws S ks" "0 < deprioritize_threshold E"
    and "prefix_match_step E T S r (dep, c, w) = (r', dep', c', w')"
  shows "(dep' = dep \<and> ks w' \<subseteq> insert (req_key r) (ks w))
    \<or> (dep' = insert (rid r) dep \<and> ks w' = ks w \<and> (\<exists>k \<in> ks w. shares (deprioritize_threshold E) k (req_key r)))"
proof -
  obtain m r1 c1 where m: "match_prefix_for_req T (force_miss E) (Some (origin_input_ids r @ output_ids r)) False True r c
      = (m, r1, c1)" by (metis prod_cases3)
  show ?thesis
  proof (cases "len (prefix_indices r1) \<le> check_threshold E")
    case False
    then show ?thesis using assms(3) m by (auto simp: prefix_match_step_def)
  next
    case True
    obtain m0 w0 where s: "sim_match S (req_key r) w = (m0, w0)" by (cases "sim_match S (req_key r) w")
    have kw: "ks w0 = ks w" using assms(1) s unfolding sim_laws_def by (metis snd_conv)
    have ins: "ks (sim_insert S k n w0) = insert k (ks w)" for k n
      using assms(1) kw unfolding sim_laws_def by simp
    define m1 where "m1 = (if force_miss E then sim_zero S w0 m0 (extra_key r) else m0)"
    show ?thesis
    proof (cases "deprioritize_threshold E \<le> len (device_indices m1)")
      case hit: True
      then have ne: "device_indices m1 \<noteq> []" using assms(2) by auto
      then have "m1 = m0" using assms(1) unfolding m1_def sim_laws_def by (auto split: if_splits)
      then obtain k where "k \<in> ks w" "shares (len (device_indices m1)) k (req_key r)"
        using assms(1) ne s unfolding sim_laws_def by (metis fst_conv)
      then have "\<exists>k \<in> ks w. shares (deprioritize_threshold E) k (req_key r)"
        using shares_mono hit by blast
      then show ?thesis using assms(3) m True s hit kw
        by (auto simp: prefix_match_step_def Let_def m1_def)
    next
      case False
      then show ?thesis using assms(3) m True s ins
        by (auto simp: prefix_match_step_def Let_def m1_def)
    qed
  qed
qed

lemma prefix_matches_sound:
  assumes "sim_laws S ks" "0 < deprioritize_threshold E"
    and "prefix_matches_from E T S rs (dep, c, w) = (rs', dep', c', w')"
    and "distinct (map rid rs)" "dep \<inter> rid ` set rs = {}"
  shows "dep \<subseteq> dep' \<and> dep' \<subseteq> dep \<union> rid ` set rs
    \<and> (\<forall>i < length rs. rid (rs ! i) \<in> dep' \<longrightarrow>
         (\<exists>k \<in> ks w. shares (deprioritize_threshold E) k (req_key (rs ! i)))
         \<or> (\<exists>j < i. rid (rs ! j) \<notin> dep' \<and> shares (deprioritize_threshold E) (req_key (rs ! j)) (req_key (rs ! i))))"
  using assms(3-5)
proof (induction rs arbitrary: dep c w rs')
  case (Cons r rs)
  let ?t = "deprioritize_threshold E"
  obtain r1 dep1 c1 w1 where st: "prefix_match_step E T S r (dep, c, w) = (r1, dep1, c1, w1)"
    by (metis prod_cases4)
  obtain rs1 where rest: "prefix_matches_from E T S rs (dep1, c1, w1) = (rs1, dep', c', w')"
    using Cons.prems(1) st by (auto simp: Let_def split_def prod_eq_iff)
  note step = prefix_match_step_sound [OF assms(1,2) st]
  have rn: "rid r \<notin> dep" "rid r \<notin> rid ` set rs" "dep \<inter> rid ` set rs = {}"
    using Cons.prems(2,3) by auto
  have d: "dep1 \<inter> rid ` set rs = {}" "distinct (map rid rs)"
  proof -
    show "dep1 \<inter> rid ` set rs = {}" using step
    proof
      assume "dep1 = dep \<and> ks w1 \<subseteq> insert (req_key r) (ks w)"
      then show ?thesis using rn(3) by simp
    next
      assume "dep1 = insert (rid r) dep \<and> ks w1 = ks w \<and> (\<exists>k \<in> ks w. shares ?t k (req_key r))"
      then show ?thesis using rn(2,3) by simp
    qed
    show "distinct (map rid rs)" using Cons.prems(2) by simp
  qed
  note ih = Cons.IH [OF rest d(2,1)]
  have sub: "dep \<subseteq> dep1" "dep1 \<subseteq> insert (rid r) dep" using step by auto
  have hd: "rid r \<in> dep' \<longleftrightarrow> dep1 \<noteq> dep"
  proof -
    have "rid r \<in> dep' \<longleftrightarrow> rid r \<in> dep1" using ih rn(2) by auto
    then show ?thesis using step rn(1) by auto
  qed
  have "(\<exists>k \<in> ks w. shares ?t k (req_key ((r # rs) ! i)))
      \<or> (\<exists>j < i. rid ((r # rs) ! j) \<notin> dep' \<and> shares ?t (req_key ((r # rs) ! j)) (req_key ((r # rs) ! i)))"
    if i: "i < length (r # rs)" "rid ((r # rs) ! i) \<in> dep'" for i
  proof (cases i)
    case 0
    then show ?thesis using i hd step by auto
  next
    case (Suc i')
    then have ih': "(\<exists>k \<in> ks w1. shares ?t k (req_key (rs ! i')))
        \<or> (\<exists>j < i'. rid (rs ! j) \<notin> dep' \<and> shares ?t (req_key (rs ! j)) (req_key (rs ! i')))"
      using ih i by auto
    then show ?thesis
    proof
      assume "\<exists>k \<in> ks w1. shares ?t k (req_key (rs ! i'))"
      then obtain k where k: "k \<in> ks w1" "shares ?t k (req_key (rs ! i'))" by blast
      show ?thesis
      proof (cases "k \<in> ks w")
        case True
        then show ?thesis using k Suc by auto
      next
        case False
        then have "k = req_key r" "dep1 = dep" using k(1) step by auto
        then show ?thesis using k(2) hd Suc by auto
      qed
    next
      assume "\<exists>j < i'. rid (rs ! j) \<notin> dep' \<and> shares ?t (req_key (rs ! j)) (req_key (rs ! i'))"
      then show ?thesis using Suc by (metis Suc_less_eq nth_Cons_Suc)
    qed
  qed
  moreover have "dep \<subseteq> dep'" "dep' \<subseteq> dep \<union> rid ` set (r # rs)" using ih sub by auto
  ultimately show ?case by blast
qed auto

text \<open>C26: A request is put off only for the sake of an earlier one that is not put off itself and
  shares at least the threshold of tokens (same extra key and salt) with it, so every shared prefix
  keeps a representative in the running order.\<close>

theorem deprioritized_has_representative:
  assumes "sim_laws S ks" "0 < deprioritize_threshold E" "distinct (map rid wq)"
    and "compute_prefix_matches E T S wq c = (wq', dep, c', w')"
    and "i < length wq" "rid (wq ! i) \<in> dep"
  shows "\<exists>j < i. rid (wq ! j) \<notin> dep
    \<and> shares (deprioritize_threshold E) (req_key (wq ! j)) (req_key (wq ! i))"
  using prefix_matches_sound [OF assms(1,2), of T wq "{}" c "sim_empty S" wq' dep c' w'] assms
  by (auto simp: compute_prefix_matches_def sim_laws_def)

text \<open>A simulated tree as the list of its keys: the longest common prefix of a stored key.\<close>

fun common_prefix :: "int list \<Rightarrow> int list \<Rightarrow> int list" where
  "common_prefix (x # xs) (y # ys) = (if x = y then x # common_prefix xs ys else [])"
| "common_prefix xs ys = []"

lemma common_prefix_take:
  "take (length (common_prefix xs ys)) xs = common_prefix xs ys
    \<and> take (length (common_prefix xs ys)) ys = common_prefix xs ys
    \<and> length (common_prefix xs ys) \<le> length xs \<and> length (common_prefix xs ys) \<le> length ys"
  by (induction xs ys rule: common_prefix.induct) auto

fun best_match :: "radix_key \<Rightarrow> radix_key list \<Rightarrow> int list" where
  "best_match k [] = []"
| "best_match k (q # qs) =
     (let b = best_match k qs; c = common_prefix (token_ids q) (token_ids k) in
      if key_extra q = key_extra k \<and> key_salt q = key_salt k \<and> length b < length c then c else b)"

definition list_sim :: "radix_key list sim_ops" where
  "list_sim = \<lparr>sim_empty = [], sim_match = (\<lambda>k w. (demo_match\<lparr>device_indices := best_match k w\<rparr>, w)),
     sim_zero = (\<lambda>w m e. m\<lparr>device_indices := []\<rparr>), sim_insert = (\<lambda>k n w. k # w)\<rparr>"

lemma best_match_shares:
  "best_match k w \<noteq> [] \<Longrightarrow> \<exists>q \<in> set w. shares (len (best_match k w)) q k"
proof (induction w)
  case (Cons q w)
  show ?case
    using Cons common_prefix_take [of "token_ids q" "token_ids k"]
    by (cases "key_extra q = key_extra k \<and> key_salt q = key_salt k
          \<and> length (best_match k w) < length (common_prefix (token_ids q) (token_ids k))")
      (auto simp: shares_def Let_def)
qed simp

lemma list_sim_laws: "sim_laws list_sim set"
  using best_match_shares by (auto simp: sim_laws_def list_sim_def)

definition demo_req :: "nat \<Rightarrow> int list \<Rightarrow> req" where
  "demo_req i ids = \<lparr>rid = i, max_new_tokens = 8, ignore_eos = False, origin_input_ids = ids,
     output_ids = [], full_untruncated_fill_ids = ids, prefix_indices = [], extra_key = None,
     cache_salt = None, last_node = 0, last_host_node = 0, best_match_node = 0, host_hit_length = 0,
     swa_host_hit_length = 0, mamba_host_hit_length = 0, host_loaded_length = 0,
     storage_hit_length = 0, storage_hit_start = None, host_hit_is_storage = False,
     num_matched_prefix_tokens = 0, mamba_branching_seqlen = None, cache_protected_len = 0,
     holds_mamba = False, req_pool_idx = None, is_retracted = False, retracted_stain = False,
     dllm_incomplete = False, extend_range = None, swa_uuid_for_lock = None, skip_lock_node_ids = {}, priority = 0,
     wait_entry_time = 0, routing_key = None, req_finished = False, return_logprob = False,
     logprob_start_len = 0\<rparr>"

definition demo_queue :: "req list" where
  "demo_queue = [demo_req 0 [1, 2, 3], demo_req 1 [1, 2, 4]]"

definition demo_env :: policy_env where
  "demo_env = \<lparr>force_miss = False, check_threshold = 2, deprioritize_threshold = 2, is_decode = False\<rparr>"

lemmas demo_simps = demo_queue_def demo_env_def demo_req_def demo_match_def empty_tree_def list_sim_def

theorem deprioritized_has_representative_witness:
  "\<exists>wq' dep c' w'. compute_prefix_matches demo_env empty_tree list_sim demo_queue () = (wq', dep, c', w')
    \<and> rid (demo_queue ! 1) \<in> dep
    \<and> (\<exists>j < 1. rid (demo_queue ! j) \<notin> dep
        \<and> shares (deprioritize_threshold demo_env) (req_key (demo_queue ! j)) (req_key (demo_queue ! 1)))"
proof -
  obtain wq' dep c' w' where
    cp: "compute_prefix_matches demo_env empty_tree list_sim demo_queue () = (wq', dep, c', w')"
    by (metis prod_cases4)
  then have "dep = {1}"
    by (auto simp: compute_prefix_matches_def prefix_match_step_def match_prefix_for_req_def req_key_def
        apply_match_def Let_def demo_simps)
  then have dep: "rid (demo_queue ! 1) \<in> dep" by (simp add: demo_queue_def demo_req_def)
  have "distinct (map rid demo_queue)" "0 < deprioritize_threshold demo_env" "1 < length demo_queue"
    by (simp_all add: demo_simps)
  from deprioritized_has_representative [OF list_sim_laws this(2,1) cp this(3) dep] cp dep
  show ?thesis by blast
qed

end
