(* ===== verification/PrefillAdder.thy ===== *)
theory PrefillAdder
  imports SchedReq
begin

text \<open>
  Prefill admission: \<open>PrefillAdder\<close> of \<open>sglang-overlay/schedule_policy.py\<close>. The settings an
  adder never changes are the record \<open>adder_cfg\<close>, its mutable fields the record \<open>adder\<close>. The
  token pool, the prefix cache, the prefill delayer and the running batch's release of memory are
  framework code: the calls made to them are the fields of \<open>env_ops\<close>, over an abstract state that
  the adder carries along. Every operation returns its outcome (a value or the exception raised)
  together with the adder and the request as they are left.
\<close>

section \<open>State\<close>

datatype add_req_result = CONTINUE | NO_TOKEN | OTHER

record adder_cfg =
  page_size :: int
  tile_block_m :: int
  new_token_ratio :: real
  is_all_swa :: bool
  is_hybrid_swa :: bool
  is_hybrid_ssm_cache :: bool
  mamba_slot_cost :: int
  share_tokens :: int
  dllm_block_size :: "int option"
  preemption_threshold :: int
  cp_in_seq_split :: bool
  prefill_max_requests :: "int option"
  has_delayer :: bool
  clip_max_new_tokens :: int
  is_hip :: bool
  tile_budget :: int
  tile_budget_legacy :: bool
  encoder_swa_replay :: bool
  low_priority_first :: bool
  tree_cache_disabled :: bool
  is_tree_cache :: bool
  sliding_window_size :: int
  size_swa :: int
  extend_input_len_attr :: "req \<Rightarrow> int option"

record 'e env_ops =
  available_size :: "'e \<Rightarrow> int"
  full_available_size :: "'e \<Rightarrow> int"
  swa_available_size :: "'e \<Rightarrow> int"
  evictable_size :: "'e \<Rightarrow> int"
  full_evictable_size :: "'e \<Rightarrow> int"
  swa_evictable_size :: "'e \<Rightarrow> int"
  mamba_schedulable_size :: "'e \<Rightarrow> int"
  mamba_evictable_size :: "'e \<Rightarrow> int"
  inc_lock_ref :: "nat \<Rightarrow> 'e \<Rightarrow> (nat option \<times> nat) \<times> 'e"
  dec_lock_ref :: "nat \<Rightarrow> nat option \<Rightarrow> 'e \<Rightarrow> 'e"
  init_load_back :: "req \<Rightarrow> 'e \<Rightarrow> (int list \<times> nat) \<times> 'e"
  negotiate :: "nat \<Rightarrow> 'e \<Rightarrow> bool \<times> 'e"
  discard_storage_prefetch :: "nat \<Rightarrow> 'e \<Rightarrow> 'e"
  finish_storage_prefetch :: "nat \<Rightarrow> int \<Rightarrow> string option \<Rightarrow> 'e \<Rightarrow> 'e"
  release_req :: "req \<Rightarrow> nat \<Rightarrow> nat \<Rightarrow> 'e \<Rightarrow> 'e"

record 'e adder =
  env :: 'e
  running :: "req list option"
  rem_input_tokens :: int
  rem_chunk_tokens :: "int option"
  rem_dllm_tokens :: int
  rem_total_token_offset :: real
  cur_rem_token_offset :: int
  rem_swa_token_offset :: int
  rem_mamba_slots :: "int option"
  req_states :: "(real \<times> int) list option"
  can_run_list :: "req list"
  preempt_list :: "req list"
  new_chunked_req :: "req option"
  log_hit_tokens :: int
  log_input_tokens :: int
  reprocessed_log_hit_tokens :: int
  reprocessed_log_input_tokens :: int
  log_device_hit_tokens :: int
  log_host_hit_tokens :: int
  log_storage_hit_tokens :: int
  log_replay_tokens :: int

type_synonym ('e, 'v) outcome = "(py_error + 'v) \<times> 'e adder \<times> req"

definition running_offset :: "adder_cfg \<Rightarrow> req \<Rightarrow> real" where
  "running_offset C r =
     real_of_int (min (max_new_tokens r - len (output_ids r)) (clip_max_new_tokens C)) * new_token_ratio C"

definition new_adder ::
    "adder_cfg \<Rightarrow> 'e env_ops \<Rightarrow> 'e \<Rightarrow> req list option \<Rightarrow> int \<Rightarrow> int option \<Rightarrow> int \<Rightarrow> int \<Rightarrow> 'e adder" where
  "new_adder C Op e rb rem_input rem_chunk mixed dllm_max_running =
     \<lparr> env = e, running = rb, rem_input_tokens = rem_input - mixed,
       rem_chunk_tokens = map_option (\<lambda>c. c - mixed) rem_chunk,
       rem_dllm_tokens = (case dllm_block_size C of None \<Rightarrow> 0 | Some b \<Rightarrow> dllm_max_running * b),
       rem_total_token_offset = real_of_int mixed
         + (case rb of None \<Rightarrow> 0 | Some rs \<Rightarrow> sum_list (map (running_offset C) rs)),
       cur_rem_token_offset = mixed, rem_swa_token_offset = 0,
       rem_mamba_slots =
         (if mamba_slot_cost C \<noteq> 0
          then Some (mamba_schedulable_size Op e
                     + (if is_hybrid_ssm_cache C then mamba_evictable_size Op e else 0))
          else None),
       req_states = None, can_run_list = [], preempt_list = [], new_chunked_req = None,
       log_hit_tokens = 0, log_input_tokens = 0, reprocessed_log_hit_tokens = 0,
       reprocessed_log_input_tokens = 0, log_device_hit_tokens = 0, log_host_hit_tokens = 0,
       log_storage_hit_tokens = 0, log_replay_tokens = 0 \<rparr>"

section \<open>Remaining budget\<close>

definition available_and_evictable :: "adder_cfg \<Rightarrow> 'e env_ops \<Rightarrow> 'e \<Rightarrow> int" where
  "available_and_evictable C Op e =
     (if is_all_swa C then swa_available_size Op e + swa_evictable_size Op e
      else if is_hybrid_swa C then full_available_size Op e + full_evictable_size Op e
      else if is_hybrid_ssm_cache C then available_size Op e + full_evictable_size Op e
      else available_size Op e + evictable_size Op e)"

definition rem_total_tokens :: "adder_cfg \<Rightarrow> 'e env_ops \<Rightarrow> 'e adder \<Rightarrow> real" where
  "rem_total_tokens C Op a =
     real_of_int (available_and_evictable C Op (env a)) - rem_total_token_offset a"

definition cur_rem_tokens :: "adder_cfg \<Rightarrow> 'e env_ops \<Rightarrow> 'e adder \<Rightarrow> int" where
  "cur_rem_tokens C Op a = available_and_evictable C Op (env a) - cur_rem_token_offset a"

definition rem_swa_tokens :: "'e env_ops \<Rightarrow> 'e adder \<Rightarrow> int" where
  "rem_swa_tokens Op a =
     swa_available_size Op (env a) + swa_evictable_size Op (env a) - rem_swa_token_offset a"

definition ceil_paged_tokens :: "adder_cfg \<Rightarrow> int \<Rightarrow> int" where
  "ceil_paged_tokens C t = ceil_align t (page_size C)"

definition swa_reserved_tokens :: "adder_cfg \<Rightarrow> int \<Rightarrow> int \<Rightarrow> int \<Rightarrow> int" where
  "swa_reserved_tokens C ext mx swa_host =
     min (ext + mx) (sliding_window_size C) + page_size C
     + (if 0 < swa_host then ceil_paged_tokens C swa_host else 0)"

definition swa_budget_for_req :: "adder_cfg \<Rightarrow> int option \<Rightarrow> int \<Rightarrow> int \<Rightarrow> int \<Rightarrow> int" where
  "swa_budget_for_req C chunk ext mx swa_host =
     (let alloc = (case chunk of None \<Rightarrow> ext | Some c \<Rightarrow> min ext c)
      in max (alloc - sliding_window_size C) 0 + swa_reserved_tokens C ext mx swa_host)"

definition swa_new_tokens :: "adder_cfg \<Rightarrow> req \<Rightarrow> int" where
  "swa_new_tokens C r = min (max (max_new_tokens r - len (output_ids r)) 0) (clip_max_new_tokens C)"

definition swa_chunk_cap :: "adder_cfg \<Rightarrow> 'e env_ops \<Rightarrow> 'e adder \<Rightarrow> int \<Rightarrow> int \<Rightarrow> int" where
  "swa_chunk_cap C Op a mx swa_host =
     (let cap = rem_swa_tokens Op a - swa_reserved_tokens C 0 mx swa_host
      in if cap \<le> 0 then 0 else floor_align cap (page_size C))"

definition swa_req_never_fits :: "adder_cfg \<Rightarrow> int option \<Rightarrow> int \<Rightarrow> int \<Rightarrow> int \<Rightarrow> bool" where
  "swa_req_never_fits C chunk ext mx swa_host \<longleftrightarrow> size_swa C \<le> swa_budget_for_req C chunk ext mx swa_host"

definition mamba_gap_budget_for_req :: "adder_cfg \<Rightarrow> req \<Rightarrow> int" where
  "mamba_gap_budget_for_req C r = (if mamba_slot_cost C \<noteq> 0 \<and> \<not> holds_mamba r then mamba_slot_cost C else 0)"

definition budget_state :: "adder_cfg \<Rightarrow> 'e env_ops \<Rightarrow> 'e adder \<Rightarrow> add_req_result" where
  "budget_state C Op a =
     (let nt1 = rem_total_tokens C Op a \<le> 0 \<or> cur_rem_tokens C Op a \<le> 0;
          nt2 = (if \<not> nt1 \<and> is_hybrid_swa C then rem_swa_tokens Op a \<le> 0 else nt1);
          nt3 = (case rem_mamba_slots a of
                   Some m \<Rightarrow> if \<not> nt2 then m \<le> 0 else nt2 | None \<Rightarrow> nt2)
      in if nt3 then NO_TOKEN
         else if rem_input_tokens a \<le> 0 then OTHER
         else if dllm_block_size C \<noteq> None then (if rem_dllm_tokens a \<le> 0 then OTHER else CONTINUE)
         else case rem_chunk_tokens a of
                Some c \<Rightarrow> if c \<le> 0 then OTHER else CONTINUE
              | None \<Rightarrow> CONTINUE)"

section \<open>Tile budget\<close>

definition admitted_extend_lens :: "adder_cfg \<Rightarrow> 'e adder \<Rightarrow> int list" where
  "admitted_extend_lens C a =
     map (\<lambda>r. case extend_input_len_attr C r of None \<Rightarrow> 0 | Some n \<Rightarrow> n) (can_run_list a)"

definition candidate_tile_metrics :: "adder_cfg \<Rightarrow> 'e adder \<Rightarrow> int \<Rightarrow> tile_metrics" where
  "candidate_tile_metrics C a cand =
     estimate_prefill_extend_tile_metrics (admitted_extend_lens C a @ [cand]) (tile_block_m C)"

definition check_prefill_tile_budget :: "adder_cfg \<Rightarrow> 'e adder \<Rightarrow> int \<Rightarrow> add_req_result option" where
  "check_prefill_tile_budget C a cand =
     (if \<not> is_hip C \<or> tile_budget C \<le> 0 then None
      else if can_run_list a = [] then None
      else let m = candidate_tile_metrics C a cand;
               v = (if tile_budget_legacy C then legacy_q_tiles m else compact_q_tiles m)
           in if v \<le> tile_budget C then None else Some OTHER)"

section \<open>Charging an admission\<close>

definition update_prefill_budget ::
    "adder_cfg \<Rightarrow> int \<Rightarrow> int \<Rightarrow> int \<Rightarrow> bool \<Rightarrow> int \<Rightarrow> 'e adder \<Rightarrow> 'e adder" where
  "update_prefill_budget C plen ext0 mx stain gap a =
     (let ext = ceil_paged_tokens C ext0 in
      a\<lparr> rem_total_token_offset := rem_total_token_offset a + real_of_int (ext + mx + page_size C + gap),
         cur_rem_token_offset := cur_rem_token_offset a + (ext + page_size C + gap),
         rem_mamba_slots := (if gap \<noteq> 0 then map_option (\<lambda>m. m - 1) (rem_mamba_slots a)
                             else rem_mamba_slots a),
         rem_input_tokens := rem_input_tokens a - ext,
         rem_swa_token_offset := rem_swa_token_offset a
           + (if is_hybrid_swa C then swa_budget_for_req C (rem_chunk_tokens a) ext mx 0 else 0),
         rem_dllm_tokens := (if dllm_block_size C \<noteq> None then rem_dllm_tokens a - ext
                             else rem_dllm_tokens a),
         rem_chunk_tokens := (if dllm_block_size C \<noteq> None then rem_chunk_tokens a
                              else map_option (\<lambda>c. c - ext) (rem_chunk_tokens a)),
         log_hit_tokens := log_hit_tokens a + plen,
         log_input_tokens := log_input_tokens a + ext,
         reprocessed_log_hit_tokens := reprocessed_log_hit_tokens a + (if stain then plen else 0),
         reprocessed_log_input_tokens := reprocessed_log_input_tokens a + (if stain then ext else 0) \<rparr>)"

definition account_prefill_cache_admission ::
    "adder_cfg \<Rightarrow> 'e env_ops \<Rightarrow> req \<Rightarrow> int \<Rightarrow> 'e adder \<Rightarrow> 'e adder" where
  "account_prefill_cache_admission C Op r plen a0 =
     (let a = (if encoder_swa_replay C \<and> (req_pool_idx r = None \<or> is_retracted r)
               then let t = min plen 128 in
                 a0\<lparr> log_replay_tokens := log_replay_tokens a0 + t,
                     rem_input_tokens := rem_input_tokens a0 - t,
                     rem_chunk_tokens := map_option (\<lambda>c. c - t) (rem_chunk_tokens a0) \<rparr>
               else a0)
      in if retracted_stain r then a\<lparr>env := discard_storage_prefetch Op (rid r) (env a)\<rparr>
         else
           let a1 = (if 0 < plen
                     then case split_cached_prefix_by_tier plen (materialized_host_hit_len r)
                                 (storage_hit_length r) (storage_hit_start r) (host_hit_is_storage r) of
                            (d, h, s) \<Rightarrow>
                              a\<lparr> log_device_hit_tokens := log_device_hit_tokens a + d,
                                 log_host_hit_tokens := log_host_hit_tokens a + h,
                                 log_storage_hit_tokens := log_storage_hit_tokens a + s \<rparr>
                     else a);
               f = fulfilled_storage_hit_len r plen;
               reason = (if f < storage_hit_length r
                         then Some (if needs_host_load_back r \<and> host_loaded_length r < host_hit_length r
                                    then ''device_capacity'' else ''shrunk'')
                         else None)
           in a1\<lparr>env := finish_storage_prefetch Op (rid r) f reason (env a1)\<rparr>)"

definition push_can_run :: "req \<Rightarrow> 'e adder \<Rightarrow> 'e adder" where
  "push_can_run r a = a\<lparr>can_run_list := can_run_list a @ [r]\<rparr>"

text \<open>
  The request object is shared between the caller, \<open>can_run_list\<close> and \<open>new_chunked_req\<close>:
  \<open>sync_req\<close> writes a later change of its fields through to them.
\<close>

definition sync_req :: "req \<Rightarrow> 'e adder \<Rightarrow> 'e adder" where
  "sync_req r a =
     a\<lparr> can_run_list := map (\<lambda>q. if rid q = rid r then r else q) (can_run_list a),
        new_chunked_req := map_option (\<lambda>q. if rid q = rid r then r else q) (new_chunked_req a) \<rparr>"

definition req_inc_lock_ref :: "adder_cfg \<Rightarrow> 'e env_ops \<Rightarrow> 'e adder \<times> req \<Rightarrow> 'e adder \<times> req" where
  "req_inc_lock_ref C Op ar =
     (case ar of (a, r) \<Rightarrow>
       let ((uuid, params), e') = inc_lock_ref Op (last_node r) (env a);
           r1 = (if is_hybrid_swa C then r\<lparr>swa_uuid_for_lock := uuid\<rparr> else r);
           r2 = r1\<lparr>skip_lock_node_ids := {}\<rparr>
       in (sync_req r2 (a\<lparr>env := e'\<rparr>), r2))"

definition negotiate_allows :: "adder_cfg \<Rightarrow> 'e env_ops \<Rightarrow> 'e adder \<Rightarrow> (py_error + bool) \<times> 'e adder" where
  "negotiate_allows C Op a =
     (if \<not> has_delayer C then (Inr True, a)
      else case running a of
             None \<Rightarrow> (Inl AttributeError, a)
           | Some rs \<Rightarrow> let (ok, e') = negotiate Op (length rs) (env a) in (Inr ok, a\<lparr>env := e'\<rparr>))"

section \<open>Diffusion requests\<close>

definition get_dllm_remain_tokens :: "adder_cfg \<Rightarrow> 'e env_ops \<Rightarrow> 'e adder \<Rightarrow> int" where
  "get_dllm_remain_tokens C Op a =
     (let bs = (case dllm_block_size C of Some b \<Rightarrow> b | None \<Rightarrow> 0);
          t = min (min (rem_dllm_tokens a) bs) (py_int (rem_total_tokens C Op a))
      in if t \<le> 0 then rem_dllm_tokens a else t)"

definition add_dllm_req :: "adder_cfg \<Rightarrow> 'e env_ops \<Rightarrow> int \<Rightarrow> 'e adder \<times> req \<Rightarrow> 'e adder \<times> req" where
  "add_dllm_req C Op plen ar =
     (case ar of (a, r) \<Rightarrow>
       let bs = (case dllm_block_size C of Some b \<Rightarrow> b | None \<Rightarrow> 0);
           clen = floor_align (min (rem_dllm_tokens a) bs) (page_size C);
           r1 = set_extend_range plen (plen + clen) r;
           a1 = push_can_run r1 a;
           a2 = update_prefill_budget C plen clen 0 (retracted_stain r1) (mamba_gap_budget_for_req C r1) a1
       in (account_prefill_cache_admission C Op r1 plen a2, r1))"

definition cand_extend_len :: "req \<Rightarrow> int" where
  "cand_extend_len r = len (full_untruncated_fill_ids r) - len (prefix_indices r)"

text \<open>Shared by the staging and the chunked admission: the extension is cut to \<open>t\<close> tokens.\<close>

definition admit_cut :: "adder_cfg \<Rightarrow> int \<Rightarrow> 'e adder \<times> req \<Rightarrow> 'e adder \<times> req" where
  "admit_cut C t ar =
     (case ar of (a, r) \<Rightarrow>
       let cand = cand_extend_len r;
           n = min cand t;
           plen = len (prefix_indices r);
           r1 = set_extend_range plen (plen + n) r;
           mx = (if cand > t then 0 else min (max_new_tokens r) (clip_max_new_tokens C))
       in (update_prefill_budget C 0 n mx (retracted_stain r1) (mamba_gap_budget_for_req C r1)
             (push_can_run r1 a), r1))"

definition add_dllm_staging_req ::
    "adder_cfg \<Rightarrow> 'e env_ops \<Rightarrow> 'e adder \<Rightarrow> req \<Rightarrow> ('e, add_req_result) outcome" where
  "add_dllm_staging_req C Op a r =
     (if dllm_block_size C = None then (Inl AssertionError, a, r)
      else let t = get_dllm_remain_tokens C Op a in
        if t \<le> 0 then (Inr NO_TOKEN, a, r)
        else if dllm_incomplete r \<and> cand_extend_len r > t then (Inr NO_TOKEN, a, r)
        else let (a', r') = admit_cut C t (a, r) in
          (Inr (if get_dllm_remain_tokens C Op a' \<le> 0 then NO_TOKEN else CONTINUE), a', r'))"

section \<open>The chunked request of the previous batch\<close>

text \<open>The value is whether the request is still unfinished and has to be carried on.\<close>

definition chunked_rem_tokens :: "adder_cfg \<Rightarrow> 'e env_ops \<Rightarrow> 'e adder \<Rightarrow> py_error + int option" where
  "chunked_rem_tokens C Op a =
     (if dllm_block_size C \<noteq> None then Inr (Some (get_dllm_remain_tokens C Op a))
      else case rem_chunk_tokens a of
             None \<Rightarrow> Inl TypeError
           | Some c \<Rightarrow>
               let t0 = min c (py_int (rem_total_tokens C Op a));
                   t = (if is_hybrid_swa C then min t0 (rem_swa_tokens Op a - page_size C) else t0)
               in if t \<le> 0 then (if is_hybrid_swa C then Inr None else Inr (Some c)) else Inr (Some t))"

definition add_chunked_req ::
    "adder_cfg \<Rightarrow> 'e env_ops \<Rightarrow> 'e adder \<Rightarrow> req \<Rightarrow> ('e, bool) outcome" where
  "add_chunked_req C Op a r =
     (case chunked_rem_tokens C Op a of
        Inl e \<Rightarrow> (Inl e, a, r)
      | Inr None \<Rightarrow> (Inr True, a, r)
      | Inr (Some t) \<Rightarrow>
          (case negotiate_allows C Op a of
             (Inl e, a1) \<Rightarrow> (Inl e, a1, r)
           | (Inr _, a1) \<Rightarrow>
               let (a', r') = admit_cut C t (a1, r) in (Inr (cand_extend_len r > t), a', r')))"

section \<open>Requests that ignore the end token\<close>

definition state_of :: "adder_cfg \<Rightarrow> req \<Rightarrow> real \<times> int" where
  "state_of C r =
     (real_of_int (max_new_tokens r) * (if ignore_eos r then 1 else new_token_ratio C)
        - real_of_int (len (output_ids r)),
      len (origin_input_ids r) + len (output_ids r))"

definition append_state :: "adder_cfg \<Rightarrow> (real \<times> int) list \<Rightarrow> req \<Rightarrow> (real \<times> int) list" where
  "append_state C xs r = (let s = state_of C r in if fst s \<le> 0 then xs else xs @ [s])"

text \<open>
  Python's loop variable keeps its last value: when no entry is at least as long, the index is the
  one of the last entry (or 0), not the end of the list.
\<close>

fun insert_index :: "real \<Rightarrow> (real \<times> int) list \<Rightarrow> nat" where
  "insert_index t [] = 0"
| "insert_index t [x] = 0"
| "insert_index t (x # y # xs) = (if t \<le> fst x then 0 else Suc (insert_index t (y # xs)))"

definition insert_state :: "adder_cfg \<Rightarrow> (real \<times> int) list \<Rightarrow> req \<Rightarrow> (real \<times> int) list" where
  "insert_state C xs r =
     (let s = state_of C r in
      if fst s \<le> 0 then xs
      else let i = insert_index (fst s) xs in take i xs @ s # drop i xs)"

definition with_req_states :: "adder_cfg \<Rightarrow> req \<Rightarrow> 'e adder \<Rightarrow> 'e adder" where
  "with_req_states C r a =
     (case req_states a of
        None \<Rightarrow>
          let xs = append_state C [] r;
              ys = (case running a of None \<Rightarrow> xs | Some rs \<Rightarrow> foldl (append_state C) xs rs);
              zs = foldl (append_state C) ys (can_run_list a)
          in a\<lparr>req_states := Some (sort_key fst zs)\<rparr>
      | Some xs \<Rightarrow> a\<lparr>req_states := Some (insert_state C xs r)\<rparr>)"

fun min_free_ok :: "real \<Rightarrow> (real \<times> int) list \<Rightarrow> bool" where
  "min_free_ok rem [] = True"
| "min_free_ok rem ((left, occ) # xs) =
     (let bs = real (length xs) + 1 in
      \<not> (rem - left * bs \<le> 1 * bs) \<and> min_free_ok (rem + real_of_int occ) xs)"

definition admit_whole_no_lock :: "adder_cfg \<Rightarrow> 'e adder \<times> req \<Rightarrow> 'e adder \<times> req" where
  "admit_whole_no_lock C ar =
     (case ar of (a, r) \<Rightarrow>
       let plen = len (prefix_indices r);
           stop = len (full_untruncated_fill_ids r);
           r1 = set_extend_range plen stop r
       in (update_prefill_budget C 0 (stop - plen) (min (max_new_tokens r) (clip_max_new_tokens C))
             (retracted_stain r1) (mamba_gap_budget_for_req C r1) (push_can_run r1 a), r1))"

definition admit_ignore_eos ::
    "adder_cfg \<Rightarrow> 'e env_ops \<Rightarrow> 'e adder \<Rightarrow> req \<Rightarrow> ('e, add_req_result) outcome" where
  "admit_ignore_eos C Op a r =
     (if dllm_block_size C \<noteq> None then
        if rem_dllm_tokens a \<le> 0 then (Inr OTHER, a, r)
        else case check_prefill_tile_budget C a (cand_extend_len r) of
               Some s \<Rightarrow> (Inr s, a, r)
             | None \<Rightarrow> let (a', r') = add_dllm_req C Op 0 (a, r) in (Inr (budget_state C Op a'), a', r')
      else if rem_chunk_tokens a = None \<or> cand_extend_len r \<le> the (rem_chunk_tokens a) then
        case check_prefill_tile_budget C a (cand_extend_len r) of
          Some s \<Rightarrow> (Inr s, a, r)
        | None \<Rightarrow> let (a', r') = admit_whole_no_lock C (a, r) in (Inr (budget_state C Op a'), a', r')
      else
        let chunk = the (rem_chunk_tokens a) in
        if chunk \<le> 0 then (Inr OTHER, a, r)
        else let clen = (if share_tokens C \<noteq> 0 \<and> share_tokens C < chunk then share_tokens C else chunk) in
          case check_prefill_tile_budget C a clen of
            Some s \<Rightarrow> (Inr s, a, r)
          | None \<Rightarrow>
              if prefix_indices r \<noteq> [] then (Inl AssertionError, a, r)
              else let r1 = set_extend_range 0 clen r;
                       a' = update_prefill_budget C 0 clen 0 (retracted_stain r1)
                              (mamba_gap_budget_for_req C r1)
                              ((push_can_run r1 a)\<lparr>new_chunked_req := Some r1\<rparr>)
                   in (Inr (budget_state C Op a'), a', r1))"

definition add_one_req_ignore_eos ::
    "adder_cfg \<Rightarrow> 'e env_ops \<Rightarrow> 'e adder \<Rightarrow> req \<Rightarrow> ('e, add_req_result) outcome" where
  "add_one_req_ignore_eos C Op a r =
     (let cand = cand_extend_len r;
          paged = ceil_paged_tokens C cand + mamba_gap_budget_for_req C r
      in if min (real_of_int (cur_rem_tokens C Op a)) (rem_total_tokens C Op a) < real_of_int paged
         then (Inr NO_TOKEN, a, r)
         else if is_hybrid_swa C \<and> rem_swa_tokens Op a
                   < swa_budget_for_req C (rem_chunk_tokens a) cand (swa_new_tokens C r) 0
         then (Inr NO_TOKEN, a, r)
         else let a1 = with_req_states C r a in
           if \<not> is_hybrid_swa C
              \<and> \<not> min_free_ok (real_of_int (cur_rem_tokens C Op a1 - ceil_paged_tokens C cand))
                    (the (req_states a1))
           then (Inr NO_TOKEN, a1, r)
           else case negotiate_allows C Op a1 of
                  (Inl e, a2) \<Rightarrow> (Inl e, a2, r)
                | (Inr ok, a2) \<Rightarrow>
                    if \<not> ok then (Inr OTHER, a2, r) else admit_ignore_eos C Op a2 r)"

section \<open>Admission of a waiting request\<close>

definition lock_node ::
    "adder_cfg \<Rightarrow> 'e env_ops \<Rightarrow> nat \<Rightarrow> ('e adder \<Rightarrow> req \<Rightarrow> ('e, 'v) outcome) \<Rightarrow> 'e adder \<Rightarrow> req
      \<Rightarrow> ('e, 'v) outcome" where
  "lock_node C Op node body a r =
     (let ((uuid, params), e1) = inc_lock_ref Op node (env a);
          dec = (if is_tree_cache C then Some params else None);
          (out, a', r') = body (a\<lparr>env := e1\<rparr>) r
      in (out, a'\<lparr>env := dec_lock_ref Op node dec (env a')\<rparr>, r'))"

text \<open>
  The gate on the sliding-window pool: \<open>None\<close> rejects, \<open>Some l\<close> lets the request pass with the
  chunk limit \<open>l\<close> (the incoming limit unless the pool forces a smaller chunk).
\<close>

definition swa_gate ::
    "adder_cfg \<Rightarrow> 'e env_ops \<Rightarrow> 'e adder \<Rightarrow> req \<Rightarrow> int \<Rightarrow> int option \<Rightarrow> int option option" where
  "swa_gate C Op a r real_input limit =
     (if \<not> is_hybrid_swa C then Some limit
      else let need = swa_budget_for_req C (rem_chunk_tokens a) real_input (swa_new_tokens C r)
                        (swa_host_hit_length r)
        in if need < rem_swa_tokens Op a then Some limit
           else if \<not> swa_req_never_fits C (rem_chunk_tokens a) real_input (swa_new_tokens C r)
                       (swa_host_hit_length r) then None
           else let cap = swa_chunk_cap C Op a (swa_new_tokens C r) (swa_host_hit_length r)
             in case rem_chunk_tokens a of
                  None \<Rightarrow> None
                | Some c \<Rightarrow> if cap \<le> 0 then None else Some (Some (min c cap)))"

definition load_back_step :: "'e env_ops \<Rightarrow> 'e adder \<times> req \<Rightarrow> 'e adder \<times> req" where
  "load_back_step Op ar =
     (case ar of (a, r) \<Rightarrow>
       if \<not> needs_host_load_back r then (a, r)
       else let ((ids, node), e') = init_load_back Op r (env a);
                pre = prefix_indices r @ ids
            in (a\<lparr>env := e'\<rparr>,
                r\<lparr>last_node := node, host_loaded_length := len ids, prefix_indices := pre,
                  cache_protected_len := len pre\<rparr>))"

definition admit_whole ::
    "adder_cfg \<Rightarrow> 'e env_ops \<Rightarrow> int \<Rightarrow> 'e adder \<times> req \<Rightarrow> 'e adder \<times> req" where
  "admit_whole C Op input ar =
     (case ar of (a, r) \<Rightarrow>
       let plen = len (prefix_indices r);
           r1 = set_extend_range plen (len (full_untruncated_fill_ids r)) r;
           (a2, r2) = req_inc_lock_ref C Op (push_can_run r1 a, r1);
           a3 = update_prefill_budget C plen input (min (max_new_tokens r2) (clip_max_new_tokens C))
                  (retracted_stain r2) (mamba_gap_budget_for_req C r2) a2
       in (account_prefill_cache_admission C Op r2 plen a3, r2))"

text \<open>The length of the chunk that is admitted, or \<open>None\<close> when not even one page is.\<close>

definition chunk_len :: "adder_cfg \<Rightarrow> int \<Rightarrow> int option \<Rightarrow> int \<Rightarrow> int option" where
  "chunk_len C limit align plen =
     (let t = floor_align limit (page_size C) in
      if t \<le> 0 then None
      else let cut = (case align of
                        None \<Rightarrow> Some t
                      | Some al \<Rightarrow> if t < al then None else Some (al * (t div al)))
        in case cut of
             None \<Rightarrow> None
           | Some t1 \<Rightarrow>
               let t2 = floor_align (t1 + plen) (page_size C) - plen
               in if t2 \<le> 0 then None else Some t2)"

definition admit_chunk ::
    "adder_cfg \<Rightarrow> 'e env_ops \<Rightarrow> int \<Rightarrow> 'e adder \<times> req \<Rightarrow> 'e adder \<times> req" where
  "admit_chunk C Op clen ar =
     (case ar of (a, r) \<Rightarrow>
       let plen = len (prefix_indices r);
           r1 = set_extend_range plen (plen + clen) r;
           (a2, r2) = req_inc_lock_ref C Op ((push_can_run r1 a)\<lparr>new_chunked_req := Some r1\<rparr>, r1);
           a3 = update_prefill_budget C plen clen 0 (retracted_stain r2)
                  (mamba_gap_budget_for_req C r2) a2
       in (account_prefill_cache_admission C Op r2 plen a3, r2))"

text \<open>What follows the load-back: the branch on how much of the request is admitted.\<close>

definition admit_loaded ::
    "adder_cfg \<Rightarrow> 'e env_ops \<Rightarrow> int option \<Rightarrow> int option \<Rightarrow> 'e adder \<Rightarrow> req
      \<Rightarrow> (py_error + add_req_result option) \<times> 'e adder \<times> req" where
  "admit_loaded C Op limit align a r =
     (let plen = len (prefix_indices r);
          input = ceil_paged_tokens C (cand_extend_len r)
      in if rem_chunk_tokens a = None \<and> can_run_list a \<noteq> [] \<and> rem_input_tokens a \<le> input
         then (Inr (Some OTHER), a, r)
         else if dllm_block_size C \<noteq> None then
           (if rem_dllm_tokens a \<le> 0 then (Inr (Some OTHER), a, r)
            else if align \<noteq> None then (Inl AssertionError, a, r)
            else case check_prefill_tile_budget C a input of
                   Some s \<Rightarrow> (Inr (Some s), a, r)
                 | None \<Rightarrow> let (a', r') = req_inc_lock_ref C Op (add_dllm_req C Op plen (a, r))
                           in (Inr None, a', r'))
         else if limit = None \<or> input \<le> the limit then
           (case check_prefill_tile_budget C a input of
              Some s \<Rightarrow> (Inr (Some s), a, r)
            | None \<Rightarrow> let (a', r') = admit_whole C Op input (a, r) in (Inr None, a', r'))
         else
           (case chunk_len C (the limit) align plen of
              None \<Rightarrow> (Inr (Some OTHER), a, r)
            | Some clen \<Rightarrow>
                (case check_prefill_tile_budget C a clen of
                   Some s \<Rightarrow> (Inr (Some s), a, r)
                 | None \<Rightarrow> let (a', r') = admit_chunk C Op clen (a, r) in (Inr None, a', r'))))"

text \<open>The body under the admission lock; \<open>Inr None\<close> is falling off its end after an admission.\<close>

definition admit_locked ::
    "adder_cfg \<Rightarrow> 'e env_ops \<Rightarrow> int \<Rightarrow> int \<Rightarrow> int option \<Rightarrow> int option \<Rightarrow> 'e adder \<Rightarrow> req
      \<Rightarrow> (py_error + add_req_result option) \<times> 'e adder \<times> req" where
  "admit_locked C Op total_tokens real_input limit align a r =
     (if rem_total_tokens C Op a \<le> real_of_int total_tokens then (Inr (Some NO_TOKEN), a, r)
      else case swa_gate C Op a r real_input limit of
             None \<Rightarrow> (Inr (Some NO_TOKEN), a, r)
           | Some limit' \<Rightarrow>
               (case negotiate_allows C Op a of
                  (Inl e, a1) \<Rightarrow> (Inl e, a1, r)
                | (Inr ok, a1) \<Rightarrow>
                    if \<not> ok then (Inr (Some OTHER), a1, r)
                    else let (a2, r2) = load_back_step Op (a1, r)
                         in admit_loaded C Op limit' align a2 r2))"

definition needed_tokens :: "adder_cfg \<Rightarrow> req \<Rightarrow> int" where
  "needed_tokens C r =
     cand_extend_len r + swa_new_tokens C r + page_size C + mamba_gap_budget_for_req C r"

text \<open>Falling off the end of the locked body leads to the final \<open>return self.budget_state()\<close>.\<close>

definition close_admission ::
    "adder_cfg \<Rightarrow> 'e env_ops \<Rightarrow> (py_error + add_req_result option) \<times> 'e adder \<times> req
      \<Rightarrow> ('e, add_req_result) outcome" where
  "close_admission C Op x =
     (case x of (out, a, r) \<Rightarrow>
       (case out of Inl e \<Rightarrow> Inl e | Inr (Some s) \<Rightarrow> Inr s | Inr None \<Rightarrow> Inr (budget_state C Op a), a, r))"

definition add_one_req ::
    "adder_cfg \<Rightarrow> 'e env_ops \<Rightarrow> int option \<Rightarrow> 'e adder \<Rightarrow> req \<Rightarrow> ('e, add_req_result) outcome" where
  "add_one_req C Op align a r =
     (if cp_in_seq_split C \<and> 1 \<le> length (can_run_list a) then (Inr OTHER, a, r)
      else if (case prefill_max_requests C of None \<Rightarrow> False | Some x \<Rightarrow> x \<le> len (can_run_list a))
      then (Inr OTHER, a, r)
      else if ignore_eos r \<and> tree_cache_disabled C then add_one_req_ignore_eos C Op a r
      else
        let total_tokens = needed_tokens C r;
            real_input = ceil_paged_tokens C (cand_extend_len r - host_hit_length r)
        in if rem_total_tokens C Op a \<le> real_of_int total_tokens then (Inr NO_TOKEN, a, r)
           else case swa_gate C Op a r real_input (rem_chunk_tokens a) of
                  None \<Rightarrow> (Inr NO_TOKEN, a, r)
                | Some limit \<Rightarrow>
                    if rem_chunk_tokens a = None \<and> can_run_list a \<noteq> [] \<and> rem_input_tokens a \<le> real_input
                    then (Inr OTHER, a, r)
                    else close_admission C Op
                           (lock_node C Op (last_node r) (admit_locked C Op total_tokens real_input limit align) a r))"

section \<open>Preemption\<close>

definition priority_sign :: "adder_cfg \<Rightarrow> int" where
  "priority_sign C = (if low_priority_first C then 1 else - 1)"

definition preemption_order :: "adder_cfg \<Rightarrow> 'e adder \<Rightarrow> req list \<Rightarrow> req list" where
  "preemption_order C a rs =
     sort_key (\<lambda>x. (priority x * (- priority_sign C), - wait_entry_time x))
       (filter (\<lambda>x. rid x \<notin> rid ` set (preempt_list a) \<and> \<not> req_finished x) rs)"

fun collect_preemptible ::
    "adder_cfg \<Rightarrow> req \<Rightarrow> req list \<Rightarrow> real \<Rightarrow> req list \<Rightarrow> req list \<times> real" where
  "collect_preemptible C r [] need acc = (acc, need)"
| "collect_preemptible C r (x # xs) need acc =
     (if preemption_threshold C < (priority r - priority x) * (- priority_sign C) then
        (let need' = need - running_offset C x in
         if need' \<le> 0 then (acc @ [x], need') else collect_preemptible C r xs need' (acc @ [x]))
      else (acc, need))"

text \<open>\<open>i\<close> is the index in the running batch, \<open>released\<close> the number released so far, \<open>n\<close> its size.\<close>

fun release_preempted ::
    "adder_cfg \<Rightarrow> 'e env_ops \<Rightarrow> nat set \<Rightarrow> nat \<Rightarrow> nat \<Rightarrow> nat \<Rightarrow> req list \<Rightarrow> 'e adder \<Rightarrow> 'e adder \<times> nat list" where
  "release_preempted C Op P n i released [] a = (a, [])"
| "release_preempted C Op P n i released (x # xs) a =
     (if rid x \<in> P
      then release_preempted C Op P n (Suc i) (Suc released) xs
             (a\<lparr> rem_total_token_offset := rem_total_token_offset a - running_offset C x,
                 env := release_req Op x i (n - Suc released) (env a) \<rparr>)
      else let (a', keep) = release_preempted C Op P n (Suc i) released xs a in (a', i # keep))"

definition preempt_to_schedule ::
    "adder_cfg \<Rightarrow> 'e env_ops \<Rightarrow> 'e adder \<Rightarrow> req \<Rightarrow> (py_error + bool) \<times> 'e adder" where
  "preempt_to_schedule C Op a r =
     (case running a of
        None \<Rightarrow> (Inl AttributeError, a)
      | Some rs \<Rightarrow>
          let need0 = real_of_int (cand_extend_len r + min (max_new_tokens r) (clip_max_new_tokens C))
                      - rem_total_tokens C Op a;
              (victims, need) = collect_preemptible C r (preemption_order C a rs) need0 []
          in if victims = [] \<or> 0 < need then (Inr False, a)
             else let (a', keep) = release_preempted C Op (rid ` set victims) (length rs) 0 0 rs a
               in (Inr True,
                   a'\<lparr> running := Some (map (\<lambda>i. rs ! i) keep),
                       preempt_list := preempt_list a' @ victims \<rparr>))"

end
