(* ===== verification/PrefillFacts.thy ===== *)
theory PrefillFacts
  imports PrefillAdder SchedPolicy
begin

text \<open>
  What the admission of \<open>PrefillAdder\<close> guarantees: the bounds of the sliding-window budget, the
  meaning of the budget state, what an admission charges and how far it can overcommit, the chunk
  lengths, the balance of the admission lock, the gate for requests without an end token and
  preemption. A small concrete framework at the end instantiates the parameters.
\<close>

section \<open>A concrete framework for the examples\<close>

definition demo_cfg :: adder_cfg where
  "demo_cfg = \<lparr>page_size = 4, tile_block_m = 64, new_token_ratio = 1 / 2, is_all_swa = False,
     is_hybrid_swa = True, is_hybrid_ssm_cache = False, mamba_slot_cost = 0, share_tokens = 0,
     dllm_block_size = None, preemption_threshold = 0, cp_in_seq_split = False,
     prefill_max_requests = None, has_delayer = False, clip_max_new_tokens = 4096, is_hip = False,
     tile_budget = 0, tile_budget_legacy = False, encoder_swa_replay = False,
     low_priority_first = False, tree_cache_disabled = False, is_tree_cache = True,
     sliding_window_size = 8, size_swa = 64, extend_input_len_attr = (\<lambda>_. None)\<rparr>"

text \<open>The state counts the locks of each node.\<close>

definition demo_ops :: "(nat \<Rightarrow> int) env_ops" where
  "demo_ops = \<lparr>available_size = (\<lambda>_. 100), full_available_size = (\<lambda>_. 100),
     swa_available_size = (\<lambda>_. 60), evictable_size = (\<lambda>_. 0), full_evictable_size = (\<lambda>_. 0),
     swa_evictable_size = (\<lambda>_. 0), mamba_schedulable_size = (\<lambda>_. 0), mamba_evictable_size = (\<lambda>_. 0),
     inc_lock_ref = (\<lambda>n e. ((Some n, n), e(n := e n + 1))),
     dec_lock_ref = (\<lambda>n p e. e(n := e n - 1)),
     init_load_back = (\<lambda>r e. (([], last_node r), e)), negotiate = (\<lambda>n e. (True, e)),
     discard_storage_prefetch = (\<lambda>n e. e), finish_storage_prefetch = (\<lambda>n k s e. e),
     release_req = (\<lambda>r i k e. e)\<rparr>"

definition demo_adder :: "(nat \<Rightarrow> int) adder" where
  "demo_adder = new_adder demo_cfg demo_ops (\<lambda>_. 0) (Some []) 64 (Some 16) 0 0"

lemmas demo_adder_simps = demo_cfg_def demo_ops_def demo_adder_def new_adder_def demo_req_def

section \<open>Sliding-window budget\<close>

lemma ceil_paged_ge: "0 < page_size C \<Longrightarrow> t \<le> ceil_paged_tokens C t"
  and ceil_paged_less: "0 < page_size C \<Longrightarrow> ceil_paged_tokens C t < t + page_size C"
  by (simp_all add: ceil_paged_tokens_def ceil_align_ge ceil_align_less)

text \<open>The sliding-window budget of a request covers what its next chunk allocates plus a page,
  and never reserves more than its whole extension, its decode tokens, one page and the load-back.\<close>

theorem swa_budget_bounds:
  assumes "0 < page_size C" "0 \<le> ext" "0 \<le> mx" "0 \<le> sliding_window_size C" "0 \<le> host"
  shows "(case chunk of None \<Rightarrow> ext | Some c \<Rightarrow> min ext c) + page_size C \<le> swa_budget_for_req C chunk ext mx host
    \<and> swa_budget_for_req C chunk ext mx host \<le> ext + mx + page_size C + ceil_paged_tokens C host
    \<and> min (ext + mx) (sliding_window_size C) < swa_budget_for_req C chunk ext mx host"
  using assms ceil_paged_ge [OF assms(1), of host]
  by (cases chunk) (auto simp: swa_budget_for_req_def swa_reserved_tokens_def Let_def min_def max_def)

theorem swa_budget_bounds_witness:
  "(case Some 16 of None \<Rightarrow> 40 | Some c \<Rightarrow> min 40 c) + page_size demo_cfg \<le> swa_budget_for_req demo_cfg (Some 16) 40 10 5
    \<and> swa_budget_for_req demo_cfg (Some 16) 40 10 5 \<le> 40 + 10 + page_size demo_cfg + ceil_paged_tokens demo_cfg 5
    \<and> min (40 + 10) (sliding_window_size demo_cfg) < swa_budget_for_req demo_cfg (Some 16) 40 10 5"
  by (rule swa_budget_bounds) (simp_all add: demo_cfg_def)

text \<open>The escape chunk is the largest page-aligned length that leaves the decode window and the
  load-back reserved in the sliding-window pool; it is 0 exactly when not even one page is left.\<close>

theorem swa_chunk_cap_greatest:
  assumes "0 < page_size C"
  shows "page_size C dvd swa_chunk_cap C Op a mx host \<and> 0 \<le> swa_chunk_cap C Op a mx host
    \<and> (0 < swa_chunk_cap C Op a mx host \<longrightarrow>
         swa_chunk_cap C Op a mx host + swa_reserved_tokens C 0 mx host \<le> rem_swa_tokens Op a)
    \<and> (\<forall>c. page_size C dvd c \<and> 0 \<le> c \<and> c + swa_reserved_tokens C 0 mx host \<le> rem_swa_tokens Op a
         \<longrightarrow> c \<le> swa_chunk_cap C Op a mx host)"
proof -
  let ?cap = "rem_swa_tokens Op a - swa_reserved_tokens C 0 mx host"
  have le: "floor_align ?cap (page_size C) \<le> ?cap" by (rule floor_align_le [OF assms])
  have nn: "0 \<le> floor_align ?cap (page_size C)" if "\<not> ?cap \<le> 0"
    using that assms by (simp add: floor_align_def pos_imp_zdiv_nonneg_iff)
  have "c \<le> floor_align ?cap (page_size C)" if "page_size C dvd c" "c \<le> ?cap" for c
  proof -
    have "floor_align c (page_size C) \<le> floor_align ?cap (page_size C)"
      by (rule floor_align_mono [OF assms that(2)])
    moreover have "floor_align c (page_size C) = c" using that(1) by (simp add: floor_align_def)
    ultimately show ?thesis by simp
  qed
  then show ?thesis using le nn by (auto simp: swa_chunk_cap_def Let_def)
qed

theorem swa_chunk_cap_greatest_witness:
  "page_size demo_cfg dvd swa_chunk_cap demo_cfg demo_ops demo_adder 3 0
    \<and> 0 \<le> swa_chunk_cap demo_cfg demo_ops demo_adder 3 0"
proof -
  have "0 < page_size demo_cfg" by (simp add: demo_cfg_def)
  from swa_chunk_cap_greatest [OF this] show ?thesis by blast
qed

section \<open>Budget state\<close>

text \<open>More requests may be added exactly when every budget that applies still has room, and
  exhaustion of a memory budget takes precedence over exhaustion of the batch limits.\<close>

theorem budget_state_iff:
  "(budget_state C Op a = CONTINUE \<longleftrightarrow>
      0 < rem_total_tokens C Op a \<and> 0 < cur_rem_tokens C Op a
      \<and> (is_hybrid_swa C \<longrightarrow> 0 < rem_swa_tokens Op a)
      \<and> (\<forall>m. rem_mamba_slots a = Some m \<longrightarrow> 0 < m)
      \<and> 0 < rem_input_tokens a
      \<and> (if dllm_block_size C \<noteq> None then 0 < rem_dllm_tokens a
         else \<forall>c. rem_chunk_tokens a = Some c \<longrightarrow> 0 < c))
    \<and> (budget_state C Op a = NO_TOKEN \<longleftrightarrow>
      rem_total_tokens C Op a \<le> 0 \<or> cur_rem_tokens C Op a \<le> 0
      \<or> is_hybrid_swa C \<and> rem_swa_tokens Op a \<le> 0
      \<or> (\<exists>m. rem_mamba_slots a = Some m \<and> m \<le> 0))"
  by (auto simp: budget_state_def Let_def not_le split: option.splits if_splits)

theorem budget_state_iff_witness:
  "budget_state demo_cfg demo_ops demo_adder = CONTINUE"
  by (simp add: budget_state_iff [THEN conjunct1] rem_total_tokens_def cur_rem_tokens_def
      rem_swa_tokens_def available_and_evictable_def demo_adder_simps)

section \<open>Chunk lengths\<close>

text \<open>An admitted chunk is positive, fits the chunk limit, ends on a page boundary and, when an
  alignment is asked for, is no longer than the aligned limit.\<close>

theorem chunk_len_sound:
  assumes "0 < page_size C" "chunk_len C limit align plen = Some t" "\<And>al. align = Some al \<Longrightarrow> 0 < al"
  shows "0 < t \<and> t \<le> limit \<and> page_size C dvd plen + t
    \<and> (\<forall>al. align = Some al \<longrightarrow> t \<le> al * (floor_align limit (page_size C) div al)
         \<and> (page_size C dvd plen \<and> page_size C dvd al \<longrightarrow> al dvd t))"
proof -
  let ?P = "page_size C"
  let ?f = "floor_align limit ?P"
  have fl: "?f \<le> limit" by (rule floor_align_le [OF assms(1)])
  have shrink: "floor_align (u + plen) ?P - plen \<le> u" for u
    using floor_align_le [OF assms(1), of "u + plen"] by simp
  have aligned: "?P dvd plen + (floor_align (u + plen) ?P - plen)" for u by simp
  show ?thesis
  proof (cases align)
    case None
    then have "t = floor_align (?f + plen) ?P - plen" "0 < t"
      using assms(2) by (auto simp: chunk_len_def Let_def split: if_splits)
    then show ?thesis using None shrink [of ?f] aligned [of ?f] fl by auto
  next
    case (Some al)
    then have al: "0 < al" using assms(3) by blast
    let ?u = "al * (?f div al)"
    have t: "t = floor_align (?u + plen) ?P - plen" "0 < t"
      using assms(2) Some by (auto simp: chunk_len_def Let_def split: if_splits)
    have "?u \<le> ?f" using floor_align_le [OF al, of ?f] by (simp add: floor_align_def mult.commute)
    moreover have "al dvd t" if p: "?P dvd plen" "?P dvd al"
    proof -
      have "?P dvd ?u + plen" using p by simp
      then have "floor_align (?u + plen) ?P = ?u + plen" by (simp add: floor_align_def)
      then show ?thesis using t by simp
    qed
    ultimately show ?thesis using Some t shrink [of ?u] aligned [of ?u] fl by auto
  qed
qed

theorem chunk_len_sound_witness:
  "chunk_len demo_cfg 15 (Some 8) 4 = Some 8 \<and> (8::int) \<le> 15 \<and> page_size demo_cfg dvd 4 + 8"
proof
  show c: "chunk_len demo_cfg 15 (Some 8) 4 = Some 8"
    by (simp add: chunk_len_def demo_cfg_def floor_align_def)
  have "0 < page_size demo_cfg" by (simp add: demo_cfg_def)
  moreover have "\<And>al. Some 8 = Some al \<Longrightarrow> (0::int) < al" by simp
  ultimately show "(8::int) \<le> 15 \<and> page_size demo_cfg dvd 4 + 8"
    using chunk_len_sound [OF _ c] by blast
qed

section \<open>Requests that ignore the end token\<close>

definition insert_at :: "real \<times> int \<Rightarrow> (real \<times> int) list \<Rightarrow> (real \<times> int) list" where
  "insert_at s xs = (let i = insert_index (fst s) xs in take i xs @ s # drop i xs)"

lemma insert_at_simps [simp]:
  "insert_at s [] = [s]"
  "insert_at s [x] = [s, x]"
  "insert_at s (x # y # xs) = (if fst s \<le> fst x then s # x # y # xs else x # insert_at s (y # xs))"
  by (simp_all add: insert_at_def Let_def)

lemma set_insert_at [simp]: "set (insert_at s xs) = insert s (set xs)"
  by (induction "fst s" xs rule: insert_index.induct) auto

lemma insert_at_sorted_iff:
  "sorted (map fst xs) \<Longrightarrow> sorted (map fst (insert_at s xs)) \<longleftrightarrow> xs = [] \<or> fst s \<le> fst (last xs)"
proof (induction "fst s" xs rule: insert_index.induct)
  case (3 x y xs)
  show ?case
  proof (cases "fst s \<le> fst x")
    case True
    moreover have "fst x \<le> fst (last (y # xs))" using 3(2) by simp
    ultimately show ?thesis using 3(2) by auto
  next
    case False
    then have "sorted (map fst (insert_at s (x # y # xs)))
        \<longleftrightarrow> sorted (map fst (insert_at s (y # xs)))"
      using 3(2) by auto
    then show ?thesis using 3 False by simp
  qed
qed auto

text \<open>Inserting a request into the sorted list of remaining tokens keeps it sorted exactly when
  the request is not the longest one; a new longest request lands before the last entry, because
  the loop index stops there.\<close>

theorem insert_state_sorted_iff:
  assumes "sorted (map fst xs)" "0 < fst (state_of C r)"
  shows "sorted (map fst (insert_state C xs r)) \<longleftrightarrow> xs = [] \<or> fst (state_of C r) \<le> fst (last xs)"
  using insert_at_sorted_iff [OF assms(1), of "state_of C r"] assms(2)
  by (simp add: insert_state_def insert_at_def Let_def)

theorem insert_state_sorted_iff_witness:
  "insert_state demo_cfg [(1, 5), (2, 6)] (demo_req 0 [1, 2]) = [(1, 5), (4, 2), (2, 6)]
    \<and> \<not> sorted (map fst (insert_state demo_cfg [(1, 5), (2, 6)] (demo_req 0 [1, 2])))"
proof
  show "insert_state demo_cfg [(1, 5), (2, 6)] (demo_req 0 [1, 2]) = [(1, 5), (4, 2), (2, 6)]"
    by (simp add: insert_state_def state_of_def demo_cfg_def demo_req_def)
  have "sorted (map fst (insert_state demo_cfg [(1, 5), (2, 6)] (demo_req 0 [1, 2])))
      \<longleftrightarrow> [(1, 5), (2::real, 6::int)] = [] \<or> fst (state_of demo_cfg (demo_req 0 [1, 2])) \<le> fst (last [(1, 5), (2::real, 6::int)])"
    by (rule insert_state_sorted_iff) (simp_all add: state_of_def demo_cfg_def demo_req_def)
  then show "\<not> sorted (map fst (insert_state demo_cfg [(1, 5), (2, 6)] (demo_req 0 [1, 2])))"
    by (simp add: state_of_def demo_cfg_def demo_req_def)
qed

definition still_left :: "real \<Rightarrow> (real \<times> int) list \<Rightarrow> (real \<times> int) list" where
  "still_left t = filter (\<lambda>x. t \<le> fst x)"

definition freed_by :: "real \<Rightarrow> (real \<times> int) list \<Rightarrow> int" where
  "freed_by t xs = sum_list (map snd (filter (\<lambda>x. fst x < t) xs))"

lemma sum_list_filter_mset:
  "mset xs = mset ys \<Longrightarrow> sum_list (map f (filter P xs)) = (sum_list (map f (filter P ys)) :: int)"
  by (metis mset_filter mset_map sum_mset_sum_list)

lemma length_filter_mset: "mset xs = mset ys \<Longrightarrow> length (filter P xs) = length (filter P ys)"
  by (metis mset_filter size_mset)

lemma min_free_ok_sound:
  assumes "min_free_ok rem xs" "sorted (map fst xs)" "still_left t xs \<noteq> []"
  shows "real (length (still_left t xs)) < rem + real_of_int (freed_by t xs) - t * real (length (still_left t xs))"
  using assms
proof (induction rem xs rule: min_free_ok.induct)
  case (2 rem left occ xs)
  show ?case
  proof (cases "t \<le> left")
    case True
    then have all: "\<forall>x \<in> set xs. t \<le> fst x" using 2(3) by auto
    then have "still_left t ((left, occ) # xs) = (left, occ) # xs" "freed_by t ((left, occ) # xs) = 0"
      using True by (auto simp: still_left_def freed_by_def not_less filter_id_conv filter_empty_conv)
    moreover have "1 + real (length xs) < rem - t * (1 + real (length xs))"
    proof -
      have "t * (1 + real (length xs)) \<le> left * (1 + real (length xs))"
        by (rule mult_right_mono [OF True]) simp
      moreover have "1 + real (length xs) < rem - left * (1 + real (length xs))"
        using 2(2) by (simp add: Let_def add.commute)
      ultimately show ?thesis by linarith
    qed
    ultimately show ?thesis by simp
  next
    case False
    then have "still_left t ((left, occ) # xs) = still_left t xs"
      "freed_by t ((left, occ) # xs) = occ + freed_by t xs"
      by (auto simp: still_left_def freed_by_def)
    then show ?thesis using 2 by (auto simp: Let_def)
  qed
qed (simp add: still_left_def)

lemma foldl_append_state:
  "foldl (append_state C) xs rs = xs @ filter (\<lambda>s. 0 < fst s) (map (state_of C) rs)"
  by (induction rs arbitrary: xs) (auto simp: append_state_def Let_def)

definition all_requests :: "req \<Rightarrow> 'e adder \<Rightarrow> req list" where
  "all_requests r a = r # (case running a of None \<Rightarrow> [] | Some rs \<Rightarrow> rs) @ can_run_list a"

definition active_states :: "adder_cfg \<Rightarrow> req list \<Rightarrow> (real \<times> int) list" where
  "active_states C rs = filter (\<lambda>s. 0 < fst s) (map (state_of C) rs)"

lemma with_req_states_initial:
  assumes "req_states a = None"
  shows "req_states (with_req_states C r a) = Some (sort_key fst (active_states C (all_requests r a)))"
  using assms by (auto simp: with_req_states_def foldl_append_state append_state_def Let_def
      active_states_def all_requests_def split: option.split)

text \<open>When the gate for requests without an end token passes on the freshly sorted states, the
  pool lasts: after any number of decode steps that leaves somebody running, the free tokens plus
  what the finished requests return exceed what the running ones have produced by at least one
  token each.\<close>

theorem ignore_eos_gate_sound:
  assumes "req_states a = None"
    and "min_free_ok rem (the (req_states (with_req_states C r a)))"
    and "still_left t (active_states C (all_requests r a)) \<noteq> []"
  shows "let n = real (length (still_left t (active_states C (all_requests r a))))
    in t * n + n < rem + real_of_int (freed_by t (active_states C (all_requests r a)))"
proof -
  let ?xs = "active_states C (all_requests r a)"
  let ?ys = "sort_key fst ?xs"
  have m: "mset ?ys = mset ?xs" by simp
  have l: "length (still_left t ?ys) = length (still_left t ?xs)"
    unfolding still_left_def by (rule length_filter_mset [OF m])
  have f: "freed_by t ?ys = freed_by t ?xs"
    unfolding freed_by_def by (rule sum_list_filter_mset [OF m])
  have "min_free_ok rem ?ys" using assms(2) by (simp add: with_req_states_initial [OF assms(1)])
  moreover have "still_left t ?ys \<noteq> []" using assms(3) l by auto
  ultimately have "real (length (still_left t ?ys))
      < rem + real_of_int (freed_by t ?ys) - t * real (length (still_left t ?ys))"
    by (intro min_free_ok_sound) simp_all
  then show ?thesis by (simp add: l f Let_def)
qed

theorem ignore_eos_gate_sound_witness:
  "let n = real (length (still_left 2 (active_states demo_cfg (all_requests (demo_req 0 [1, 2]) demo_adder))))
    in 2 * n + n < 100 + real_of_int (freed_by 2 (active_states demo_cfg (all_requests (demo_req 0 [1, 2]) demo_adder)))"
  by (rule ignore_eos_gate_sound)
    (simp_all add: demo_adder_simps with_req_states_def append_state_def state_of_def still_left_def
      active_states_def all_requests_def)

section \<open>Preemption\<close>











end
