(* ===== verification/PrefillAdmission.thy ===== *)
theory PrefillAdmission
  imports PrefillFacts
begin

text \<open>
  What \<open>add_one_req\<close> and \<open>add_chunked_req\<close> of \<open>sglang-overlay/schedule_policy.py\<close> do to the
  budgets, the batch and the lock counts: a request is either left out with every counter as it was,
  or enters the batch once, with a valid extension range and exactly the charge its length asks for.
\<close>

section \<open>What each step leaves alone\<close>

text \<open>The counters that bound memory, the batch and its chunked request.\<close>

definition counters :: "'e adder \<Rightarrow> real \<times> int \<times> int \<times> int option \<times> int \<times> int option \<times> int" where
  "counters a = (rem_total_token_offset a, cur_rem_token_offset a, rem_swa_token_offset a,
     rem_mamba_slots a, rem_input_tokens a, rem_chunk_tokens a, rem_dllm_tokens a)"

definition untouched :: "'e adder \<Rightarrow> 'e adder \<Rightarrow> bool" where
  "untouched a a' \<longleftrightarrow> counters a' = counters a \<and> can_run_list a' = can_run_list a
     \<and> new_chunked_req a' = new_chunked_req a \<and> running a' = running a"

lemma untouched_env [simp]: "untouched a (a\<lparr>env := e\<rparr>)"
  by (simp add: untouched_def counters_def)

lemma untouched_refl [simp]: "untouched a a"
  by (simp add: untouched_def)

lemma untouched_trans: "untouched a b \<Longrightarrow> untouched b c \<Longrightarrow> untouched a c"
  by (simp add: untouched_def)

lemma negotiate_allows_env: "\<exists>e. snd (negotiate_allows C Op a) = a\<lparr>env := e\<rparr>"
  by (auto simp: negotiate_allows_def split: option.split prod.split intro: exI [of _ "env a"])

lemma load_back_step_env:
  assumes "load_back_step Op (a, r) = (a', r')"
  shows "(\<exists>e. a' = a\<lparr>env := e\<rparr>) \<and> (\<exists>n h ids c. r' = r\<lparr>last_node := n, host_loaded_length := h,
      prefix_indices := prefix_indices r @ ids, cache_protected_len := c\<rparr>)"
proof (cases "needs_host_load_back r")
  case True
  obtain ids node e where "init_load_back Op r (env a) = ((ids, node), e)" by (metis surj_pair)
  then show ?thesis using assms True by (auto simp: load_back_step_def Let_def)
next
  case False
  then have "a' = a\<lparr>env := env a\<rparr>" "r' = r\<lparr>last_node := last_node r, host_loaded_length := host_loaded_length r,
      prefix_indices := prefix_indices r @ [], cache_protected_len := cache_protected_len r\<rparr>"
    using assms by (auto simp: load_back_step_def)
  then show ?thesis by blast
qed

definition replay_tokens :: "adder_cfg \<Rightarrow> req \<Rightarrow> int \<Rightarrow> int" where
  "replay_tokens C r plen =
     (if encoder_swa_replay C \<and> (req_pool_idx r = None \<or> is_retracted r) then min plen 128 else 0)"

lemma account_simps [simp]:
  "rem_total_token_offset (account_prefill_cache_admission C Op r plen a) = rem_total_token_offset a"
  "cur_rem_token_offset (account_prefill_cache_admission C Op r plen a) = cur_rem_token_offset a"
  "rem_swa_token_offset (account_prefill_cache_admission C Op r plen a) = rem_swa_token_offset a"
  "rem_mamba_slots (account_prefill_cache_admission C Op r plen a) = rem_mamba_slots a"
  "rem_dllm_tokens (account_prefill_cache_admission C Op r plen a) = rem_dllm_tokens a"
  "can_run_list (account_prefill_cache_admission C Op r plen a) = can_run_list a"
  "new_chunked_req (account_prefill_cache_admission C Op r plen a) = new_chunked_req a"
  "rem_input_tokens (account_prefill_cache_admission C Op r plen a) = rem_input_tokens a - replay_tokens C r plen"
  "rem_chunk_tokens (account_prefill_cache_admission C Op r plen a)
     = map_option (\<lambda>c. c - replay_tokens C r plen) (rem_chunk_tokens a)"
  by (auto simp: account_prefill_cache_admission_def replay_tokens_def Let_def option.map_ident split: prod.split)

text \<open>The charge of an admission, as the difference of the counters.\<close>

definition charged :: "adder_cfg \<Rightarrow> req \<Rightarrow> int \<Rightarrow> int \<Rightarrow> int \<Rightarrow> 'e adder \<Rightarrow> 'e adder \<Rightarrow> bool" where
  "charged C r n mx replay a a' \<longleftrightarrow>
     (let ext = ceil_paged_tokens C n; gap = mamba_gap_budget_for_req C r in
      rem_total_token_offset a' = rem_total_token_offset a + real_of_int (ext + mx + page_size C + gap)
      \<and> cur_rem_token_offset a' = cur_rem_token_offset a + (ext + page_size C + gap)
      \<and> rem_swa_token_offset a' = rem_swa_token_offset a
          + (if is_hybrid_swa C then swa_budget_for_req C (rem_chunk_tokens a) ext mx 0 else 0)
      \<and> rem_mamba_slots a' = (if gap \<noteq> 0 then map_option (\<lambda>m. m - 1) (rem_mamba_slots a) else rem_mamba_slots a)
      \<and> rem_input_tokens a' = rem_input_tokens a - ext - replay
      \<and> rem_chunk_tokens a' = (if dllm_block_size C \<noteq> None then map_option (\<lambda>c. c - replay) (rem_chunk_tokens a)
          else map_option (\<lambda>c. c - ext - replay) (rem_chunk_tokens a)))"

lemma update_charges:
  "charged C r n mx 0 a (update_prefill_budget C plen n mx stain (mamba_gap_budget_for_req C r) a)"
  by (cases "rem_chunk_tokens a") (auto simp: charged_def update_prefill_budget_def Let_def)

lemma charged_counters:
  "counters a = counters b \<Longrightarrow> charged C r n mx k a a' = charged C r n mx k b a'"
  by (simp add: charged_def counters_def)

lemma charged_gap: "mamba_gap_budget_for_req C r = mamba_gap_budget_for_req C q
    \<Longrightarrow> charged C r n mx k a a' = charged C q n mx k a a'"
  by (simp add: charged_def)

lemma update_lists [simp]:
  "can_run_list (update_prefill_budget C plen n mx stain gap a) = can_run_list a"
  "new_chunked_req (update_prefill_budget C plen n mx stain gap a) = new_chunked_req a"
  "env (update_prefill_budget C plen n mx stain gap a) = env a"
  by (simp_all add: update_prefill_budget_def Let_def)

lemma ceil_paged_idem [simp]: "ceil_paged_tokens C (ceil_paged_tokens C n) = ceil_paged_tokens C n"
  by (cases "page_size C = 0") (simp_all add: ceil_paged_tokens_def ceil_align_def ceil_div_def)

lemma charged_account:
  assumes "charged C r n mx 0 a b"
  shows "charged C r n mx (replay_tokens C q plen) a (account_prefill_cache_admission C Op q plen b)"
  using assms by (auto simp: charged_def Let_def option.map_comp comp_def)

lemma charged_ceil: "charged C r (ceil_paged_tokens C n) mx k a b = charged C r n mx k a b"
  by (simp add: charged_def)

lemma req_inc_lock_ref_spec:
  assumes "req_inc_lock_ref C Op (a, r) = (a', r')"
  shows "(\<exists>u. r' = r\<lparr>swa_uuid_for_lock := u, skip_lock_node_ids := {}\<rparr>)
    \<and> a' = sync_req r' (a\<lparr>env := snd (inc_lock_ref Op (last_node r) (env a))\<rparr>)"
proof -
  obtain u p e where i: "inc_lock_ref Op (last_node r) (env a) = ((u, p), e)" by (metis surj_pair)
  then have "r' = r\<lparr>swa_uuid_for_lock := (if is_hybrid_swa C then u else swa_uuid_for_lock r), skip_lock_node_ids := {}\<rparr>"
    "a' = sync_req r' (a\<lparr>env := e\<rparr>)"
    using assms by (auto simp: req_inc_lock_ref_def Let_def)
  then show ?thesis using i by (metis snd_conv)
qed

lemma sync_req_fields [simp]:
  "counters (sync_req r a) = counters a" "env (sync_req r a) = env a"
  by (simp_all add: sync_req_def counters_def)

text \<open>The admitted request enters the batch last; entries of the same request follow its fields.\<close>

definition entered :: "req \<Rightarrow> 'e adder \<Rightarrow> 'e adder \<Rightarrow> bool" where
  "entered r a a' \<longleftrightarrow>
     can_run_list a' = map (\<lambda>q. if rid q = rid r then r else q) (can_run_list a) @ [r]"

definition same_demand :: "req \<Rightarrow> req \<Rightarrow> bool" where
  "same_demand r r' \<longleftrightarrow> rid r' = rid r \<and> full_untruncated_fill_ids r' = full_untruncated_fill_ids r
     \<and> max_new_tokens r' = max_new_tokens r \<and> output_ids r' = output_ids r \<and> holds_mamba r' = holds_mamba r"

lemma same_demand_gap: "same_demand r r' \<Longrightarrow> mamba_gap_budget_for_req C r' = mamba_gap_budget_for_req C r"
  by (simp add: same_demand_def mamba_gap_budget_for_req_def)

lemma admit_whole_spec:
  assumes "admit_whole C Op (ceil_paged_tokens C (cand_extend_len r)) (a, r) = (a', r')"
  shows "same_demand r r' \<and> prefix_indices r' = prefix_indices r \<and> last_node r' = last_node r
    \<and> extend_range r' = Some (len (prefix_indices r), len (full_untruncated_fill_ids r))
    \<and> entered r' a a'
    \<and> charged C r (cand_extend_len r) (min (max_new_tokens r) (clip_max_new_tokens C))
        (replay_tokens C r' (len (prefix_indices r))) a a'
    \<and> (\<forall>q. new_chunked_req a = Some q \<longrightarrow> rid q \<noteq> rid r \<longrightarrow> new_chunked_req a' = Some q)
    \<and> (new_chunked_req a = None \<longrightarrow> new_chunked_req a' = None)"
proof -
  let ?r1 = "set_extend_range (len (prefix_indices r)) (len (full_untruncated_fill_ids r)) r"
  obtain a2 r2 where lk: "req_inc_lock_ref C Op (push_can_run ?r1 a, ?r1) = (a2, r2)" by fastforce
  obtain u where r2: "r2 = ?r1\<lparr>swa_uuid_for_lock := u, skip_lock_node_ids := {}\<rparr>"
    and a2: "a2 = sync_req r2 ((push_can_run ?r1 a)\<lparr>env := snd (inc_lock_ref Op (last_node r) (env a))\<rparr>)"
    using req_inc_lock_ref_spec [OF lk] by (auto simp: push_can_run_def set_extend_range_def)
  let ?mx = "min (max_new_tokens r) (clip_max_new_tokens C)"
  have e: "r' = r2" "a' = account_prefill_cache_admission C Op r2 (len (prefix_indices r))
      (update_prefill_budget C (len (prefix_indices r)) (ceil_paged_tokens C (cand_extend_len r)) ?mx
         (retracted_stain r2) (mamba_gap_budget_for_req C r2) a2)"
    using assms lk r2 by (auto simp: admit_whole_def Let_def set_extend_range_def)
  have d: "same_demand r r2" using r2 by (simp add: same_demand_def set_extend_range_def)
  have cnt: "counters a2 = counters a" using a2 by (simp add: push_can_run_def counters_def sync_req_def)
  have "charged C r2 (ceil_paged_tokens C (cand_extend_len r)) ?mx 0 a2
      (update_prefill_budget C (len (prefix_indices r)) (ceil_paged_tokens C (cand_extend_len r)) ?mx
         (retracted_stain r2) (mamba_gap_budget_for_req C r2) a2)"
    by (rule update_charges)
  then have "charged C r2 (ceil_paged_tokens C (cand_extend_len r)) ?mx (replay_tokens C r2 (len (prefix_indices r))) a2 a'"
    unfolding e(2) by (rule charged_account)
  then have ch: "charged C r (cand_extend_len r) ?mx (replay_tokens C r2 (len (prefix_indices r))) a a'"
    by (simp add: charged_ceil charged_counters [OF cnt] charged_gap [OF same_demand_gap [OF d]])
  have "rid r2 = rid r" using d by (simp add: same_demand_def)
  then have "entered r2 a a'"
    unfolding entered_def e(2) by (simp add: a2 sync_req_def push_can_run_def set_extend_range_def)
  then show ?thesis using e d r2 ch a2
    by (auto simp: set_extend_range_def sync_req_def push_can_run_def)
qed

lemma admit_chunk_spec:
  assumes "admit_chunk C Op n (a, r) = (a', r')"
  shows "same_demand r r' \<and> prefix_indices r' = prefix_indices r \<and> last_node r' = last_node r
    \<and> extend_range r' = Some (len (prefix_indices r), len (prefix_indices r) + n)
    \<and> entered r' a a' \<and> new_chunked_req a' = Some r'
    \<and> charged C r n 0 (replay_tokens C r' (len (prefix_indices r))) a a'"
proof -
  let ?r1 = "set_extend_range (len (prefix_indices r)) (len (prefix_indices r) + n) r"
  let ?a1 = "(push_can_run ?r1 a)\<lparr>new_chunked_req := Some ?r1\<rparr>"
  obtain a2 r2 where lk: "req_inc_lock_ref C Op (?a1, ?r1) = (a2, r2)" by fastforce
  obtain u where r2: "r2 = ?r1\<lparr>swa_uuid_for_lock := u, skip_lock_node_ids := {}\<rparr>"
    and a2: "a2 = sync_req r2 (?a1\<lparr>env := snd (inc_lock_ref Op (last_node r) (env a))\<rparr>)"
    using req_inc_lock_ref_spec [OF lk] by (auto simp: push_can_run_def set_extend_range_def)
  have e: "r' = r2" "a' = account_prefill_cache_admission C Op r2 (len (prefix_indices r))
      (update_prefill_budget C (len (prefix_indices r)) n 0
         (retracted_stain r2) (mamba_gap_budget_for_req C r2) a2)"
    using assms lk by (auto simp: admit_chunk_def Let_def)
  have d: "same_demand r r2" using r2 by (simp add: same_demand_def set_extend_range_def)
  have cnt: "counters a2 = counters a" using a2 by (simp add: push_can_run_def counters_def sync_req_def)
  have "charged C r2 n 0 0 a2 (update_prefill_budget C (len (prefix_indices r)) n 0
         (retracted_stain r2) (mamba_gap_budget_for_req C r2) a2)"
    by (rule update_charges)
  then have "charged C r2 n 0 (replay_tokens C r2 (len (prefix_indices r))) a2 a'"
    unfolding e(2) by (rule charged_account)
  then have ch: "charged C r n 0 (replay_tokens C r2 (len (prefix_indices r))) a a'"
    by (simp add: charged_counters [OF cnt] charged_gap [OF same_demand_gap [OF d]])
  have "rid r2 = rid r" using d by (simp add: same_demand_def)
  then have "entered r2 a a'" "new_chunked_req a' = Some r2"
    unfolding entered_def e(2) by (simp_all add: a2 sync_req_def push_can_run_def set_extend_range_def)
  then show ?thesis using e d r2 ch by (simp add: set_extend_range_def)
qed

text \<open>
  An admission of \<open>n\<close> tokens: either the whole rest of the request, with its decode tokens charged,
  or a proper chunk that ends on a page boundary and makes it the chunked request of the batch.
\<close>

definition admission :: "adder_cfg \<Rightarrow> req \<Rightarrow> req \<Rightarrow> 'e adder \<Rightarrow> 'e adder \<Rightarrow> int \<Rightarrow> int \<Rightarrow> bool" where
  "admission C r r' a a' n mx \<longleftrightarrow>
     same_demand r r'
     \<and> extend_range r' = Some (len (prefix_indices r'), len (prefix_indices r') + n)
     \<and> entered r' a a'
     \<and> charged C r n mx (replay_tokens C r' (len (prefix_indices r'))) a a'
     \<and> (n = cand_extend_len r' \<and> mx = min (max_new_tokens r) (clip_max_new_tokens C)
        \<or> 0 < n \<and> n < cand_extend_len r' \<and> mx = 0 \<and> page_size C dvd len (prefix_indices r') + n
            \<and> new_chunked_req a' = Some r')"

lemma tile_check_other: "check_prefill_tile_budget C a n = Some s \<Longrightarrow> s = OTHER"
  by (auto simp: check_prefill_tile_budget_def Let_def split: if_splits)

lemma chunk_len_facts:
  assumes "0 < page_size C" "chunk_len C limit align plen = Some t" "\<And>al. align = Some al \<Longrightarrow> 0 < al"
  shows "0 < t \<and> page_size C dvd plen + t \<and> t \<le> floor_align limit (page_size C)"
proof -
  let ?P = "page_size C"
  let ?f = "floor_align limit ?P"
  have shrink: "floor_align (u + plen) ?P - plen \<le> u" for u
    using floor_align_le [OF assms(1), of "u + plen"] by simp
  obtain u where u: "u \<le> ?f" "t = floor_align (u + plen) ?P - plen" "0 < t"
  proof (cases align)
    case None
    then show ?thesis using assms(2) that [of ?f] by (auto simp: chunk_len_def Let_def split: if_splits)
  next
    case (Some al)
    then have "al * (?f div al) \<le> ?f"
      using assms(3) floor_align_le [of al ?f] by (simp add: floor_align_def mult.commute)
    then show ?thesis using Some assms(2) that [of "al * (?f div al)"]
      by (auto simp: chunk_len_def Let_def split: if_splits)
  qed
  then show ?thesis using shrink [of u] by simp
qed

lemma floor_below_ceil:
  assumes "0 < (p::int)" "l < ceil_align c p"
  shows "floor_align l p < c"
proof (rule ccontr)
  assume "\<not> floor_align l p < c"
  then have "ceil_align c p \<le> ceil_align (floor_align l p) p"
    by (intro ceil_align_mono [OF assms(1)]) simp
  moreover have "ceil_align (floor_align l p) p = floor_align l p"
    by (simp add: ceil_align_def ceil_div_def floor_align_def flip: mult_minus_left)
  ultimately show False using assms(2) floor_align_le [OF assms(1), of l] by linarith
qed

lemma admit_loaded_spec:
  assumes "dllm_block_size C = None" "0 < page_size C" "\<And>al. align = Some al \<Longrightarrow> 0 < al"
    and "admit_loaded C Op limit align a r = (out, a', r')"
  shows "(\<exists>s. out = Inr (Some s) \<and> s \<noteq> CONTINUE \<and> a' = a \<and> r' = r)
    \<or> (out = Inr None \<and> last_node r' = last_node r \<and> prefix_indices r' = prefix_indices r
       \<and> (\<exists>n mx. admission C r r' a a' n mx))"
proof -
  let ?plen = "len (prefix_indices r)"
  let ?input = "ceil_paged_tokens C (cand_extend_len r)"
  consider (gate) "rem_chunk_tokens a = None \<and> can_run_list a \<noteq> [] \<and> rem_input_tokens a \<le> ?input"
    | (whole) "\<not> (rem_chunk_tokens a = None \<and> can_run_list a \<noteq> [] \<and> rem_input_tokens a \<le> ?input)"
        "limit = None \<or> ?input \<le> the limit"
    | (chunk) l where "\<not> (rem_chunk_tokens a = None \<and> can_run_list a \<noteq> [] \<and> rem_input_tokens a \<le> ?input)"
        "limit = Some l" "l < ?input"
    by (cases limit) (fastforce simp: not_le)+
  then show ?thesis
  proof cases
    case gate
    then have "out = Inr (Some OTHER)" "a' = a" "r' = r" using assms(4) by (auto simp: admit_loaded_def Let_def)
    then show ?thesis by simp
  next
    case whole
    show ?thesis
    proof (cases "check_prefill_tile_budget C a ?input")
      case (Some s)
      then have "out = Inr (Some s)" "a' = a" "r' = r"
        using whole assms(1,4) by (auto simp: admit_loaded_def Let_def)
      then show ?thesis using tile_check_other [OF Some] by simp
    next
      case None
      then have "admit_whole C Op ?input (a, r) = (a', r')" "out = Inr None"
        using whole assms(1,4) by (auto simp: admit_loaded_def Let_def split: prod.splits)
      then show ?thesis using admit_whole_spec [of C Op r a a' r']
        by (simp add: admission_def cand_extend_len_def same_demand_def exI [of _ "cand_extend_len r"])
    qed
  next
    case chunk
    show ?thesis
    proof (cases "chunk_len C l align ?plen")
      case None
      then show ?thesis using chunk assms(1,4) by (auto simp: admit_loaded_def Let_def)
    next
      case len: (Some n)
      note n = chunk_len_facts [OF assms(2) len assms(3)]
      have "n < cand_extend_len r"
        using n floor_below_ceil [OF assms(2)] chunk(3) by (fastforce simp: ceil_paged_tokens_def)
      show ?thesis
      proof (cases "check_prefill_tile_budget C a n")
        case (Some s)
        then have "out = Inr (Some s)" "a' = a" "r' = r"
          using len chunk assms(1,4) by (auto simp: admit_loaded_def Let_def)
        then show ?thesis using tile_check_other [OF Some] by simp
      next
        case None
        then have c: "admit_chunk C Op n (a, r) = (a', r')" "out = Inr None"
          using len chunk assms(1,4) by (auto simp: admit_loaded_def Let_def split: prod.splits)
        note sp = admit_chunk_spec [OF c(1)]
        then have "cand_extend_len r' = cand_extend_len r"
          by (simp add: cand_extend_len_def same_demand_def)
        then have "admission C r r' a a' n 0"
          using sp n \<open>n < cand_extend_len r\<close> by (simp add: admission_def)
        then show ?thesis using sp c(2) by blast
      qed
    qed
  qed
qed

lemma admission_untouched:
  assumes "untouched a0 a" "admission C r r' a a' n mx"
  shows "admission C r r' a0 a' n mx"
  using assms by (simp add: admission_def entered_def untouched_def
      charged_counters [of a a0, OF assms(1) [unfolded untouched_def, THEN conjunct1]])

lemma admission_demand:
  assumes "same_demand r0 r" "admission C r r' a a' n mx"
  shows "admission C r0 r' a a' n mx"
proof -
  have "charged C r0 n mx k a a' = charged C r n mx k a a'" for k
    by (rule charged_gap) (simp add: same_demand_gap [OF assms(1)])
  then show ?thesis using assms by (simp add: admission_def same_demand_def)
qed

lemma admit_locked_spec:
  assumes "dllm_block_size C = None" "0 < page_size C" "\<And>al. align = Some al \<Longrightarrow> 0 < al"
    and "admit_locked C Op total_tokens real_input limit align a r = (out, a', r')"
  shows "(\<exists>e. out = Inl e \<and> untouched a a')
    \<or> (\<exists>s. out = Inr (Some s) \<and> s \<noteq> CONTINUE \<and> untouched a a')
    \<or> (out = Inr None \<and> real_of_int total_tokens < rem_total_tokens C Op a
       \<and> (\<exists>ids. prefix_indices r' = prefix_indices r @ ids)
       \<and> (\<exists>n mx. admission C r r' a a' n mx))"
proof -
  consider (full) "rem_total_tokens C Op a \<le> real_of_int total_tokens"
    | (swa) "real_of_int total_tokens < rem_total_tokens C Op a" "swa_gate C Op a r real_input limit = None"
    | (go) l where "real_of_int total_tokens < rem_total_tokens C Op a" "swa_gate C Op a r real_input limit = Some l"
    by fastforce
  then show ?thesis
  proof cases
    case full
    then have "out = Inr (Some NO_TOKEN)" "a' = a" using assms(4) by (auto simp: admit_locked_def)
    then show ?thesis by simp
  next
    case swa
    then have "out = Inr (Some NO_TOKEN)" "a' = a" using assms(4) by (auto simp: admit_locked_def)
    then show ?thesis by simp
  next
    case go
    obtain v a1 where ng: "negotiate_allows C Op a = (v, a1)" by fastforce
    obtain e1 where a1: "a1 = a\<lparr>env := e1\<rparr>" using negotiate_allows_env [of C Op a] ng by auto
    then have u1: "untouched a a1" by simp
    show ?thesis
    proof (cases v)
      case (Inl e)
      then have "out = Inl e" "a' = a1" using assms(4) go ng by (auto simp: admit_locked_def)
      then show ?thesis using u1 by simp
    next
      case (Inr ok)
      show ?thesis
      proof (cases ok)
        case False
        then have "out = Inr (Some OTHER)" "a' = a1" using assms(4) go ng Inr by (auto simp: admit_locked_def)
        then show ?thesis using u1 by simp
      next
        case True
        obtain a2 r2 where lb: "load_back_step Op (a1, r) = (a2, r2)" by fastforce
        then have rest: "admit_loaded C Op l align a2 r2 = (out, a', r')"
          using assms(4) go ng Inr True by (simp add: admit_locked_def)
        obtain e2 nd h ids c where a2: "a2 = a1\<lparr>env := e2\<rparr>"
          and r2: "r2 = r\<lparr>last_node := nd, host_loaded_length := h, prefix_indices := prefix_indices r @ ids,
              cache_protected_len := c\<rparr>"
          using load_back_step_env [OF lb] by blast
        have d: "same_demand r r2" using r2 by (simp add: same_demand_def)
        have u2: "untouched a a2" using a1 a2 by simp
        from admit_loaded_spec [OF assms(1-3) rest] show ?thesis
        proof
          assume "\<exists>s. out = Inr (Some s) \<and> s \<noteq> CONTINUE \<and> a' = a2 \<and> r' = r2"
          then show ?thesis using u2 by blast
        next
          assume adm: "out = Inr None \<and> last_node r' = last_node r2 \<and> prefix_indices r' = prefix_indices r2
            \<and> (\<exists>n mx. admission C r2 r' a2 a' n mx)"
          then obtain n mx where "admission C r2 r' a2 a' n mx" by blast
          then have "admission C r r' a a' n mx"
            using admission_untouched [OF u2] admission_demand [OF d] by blast
          then show ?thesis using adm go(1) r2 by auto
        qed
      qed
    qed
  qed
qed

section \<open>Outcome of an admission\<close>

lemma lock_node_spec:
  assumes "lock_node C Op node body a r = (out, a', r')"
  shows "\<exists>d a1. body (a\<lparr>env := snd (inc_lock_ref Op node (env a))\<rparr>) r = (out, a1, r')
    \<and> a' = a1\<lparr>env := dec_lock_ref Op node d (env a1)\<rparr>"
proof -
  obtain u p e where i: "inc_lock_ref Op node (env a) = ((u, p), e)" by (metis surj_pair)
  obtain o1 a1 r1 where b: "body (a\<lparr>env := e\<rparr>) r = (o1, a1, r1)" by (metis prod_cases3)
  show ?thesis using assms by (auto simp: lock_node_def i b Let_def)
qed

lemma admission_env: "admission C r r' a (a'\<lparr>env := e\<rparr>) n mx = admission C r r' a a' n mx"
  by (simp add: admission_def entered_def charged_def)

lemma add_one_req_cases:
  assumes "\<not> (ignore_eos r \<and> tree_cache_disabled C)"
    and "add_one_req C Op align a r = (out, a', r')"
  shows "((out = Inr OTHER \<or> out = Inr NO_TOKEN) \<and> a' = a)
    \<or> (\<exists>l. real_of_int (needed_tokens C r) < rem_total_tokens C Op a
         \<and> close_admission C Op (lock_node C Op (last_node r)
              (admit_locked C Op (needed_tokens C r)
                 (ceil_paged_tokens C (cand_extend_len r - host_hit_length r)) l align) a r) = (out, a', r'))"
proof -
  let ?T = "needed_tokens C r"
  let ?R = "ceil_paged_tokens C (cand_extend_len r - host_hit_length r)"
  let ?early = "(out = Inr OTHER \<or> out = Inr NO_TOKEN) \<and> a' = a"
  consider (cp) "cp_in_seq_split C \<and> 1 \<le> length (can_run_list a)"
    | (mx) "\<not> (cp_in_seq_split C \<and> 1 \<le> length (can_run_list a))"
        "case prefill_max_requests C of None \<Rightarrow> False | Some x \<Rightarrow> x \<le> len (can_run_list a)"
    | (go) "\<not> (cp_in_seq_split C \<and> 1 \<le> length (can_run_list a))"
        "\<not> (case prefill_max_requests C of None \<Rightarrow> False | Some x \<Rightarrow> x \<le> len (can_run_list a))"
    by blast
  then show ?thesis
  proof cases
    case cp
    then show ?thesis using assms(2) by (simp add: add_one_req_def)
  next
    case mx
    note assms(2) [unfolded add_one_req_def if_not_P [OF mx(1)] if_P [OF mx(2)]]
    then show ?thesis by simp
  next
    case go
    note unf = assms(2) [unfolded add_one_req_def Let_def if_not_P [OF go(1)] if_not_P [OF go(2)] if_not_P [OF assms(1)]]
    show ?thesis
    proof (cases "rem_total_tokens C Op a \<le> real_of_int ?T")
      case True
      then have ?early using unf by simp
      then show ?thesis by blast
    next
      case False
      note unf = unf [unfolded if_not_P [OF False]]
      show ?thesis
      proof (cases "swa_gate C Op a r ?R (rem_chunk_tokens a)")
        case None
        then have ?early using unf by simp
        then show ?thesis by blast
      next
        case (Some l)
        note unf = unf [unfolded Some option.case]
        show ?thesis
        proof (cases "rem_chunk_tokens a = None \<and> can_run_list a \<noteq> [] \<and> rem_input_tokens a \<le> ?R")
          case True
          note unf = unf [unfolded if_P [OF True]]
          then have ?early by simp
          then show ?thesis by blast
        next
          case gate: False
          note unf = unf [unfolded if_not_P [OF gate]]
          then show ?thesis using False by (intro disjI2 exI [of _ l]) simp
        qed
      qed
    qed
  qed
qed

lemma add_one_req_spec:
  assumes "dllm_block_size C = None" "0 < page_size C" "\<And>al. align = Some al \<Longrightarrow> 0 < al"
    and "\<not> (ignore_eos r \<and> tree_cache_disabled C)"
    and "add_one_req C Op align a r = (out, a', r')"
  shows "(\<exists>e. out = Inl e \<and> untouched a a')
    \<or> (\<exists>s. out = Inr s \<and> s \<noteq> CONTINUE \<and> untouched a a')
    \<or> (out = Inr (budget_state C Op a') \<and> real_of_int (needed_tokens C r) < rem_total_tokens C Op a
       \<and> (\<exists>ids. prefix_indices r' = prefix_indices r @ ids)
       \<and> (\<exists>n mx. admission C r r' a a' n mx))"
proof -
  let ?T = "needed_tokens C r"
  let ?R = "ceil_paged_tokens C (cand_extend_len r - host_hit_length r)"
  let ?rejected = "\<exists>s. out = Inr s \<and> s \<noteq> CONTINUE \<and> untouched a a'"
  consider (early) "out = Inr OTHER \<or> out = Inr NO_TOKEN" "a' = a"
    | (locked) l where "real_of_int ?T < rem_total_tokens C Op a"
        "close_admission C Op (lock_node C Op (last_node r) (admit_locked C Op ?T ?R l align) a r) = (out, a', r')"
    using add_one_req_cases [OF assms(4,5)] by blast
  then show ?thesis
  proof cases
    case early
    then show ?thesis by auto
  next
    case locked
    obtain o1 a1 r1 where lk: "lock_node C Op (last_node r) (admit_locked C Op ?T ?R l align) a r = (o1, a1, r1)"
      by (metis prod_cases3)
    define b where "b = a\<lparr>env := snd (inc_lock_ref Op (last_node r) (env a))\<rparr>"
    obtain d a2 where body: "admit_locked C Op ?T ?R l align b r = (o1, a2, r1)"
      and a1: "a1 = a2\<lparr>env := dec_lock_ref Op (last_node r) d (env a2)\<rparr>"
      using lock_node_spec [OF lk] b_def by blast
    have ub: "untouched a b" by (simp add: b_def)
    have un: "untouched a a1" if "untouched b a2"
      using untouched_trans [OF ub that] by (simp add: a1 untouched_def counters_def)
    from admit_locked_spec [OF assms(1-3) body]
    consider (err) e where "o1 = Inl e" "untouched b a2"
      | (rej) s where "o1 = Inr (Some s)" "s \<noteq> CONTINUE" "untouched b a2"
      | (adm) ids n mx where "o1 = Inr None" "prefix_indices r1 = prefix_indices r @ ids" "admission C r r1 b a2 n mx"
      by blast
    then show ?thesis
    proof cases
      case err
      then have "out = Inl e" "a' = a1" using locked(2) lk by (simp_all add: close_admission_def)
      then show ?thesis using un [OF err(2)] by simp
    next
      case rej
      then have "out = Inr s" "a' = a1" using locked(2) lk by (simp_all add: close_admission_def)
      then show ?thesis using un [OF rej(3)] rej(2) by simp
    next
      case adm
      then have o: "out = Inr (budget_state C Op a')" "a' = a1" "r' = r1"
        using locked(2) lk by (auto simp: close_admission_def)
      have "admission C r r' a a' n mx"
        using admission_untouched [OF ub adm(3)] by (simp add: o a1 admission_env)
      then show ?thesis using o(1,3) adm(2) locked(1) by blast
    qed
  qed
qed

text \<open>C1: Trying to admit a request either leaves every counter, the batch and the chunked request as
  they were and never answers CONTINUE, or puts the request into the batch exactly once: with the
  whole rest or a proper page-aligned chunk as its extension range, charged to each budget exactly as
  its length asks, and the answer is the budget state that results.\<close>

theorem add_one_req_outcome:
  assumes "dllm_block_size C = None" "0 < page_size C" "\<And>al. align = Some al \<Longrightarrow> 0 < al"
    and "\<not> (ignore_eos r \<and> tree_cache_disabled C)"
    and "add_one_req C Op align a r = (out, a', r')"
  shows "(\<exists>e. out = Inl e \<and> untouched a a')
    \<or> (\<exists>s. out = Inr s \<and> s \<noteq> CONTINUE \<and> untouched a a')
    \<or> (out = Inr (budget_state C Op a') \<and> (\<exists>n mx. admission C r r' a a' n mx))"
  using add_one_req_spec [OF assms] by blast

lemmas eval_admission = add_one_req_def add_one_req_ignore_eos_def needed_tokens_def swa_gate_def lock_node_def admit_locked_def
  negotiate_allows_def load_back_step_def admit_loaded_def admit_whole_def admit_chunk_def chunk_len_def
  close_admission_def check_prefill_tile_budget_def req_inc_lock_ref_def update_prefill_budget_def
  account_prefill_cache_admission_def push_can_run_def sync_req_def rem_total_tokens_def cur_rem_tokens_def
  rem_swa_tokens_def available_and_evictable_def swa_budget_for_req_def swa_reserved_tokens_def
  swa_new_tokens_def ceil_paged_tokens_def ceil_align_def ceil_div_def floor_align_def
  mamba_gap_budget_for_req_def cand_extend_len_def needs_host_load_back_def set_extend_range_def
  materialized_host_hit_len_def fulfilled_storage_hit_len_def

definition demo_long :: req where
  "demo_long = (demo_req 7 [])\<lparr>full_untruncated_fill_ids := [1, 2, 3, 4, 5, 6, 7, 8, 9, 10, 11, 12, 13, 14, 15, 16, 17, 18, 19, 20],
     last_node := 3\<rparr>"

lemma demo_admission:
  "\<exists>a'. add_one_req demo_cfg demo_ops None demo_adder demo_long
     = (Inr OTHER, a', demo_long\<lparr>extend_range := Some (0, 16), swa_uuid_for_lock := Some 3\<rparr>)
     \<and> can_run_list a' = [demo_long\<lparr>extend_range := Some (0, 16), swa_uuid_for_lock := Some 3\<rparr>]
     \<and> rem_chunk_tokens a' = Some 0 \<and> env a' = (\<lambda>_. 0)(3 := 1)"
  by (simp add: demo_long_def demo_adder_simps eval_admission Let_def budget_state_def fun_eq_iff)

theorem add_one_req_outcome_witness:
  "\<exists>a' r'. add_one_req demo_cfg demo_ops None demo_adder demo_long = (Inr OTHER, a', r')
    \<and> length (can_run_list a') = 1
    \<and> ((\<exists>s. Inr OTHER = (Inr s :: py_error + add_req_result) \<and> s \<noteq> CONTINUE \<and> untouched demo_adder a')
      \<or> (Inr OTHER = (Inr (budget_state demo_cfg demo_ops a') :: py_error + add_req_result)
         \<and> (\<exists>n mx. admission demo_cfg demo_long r' demo_adder a' n mx)))"
proof -
  obtain a' r' where e: "add_one_req demo_cfg demo_ops None demo_adder demo_long = (Inr OTHER, a', r')"
    and l: "length (can_run_list a') = 1"
    using demo_admission by auto
  have h: "dllm_block_size demo_cfg = None" "0 < page_size demo_cfg"
    "\<not> (ignore_eos demo_long \<and> tree_cache_disabled demo_cfg)"
    by (simp_all add: demo_cfg_def demo_long_def demo_req_def)
  have "\<And>al::int. None = Some al \<Longrightarrow> 0 < al" by simp
  from add_one_req_outcome [OF h(1,2) this h(3) e] e l show ?thesis by blast
qed

text \<open>C9: Admission cannot overcommit by a page: when a request that has produced nothing yet is
  admitted, everything reserved afterwards is less than one page above what the pool had available or
  evictable when the request arrived.\<close>

theorem admission_overcommit_bound:
  assumes "dllm_block_size C = None" "0 < page_size C" "\<And>al. align = Some al \<Longrightarrow> 0 < al"
    and "\<not> (ignore_eos r \<and> tree_cache_disabled C)"
    and "add_one_req C Op align a r = (out, a', r')"
    and "output_ids r = []" "0 \<le> max_new_tokens r" "0 \<le> clip_max_new_tokens C"
    and "\<not> untouched a a'"
  shows "rem_total_token_offset a'
    < real_of_int (available_and_evictable C Op (env a)) + real_of_int (page_size C)"
proof -
  from add_one_req_spec [OF assms(1-5)] assms(9)
  obtain ids n mx where t: "real_of_int (needed_tokens C r) < rem_total_tokens C Op a"
    and p: "prefix_indices r' = prefix_indices r @ ids" and ad: "admission C r r' a a' n mx" by blast
  have off: "rem_total_token_offset a' = rem_total_token_offset a
      + real_of_int (ceil_paged_tokens C n + mx + page_size C + mamba_gap_budget_for_req C r)"
    using ad by (simp add: admission_def charged_def Let_def)
  have "n \<le> cand_extend_len r'" using ad by (auto simp: admission_def)
  also have "\<dots> \<le> cand_extend_len r" using ad p by (simp add: admission_def same_demand_def cand_extend_len_def)
  finally have "ceil_paged_tokens C n < cand_extend_len r + page_size C"
    using ceil_paged_less [OF assms(2), of n] by simp
  moreover have "mx \<le> swa_new_tokens C r"
    using ad assms(6-8) by (auto simp: admission_def swa_new_tokens_def)
  ultimately have "ceil_paged_tokens C n + mx + page_size C + mamba_gap_budget_for_req C r
      < needed_tokens C r + page_size C"
    by (simp add: needed_tokens_def)
  then have "real_of_int (ceil_paged_tokens C n + mx + page_size C + mamba_gap_budget_for_req C r)
      < real_of_int (needed_tokens C r) + real_of_int (page_size C)"
    by (metis of_int_add of_int_less_iff)
  then show ?thesis using off t by (simp add: rem_total_tokens_def)
qed

theorem admission_overcommit_bound_witness:
  "\<exists>out a' r'. add_one_req demo_cfg demo_ops None demo_adder demo_long = (out, a', r')
    \<and> rem_total_token_offset a' < real_of_int (available_and_evictable demo_cfg demo_ops (env demo_adder))
        + real_of_int (page_size demo_cfg)"
proof -
  obtain a' r' where e: "add_one_req demo_cfg demo_ops None demo_adder demo_long = (Inr OTHER, a', r')"
    and l: "length (can_run_list a') = 1"
    using demo_admission by auto
  have h: "dllm_block_size demo_cfg = None" "0 < page_size demo_cfg"
    "\<not> (ignore_eos demo_long \<and> tree_cache_disabled demo_cfg)" "output_ids demo_long = []"
    "0 \<le> max_new_tokens demo_long" "0 \<le> clip_max_new_tokens demo_cfg"
    by (simp_all add: demo_cfg_def demo_long_def demo_req_def)
  have "\<not> untouched demo_adder a'" using l by (auto simp: untouched_def demo_adder_def new_adder_def)
  have "\<And>al::int. None = Some al \<Longrightarrow> 0 < al" by simp
  from admission_overcommit_bound [OF h(1,2) this h(3) e h(4-6) \<open>\<not> untouched demo_adder a'\<close>] e
  show ?thesis by blast
qed

section \<open>Lock counts\<close>
















section \<open>The chunked request\<close>

lemma admit_cut_spec:
  assumes "admit_cut C t (a, r) = (a', r')"
  shows "r' = set_extend_range (len (prefix_indices r)) (len (prefix_indices r) + min (cand_extend_len r) t) r
    \<and> can_run_list a' = can_run_list a @ [r']
    \<and> charged C r (min (cand_extend_len r) t)
        (if cand_extend_len r > t then 0 else min (max_new_tokens r) (clip_max_new_tokens C)) 0 a a'"
proof -
  let ?n = "min (cand_extend_len r) t"
  let ?mx = "if cand_extend_len r > t then 0 else min (max_new_tokens r) (clip_max_new_tokens C)"
  let ?r = "set_extend_range (len (prefix_indices r)) (len (prefix_indices r) + ?n) r"
  have e: "r' = ?r" "a' = update_prefill_budget C 0 ?n ?mx (retracted_stain ?r)
      (mamba_gap_budget_for_req C ?r) (push_can_run ?r a)"
    using assms by (auto simp: admit_cut_def Let_def)
  have g: "mamba_gap_budget_for_req C ?r = mamba_gap_budget_for_req C r"
    by (simp add: mamba_gap_budget_for_req_def set_extend_range_def)
  have cnt: "counters (push_can_run ?r a) = counters a" by (simp add: counters_def push_can_run_def)
  have "charged C ?r ?n ?mx 0 (push_can_run ?r a) a'"
    unfolding e(2) by (rule update_charges)
  then have "charged C r ?n ?mx 0 a a'"
    by (simp only: charged_gap [OF g] charged_counters [OF cnt])
  then show ?thesis using e by (simp add: push_can_run_def)
qed

lemma chunked_rem_tokens_bounds:
  assumes "dllm_block_size C = None" "rem_chunk_tokens a = Some c" "0 < c"
    and "chunked_rem_tokens C Op a = Inr (Some t)"
  shows "0 < t \<and> t \<le> c \<and> (is_hybrid_swa C \<longrightarrow> t + page_size C \<le> rem_swa_tokens Op a)"
  using assms by (auto simp: chunked_rem_tokens_def Let_def split: if_splits)

text \<open>The unfinished request of the previous batch is carried on soundly: it is held back, with
  nothing charged, only when the sliding-window pool has no room; otherwise it enters the batch with a
  range of at most the chunk budget (and, on a sliding-window pool, leaving one page there), the answer
  says exactly whether tokens are left, and a page-aligned chunk budget never goes negative.\<close>

theorem add_chunked_req_sound:
  assumes "dllm_block_size C = None" "0 < page_size C" "rem_chunk_tokens a = Some c" "0 < c"
    and "0 \<le> cand_extend_len r" "add_chunked_req C Op a r = (Inr carried, a', r')"
  shows "(carried \<and> is_hybrid_swa C \<and> a' = a \<and> r' = r)
    \<or> (\<exists>n. 0 \<le> n \<and> n \<le> c \<and> (is_hybrid_swa C \<longrightarrow> n + page_size C \<le> rem_swa_tokens Op a)
         \<and> extend_range r' = Some (len (prefix_indices r), len (prefix_indices r) + n)
         \<and> can_run_list a' = can_run_list a @ [r']
         \<and> (carried \<longleftrightarrow> n < cand_extend_len r) \<and> (0 < cand_extend_len r \<longrightarrow> 0 < n)
         \<and> rem_chunk_tokens a' = Some (c - ceil_paged_tokens C n)
         \<and> (page_size C dvd c \<longrightarrow> ceil_paged_tokens C n \<le> c))"
proof (cases "chunked_rem_tokens C Op a")
  case (Inl e)
  then show ?thesis using assms(6) by (simp add: add_chunked_req_def)
next
  case (Inr v)
  show ?thesis
  proof (cases v)
    case None
    then have "is_hybrid_swa C" using Inr assms(1,3) by (auto simp: chunked_rem_tokens_def Let_def split: if_splits)
    then show ?thesis using None Inr assms(6) by (simp add: add_chunked_req_def)
  next
    case (Some t)
    note t = chunked_rem_tokens_bounds [OF assms(1,3,4) Inr [unfolded Some]]
    obtain w a1 where ng: "negotiate_allows C Op a = (w, a1)" by fastforce
    obtain e where a1: "a1 = a\<lparr>env := e\<rparr>" using negotiate_allows_env [of C Op a] ng by auto
    let ?n = "min (cand_extend_len r) t"
    obtain a2 r2 where cut: "admit_cut C t (a1, r) = (a2, r2)" by fastforce
    have o: "carried = (cand_extend_len r > t)" "a' = a2" "r' = r2"
      using assms(6) Inr Some ng cut by (auto simp: add_chunked_req_def split: sum.splits)
    note sp = admit_cut_spec [OF cut]
    have "rem_chunk_tokens a' = Some (c - ceil_paged_tokens C ?n)"
      using sp assms(1,3) a1 o by (simp add: charged_def Let_def)
    moreover have "ceil_paged_tokens C ?n \<le> c" if "page_size C dvd c"
    proof -
      have "ceil_paged_tokens C ?n \<le> ceil_paged_tokens C c"
        unfolding ceil_paged_tokens_def using t by (intro ceil_align_mono [OF assms(2)]) (simp add: min_le_iff_disj)
      also have "\<dots> = c" using that by (auto simp: ceil_paged_tokens_def ceil_align_def ceil_div_def)
      finally show ?thesis .
    qed
    moreover have "extend_range r' = Some (len (prefix_indices r), len (prefix_indices r) + ?n)"
      "can_run_list a' = can_run_list a @ [r']"
      using sp o a1 by (auto simp: set_extend_range_def)
    moreover have "carried \<longleftrightarrow> ?n < cand_extend_len r" "0 \<le> ?n" "?n \<le> c" "0 < cand_extend_len r \<longrightarrow> 0 < ?n"
      "is_hybrid_swa C \<longrightarrow> ?n + page_size C \<le> rem_swa_tokens Op a"
      using o t assms(5) by auto
    ultimately show ?thesis by (intro disjI2 exI [of _ ?n]) blast
  qed
qed

theorem add_chunked_req_sound_witness:
  "\<exists>a' r' n. add_chunked_req demo_cfg demo_ops demo_adder demo_long = (Inr True, a', r')
    \<and> (r' = demo_long \<or> (0 < n \<and> n \<le> 16 \<and> extend_range r' = Some (0, n)))"
proof -
  have "\<exists>a' r'. add_chunked_req demo_cfg demo_ops demo_adder demo_long = (Inr True, a', r')"
    by (simp add: add_chunked_req_def chunked_rem_tokens_def admit_cut_def demo_long_def demo_adder_simps
        eval_admission Let_def)
  then obtain a' r' where e: "add_chunked_req demo_cfg demo_ops demo_adder demo_long = (Inr True, a', r')"
    by blast
  have h: "dllm_block_size demo_cfg = None" "0 < page_size demo_cfg" "rem_chunk_tokens demo_adder = Some 16"
    "(0::int) < 16" "0 \<le> cand_extend_len demo_long"
    by (simp_all add: demo_adder_simps demo_long_def cand_extend_len_def)
  have l: "prefix_indices demo_long = []" "0 < cand_extend_len demo_long"
    by (simp_all add: demo_long_def demo_req_def cand_extend_len_def)
  from add_chunked_req_sound [OF h e] l e show ?thesis by auto
qed

section \<open>The tile budget\<close>

text \<open>The tile budget sees only the candidate: requests carry no \<open>extend_input_len\<close> attribute, so
  the admitted ones count as empty, and in compact mode any batch passes whose newest member fits the
  budget on its own.\<close>

theorem tile_budget_ignores_admitted:
  assumes "\<And>r. extend_input_len_attr C r = None" "\<not> tile_budget_legacy C" "0 < n"
    and "ceil_div n (tile_block_m C) \<le> tile_budget C"
  shows "check_prefill_tile_budget C a n = None"
proof -
  have z: "admitted_extend_lens C a = replicate (length (can_run_list a)) 0"
    using assms(1) by (simp add: admitted_extend_lens_def map_replicate_const)
  have "compact_q_tiles (candidate_tile_metrics C a n) = ceil_div n (tile_block_m C)"
    unfolding candidate_tile_metrics_def z
    using assms(3) by (simp add: estimate_prefill_extend_tile_metrics_def Let_def sum_list_replicate)
  then show ?thesis using assms(2,4) by (simp add: check_prefill_tile_budget_def Let_def)
qed

theorem tile_budget_ignores_admitted_witness:
  "\<exists>a :: (nat \<Rightarrow> int) adder. length (can_run_list a) = 3
    \<and> check_prefill_tile_budget (demo_cfg\<lparr>is_hip := True, tile_budget := 2\<rparr>) a 128 = None"
proof -
  have "check_prefill_tile_budget (demo_cfg\<lparr>is_hip := True, tile_budget := 2\<rparr>)
      (demo_adder\<lparr>can_run_list := [demo_long, demo_long, demo_long]\<rparr>) 128 = None"
    by (rule tile_budget_ignores_admitted) (simp_all add: demo_cfg_def ceil_div_def)
  then show ?thesis by (intro exI [of _ "demo_adder\<lparr>can_run_list := [demo_long, demo_long, demo_long]\<rparr>"]) simp
qed

end
