(* ===== verification/Texts.thy ===== *)
theory Texts
  imports Prelude "HOL-Library.Sublist"
begin

text \<open>
  Texts as Python has them: a text is the list of its code points, substrings are on lists of any
  characters.
\<close>

type_synonym ustr = "nat list"

definition codes :: "string \<Rightarrow> nat list" where
  "codes s = map of_char s"

text \<open>\<open>xs[i:]\<close>.\<close>

definition slice_from :: "'a list \<Rightarrow> int \<Rightarrow> 'a list" where
  "slice_from xs i = drop (nat (if i < 0 then len xs + i else i)) xs"

text \<open>\<open>xs[a:b]\<close>.\<close>

definition py_slice :: "'a list \<Rightarrow> int \<Rightarrow> int \<Rightarrow> 'a list" where
  "py_slice xs a b =
     (let bound = (\<lambda>i. min (max (if i < 0 then len xs + i else i) 0) (len xs))
      in take (nat (bound b - bound a)) (drop (nat (bound a)) xs))"

fun contains_sub :: "'a list \<Rightarrow> 'a list \<Rightarrow> bool" where
  "contains_sub p [] = (p = [])"
| "contains_sub p (x # xs) = (prefix p (x # xs) \<or> contains_sub p xs)"

text \<open>Python's \<open>str.replace\<close> and \<open>str.count\<close>: leftmost occurrences that do not overlap.\<close>

function replace_all :: "'a list \<Rightarrow> 'a list \<Rightarrow> 'a list \<Rightarrow> 'a list" where
  "replace_all p rep xs =
     (if xs = [] \<or> p = [] then xs
      else if prefix p xs then rep @ replace_all p rep (drop (length p) xs)
      else hd xs # replace_all p rep (tl xs))"
  by pat_completeness auto
termination by (relation "measure (\<lambda>(p, rep, xs). length xs)") auto

function count_sub :: "'a list \<Rightarrow> 'a list \<Rightarrow> nat" where
  "count_sub p xs =
     (if xs = [] \<or> p = [] then 0
      else if prefix p xs then Suc (count_sub p (drop (length p) xs))
      else count_sub p (tl xs))"
  by pat_completeness auto
termination by (relation "measure (\<lambda>(p, xs). length xs)") auto

text \<open>\<open>str.find\<close> and \<open>str.rfind\<close>.\<close>

fun find_sub :: "'a list \<Rightarrow> 'a list \<Rightarrow> nat option" where
  "find_sub p [] = (if p = [] then Some 0 else None)"
| "find_sub p (x # xs) = (if prefix p (x # xs) then Some 0 else map_option Suc (find_sub p xs))"

fun rfind_sub :: "'a list \<Rightarrow> 'a list \<Rightarrow> nat option" where
  "rfind_sub p [] = (if p = [] then Some 0 else None)"
| "rfind_sub p (x # xs) = (case rfind_sub p xs of Some i \<Rightarrow> Some (Suc i) | None \<Rightarrow> if prefix p (x # xs) then Some 0 else None)"

definition removesuffix :: "'a list \<Rightarrow> 'a list \<Rightarrow> 'a list" where
  "removesuffix p xs = (if suffix p xs then take (length xs - length p) xs else xs)"

definition strip_prefix :: "'a list \<Rightarrow> 'a list \<Rightarrow> 'a list option" where
  "strip_prefix p xs = (if prefix p xs then Some (drop (length p) xs) else None)"

text \<open>White space of \<open>str.strip\<close> and of \<open>\s\<close>, and \<open>str.rstrip(chars)\<close>.\<close>

definition py_space :: "nat \<Rightarrow> bool" where
  "py_space c \<longleftrightarrow> 9 \<le> c \<and> c \<le> 13 \<or> 28 \<le> c \<and> c \<le> 32 \<or> c \<in> {133, 160, 5760, 8232, 8233, 8239, 8287, 12288} \<or> 8192 \<le> c \<and> c \<le> 8202"

definition rstrip_by :: "('a \<Rightarrow> bool) \<Rightarrow> 'a list \<Rightarrow> 'a list" where
  "rstrip_by P xs = rev (dropWhile P (rev xs))"

definition py_strip :: "ustr \<Rightarrow> ustr" where
  "py_strip xs = rstrip_by py_space (dropWhile py_space xs)"

text \<open>A dictionary in insertion order: an assignment keeps the place of a key.\<close>

fun dict_set :: "'k \<Rightarrow> 'v \<Rightarrow> ('k \<times> 'v) list \<Rightarrow> ('k \<times> 'v) list" where
  "dict_set k v [] = [(k, v)]"
| "dict_set k v (e # es) = (if fst e = k then (k, v) # es else e # dict_set k v es)"

declare replace_all.simps [simp del] count_sub.simps [simp del]

section \<open>Substrings\<close>

lemma contains_sub_iff: "contains_sub p xs \<longleftrightarrow> (\<exists>zs. suffix zs xs \<and> prefix p zs)"
proof (induction xs)
  case (Cons x xs)
  have "(\<exists>zs. suffix zs (x # xs) \<and> prefix p zs) \<longleftrightarrow> prefix p (x # xs) \<or> (\<exists>zs. suffix zs xs \<and> prefix p zs)"
    by (auto simp: suffix_Cons)
  then show ?case using Cons by simp
qed auto

lemma replace_all_nil [simp]: "replace_all p rep [] = []"
  and count_sub_nil [simp]: "count_sub p [] = 0"
  by (simp_all add: replace_all.simps count_sub.simps)

lemma replace_all_Cons:
  "p \<noteq> [] \<Longrightarrow> replace_all p rep (x # xs) =
     (if prefix p (x # xs) then rep @ replace_all p rep (drop (length p) (x # xs))
      else x # replace_all p rep xs)"
  by (subst replace_all.simps) simp

lemma count_sub_Cons:
  "p \<noteq> [] \<Longrightarrow> count_sub p (x # xs) =
     (if prefix p (x # xs) then Suc (count_sub p (drop (length p) (x # xs))) else count_sub p xs)"
  by (subst count_sub.simps) simp

text \<open>Induction along the scan of a nonempty pattern.\<close>

lemma scan_induct [case_names nil hit miss]:
  assumes "p \<noteq> []" "P []"
    and "\<And>x xs. prefix p (x # xs) \<Longrightarrow> P (drop (length p) (x # xs)) \<Longrightarrow> P (x # xs)"
    and "\<And>x xs. \<not> prefix p (x # xs) \<Longrightarrow> P xs \<Longrightarrow> P (x # xs)"
  shows "P ys"
proof (induction ys rule: length_induct)
  case (1 ys)
  show ?case
  proof (cases ys)
    case (Cons x xs)
    show ?thesis
    proof (cases "prefix p (x # xs)")
      case True
      have "length (drop (length p) (x # xs)) < length ys" using Cons assms(1) by (cases p) auto
      then show ?thesis using 1 assms(3) [OF True] Cons by blast
    next
      case False
      then show ?thesis using 1 assms(4) [OF False] Cons by auto
    qed
  qed (use assms(2) in simp)
qed

lemma prefix_replace_all:
  assumes "q \<noteq> []" "rep \<noteq> []" "set p \<inter> set rep = {}" "prefix p (replace_all q rep xs)"
  shows "prefix p xs"
  using assms(3,4)
proof (induction xs arbitrary: p rule: scan_induct [OF assms(1)])
  case (2 x xs)
  then have "prefix p (rep @ replace_all q rep (drop (length q) (x # xs)))"
    by (simp add: replace_all_Cons [OF assms(1)])
  then have "p = []" using 2(3) assms(2) by (cases p; cases rep) auto
  then show ?case by simp
next
  case (3 x xs)
  then have pr: "prefix p (x # replace_all q rep xs)" by (simp add: replace_all_Cons [OF assms(1)])
  show ?case
  proof (cases p)
    case (Cons a p')
    then have "prefix p' xs" using pr 3(2) [of p'] 3(3) by auto
    then show ?thesis using pr Cons by simp
  qed simp
qed simp

lemma contains_sub_append:
  assumes "set p \<inter> set rep = {}" "p \<noteq> []" "contains_sub p (rep @ xs)"
  shows "contains_sub p xs"
  using assms
proof (induction rep)
  case (Cons a rep)
  have "\<not> prefix p (a # rep @ xs)" using Cons.prems(1,2) by (cases p) auto
  then show ?case using Cons by auto
qed simp

lemma replace_all_clean:
  assumes "set p \<inter> set rep = {}" "rep \<noteq> []" "p \<noteq> []"
  shows "\<not> contains_sub p (replace_all p rep xs)"
proof (induction xs rule: scan_induct [OF assms(3)])
  case (2 x xs)
  then show ?case
    using contains_sub_append [OF assms(1,3)] by (auto simp: replace_all_Cons [OF assms(3)])
next
  case (3 x xs)
  have e: "replace_all p rep (x # xs) = x # replace_all p rep xs"
    using 3(1) by (simp add: replace_all_Cons [OF assms(3)])
  have "\<not> prefix p (x # replace_all p rep xs)"
    using prefix_replace_all [OF assms(3,2,1), of "x # xs"] 3(1) e by auto
  then show ?case using 3(2) e by simp
qed (use assms(3) in simp)

lemma count_sub_pos: "p \<noteq> [] \<Longrightarrow> contains_sub p xs \<Longrightarrow> 0 < count_sub p xs"
  by (induction xs) (auto simp: count_sub_Cons)

end
