(* ===== verification/GatewayText.thy ===== *)
theory GatewayText
  imports Texts
begin

text \<open>
  The pure parts of \<open>gateway/concurrency_proxy_v2.py\<close>: latency buckets, header forwarding, the
  stream test, the injection of \<open>enable_thinking\<close>, the sanitizer of image placeholders and the
  deduplication key. Bytes and code points are numbers. The JSON codec and the hash are arguments
  (\<open>loads\<close>, \<open>dumps\<close>, \<open>sha256\<close>): \<open>None\<close> is a raised exception.
\<close>

type_synonym bytes = "nat list"

section \<open>Strings\<close>

definition lower :: "string \<Rightarrow> string" where
  "lower = map (\<lambda>c. let n = (of_char c :: nat) in if 65 \<le> n \<and> n \<le> 90 then char_of (n + 32) else c)"

section \<open>Buckets\<close>

text \<open>The index of the bucket that is incremented.\<close>

definition ttft_bucket :: "real \<Rightarrow> string" where
  "ttft_bucket v =
     (if v < 1 then ''lt1'' else if v < 5 then ''1to5'' else if v < 30 then ''5to30''
      else if v < 60 then ''30to60'' else if v < 120 then ''60to120''
      else if v < 300 then ''120to300'' else ''gt300'')"

definition qbucket :: "real \<Rightarrow> string" where
  "qbucket v = (if v < 1 then ''lt1'' else if v < 10 then ''1to10'' else ''gt10'')"

section \<open>Header forwarding\<close>

definition hop_headers :: "string list" where
  "hop_headers = [''connection'', ''keep-alive'', ''proxy-authenticate'', ''proxy-authorization'',
     ''te'', ''trailers'', ''transfer-encoding'', ''upgrade'', ''host'',
     ''content-length'', ''content-type'']"

text \<open>The request's headers are a multidict that ignores case.\<close>

definition header_get :: "string \<Rightarrow> (string \<times> string) list \<Rightarrow> string option" where
  "header_get k hs = map_option snd (find (\<lambda>h. lower (fst h) = lower k) hs)"

definition fwd_headers :: "string \<Rightarrow> (string \<times> string) list \<Rightarrow> (string \<times> string) list" where
  "fwd_headers remote hs =
     (let out = fold (\<lambda>h d. if lower (fst h) \<in> set hop_headers then d else dict_set (fst h) (snd h) d) hs [];
          out1 = dict_set ''Content-Type''
                   (case header_get ''Content-Type'' hs of None \<Rightarrow> ''application/json'' | Some v \<Rightarrow> v) out
      in dict_set ''X-Forwarded-For''
           (case header_get ''X-Forwarded-For'' hs of
              None \<Rightarrow> remote
            | Some x \<Rightarrow> if x = [] then remote else x @ '', '' @ remote) out1)"

section \<open>JSON bodies\<close>

datatype json =
    JNull
  | JBool bool
  | JInt int
  | JFloat real
  | JStr ustr
  | JArr "json list"
  | JObj "(ustr \<times> json) list"

definition inject_path :: "string \<Rightarrow> bool" where
  "inject_path path \<longleftrightarrow> contains_sub ''/chat/completions'' path \<or> contains_sub ''/responses'' path"

definition is_stream :: "(bytes \<Rightarrow> json option) \<Rightarrow> bytes \<Rightarrow> bool" where
  "is_stream loads body =
     (if \<not> contains_sub (codes ''\"stream\"'') body then False
      else case loads body of
             Some (JObj kvs) \<Rightarrow> map_of kvs (codes ''stream'') = Some (JBool True)
           | _ \<Rightarrow> False)"

definition kwargs_key :: ustr where
  "kwargs_key = codes ''chat_template_kwargs''"

definition thinking_key :: ustr where
  "thinking_key = codes ''enable_thinking''"

definition inject_obj :: "(ustr \<times> json) list \<Rightarrow> (ustr \<times> json) list" where
  "inject_obj kvs =
     (let kw = (case map_of kvs kwargs_key of Some (JObj m) \<Rightarrow> m | _ \<Rightarrow> []);
          kw' = (if map_of kw thinking_key = None then kw @ [(thinking_key, JBool True)] else kw)
      in dict_set kwargs_key (JObj kw') kvs)"

definition maybe_inject ::
    "(bytes \<Rightarrow> json option) \<Rightarrow> (json \<Rightarrow> bytes option) \<Rightarrow> bool \<Rightarrow> bytes \<Rightarrow> string \<Rightarrow> bytes" where
  "maybe_inject loads dumps enabled body path =
     (if \<not> enabled then body
      else if \<not> inject_path path then body
      else if contains_sub (codes ''\"enable_thinking\"'') body then body
      else case loads body of
             Some (JObj kvs) \<Rightarrow>
               (case dumps (JObj (inject_obj kvs)) of Some out \<Rightarrow> out | None \<Rightarrow> body)
           | _ \<Rightarrow> body)"

section \<open>Image placeholders\<close>

definition image_placeholder :: ustr where
  "image_placeholder = codes ''<'' @ [65372] @ codes ''deepseek_image'' @ [65372] @ codes ''>''"

definition image_placeholder_repl :: ustr where
  "image_placeholder_repl = codes ''['' @ [22270, 20687] @ codes '']''"

text \<open>\<open>walk\<close> returns the rewritten value and the occurrences it replaced.\<close>

fun walk :: "json \<Rightarrow> json" where
  "walk (JStr s) = JStr (if contains_sub image_placeholder s
                         then replace_all image_placeholder image_placeholder_repl s else s)"
| "walk (JArr xs) = JArr (map walk xs)"
| "walk (JObj kvs) = JObj (map (\<lambda>kv. (fst kv, walk (snd kv))) kvs)"
| "walk v = v"

fun walk_count :: "json \<Rightarrow> nat" where
  "walk_count (JStr s) = (if contains_sub image_placeholder s then count_sub image_placeholder s else 0)"
| "walk_count (JArr xs) = sum_list (map walk_count xs)"
| "walk_count (JObj kvs) = sum_list (map (\<lambda>kv. walk_count (snd kv)) kvs)"
| "walk_count v = 0"

record sanitize_metrics =
  image_placeholders_sanitized :: nat
  image_sanitize_requests :: nat

text \<open>\<open>walk_raises\<close> stands for the recursion limit, \<open>dumps\<close> returns \<open>None\<close> for text it cannot encode.\<close>

definition sanitize_image_placeholders ::
    "(bytes \<Rightarrow> json option) \<Rightarrow> (json \<Rightarrow> bytes option) \<Rightarrow> (json \<Rightarrow> bool) \<Rightarrow> bool \<Rightarrow> bytes \<Rightarrow> string
      \<Rightarrow> sanitize_metrics \<Rightarrow> bytes \<times> sanitize_metrics" where
  "sanitize_image_placeholders loads dumps walk_raises enabled body path m =
     (if \<not> enabled then (body, m)
      else if \<not> inject_path path then (body, m)
      else if \<not> contains_sub (codes ''deepseek_image'') body then (body, m)
      else case loads body of
             None \<Rightarrow> (body, m)
           | Some obj \<Rightarrow>
               if walk_raises obj then (body, m)
               else if walk_count obj = 0 then (body, m)
               else case dumps (walk obj) of
                      None \<Rightarrow> (body, m)
                    | Some out \<Rightarrow>
                        (out, m\<lparr>image_placeholders_sanitized := image_placeholders_sanitized m + walk_count obj,
                                image_sanitize_requests := image_sanitize_requests m + 1\<rparr>))"

section \<open>Deduplication key\<close>

definition max_hash_bytes :: nat where
  "max_hash_bytes = 2 ^ 20"

fun dec_digits :: "nat \<Rightarrow> bytes" where
  "dec_digits n = (if n < 10 then [48 + n] else dec_digits (n div 10) @ [48 + n mod 10])"

declare dec_digits.simps [simp del]

definition hashed_bytes :: "bytes \<Rightarrow> bytes" where
  "hashed_bytes body = dec_digits (length body) @ codes '':'' @ take max_hash_bytes body"

definition body_key :: "(bytes \<Rightarrow> 'k) \<Rightarrow> bytes \<Rightarrow> 'k" where
  "body_key sha256 body = sha256 (hashed_bytes body)"

section \<open>Replies of the gateway itself\<close>

datatype reply = JsonReply nat string "(string \<times> string) list"

definition resp_429 :: "int \<Rightarrow> (int \<Rightarrow> string) \<Rightarrow> reply" where
  "resp_429 wait str = JsonReply 429 ''gateway_admission'' [(''Retry-After'', str wait)]"

lemma replace_all_length:
  assumes "p \<noteq> []"
  shows "int (length (replace_all p rep xs))
     = int (length xs) + int (count_sub p xs) * (int (length rep) - int (length p))"
proof (induction xs rule: scan_induct [OF assms])
  case (2 x xs)
  have "length p \<le> Suc (length xs)" using prefix_length_le [OF 2(1)] by simp
  then have "int (length (drop (length p) (x # xs))) = int (length (x # xs)) - int (length p)"
    by (simp add: of_nat_diff)
  then show ?case using 2
    by (simp add: replace_all_Cons [OF assms] count_sub_Cons [OF assms] algebra_simps del: drop_Cons)
next
  case (3 x xs)
  then show ?case by (simp add: replace_all_Cons [OF assms] count_sub_Cons [OF assms])
qed simp

section \<open>Sanitizing\<close>

text \<open>No string value of the tree holds the placeholder (object keys are not rewritten).\<close>

fun json_clean :: "json \<Rightarrow> bool" where
  "json_clean (JStr s) = (\<not> contains_sub image_placeholder s)"
| "json_clean (JArr xs) = list_all json_clean xs"
| "json_clean (JObj kvs) = list_all (\<lambda>kv. json_clean (snd kv)) kvs"
| "json_clean v = True"

lemma placeholder_facts:
  "set image_placeholder \<inter> set image_placeholder_repl = {}" "image_placeholder_repl \<noteq> []" "image_placeholder \<noteq> []"
  by (simp_all add: image_placeholder_def image_placeholder_repl_def codes_def)

lemma walk_clean: "json_clean (walk v)"
proof (induction v rule: walk.induct)
  case (1 s)
  show ?case using replace_all_clean [OF placeholder_facts] by simp
qed (auto simp: list_all_iff)

lemma walk_count_iff: "walk_count v = 0 \<longleftrightarrow> json_clean v"
proof (induction v rule: walk.induct)
  case (1 s)
  show ?case using count_sub_pos [OF placeholder_facts(3), of s] by auto
qed (auto simp: list_all_iff)

lemma walk_id: "json_clean v \<Longrightarrow> walk v = v"
proof (induction v rule: walk.induct)
  case (2 xs)
  then show ?case by (auto simp: list_all_iff intro: map_idI)
next
  case (3 kvs)
  then show ?case by (auto simp: list_all_iff intro!: map_idI prod_eqI)
qed auto

fun same_shape :: "json \<Rightarrow> json \<Rightarrow> bool" where
  "same_shape (JStr s) (JStr t) = True"
| "same_shape (JArr xs) (JArr ys) = list_all2 same_shape xs ys"
| "same_shape (JObj xs) (JObj ys) = list_all2 (\<lambda>x y. fst x = fst y \<and> same_shape (snd x) (snd y)) xs ys"
| "same_shape u v = (u = v)"

lemma same_shape_refl [simp]: "same_shape v v"
proof (induction v)
  case (JArr xs)
  then show ?case by (simp add: list.rel_refl_strong)
next
  case (JObj kvs)
  then show ?case by (auto simp: list_all2_same intro: snds.intros)
qed auto

lemma same_shape_walk: "same_shape v (walk v)"
proof (induction v rule: walk.induct)
  case (2 xs)
  then show ?case by (simp add: list_all2_conv_all_nth)
next
  case (3 kvs)
  then show ?case by (auto simp: list_all2_conv_all_nth)
qed auto

text \<open>What the JSON codec promises: what it writes it reads back.\<close>

definition codec :: "(bytes \<Rightarrow> json option) \<Rightarrow> (json \<Rightarrow> bytes option) \<Rightarrow> bool" where
  "codec loads dumps \<longleftrightarrow> (\<forall>v b. dumps v = Some b \<longrightarrow> loads b = Some v)"

text \<open>The sanitizer either passes the body on untouched, counting nothing, or forwards a body whose
  strings are free of placeholders, with the same shape and keys and every occurrence counted; a second
  pass changes nothing.\<close>

theorem sanitize_sound:
  assumes "codec loads dumps"
    and "sanitize_image_placeholders loads dumps raises on body path m = (out, m')"
  shows "(out = body \<and> m' = m
      \<or> (\<exists>v. loads body = Some v \<and> loads out = Some (walk v) \<and> json_clean (walk v) \<and> same_shape v (walk v)
           \<and> 0 < walk_count v
           \<and> image_placeholders_sanitized m' = image_placeholders_sanitized m + walk_count v
           \<and> image_sanitize_requests m' = image_sanitize_requests m + 1))
    \<and> (out = body \<or> sanitize_image_placeholders loads dumps raises on out path m' = (out, m'))"
proof (cases "out = body \<and> m' = m")
  case False
  then obtain v where v: "loads body = Some v" "walk_count v \<noteq> 0" "dumps (walk v) = Some out"
    and m': "m' = m\<lparr>image_placeholders_sanitized := image_placeholders_sanitized m + walk_count v,
                  image_sanitize_requests := image_sanitize_requests m + 1\<rparr>"
    using assms(2) by (auto simp: sanitize_image_placeholders_def split: if_splits option.splits)
  have l: "loads out = Some (walk v)" using assms(1) v(3) by (simp add: codec_def)
  have "walk_count (walk v) = 0" by (simp add: walk_count_iff walk_clean)
  then have "sanitize_image_placeholders loads dumps raises on out path m' = (out, m')"
    using l by (auto simp: sanitize_image_placeholders_def)
  then show ?thesis using v l m' by (auto simp: walk_clean same_shape_walk)
qed simp

definition demo_loads :: "bytes \<Rightarrow> json option" where
  "demo_loads b = Some (JStr b)"

definition demo_dumps :: "json \<Rightarrow> bytes option" where
  "demo_dumps v = (case v of JStr s \<Rightarrow> Some s | _ \<Rightarrow> None)"

lemma demo_codec: "codec demo_loads demo_dumps"
  by (auto simp: codec_def demo_loads_def demo_dumps_def split: json.splits)

lemma demo_sanitize:
  "sanitize_image_placeholders demo_loads demo_dumps (\<lambda>_. False) True (65 # image_placeholder) ''/v1/chat/completions''
     \<lparr>image_placeholders_sanitized = 0, image_sanitize_requests = 0\<rparr>
   = (65 # image_placeholder_repl, \<lparr>image_placeholders_sanitized = 1, image_sanitize_requests = 1\<rparr>)"
  by (simp add: sanitize_image_placeholders_def inject_path_def demo_loads_def demo_dumps_def
      image_placeholder_def image_placeholder_repl_def codes_def replace_all_Cons count_sub_Cons)

theorem sanitize_sound_witness:
  "sanitize_image_placeholders demo_loads demo_dumps (\<lambda>_. False) True (65 # image_placeholder_repl) ''/v1/chat/completions''
     \<lparr>image_placeholders_sanitized = 1, image_sanitize_requests = 1\<rparr>
   = (65 # image_placeholder_repl, \<lparr>image_placeholders_sanitized = 1, image_sanitize_requests = 1\<rparr>)"
proof -
  have "65 # image_placeholder_repl \<noteq> 65 # image_placeholder"
    by (simp add: image_placeholder_def image_placeholder_repl_def codes_def)
  then show ?thesis using sanitize_sound [OF demo_codec demo_sanitize] by blast
qed

section \<open>Injection\<close>

lemma map_of_dict_set [simp]: "map_of (dict_set k v d) = (map_of d)(k \<mapsto> v)"
  by (induction d) (auto simp: fun_eq_iff)

lemma dict_set_same: "map_of d k = Some v \<Longrightarrow> distinct (map fst d) \<Longrightarrow> dict_set k v d = d"
  by (induction d) auto

lemma keys_dict_set: "set (map fst (dict_set k v d)) = insert k (set (map fst d))"
  by (induction d) auto

lemma distinct_dict_set: "distinct (map fst d) \<Longrightarrow> distinct (map fst (dict_set k v d))"
proof (induction d)
  case (Cons e d)
  then show ?case using keys_dict_set [of k v d] by auto
qed simp

lemma inject_obj_spec:
  "map_of (inject_obj kvs) k = (if k = kwargs_key then
      Some (JObj (let kw = (case map_of kvs kwargs_key of Some (JObj m) \<Rightarrow> m | _ \<Rightarrow> []) in
         if map_of kw thinking_key = None then kw @ [(thinking_key, JBool True)] else kw))
    else map_of kvs k)"
  by (simp add: inject_obj_def Let_def)

lemma map_of_snoc: "map_of (xs @ [(k, v)]) k = (case map_of xs k of None \<Rightarrow> Some v | Some w \<Rightarrow> Some w)"
  by (simp add: map_add_def map_of_append split: option.split)

lemma inject_obj_idem:
  assumes "distinct (map fst kvs)"
  shows "inject_obj (inject_obj kvs) = inject_obj kvs"
proof -
  have d: "distinct (map fst (inject_obj kvs))"
    unfolding inject_obj_def Let_def by (rule distinct_dict_set [OF assms])
  obtain kw where kw: "map_of (inject_obj kvs) kwargs_key = Some (JObj kw)" "map_of kw thinking_key \<noteq> None"
    using inject_obj_spec [of kvs kwargs_key]
    by (auto simp: Let_def map_of_snoc map_add_def split: option.splits json.splits if_splits)
  have "inject_obj (inject_obj kvs) = dict_set kwargs_key (JObj kw) (inject_obj kvs)"
    unfolding inject_obj_def [of "inject_obj kvs"] using kw by auto
  then show ?thesis using dict_set_same [OF kw(1) d] by simp
qed

lemma maybe_inject_fixed:
  "loads out = Some (JObj kvs) \<Longrightarrow> dumps (JObj (inject_obj kvs)) = Some out
    \<Longrightarrow> maybe_inject loads dumps on out path = out"
  by (simp add: maybe_inject_def)

text \<open>Injection is a fixed point of itself and touches only one setting: outside
  \<open>chat_template_kwargs\<close> every key keeps its value, inside it every setting the client made is kept,
  and \<open>enable_thinking\<close> is true unless the client set it.\<close>

theorem maybe_inject_sound:
  assumes "codec loads dumps" "\<And>b kvs. loads b = Some (JObj kvs) \<Longrightarrow> distinct (map fst kvs)"
  shows "(maybe_inject loads dumps on body path = body
      \<or> (\<exists>kvs kvs' kw. loads body = Some (JObj kvs)
           \<and> loads (maybe_inject loads dumps on body path) = Some (JObj kvs')
           \<and> (\<forall>k. k \<noteq> kwargs_key \<longrightarrow> map_of kvs' k = map_of kvs k)
           \<and> map_of kvs' kwargs_key = Some (JObj kw)
           \<and> (case map_of kvs kwargs_key of
                Some (JObj old) \<Rightarrow> (\<forall>k v. map_of old k = Some v \<longrightarrow> map_of kw k = Some v)
                   \<and> (map_of old thinking_key = None \<longrightarrow> map_of kw thinking_key = Some (JBool True))
              | _ \<Rightarrow> kw = [(thinking_key, JBool True)])))
    \<and> maybe_inject loads dumps on (maybe_inject loads dumps on body path) path = maybe_inject loads dumps on body path"
proof (cases "maybe_inject loads dumps on body path = body")
  case False
  let ?out = "maybe_inject loads dumps on body path"
  obtain kvs where kvs: "on" "inject_path path" "loads body = Some (JObj kvs)" "dumps (JObj (inject_obj kvs)) = Some ?out"
    using False by (auto simp: maybe_inject_def split: if_splits option.splits json.splits)
  have l: "loads ?out = Some (JObj (inject_obj kvs))" using assms(1) kvs(4) by (simp add: codec_def)
  have idem: "inject_obj (inject_obj kvs) = inject_obj kvs" by (rule inject_obj_idem [OF assms(2) [OF kvs(3)]])
  have "maybe_inject loads dumps on ?out path = ?out"
    by (rule maybe_inject_fixed [where kvs = "inject_obj kvs"]) (simp_all only: l idem kvs(4))
  moreover have "\<exists>kw. map_of (inject_obj kvs) kwargs_key = Some (JObj kw)
      \<and> (case map_of kvs kwargs_key of
                Some (JObj old) \<Rightarrow> (\<forall>k v. map_of old k = Some v \<longrightarrow> map_of kw k = Some v)
                   \<and> (map_of old thinking_key = None \<longrightarrow> map_of kw thinking_key = Some (JBool True))
              | _ \<Rightarrow> kw = [(thinking_key, JBool True)])"
    by (auto simp: inject_obj_spec Let_def map_of_snoc map_add_def split: option.splits json.splits)
  moreover have "\<forall>k. k \<noteq> kwargs_key \<longrightarrow> map_of (inject_obj kvs) k = map_of kvs k"
    by (simp add: inject_obj_spec)
  ultimately show ?thesis using kvs(3) l by blast
qed simp

definition demo_obj :: "(ustr \<times> json) list" where
  "demo_obj = [(codes ''m'', JInt 1)]"

definition obj_loads :: "bytes \<Rightarrow> json option" where
  "obj_loads b = (if b = [1] then Some (JObj demo_obj)
     else if b = [2] then Some (JObj (inject_obj demo_obj)) else None)"

definition obj_dumps :: "json \<Rightarrow> bytes option" where
  "obj_dumps v = (case v of
     JObj kvs \<Rightarrow> if kvs = inject_obj demo_obj then Some [2] else None | _ \<Rightarrow> None)"

theorem maybe_inject_sound_witness:
  "maybe_inject obj_loads obj_dumps True [1] ''/v1/responses'' = [2]
    \<and> maybe_inject obj_loads obj_dumps True [2] ''/v1/responses'' = [2]"
proof -
  have one: "maybe_inject obj_loads obj_dumps True [1] ''/v1/responses'' = [2]"
    by (simp add: maybe_inject_def inject_path_def obj_loads_def obj_dumps_def codes_def)
  have c: "codec obj_loads obj_dumps"
    by (auto simp: codec_def obj_loads_def obj_dumps_def split: json.splits if_splits)
  have d: "distinct (map fst kvs)" if "obj_loads b = Some (JObj kvs)" for b kvs
    using that by (auto simp: obj_loads_def demo_obj_def inject_obj_def kwargs_key_def codes_def Let_def split: if_splits)
  from maybe_inject_sound [OF c d, where on = True and body = "[1]" and path = "''/v1/responses''"] one show ?thesis by simp
qed

section \<open>The deduplication key\<close>

fun dec_value :: "bytes \<Rightarrow> nat" where
  "dec_value bs = foldl (\<lambda>v b. 10 * v + (b - 48)) 0 bs"

lemma dec_value_digits: "dec_value (dec_digits n) = n"
proof (induction n rule: dec_digits.induct)
  case (1 n)
  then show ?case by (cases "n < 10") (simp_all add: dec_digits.simps [of n])
qed

lemma dec_digits_inj: "dec_digits n = dec_digits m \<Longrightarrow> n = m"
  by (metis dec_value_digits)

lemma dec_digits_range: "b \<in> set (dec_digits n) \<Longrightarrow> 48 \<le> b \<and> b \<le> 57"
proof (induction n rule: dec_digits.induct)
  case (1 n)
  then show ?case by (cases "n < 10") (auto simp: dec_digits.simps [of n])
qed

lemma split_at_separator:
  "s \<notin> set xs \<Longrightarrow> s \<notin> set ys \<Longrightarrow> xs @ s # us = ys @ s # vs \<Longrightarrow> xs = ys \<and> us = vs"
  by (induction xs arbitrary: ys) (case_tac ys; auto)+

text \<open>Two bodies get the same deduplication key exactly when they have the same length and the same
  first mebibyte: a difference past that point is invisible to the duplicate check.\<close>

theorem body_key_iff:
  assumes "inj sha256"
  shows "body_key sha256 b = body_key sha256 b'
    \<longleftrightarrow> length b = length b' \<and> take max_hash_bytes b = take max_hash_bytes b'"
proof
  assume "body_key sha256 b = body_key sha256 b'"
  then have "hashed_bytes b = hashed_bytes b'" using assms by (simp add: body_key_def inj_eq)
  moreover have "(58::nat) \<notin> set (dec_digits n)" for n using dec_digits_range by fastforce
  ultimately have "dec_digits (length b) = dec_digits (length b') \<and> take max_hash_bytes b = take max_hash_bytes b'"
    by (intro split_at_separator [of 58]) (simp_all add: hashed_bytes_def codes_def)
  then show "length b = length b' \<and> take max_hash_bytes b = take max_hash_bytes b'"
    using dec_digits_inj by blast
qed (simp add: body_key_def hashed_bytes_def)

theorem body_key_iff_witness:
  "body_key (\<lambda>x. x) (replicate (2 ^ 20) 7 @ [1]) = body_key (\<lambda>x. x) (replicate (2 ^ 20) 7 @ [2])"
proof -
  have "inj (\<lambda>x :: nat list. x)" by simp
  from body_key_iff [OF this] show ?thesis by (simp add: max_hash_bytes_def)
qed

section \<open>Forwarded headers\<close>

lemma forwarded_fold:
  "map_of (fold (\<lambda>h d. if lower (fst h) \<in> set hop_headers then d else dict_set (fst h) (snd h) d) hs d) k
    = (case map_of (rev (filter (\<lambda>h. lower (fst h) \<notin> set hop_headers) hs)) k of
         None \<Rightarrow> map_of d k | Some v \<Rightarrow> Some v)"
  by (induction hs arbitrary: d) (auto simp: map_of_append map_add_def split: option.split)

lemma lower_names:
  "lower ''Content-Type'' = ''content-type''" "lower ''X-Forwarded-For'' = ''x-forwarded-for''"
  by code_simp+

text \<open>Forwarding drops every hop-by-hop header, keeps the last value of every other header the
  client sent (authorization included) and always sets the content type and the forwarding chain.\<close>

theorem fwd_headers_spec:
  "map_of (fwd_headers remote hs) k =
     (if k = ''X-Forwarded-For'' then
        Some (case header_get ''X-Forwarded-For'' hs of None \<Rightarrow> remote
              | Some x \<Rightarrow> if x = [] then remote else x @ '', '' @ remote)
      else if k = ''Content-Type'' then
        Some (case header_get ''Content-Type'' hs of None \<Rightarrow> ''application/json'' | Some v \<Rightarrow> v)
      else if lower k \<in> set hop_headers then None
      else map_of (rev hs) k)"
proof -
  have f: "map_of (rev (filter (\<lambda>h. lower (fst h) \<notin> set hop_headers) hs)) k
      = (if lower k \<in> set hop_headers then None else map_of (rev hs) k)"
  proof -
    have "map_of (filter (\<lambda>h. lower (fst h) \<notin> set hop_headers) xs) k
        = (if lower k \<in> set hop_headers then None else map_of xs k)" for xs :: "(string \<times> string) list"
      by (induction xs) auto
    then show ?thesis by (simp add: rev_filter)
  qed
  show ?thesis
    unfolding fwd_headers_def Let_def map_of_dict_set
    by (simp add: forwarded_fold f split: option.split)
qed

text \<open>A forwarding header spelled differently from \<open>X-Forwarded-For\<close> is passed on unchanged
  besides the one the gateway writes, so the upstream receives the chain twice.\<close>

theorem forwarded_for_twice:
  assumes "hs = [(k, v)]" "lower k = ''x-forwarded-for''" "k \<noteq> ''X-Forwarded-For''" "v \<noteq> []"
  shows "map_of (fwd_headers remote hs) k = Some v
    \<and> map_of (fwd_headers remote hs) ''X-Forwarded-For'' = Some (v @ '', '' @ remote)"
proof -
  have "lower k \<notin> set hop_headers" "k \<noteq> ''Content-Type''"
    using assms(2) lower_names by (auto simp: hop_headers_def)
  then show ?thesis using assms lower_names
    by (auto simp: fwd_headers_def Let_def header_get_def)
qed

theorem forwarded_for_twice_witness:
  "map_of (fwd_headers ''10.0.0.1'' [(''x-forwarded-for'', ''1.2.3.4'')]) ''x-forwarded-for'' = Some ''1.2.3.4''
    \<and> map_of (fwd_headers ''10.0.0.1'' [(''x-forwarded-for'', ''1.2.3.4'')]) ''X-Forwarded-For''
        = Some (''1.2.3.4'' @ '', '' @ ''10.0.0.1'')"
  by (rule forwarded_for_twice) (simp_all add: lower_def Let_def)

end
