(* ===== verification/GatewayStream.thy ===== *)
theory GatewayStream
  imports GatewayText
begin

text \<open>
  One streaming request of \<open>gateway/concurrency_proxy_v2.py\<close>: the tasks that \<open>handle_stream\<close> runs
  once the response is open - heartbeat, producer, consumer - and the handler that supervises them,
  around the bounded frame queue. A step is one atomic section of a task between two awaits; the
  environment's choices (the upstream's answers, the timers, the client's socket, cancellation by the
  server) are the event. The control state of each task is the await it is suspended in.
\<close>

section \<open>State\<close>

text \<open>An error frame carries its \<open>[DONE]\<close> terminator; \<open>DoneMark\<close> is the queue's end marker.\<close>

datatype item = Beat | Chunk bytes | ErrFrame string | DoneMark

datatype producer_state =
    PConnect nat
  | PBackoff nat
  | PFirst
  | PPut bytes
  | PRead
  | PFinish
  | PEnd

datatype ending = EndDone | EndTotal | EndWrite | EndReset | EndCrash | EndCancel

datatype consumer_state = CGet | CWrite item | CEnd ending

datatype supervisor_state = SAwaitFirst | SAwaitConsumer | SReturned | SRaised

record stream_metrics =
  upstream_errors :: nat
  internal_retries :: nat
  first_token_timeouts :: nat
  chunk_idle_timeouts :: nat
  chunk_idle_bytes_sent :: nat
  queue_full_drops :: nat
  write_timeouts :: nat
  stream_total_timeouts :: nat
  client_disconnects :: nat

record stream_cfg =
  budget_on :: bool
  retry_connect :: nat
  err_len :: "string \<Rightarrow> nat"

text \<open>\<open>received\<close> (chunks read), \<open>delivered\<close> (frames written) and \<open>failed\<close> record the history.\<close>

record stream =
  queue :: "item list"
  ptask :: producer_state
  ctask :: consumer_state
  htask :: supervisor_state
  first_seen :: bool
  upstream_open :: bool
  heartbeat_on :: bool
  rx :: nat
  tx :: nat
  metrics :: stream_metrics
  received :: "bytes list"
  delivered :: "item list"
  failed :: bool

datatype event =
    HbTick
  | PostFail
  | PostStatus nat bool
  | BackoffOver
  | FirstChunk bytes
  | FirstTimeout
  | FirstFail
  | PutOk
  | NextChunk bytes
  | ChunkIdle
  | ReadFail
  | DonePut
  | ConsTake bool
  | WriteOk
  | WriteTimeout
  | WriteReset
  | WriteCrash
  | SupFirstSeen
  | SupBudget
  | SupJoin
  | HandlerCancel

definition queue_max :: nat where
  "queue_max = 256"

definition zero_metrics :: stream_metrics where
  "zero_metrics = \<lparr>upstream_errors = 0, internal_retries = 0, first_token_timeouts = 0,
     chunk_idle_timeouts = 0, chunk_idle_bytes_sent = 0, queue_full_drops = 0, write_timeouts = 0,
     stream_total_timeouts = 0, client_disconnects = 0\<rparr>"

definition open_stream :: stream where
  "open_stream = \<lparr>queue = [], ptask = PConnect 0, ctask = CGet, htask = SAwaitFirst, first_seen = False,
     upstream_open = False, heartbeat_on = True, rx = 0, tx = 0, metrics = zero_metrics,
     received = [], delivered = [], failed = False\<rparr>"

section \<open>The tasks\<close>

definition has_room :: "stream \<Rightarrow> bool" where
  "has_room s \<longleftrightarrow> length (queue s) < queue_max"

definition put_frame :: "item \<Rightarrow> stream \<Rightarrow> stream" where
  "put_frame f s =
     (if has_room s then s\<lparr>queue := queue s @ [f]\<rparr>
      else s\<lparr>metrics := (metrics s)\<lparr>queue_full_drops := queue_full_drops (metrics s) + 1\<rparr>\<rparr>)"

definition heartbeat :: "stream \<Rightarrow> stream" where
  "heartbeat s = (if has_room s then s\<lparr>queue := queue s @ [Beat]\<rparr> else s)"

text \<open>The producer's \<open>finally\<close>: the event is set at once, then it awaits room for the end marker.\<close>

definition finish_producer :: "stream \<Rightarrow> stream" where
  "finish_producer s = s\<lparr>first_seen := True, ptask := PFinish\<rparr>"

definition fail_producer :: "string \<Rightarrow> stream \<Rightarrow> stream" where
  "fail_producer e s = finish_producer (put_frame (ErrFrame e) (s\<lparr>failed := True\<rparr>))"

definition bump_upstream :: "stream \<Rightarrow> stream" where
  "bump_upstream s = s\<lparr>metrics := (metrics s)\<lparr>upstream_errors := upstream_errors (metrics s) + 1\<rparr>\<rparr>"

definition retry_later :: "nat \<Rightarrow> stream \<Rightarrow> stream" where
  "retry_later i s =
     s\<lparr>ptask := PBackoff (Suc i), metrics := (metrics s)\<lparr>internal_retries := internal_retries (metrics s) + 1\<rparr>\<rparr>"

text \<open>The exception branch of an attempt; reading the body of a rejection may raise into it.\<close>

definition connect_failed :: "stream_cfg \<Rightarrow> nat \<Rightarrow> stream \<Rightarrow> stream" where
  "connect_failed C i s =
     (if i < retry_connect C then retry_later i s
      else fail_producer ''gateway_upstream'' (bump_upstream s))"

definition post_answered :: "stream_cfg \<Rightarrow> nat \<Rightarrow> nat \<Rightarrow> bool \<Rightarrow> stream \<Rightarrow> stream" where
  "post_answered C i status text_ok s =
     (if 500 \<le> status \<and> i < retry_connect C then retry_later i s
      else if status \<noteq> 200 then
        (if text_ok then fail_producer ''gateway_upstream'' (bump_upstream s)
         else connect_failed C i (bump_upstream s))
      else s\<lparr>upstream_open := True, ptask := PFirst\<rparr>)"

text \<open>\<open>while data\<close>: an empty read is the end of the upstream body.\<close>

definition take_chunk :: "bytes \<Rightarrow> stream \<Rightarrow> stream" where
  "take_chunk b s =
     (let s1 = s\<lparr>rx := rx s + length b\<rparr> in
      if b = [] then finish_producer s1 else s1\<lparr>ptask := PPut b, received := received s1 @ [b]\<rparr>)"

definition first_chunk :: "bytes \<Rightarrow> stream \<Rightarrow> stream" where
  "first_chunk b s = take_chunk b (s\<lparr>first_seen := True\<rparr>)"

definition first_token_timeout :: "stream \<Rightarrow> stream" where
  "first_token_timeout s =
     s\<lparr>metrics := (metrics s)\<lparr>first_token_timeouts := first_token_timeouts (metrics s) + 1\<rparr>\<rparr>"

definition chunk_idle :: "stream \<Rightarrow> stream" where
  "chunk_idle s = fail_producer ''gateway_chunk_idle''
     (s\<lparr>metrics := (metrics s)\<lparr>chunk_idle_timeouts := chunk_idle_timeouts (metrics s) + 1,
                               chunk_idle_bytes_sent := chunk_idle_bytes_sent (metrics s) + tx s\<rparr>\<rparr>)"

text \<open>Cancellation unwinds into the \<open>finally\<close>; a second one ends the task in its last await.\<close>

definition cancel_producer :: "stream \<Rightarrow> stream" where
  "cancel_producer s =
     (case ptask s of PEnd \<Rightarrow> s | PFinish \<Rightarrow> s\<lparr>ptask := PEnd\<rparr> | _ \<Rightarrow> finish_producer s)"

definition bump_disconnects :: "stream \<Rightarrow> stream" where
  "bump_disconnects s = s\<lparr>metrics := (metrics s)\<lparr>client_disconnects := client_disconnects (metrics s) + 1\<rparr>\<rparr>"

definition cancel_consumer :: "stream \<Rightarrow> stream" where
  "cancel_consumer s =
     (case ctask s of CEnd e \<Rightarrow> s | _ \<Rightarrow> bump_disconnects (s\<lparr>ctask := CEnd EndCancel\<rparr>))"

definition item_len :: "stream_cfg \<Rightarrow> item \<Rightarrow> nat" where
  "item_len C it = (case it of Chunk b \<Rightarrow> length b | ErrFrame e \<Rightarrow> err_len C e | _ \<Rightarrow> 0)"

definition consumer_take :: "bool \<Rightarrow> stream \<Rightarrow> stream" where
  "consumer_take expired s =
     (let it = hd (queue s); s1 = s\<lparr>queue := tl (queue s)\<rparr> in
      if it = DoneMark then s1\<lparr>ctask := CEnd EndDone\<rparr>
      else if expired then
        s1\<lparr>ctask := CEnd EndTotal,
           metrics := (metrics s)\<lparr>stream_total_timeouts := stream_total_timeouts (metrics s) + 1\<rparr>\<rparr>
      else s1\<lparr>ctask := CWrite it\<rparr>)"

definition finish_err :: "string \<Rightarrow> stream \<Rightarrow> stream" where
  "finish_err e s = put_frame DoneMark (put_frame (ErrFrame e) s)"

text \<open>The handler's \<open>finally\<close> up to the last \<open>write_eof\<close>: tasks cancelled, upstream closed.\<close>

definition cleanup :: "stream \<Rightarrow> stream" where
  "cleanup s = cancel_producer (cancel_consumer (s\<lparr>heartbeat_on := False, upstream_open := False\<rparr>))"

definition budget_expired :: "stream \<Rightarrow> stream" where
  "budget_expired s =
     (finish_err ''gateway_first_token_timeout''
       (first_token_timeout ((cancel_producer s)\<lparr>failed := True\<rparr>)))\<lparr>htask := SAwaitConsumer\<rparr>"

definition handler_cancelled :: "stream \<Rightarrow> stream option" where
  "handler_cancelled s =
     (case htask s of
        SAwaitFirst \<Rightarrow> Some ((cleanup (bump_disconnects s))\<lparr>htask := SRaised\<rparr>)
      | SAwaitConsumer \<Rightarrow>
          (case ctask s of
             CEnd e \<Rightarrow> Some ((cleanup (bump_disconnects s))\<lparr>htask := SRaised\<rparr>)
           | _ \<Rightarrow> Some (cancel_consumer s))
      | _ \<Rightarrow> None)"

definition guarded :: "bool \<Rightarrow> 'a \<Rightarrow> 'a option" where
  "guarded b x = (if b then Some x else None)"

fun step :: "stream_cfg \<Rightarrow> event \<Rightarrow> stream \<Rightarrow> stream option" where
  "step C HbTick s = guarded (heartbeat_on s) (heartbeat s)"
| "step C PostFail s = (case ptask s of PConnect i \<Rightarrow> Some (connect_failed C i s) | _ \<Rightarrow> None)"
| "step C (PostStatus st ok) s = (case ptask s of PConnect i \<Rightarrow> Some (post_answered C i st ok s) | _ \<Rightarrow> None)"
| "step C BackoffOver s = (case ptask s of PBackoff i \<Rightarrow> Some (s\<lparr>ptask := PConnect i\<rparr>) | _ \<Rightarrow> None)"
| "step C (FirstChunk b) s = guarded (ptask s = PFirst) (first_chunk b s)"
| "step C FirstTimeout s = guarded (ptask s = PFirst \<and> budget_on C)
     (fail_producer ''gateway_first_token_timeout'' (first_token_timeout s))"
| "step C FirstFail s = guarded (ptask s = PFirst) (fail_producer ''gateway_upstream'' (bump_upstream s))"
| "step C PutOk s = (case ptask s of
      PPut b \<Rightarrow> guarded (has_room s) (s\<lparr>queue := queue s @ [Chunk b], ptask := PRead\<rparr>) | _ \<Rightarrow> None)"
| "step C (NextChunk b) s = guarded (ptask s = PRead) (take_chunk b s)"
| "step C ChunkIdle s = guarded (ptask s = PRead) (chunk_idle s)"
| "step C ReadFail s = guarded (ptask s = PRead) (fail_producer ''gateway_upstream'' (bump_upstream s))"
| "step C DonePut s = guarded (ptask s = PFinish \<and> has_room s) (s\<lparr>queue := queue s @ [DoneMark], ptask := PEnd\<rparr>)"
| "step C (ConsTake x) s = guarded (ctask s = CGet \<and> queue s \<noteq> []) (consumer_take x s)"
| "step C WriteOk s = (case ctask s of
      CWrite it \<Rightarrow> Some (s\<lparr>ctask := CGet, delivered := delivered s @ [it], tx := tx s + item_len C it\<rparr>)
    | _ \<Rightarrow> None)"
| "step C WriteTimeout s = (case ctask s of
      CWrite it \<Rightarrow> Some (s\<lparr>ctask := CEnd EndWrite,
        metrics := (metrics s)\<lparr>write_timeouts := write_timeouts (metrics s) + 1\<rparr>\<rparr>) | _ \<Rightarrow> None)"
| "step C WriteReset s = (case ctask s of
      CWrite it \<Rightarrow> Some (bump_disconnects (s\<lparr>ctask := CEnd EndReset\<rparr>)) | _ \<Rightarrow> None)"
| "step C WriteCrash s = (case ctask s of CWrite it \<Rightarrow> Some (s\<lparr>ctask := CEnd EndCrash\<rparr>) | _ \<Rightarrow> None)"
| "step C SupFirstSeen s = guarded (htask s = SAwaitFirst \<and> first_seen s) (s\<lparr>htask := SAwaitConsumer\<rparr>)"
| "step C SupBudget s = guarded (htask s = SAwaitFirst \<and> budget_on C \<and> \<not> first_seen s) (budget_expired s)"
| "step C SupJoin s = (case ctask s of
      CEnd e \<Rightarrow> guarded (htask s = SAwaitConsumer)
        ((cleanup (if e = EndCrash then finish_err ''gateway_internal'' s else s))\<lparr>htask := SReturned\<rparr>)
    | _ \<Rightarrow> None)"
| "step C HandlerCancel s = handler_cancelled s"

fun run :: "stream_cfg \<Rightarrow> event list \<Rightarrow> stream \<Rightarrow> stream option" where
  "run C [] s = Some s"
| "run C (e # es) s = (case step C e s of None \<Rightarrow> None | Some s' \<Rightarrow> run C es s')"

inductive reachable :: "stream_cfg \<Rightarrow> stream \<Rightarrow> bool" for C where
  start: "reachable C open_stream"
| step: "reachable C s \<Longrightarrow> step C e s = Some s' \<Longrightarrow> reachable C s'"

lemma run_reachable: "run C es s = Some s' \<Longrightarrow> reachable C s \<Longrightarrow> reachable C s'"
  by (induction es arbitrary: s) (auto split: option.splits intro: reachable.step)

end
