(* ===== verification/Gateway.thy ===== *)
theory Gateway
  imports GatewayStream "HOL-Library.Multiset"
begin

text \<open>
  The requests of \<open>gateway/concurrency_proxy_v2.py\<close> around one another: \<open>dispatch\<close>, the admission
  semaphore \<open>SEM\<close>, the table \<open>INFLIGHT\<close> of deduplication keys, \<open>relay_plain\<close>, \<open>relay_get\<close> and the
  opening and closing of \<open>handle_stream\<close>, whose open stream is the machine of \<open>GatewayStream\<close>. A
  request is in the phase of its current await; a step is one section between two awaits of one
  request. Which waiter the semaphore wakes is left open. The counters that a stream bumps are kept
  with the stream, the others are fields of \<open>gateway\<close>.
\<close>

section \<open>State\<close>

record http_request =
  req_method :: string
  req_path :: string
  authorization :: string

record 'k gw_env =
  max_concurrency :: nat
  dedup_enable :: bool
  gw_api_key :: string
  inject_enable_thinking :: bool
  sanitize_enable :: bool
  json_loads :: "bytes \<Rightarrow> json option"
  json_dumps :: "json \<Rightarrow> bytes option"
  json_dumps_utf8 :: "json \<Rightarrow> bytes option"
  walk_raises :: "json \<Rightarrow> bool"
  sha :: "bytes \<Rightarrow> 'k"
  env_stream :: stream_cfg

text \<open>\<open>Reply\<close> is an answer of the gateway by its status; \<open>Relayed\<close> has the chunks that were read, those
  that were written, and whether the connection was cut.\<close>

datatype outcome = Reply nat | Relayed nat "bytes list" "bytes list" bool | Streamed "item list" | Raised

datatype relay_state = RConnect | RPrepare nat | RRead nat | RWrite nat bytes | REof nat

record relay =
  rstate :: relay_state
  rgot :: "bytes list"
  rsent :: "bytes list"

datatype 'k phase =
    Getting
  | Queued http_request
  | Reading http_request
  | Opening 'k bool
  | Streaming 'k bool stream
  | Closing bool "item list"
  | Relaying relay
  | Finished outcome

record 'k gateway =
  sem :: nat
  inflight :: "'k list"
  requests :: "'k phase list"
  requests_total :: nat
  streams_total :: nat
  rejected_429_queue :: nat
  rejected_429_duplicate :: nat
  active_streams :: nat
  queue_now :: nat
  queue_wait_peak :: real
  queue_wait_buckets :: "string \<Rightarrow> nat"
  gw_disconnects :: nat
  gw_upstream_errors :: nat
  gw_sanitized :: sanitize_metrics

datatype relay_event =
    RelayHead nat
  | RelayPrepared
  | RelayChunk bytes
  | RelayEnd
  | RelayWritten
  | RelayClosed
  | RelayTimeout
  | RelayReset
  | RelayFail
  | RelayCancel

datatype gw_event =
    GetAnswer nat
  | GetFail
  | Acquired real
  | QueueTimeout
  | QueueCancel
  | BodyRead bytes
  | BodyFail bool
  | PrepareOk
  | PrepareFail bool
  | StreamEv event
  | EofDone
  | RelayEv relay_event

definition new_gateway :: "'k gw_env \<Rightarrow> 'k gateway" where
  "new_gateway E = \<lparr>sem = max_concurrency E, inflight = [], requests = [], requests_total = 0,
     streams_total = 0, rejected_429_queue = 0, rejected_429_duplicate = 0, active_streams = 0,
     queue_now = 0, queue_wait_peak = 0, queue_wait_buckets = (\<lambda>_. 0), gw_disconnects = 0,
     gw_upstream_errors = 0,
     gw_sanitized = \<lparr>image_placeholders_sanitized = 0, image_sanitize_requests = 0\<rparr>\<rparr>"

section \<open>Operations\<close>

text \<open>\<open>hmac.compare_digest\<close> raises \<open>TypeError\<close> on strings that are not ASCII.\<close>

definition ascii :: "string \<Rightarrow> bool" where
  "ascii s = list_all (\<lambda>c. of_char c < (128 :: nat)) s"

definition compare_digest :: "string \<Rightarrow> string \<Rightarrow> py_error + bool" where
  "compare_digest a b = (if ascii a \<and> ascii b then Inr (a = b) else Inl TypeError)"

definition gw_authorized :: "'k gw_env \<Rightarrow> http_request \<Rightarrow> py_error + bool" where
  "gw_authorized E r =
     (if gw_api_key E = [] then Inr True
      else compare_digest (authorization r) (''Bearer '' @ gw_api_key E))"

definition set_phase :: "nat \<Rightarrow> 'k phase \<Rightarrow> 'k gateway \<Rightarrow> 'k gateway" where
  "set_phase i p g = g\<lparr>requests := (requests g)[i := p]\<rparr>"

text \<open>The part of \<open>dispatch\<close> before its first await; a path under \<open>/gw/\<close> is answered at once.\<close>

definition arrive :: "'k gw_env \<Rightarrow> http_request \<Rightarrow> 'k gateway \<Rightarrow> 'k gateway" where
  "arrive E r g =
     (let g1 = g\<lparr>requests_total := requests_total g + 1\<rparr>;
          add = (\<lambda>p g'. g'\<lparr>requests := requests g' @ [p]\<rparr>) in
      if prefix ''/gw/'' (req_path r) then
        (case gw_authorized E r of
           Inl _ \<Rightarrow> add (Finished Raised) g1
         | Inr False \<Rightarrow> add (Finished (Reply 401)) g1
         | Inr True \<Rightarrow>
             add (Finished (Reply (if req_path r = ''/gw/health'' \<or> req_path r = ''/gw/metrics'' then 200 else 404))) g1)
      else if req_method r = ''GET'' \<or> req_method r = ''HEAD'' then add Getting g1
      else add (Queued r) (g1\<lparr>queue_now := queue_now g1 + 1\<rparr>))"

text \<open>\<open>acquire_or_none\<close>: the permit, the timeout (429) or a cancellation, each leaving the queue.\<close>

definition acquired :: "nat \<Rightarrow> http_request \<Rightarrow> real \<Rightarrow> 'k gateway \<Rightarrow> 'k gateway" where
  "acquired i r w g = set_phase i (Reading r)
     (g\<lparr>sem := sem g - 1, queue_now := queue_now g - 1, queue_wait_peak := max (queue_wait_peak g) w,
        queue_wait_buckets := (queue_wait_buckets g)(qbucket w := queue_wait_buckets g (qbucket w) + 1)\<rparr>)"

definition queue_timeout :: "nat \<Rightarrow> 'k gateway \<Rightarrow> 'k gateway" where
  "queue_timeout i g = set_phase i (Finished (Reply 429))
     (g\<lparr>queue_now := queue_now g - 1, rejected_429_queue := rejected_429_queue g + 1\<rparr>)"

definition queue_cancel :: "nat \<Rightarrow> 'k gateway \<Rightarrow> 'k gateway" where
  "queue_cancel i g = set_phase i (Finished Raised) (g\<lparr>queue_now := queue_now g - 1\<rparr>)"

text \<open>The \<open>finally\<close> of \<open>dispatch\<close>, and its two \<open>except\<close> clauses: \<open>gone\<close> is a reset or a cancellation.\<close>

definition release :: "nat \<Rightarrow> outcome \<Rightarrow> 'k gateway \<Rightarrow> 'k gateway" where
  "release i r g = set_phase i (Finished r) (g\<lparr>sem := sem g + 1\<rparr>)"

definition dispatch_raised :: "nat \<Rightarrow> bool \<Rightarrow> 'k gateway \<Rightarrow> 'k gateway" where
  "dispatch_raised i gone g =
     (if gone then release i Raised (g\<lparr>gw_disconnects := gw_disconnects g + 1\<rparr>) else release i (Reply 500) g)"

text \<open>\<open>handle_stream\<close> up to the await of \<open>prepare\<close>: the key is checked and set in one section.\<close>

definition open_request :: "'k gw_env \<Rightarrow> nat \<Rightarrow> bytes \<Rightarrow> 'k gateway \<Rightarrow> 'k gateway" where
  "open_request E i body g =
     (let key = body_key (sha E) body in
      if dedup_enable E then
        (if key \<in> set (inflight g) then
           release i (Reply 429) (g\<lparr>rejected_429_duplicate := rejected_429_duplicate g + 1\<rparr>)
         else set_phase i (Opening key True) (g\<lparr>inflight := inflight g @ [key]\<rparr>))
      else set_phase i (Opening key False) g)"

definition inflight_pop :: "bool \<Rightarrow> 'k \<Rightarrow> 'k gateway \<Rightarrow> 'k gateway" where
  "inflight_pop registered key g = (if registered then g\<lparr>inflight := removeAll key (inflight g)\<rparr> else g)"

definition prepare_ok :: "nat \<Rightarrow> 'k \<Rightarrow> bool \<Rightarrow> 'k gateway \<Rightarrow> 'k gateway" where
  "prepare_ok i key registered g = set_phase i (Streaming key registered open_stream)
     (g\<lparr>streams_total := streams_total g + 1, active_streams := active_streams g + 1\<rparr>)"

definition prepare_failed :: "nat \<Rightarrow> 'k \<Rightarrow> bool \<Rightarrow> bool \<Rightarrow> 'k gateway \<Rightarrow> 'k gateway" where
  "prepare_failed i key registered gone g = dispatch_raised i gone (inflight_pop registered key g)"

text \<open>One step of the open stream; with the handler's end its \<open>finally\<close> gives key and count back, and
  the request awaits \<open>write_eof\<close> (every failure of which is swallowed).\<close>

definition stream_step ::
    "'k gw_env \<Rightarrow> nat \<Rightarrow> 'k \<Rightarrow> bool \<Rightarrow> stream \<Rightarrow> event \<Rightarrow> 'k gateway \<Rightarrow> 'k gateway option" where
  "stream_step E i key registered s e g =
     (case step (env_stream E) e s of
        None \<Rightarrow> None
      | Some s' \<Rightarrow>
          Some (if htask s' = SReturned \<or> htask s' = SRaised then
                  set_phase i (Closing (htask s' = SRaised) (delivered s'))
                    (inflight_pop registered key (g\<lparr>active_streams := active_streams g - 1\<rparr>))
                else set_phase i (Streaming key registered s') g))"

definition eof_done :: "nat \<Rightarrow> bool \<Rightarrow> item list \<Rightarrow> 'k gateway \<Rightarrow> 'k gateway" where
  "eof_done i raised frames g = (if raised then dispatch_raised i True g else release i (Streamed frames) g)"

text \<open>\<open>relay_plain\<close>: \<open>resp\<close> is set from the upstream's head on, so only \<open>RConnect\<close> can still be answered.\<close>

definition count_upstream :: "'k gateway \<Rightarrow> 'k gateway" where
  "count_upstream g = g\<lparr>gw_upstream_errors := gw_upstream_errors g + 1\<rparr>"

definition relay_status :: "relay \<Rightarrow> nat option" where
  "relay_status v =
     (case rstate v of RConnect \<Rightarrow> None | RPrepare st \<Rightarrow> Some st | RRead st \<Rightarrow> Some st | RWrite st b \<Rightarrow> Some st | REof st \<Rightarrow> Some st)"

definition relay_broken :: "nat \<Rightarrow> nat \<Rightarrow> relay \<Rightarrow> 'k gateway \<Rightarrow> 'k gateway" where
  "relay_broken i status v g =
     (case relay_status v of
        None \<Rightarrow> release i (Reply status) (count_upstream g)
      | Some st \<Rightarrow> release i (Relayed st (rgot v) (rsent v) True) (count_upstream g))"

fun relay_step :: "nat \<Rightarrow> relay \<Rightarrow> relay_event \<Rightarrow> 'k gateway \<Rightarrow> 'k gateway option" where
  "relay_step i v (RelayHead st) g =
     guarded (rstate v = RConnect) (set_phase i (Relaying (v\<lparr>rstate := RPrepare st\<rparr>)) g)"
| "relay_step i v RelayPrepared g = (case rstate v of
      RPrepare st \<Rightarrow> Some (set_phase i (Relaying (v\<lparr>rstate := RRead st\<rparr>)) g) | _ \<Rightarrow> None)"
| "relay_step i v (RelayChunk b) g = (case rstate v of
      RRead st \<Rightarrow> Some (set_phase i (Relaying (v\<lparr>rstate := RWrite st b, rgot := rgot v @ [b]\<rparr>)) g) | _ \<Rightarrow> None)"
| "relay_step i v RelayEnd g = (case rstate v of
      RRead st \<Rightarrow> Some (set_phase i (Relaying (v\<lparr>rstate := REof st\<rparr>)) g) | _ \<Rightarrow> None)"
| "relay_step i v RelayWritten g = (case rstate v of
      RWrite st b \<Rightarrow> Some (set_phase i (Relaying (v\<lparr>rstate := RRead st, rsent := rsent v @ [b]\<rparr>)) g) | _ \<Rightarrow> None)"
| "relay_step i v RelayClosed g = (case rstate v of
      REof st \<Rightarrow> Some (release i (Relayed st (rgot v) (rsent v) False) g) | _ \<Rightarrow> None)"
| "relay_step i v RelayTimeout g = Some (relay_broken i 504 v g)"
| "relay_step i v RelayReset g = Some (dispatch_raised i True g)"
| "relay_step i v RelayFail g = Some (relay_broken i 502 v g)"
| "relay_step i v RelayCancel g = Some (dispatch_raised i True g)"

text \<open>\<open>relay_get\<close>: any failure of the upstream is answered with 502.\<close>

definition relay_get :: "nat \<Rightarrow> nat option \<Rightarrow> 'k gateway \<Rightarrow> 'k gateway" where
  "relay_get i answer g = set_phase i (Finished (Reply (case answer of Some st \<Rightarrow> st | None \<Rightarrow> 502))) g"

text \<open>The body arrives: on POST it is sanitized, then injected, then tested for \<open>stream\<close>.\<close>

definition body_read :: "'k gw_env \<Rightarrow> nat \<Rightarrow> http_request \<Rightarrow> bytes \<Rightarrow> 'k gateway \<Rightarrow> 'k gateway" where
  "body_read E i r raw g =
     (let relay = (\<lambda>g'. set_phase i (Relaying \<lparr>rstate = RConnect, rgot = [], rsent = []\<rparr>) g') in
      if req_method r = ''POST'' then
        (let (clean, m) = sanitize_image_placeholders (json_loads E) (json_dumps_utf8 E) (walk_raises E)
               (sanitize_enable E) raw (req_path r) (gw_sanitized g);
             body = maybe_inject (json_loads E) (json_dumps E) (inject_enable_thinking E) clean (req_path r);
             g1 = g\<lparr>gw_sanitized := m\<rparr>
         in if is_stream (json_loads E) body then open_request E i body g1 else relay g1)
      else relay g)"

fun gw_step :: "'k gw_env \<Rightarrow> nat \<Rightarrow> gw_event \<Rightarrow> 'k phase \<Rightarrow> 'k gateway \<Rightarrow> 'k gateway option" where
  "gw_step E i ev Getting g = (case ev of
      GetAnswer st \<Rightarrow> Some (relay_get i (Some st) g)
    | GetFail \<Rightarrow> Some (relay_get i None g)
    | QueueCancel \<Rightarrow> Some (set_phase i (Finished Raised) g)
    | _ \<Rightarrow> None)"
| "gw_step E i ev (Queued r) g = (case ev of
      Acquired w \<Rightarrow> guarded (0 < sem g) (acquired i r w g)
    | QueueTimeout \<Rightarrow> Some (queue_timeout i g)
    | QueueCancel \<Rightarrow> Some (queue_cancel i g)
    | _ \<Rightarrow> None)"
| "gw_step E i ev (Reading r) g = (case ev of
      BodyRead b \<Rightarrow> Some (body_read E i r b g)
    | BodyFail gone \<Rightarrow> Some (dispatch_raised i gone g)
    | _ \<Rightarrow> None)"
| "gw_step E i ev (Opening k reg) g = (case ev of
      PrepareOk \<Rightarrow> Some (prepare_ok i k reg g)
    | PrepareFail gone \<Rightarrow> Some (prepare_failed i k reg gone g)
    | _ \<Rightarrow> None)"
| "gw_step E i ev (Streaming k reg s) g = (case ev of StreamEv e \<Rightarrow> stream_step E i k reg s e g | _ \<Rightarrow> None)"
| "gw_step E i ev (Closing raised frames) g = (case ev of EofDone \<Rightarrow> Some (eof_done i raised frames g) | _ \<Rightarrow> None)"
| "gw_step E i ev (Relaying v) g = (case ev of RelayEv e \<Rightarrow> relay_step i v e g | _ \<Rightarrow> None)"
| "gw_step E i ev (Finished out) g = None"

inductive gw_reachable :: "'k gw_env \<Rightarrow> 'k gateway \<Rightarrow> bool" for E where
  start: "gw_reachable E (new_gateway E)"
| arrival: "gw_reachable E g \<Longrightarrow> gw_reachable E (arrive E r g)"
| progress: "gw_reachable E g \<Longrightarrow> i < length (requests g) \<Longrightarrow> gw_step E i e (requests g ! i) g = Some g'
    \<Longrightarrow> gw_reachable E g'"

end
