(* ===== verification/GatewayCore.thy ===== *)
theory GatewayCore
  imports GatewayStream
begin

text \<open>
  The abstract protocol of one stream: a producer, a consumer and a supervisor around a bounded
  queue, without metrics, timers or sockets. \<open>core_step\<close> says what the tasks of \<open>handle_stream\<close> may
  do to the queue and the history; the invariants are proved here once, and
  \<open>GatewayStreamFacts\<close> shows that every step of the detailed tasks is one of these.
\<close>

section \<open>State and steps\<close>

record core =
  c_queue :: "item list"
  c_prod :: producer_state
  c_cons :: consumer_state
  c_handler :: supervisor_state
  c_seen :: bool
  c_in :: "bytes list"
  c_out :: "item list"
  c_failed :: bool
  c_drops :: nat

fun early :: "producer_state \<Rightarrow> bool" where
  "early (PConnect i) = True"
| "early (PBackoff i) = True"
| "early PFirst = True"
| "early _ = False"

fun over :: "producer_state \<Rightarrow> bool" where
  "over PFinish = True"
| "over PEnd = True"
| "over _ = False"

fun alive :: "consumer_state \<Rightarrow> bool" where
  "alive (CEnd e) = False"
| "alive CGet = True"
| "alive (CWrite it) = True"

fun ended_handler :: "supervisor_state \<Rightarrow> bool" where
  "ended_handler SReturned = True"
| "ended_handler SRaised = True"
| "ended_handler _ = False"

definition cput :: "item \<Rightarrow> core \<Rightarrow> core" where
  "cput f k = (if length (c_queue k) < queue_max then k\<lparr>c_queue := c_queue k @ [f]\<rparr>
               else k\<lparr>c_drops := c_drops k + 1\<rparr>)"

definition cfinish :: "core \<Rightarrow> core" where
  "cfinish k = k\<lparr>c_seen := True, c_prod := PFinish\<rparr>"

fun end_consumer :: "consumer_state \<Rightarrow> consumer_state" where
  "end_consumer (CEnd e) = CEnd e"
| "end_consumer _ = CEnd EndCancel"

fun cancel_state :: "producer_state \<Rightarrow> producer_state" where
  "cancel_state PEnd = PEnd"
| "cancel_state PFinish = PEnd"
| "cancel_state _ = PFinish"

definition cclose :: "supervisor_state \<Rightarrow> core \<Rightarrow> core" where
  "cclose h k = k\<lparr>c_handler := h, c_cons := end_consumer (c_cons k), c_prod := cancel_state (c_prod k),
     c_seen := (c_seen k \<or> \<not> over (c_prod k))\<rparr>"

inductive core_step :: "core \<Rightarrow> core \<Rightarrow> bool" where
  beat: "length (c_queue k) < queue_max \<Longrightarrow> core_step k (k\<lparr>c_queue := c_queue k @ [Beat]\<rparr>)"
| connect: "early (c_prod k) \<Longrightarrow> early p \<Longrightarrow> core_step k (k\<lparr>c_prod := p\<rparr>)"
| chunk_in: "c_prod k = PFirst \<or> c_prod k = PRead \<Longrightarrow> b \<noteq> [] \<Longrightarrow>
    core_step k (k\<lparr>c_prod := PPut b, c_seen := True, c_in := c_in k @ [b]\<rparr>)"
| eof: "c_prod k = PFirst \<or> c_prod k = PRead \<Longrightarrow> core_step k (cfinish k)"
| fail: "early (c_prod k) \<or> c_prod k = PRead \<Longrightarrow>
    core_step k (cfinish (cput (ErrFrame e) (k\<lparr>c_failed := True\<rparr>)))"
| put: "c_prod k = PPut b \<Longrightarrow> length (c_queue k) < queue_max \<Longrightarrow>
    core_step k (k\<lparr>c_queue := c_queue k @ [Chunk b], c_prod := PRead\<rparr>)"
| done_put: "c_prod k = PFinish \<Longrightarrow> length (c_queue k) < queue_max \<Longrightarrow>
    core_step k (k\<lparr>c_queue := c_queue k @ [DoneMark], c_prod := PEnd\<rparr>)"
| take_done: "c_cons k = CGet \<Longrightarrow> c_queue k = DoneMark # q \<Longrightarrow>
    core_step k (k\<lparr>c_queue := q, c_cons := CEnd EndDone\<rparr>)"
| take_late: "c_cons k = CGet \<Longrightarrow> c_queue k = it # q \<Longrightarrow> it \<noteq> DoneMark \<Longrightarrow>
    core_step k (k\<lparr>c_queue := q, c_cons := CEnd EndTotal\<rparr>)"
| take: "c_cons k = CGet \<Longrightarrow> c_queue k = it # q \<Longrightarrow> it \<noteq> DoneMark \<Longrightarrow>
    core_step k (k\<lparr>c_queue := q, c_cons := CWrite it\<rparr>)"
| written: "c_cons k = CWrite it \<Longrightarrow> core_step k (k\<lparr>c_cons := CGet, c_out := c_out k @ [it]\<rparr>)"
| gone: "alive (c_cons k) \<Longrightarrow> e \<noteq> EndDone \<Longrightarrow> core_step k (k\<lparr>c_cons := CEnd e\<rparr>)"
| await: "c_handler k = SAwaitFirst \<Longrightarrow> c_seen k \<Longrightarrow> core_step k (k\<lparr>c_handler := SAwaitConsumer\<rparr>)"
| budget: "c_handler k = SAwaitFirst \<Longrightarrow> \<not> c_seen k \<Longrightarrow>
    core_step k ((cput DoneMark (cput (ErrFrame e)
      (k\<lparr>c_failed := True, c_prod := cancel_state (c_prod k), c_seen := True\<rparr>)))\<lparr>c_handler := SAwaitConsumer\<rparr>)"
| close: "\<not> ended_handler (c_handler k) \<Longrightarrow> ended_handler h \<Longrightarrow> core_step k (cclose h k)"
| crash: "c_cons k = CEnd EndCrash \<Longrightarrow> \<not> ended_handler (c_handler k) \<Longrightarrow> ended_handler h \<Longrightarrow>
    core_step k (cclose h (cput DoneMark (cput (ErrFrame e) k)))"

inductive core_reachable :: "core \<Rightarrow> bool" where
  start: "core_reachable \<lparr>c_queue = [], c_prod = PConnect 0, c_cons = CGet, c_handler = SAwaitFirst,
     c_seen = False, c_in = [], c_out = [], c_failed = False, c_drops = 0\<rparr>"
| step: "core_reachable k \<Longrightarrow> core_step k k' \<Longrightarrow> core_reachable k'"

section \<open>Auxiliary views\<close>

fun data_of :: "item \<Rightarrow> bytes list" where
  "data_of (Chunk b) = [b]"
| "data_of _ = []"

definition chunks :: "item list \<Rightarrow> bytes list" where
  "chunks xs = concat (map data_of xs)"

lemma chunks_simps [simp]:
  "chunks [] = []" "chunks (xs @ ys) = chunks xs @ chunks ys" "chunks (x # xs) = data_of x @ chunks xs"
  by (simp_all add: chunks_def)

fun writing :: "consumer_state \<Rightarrow> item list" where
  "writing (CWrite it) = [it]"
| "writing CGet = []"
| "writing (CEnd e) = []"

fun pending :: "producer_state \<Rightarrow> bytes list" where
  "pending (PPut b) = [b]"
| "pending _ = []"

lemma early_over [dest]: "early p \<Longrightarrow> over p \<Longrightarrow> False"
  by (cases p) auto

lemma over_not_early [simp]: "over p \<Longrightarrow> \<not> early p"
  by (cases p) auto

lemma not_pending [simp]: "early p \<Longrightarrow> pending p = []" "over p \<Longrightarrow> pending p = []"
  by (cases p; simp)+

lemma over_cancel [simp]: "over (cancel_state p)" "early p \<Longrightarrow> cancel_state p = PFinish"
  by (cases p; simp)+

lemma end_consumer_dead [simp]: "\<not> alive (end_consumer c)"
  "end_consumer c = CEnd EndDone \<longleftrightarrow> c = CEnd EndDone"
  by (cases c; simp)+

lemma dead_end [simp]: "\<not> alive c \<Longrightarrow> end_consumer c = c" "\<not> alive c \<Longrightarrow> writing c = []"
  by (cases c; simp)+

lemma alive_not_done [dest]: "alive (CEnd e) \<Longrightarrow> False"
  by simp

text \<open>Behind an end marker only frames without data follow; an error frame comes before any marker.\<close>

fun done_last :: "item list \<Rightarrow> bool" where
  "done_last [] = True"
| "done_last (x # xs) = (if x = DoneMark then chunks xs = [] else done_last xs)"

fun is_err :: "item \<Rightarrow> bool" where
  "is_err (ErrFrame e) = True"
| "is_err _ = False"

fun err_first :: "item list \<Rightarrow> bool" where
  "err_first [] = False"
| "err_first (x # xs) = (is_err x \<or> x \<noteq> DoneMark \<and> err_first xs)"

lemma done_last_append:
  "done_last (xs @ ys) \<longleftrightarrow> (if DoneMark \<in> set xs then done_last xs \<and> chunks ys = [] else done_last ys)"
  by (induction xs) auto

lemma err_first_append:
  "err_first (xs @ ys) \<longleftrightarrow> err_first xs \<or> DoneMark \<notin> set xs \<and> err_first ys"
  by (induction xs) auto

section \<open>Invariants\<close>

definition control_ok :: "core \<Rightarrow> bool" where
  "control_ok k \<longleftrightarrow> length (c_queue k) \<le> queue_max \<and> (c_seen k \<longleftrightarrow> \<not> early (c_prod k))
     \<and> (c_failed k \<longrightarrow> over (c_prod k))
     \<and> (ended_handler (c_handler k) \<longrightarrow> \<not> alive (c_cons k) \<and> over (c_prod k))"

definition flow_ok :: "core \<Rightarrow> bool" where
  "flow_ok k \<longleftrightarrow> prefix (chunks (c_out k)) (c_in k)
     \<and> (alive (c_cons k) \<longrightarrow> c_in k = chunks (c_out k @ writing (c_cons k) @ c_queue k) @ pending (c_prod k))"

definition mark_ok :: "core \<Rightarrow> bool" where
  "mark_ok k \<longleftrightarrow>
     (alive (c_cons k) \<longrightarrow> done_last (c_queue k)
        \<and> (DoneMark \<in> set (c_queue k) \<longrightarrow> over (c_prod k) \<and> (\<not> c_failed k \<longrightarrow> c_prod k = PEnd)))
     \<and> (c_cons k = CEnd EndDone \<longrightarrow> over (c_prod k)
        \<and> (\<not> c_failed k \<longrightarrow> c_prod k = PEnd \<and> chunks (c_out k) = c_in k))"

definition err_ok :: "core \<Rightarrow> bool" where
  "err_ok k \<longleftrightarrow> (c_failed k \<and> c_drops k = 0 \<longrightarrow>
     (alive (c_cons k) \<longrightarrow> (\<exists>it \<in> set (c_out k @ writing (c_cons k)). is_err it) \<or> err_first (c_queue k))
     \<and> (c_cons k = CEnd EndDone \<longrightarrow> (\<exists>it \<in> set (c_out k). is_err it)))"

named_theorems protocol_defs \<open>the invariants and the compound actions of the protocol\<close>

lemmas [protocol_defs] = control_ok_def flow_ok_def cput_def cfinish_def cclose_def

lemma control_ok_step: "core_step k k' \<Longrightarrow> control_ok k \<Longrightarrow> control_ok k'"
  by (erule core_step.cases) (auto simp: protocol_defs)

lemma flow_ok_step: "core_step k k' \<Longrightarrow> control_ok k \<Longrightarrow> flow_ok k \<Longrightarrow> flow_ok k'"
  by (erule core_step.cases) (auto simp: protocol_defs)

lemma mark_ok_step:
  assumes "core_step k k'" "control_ok k" "flow_ok k" "mark_ok k"
  shows "mark_ok k'"
proof -
  have "c_seen k \<longleftrightarrow> \<not> early (c_prod k)" "c_failed k \<longrightarrow> over (c_prod k)"
    using assms(2) by (simp_all add: control_ok_def)
  moreover have "c_in k = chunks (c_out k) @ chunks q @ pending (c_prod k)"
    if "c_cons k = CGet" "c_queue k = DoneMark # q" for q
    using assms(3) that by (simp add: flow_ok_def)
  ultimately show ?thesis using assms(1,4)
    by (elim core_step.cases) (auto simp: mark_ok_def done_last_append cput_def cfinish_def cclose_def)
qed

lemma err_ok_step:
  assumes "core_step k k'" "control_ok k" "mark_ok k" "err_ok k"
  shows "err_ok k'"
proof -
  have "c_seen k \<longleftrightarrow> \<not> early (c_prod k)" using assms(2) by (simp add: control_ok_def)
  moreover have "alive (c_cons k) \<Longrightarrow> DoneMark \<in> set (c_queue k) \<Longrightarrow> over (c_prod k)"
    using assms(3) by (simp add: mark_ok_def)
  moreover have "c_cons k = CEnd EndDone \<Longrightarrow> over (c_prod k)" using assms(3) by (simp add: mark_ok_def)
  ultimately show ?thesis using assms(1,4)
    by (elim core_step.cases) (auto simp: err_ok_def err_first_append cput_def cfinish_def cclose_def)
qed

theorem core_invariants:
  assumes "core_reachable k"
  shows "control_ok k \<and> flow_ok k \<and> mark_ok k \<and> err_ok k"
  using assms
proof (induction rule: core_reachable.induct)
  case start
  show ?case by (simp add: protocol_defs mark_ok_def err_ok_def)
next
  case (step k k')
  then show ?case using control_ok_step flow_ok_step mark_ok_step err_ok_step by blast
qed

text \<open>A producer that has ended left its end marker for the consumer.\<close>

definition live_ok :: "core \<Rightarrow> bool" where
  "live_ok k \<longleftrightarrow> (c_prod k = PEnd \<and> alive (c_cons k) \<longrightarrow> DoneMark \<in> set (c_queue k))"

lemma live_ok_step:
  assumes "core_step k k'" "control_ok k" "live_ok k"
  shows "live_ok k'"
proof -
  have "c_seen k \<longleftrightarrow> \<not> early (c_prod k)" using assms(2) by (simp add: control_ok_def)
  then show ?thesis using assms(1,3)
    by (elim core_step.cases) (auto simp: live_ok_def cput_def cfinish_def cclose_def)
qed

theorem core_live: "core_reachable k \<Longrightarrow> live_ok k"
proof (induction rule: core_reachable.induct)
  case start
  show ?case by (simp add: live_ok_def)
next
  case (step k k')
  then show ?case using core_invariants live_ok_step by blast
qed

end
