(* ===== verification/GatewayStreamFacts.thy ===== *)
theory GatewayStreamFacts
  imports GatewayCore
begin

text \<open>
  The tasks of \<open>handle_stream\<close> implement the abstract protocol of \<open>GatewayCore\<close>: every step of the
  detailed machine is a protocol step or leaves the protocol's view unchanged. The guarantees of a
  streaming request follow, over every interleaving and every behaviour of the upstream, the timers
  and the client.
\<close>

section \<open>Abstraction\<close>

definition view :: "stream \<Rightarrow> core" where
  "view s = \<lparr>c_queue = queue s, c_prod = ptask s, c_cons = ctask s, c_handler = htask s,
     c_seen = first_seen s, c_in = received s, c_out = delivered s, c_failed = failed s,
     c_drops = queue_full_drops (metrics s)\<rparr>"

named_theorems view_simps \<open>how the sections of the tasks act on the abstract view\<close>

lemma view_put_frame [view_simps]: "view (put_frame f s) = cput f (view s)"
  by (simp add: view_def put_frame_def has_room_def cput_def)

lemma view_finish [view_simps]: "view (finish_producer s) = cfinish (view s)"
  by (simp add: view_def finish_producer_def cfinish_def)

lemma view_fail [view_simps]:
  "view (fail_producer e s) = cfinish (cput (ErrFrame e) ((view s)\<lparr>c_failed := True\<rparr>))"
  by (simp add: fail_producer_def view_finish view_put_frame) (simp add: view_def)

lemma view_metrics [view_simps]:
  "view (bump_upstream s) = view s" "view (bump_disconnects s) = view s"
  "view (first_token_timeout s) = view s"
  by (simp_all add: view_def bump_upstream_def bump_disconnects_def first_token_timeout_def)

lemma view_retry [view_simps]: "view (retry_later i s) = (view s)\<lparr>c_prod := PBackoff (Suc i)\<rparr>"
  by (simp add: view_def retry_later_def)

lemma view_idle [view_simps]:
  "view (chunk_idle s) = cfinish (cput (ErrFrame ''gateway_chunk_idle'') ((view s)\<lparr>c_failed := True\<rparr>))"
  unfolding chunk_idle_def view_fail by (simp add: view_def)

lemma view_take_chunk [view_simps]:
  "first_seen s \<Longrightarrow> view (take_chunk b s) = (if b = [] then cfinish (view s)
     else (view s)\<lparr>c_prod := PPut b, c_seen := True, c_in := c_in (view s) @ [b]\<rparr>)"
  by (simp add: take_chunk_def Let_def finish_producer_def view_def cfinish_def)

lemma view_first_chunk [view_simps]:
  "view (first_chunk b s) = (if b = [] then cfinish (view s)
     else (view s)\<lparr>c_prod := PPut b, c_seen := True, c_in := c_in (view s) @ [b]\<rparr>)"
  by (simp add: first_chunk_def take_chunk_def Let_def finish_producer_def view_def cfinish_def)

lemma view_cancel_producer [view_simps]:
  "view (cancel_producer s) = (view s)\<lparr>c_prod := cancel_state (ptask s),
     c_seen := (first_seen s \<or> \<not> over (ptask s))\<rparr>"
  by (cases "ptask s") (simp_all add: cancel_producer_def finish_producer_def view_def)

lemma view_cancel_consumer [view_simps]:
  "view (cancel_consumer s) = (view s)\<lparr>c_cons := end_consumer (ctask s)\<rparr>"
  by (cases "ctask s") (simp_all add: cancel_consumer_def bump_disconnects_def view_def)

lemma view_cleanup [view_simps]: "view ((cleanup s)\<lparr>htask := h\<rparr>) = cclose h (view s)"
proof -
  let ?t = "s\<lparr>heartbeat_on := False, upstream_open := False\<rparr>"
  have p: "ptask (cancel_consumer ?t) = ptask s" "first_seen (cancel_consumer ?t) = first_seen s"
    by (cases "ctask s"; simp add: cancel_consumer_def bump_disconnects_def)+
  have "view ((cleanup s)\<lparr>htask := h\<rparr>) = (view (cleanup s))\<lparr>c_handler := h\<rparr>"
    by (simp add: view_def)
  then show ?thesis
    unfolding cleanup_def view_cancel_producer view_cancel_consumer p
    by (simp add: view_def cclose_def)
qed

lemma view_fields [simp]:
  "c_queue (view s) = queue s" "c_prod (view s) = ptask s" "c_cons (view s) = ctask s"
  "c_handler (view s) = htask s" "c_seen (view s) = first_seen s" "c_in (view s) = received s"
  "c_out (view s) = delivered s" "c_failed (view s) = failed s"
  "c_drops (view s) = queue_full_drops (metrics s)"
  by (simp_all add: view_def)

section \<open>Simulation\<close>

definition simulated :: "stream \<Rightarrow> stream \<Rightarrow> bool" where
  "simulated s s' \<longleftrightarrow> view s' = view s \<or> core_step (view s) (view s')"

lemma simulated_connect_failed:
  assumes "ptask s = PConnect i"
  shows "simulated s (connect_failed C i s)"
  using core_step.connect [of "view s" "PBackoff (Suc i)"] core_step.fail [of "view s"] assms
  by (simp add: simulated_def connect_failed_def view_simps)

lemma simulated_post:
  assumes "ptask s = PConnect i"
  shows "simulated s (post_answered C i st ok s)"
proof -
  have v: "view (s\<lparr>upstream_open := True, ptask := PFirst\<rparr>) = (view s)\<lparr>c_prod := PFirst\<rparr>"
    by (simp add: view_def)
  have f: "simulated s (connect_failed C i (bump_upstream s))"
    using simulated_connect_failed [of "bump_upstream s" i C] assms
    by (simp add: simulated_def view_simps bump_upstream_def view_def)
  show ?thesis
    using core_step.connect [of "view s" "PBackoff (Suc i)"] core_step.connect [of "view s" PFirst]
      core_step.fail [of "view s"] assms f
    by (simp add: simulated_def post_answered_def view_simps v)
qed

lemma simulated_take:
  assumes "ctask s = CGet" "queue s \<noteq> []"
  shows "simulated s (consumer_take late s)"
proof -
  obtain it q where q: "queue s = it # q" using assms(2) by (cases "queue s") auto
  have v: "view (consumer_take late s) = (view s)\<lparr>c_queue := q, c_cons :=
      (if it = DoneMark then CEnd EndDone else if late then CEnd EndTotal else CWrite it)\<rparr>"
    by (simp add: consumer_take_def view_def q Let_def)
  show ?thesis unfolding simulated_def v
    using core_step.take_done [of "view s" q] core_step.take_late [of "view s" it q]
      core_step.take [of "view s" it q] assms(1) q by simp
qed

lemma simulated_producer:
  assumes "first_seen s \<longleftrightarrow> \<not> early (ptask s)" "step C e s = Some s'"
    and "e \<in> {PostFail, BackoffOver, FirstTimeout, FirstFail, PutOk, ChunkIdle, ReadFail, DonePut}
      \<or> (\<exists>b. e = FirstChunk b \<or> e = NextChunk b) \<or> (\<exists>st ok. e = PostStatus st ok)"
  shows "simulated s s'"
proof -
  have put: "view (s\<lparr>queue := queue s @ [f], ptask := p\<rparr>) = (view s)\<lparr>c_queue := queue s @ [f], c_prod := p\<rparr>" for f p
    by (simp add: view_def)
  have retry: "view (s\<lparr>ptask := p\<rparr>) = (view s)\<lparr>c_prod := p\<rparr>" for p by (simp add: view_def)
  consider (post) "e = PostFail \<or> (\<exists>st ok. e = PostStatus st ok)"
    | (rest) "e \<in> {BackoffOver, FirstTimeout, FirstFail, PutOk, ChunkIdle, ReadFail, DonePut}
        \<or> (\<exists>b. e = FirstChunk b \<or> e = NextChunk b)"
    using assms(3) by blast
  then show ?thesis
  proof cases
    case post
    then show ?thesis using assms(2)
      by (auto intro: simulated_connect_failed simulated_post split: producer_state.splits)
  next
    case rest
    show ?thesis
    using rest assms(1,2)
      core_step.connect [of "view s"] core_step.chunk_in [of "view s"] core_step.eof [of "view s"]
      core_step.fail [of "view s"] core_step.put [of "view s"] core_step.done_put [of "view s"]
    by (auto simp: guarded_def simulated_def view_simps put retry has_room_def
        split: producer_state.splits if_splits)
  qed
qed

lemma simulated_consumer:
  assumes "step C e s = Some s'"
    and "e \<in> {WriteOk, WriteTimeout, WriteReset, WriteCrash} \<or> (\<exists>x. e = ConsTake x)"
  shows "simulated s s'"
proof -
  have v: "queue_full_drops m = queue_full_drops (metrics s) \<Longrightarrow> view (s\<lparr>ctask := c, metrics := m\<rparr>) = (view s)\<lparr>c_cons := c\<rparr>"
    "view (s\<lparr>ctask := c, delivered := d, tx := n\<rparr>) = (view s)\<lparr>c_cons := c, c_out := d\<rparr>"
    "view (s\<lparr>ctask := c\<rparr>) = (view s)\<lparr>c_cons := c\<rparr>" for c d n m
    by (simp_all add: view_def)
  consider (take) x where "e = ConsTake x" | (rest) "e \<in> {WriteOk, WriteTimeout, WriteReset, WriteCrash}"
    using assms(2) by blast
  then show ?thesis
  proof cases
    case take
    then show ?thesis using assms(1) by (auto simp: guarded_def intro: simulated_take split: if_splits)
  next
    case rest
    then show ?thesis
    using assms(1) core_step.written [of "view s"] core_step.gone [of "view s"]
    by (auto simp: guarded_def simulated_def view_simps v split: consumer_state.splits if_splits)
  qed
qed

lemma simulated_handler:
  assumes "first_seen s \<longleftrightarrow> \<not> early (ptask s)" "step C e s = Some s'"
    and "e \<in> {HbTick, SupFirstSeen, SupBudget, SupJoin, HandlerCancel}"
  shows "simulated s s'"
proof -
  have v: "view (s\<lparr>htask := h\<rparr>) = (view s)\<lparr>c_handler := h\<rparr>"
    "view (t\<lparr>htask := h\<rparr>) = (view t)\<lparr>c_handler := h\<rparr>"
    "view (t\<lparr>failed := f\<rparr>) = (view t)\<lparr>c_failed := f\<rparr>" for h t f
    by (simp_all add: view_def)
  consider "e = HbTick" | "e = SupFirstSeen" | (budget) "e = SupBudget" | (join) "e = SupJoin" | (cancel) "e = HandlerCancel"
    using assms(3) by auto
  then show ?thesis
  proof cases
    case 1
    have "view (heartbeat s) = (if has_room s then (view s)\<lparr>c_queue := queue s @ [Beat]\<rparr> else view s)"
      by (simp add: heartbeat_def view_def)
    then show ?thesis using 1 assms(2) core_step.beat [of "view s"]
      by (auto simp: guarded_def simulated_def has_room_def split: if_splits)
  next
    case 2
    then show ?thesis using assms(2) core_step.await [of "view s"]
      by (auto simp: guarded_def simulated_def v split: if_splits)
  next
    case budget
    then have g: "htask s = SAwaitFirst" "\<not> first_seen s" "s' = budget_expired s"
      using assms(2) by (auto simp: guarded_def split: if_splits)
    have "\<not> over (ptask s)" using assms(1) g(2) by blast
    with g have "view s' = (cput DoneMark (cput (ErrFrame ''gateway_first_token_timeout'')
      ((view s)\<lparr>c_failed := True, c_prod := cancel_state (c_prod (view s)), c_seen := True\<rparr>)))\<lparr>c_handler := SAwaitConsumer\<rparr>"
      using assms(1) by (simp add: budget_expired_def finish_err_def v view_simps) (simp add: view_def)
    then show ?thesis using core_step.budget [of "view s"] g by (simp add: simulated_def)
  next
    case join
    then obtain r where g: "ctask s = CEnd r" "htask s = SAwaitConsumer"
      "s' = (cleanup (if r = EndCrash then finish_err ''gateway_internal'' s else s))\<lparr>htask := SReturned\<rparr>"
      using assms(2) by (auto simp: guarded_def split: consumer_state.splits if_splits)
    show ?thesis
      using g core_step.close [of "view s" SReturned] core_step.crash [of "view s" SReturned]
      by (cases "r = EndCrash") (simp_all add: simulated_def view_simps finish_err_def)
  next
    case cancel
    have close: "simulated s ((cleanup (bump_disconnects s))\<lparr>htask := SRaised\<rparr>)" if "\<not> ended_handler (htask s)"
      using that core_step.close [of "view s" SRaised] by (simp add: simulated_def view_simps)
    have gone: "simulated s (cancel_consumer s)" if "alive (ctask s)"
      using that core_step.gone [of "view s" EndCancel]
      by (cases "ctask s") (simp_all add: simulated_def view_simps)
    show ?thesis using assms(2) cancel close gone
      by (auto simp: handler_cancelled_def split: supervisor_state.splits consumer_state.splits)
  qed
qed

lemma step_simulated:
  assumes "first_seen s \<longleftrightarrow> \<not> early (ptask s)" "step C e s = Some s'"
  shows "simulated s s'"
  using simulated_producer [OF assms] simulated_consumer [OF assms(2)] simulated_handler [OF assms]
  by (cases e) auto

lemma reachable_view: "reachable C s \<Longrightarrow> core_reachable (view s)"
proof (induction rule: reachable.induct)
  case start
  show ?case using core_reachable.start by (simp add: view_def open_stream_def zero_metrics_def)
next
  case (step s e s')
  have "control_ok (view s)" using core_invariants [OF step.IH] by blast
  then have "first_seen s \<longleftrightarrow> \<not> early (ptask s)" by (simp add: control_ok_def)
  from step_simulated [OF this step.hyps(2)] show ?case
    using step.IH core_reachable.step by (auto simp: simulated_def)
qed

section \<open>What the view leaves out\<close>

definition counts_ok :: "stream_cfg \<Rightarrow> stream \<Rightarrow> bool" where
  "counts_ok C s \<longleftrightarrow> rx s = sum_list (map length (received s)) \<and> tx s = sum_list (map (item_len C) (delivered s))"

definition history :: "stream \<Rightarrow> nat \<times> nat \<times> bytes list \<times> item list" where
  "history s = (rx s, tx s, received s, delivered s)"

definition flags :: "stream \<Rightarrow> bool \<times> bool \<times> supervisor_state" where
  "flags s = (heartbeat_on s, upstream_open s, htask s)"

text \<open>Writing only control state changes neither of them.\<close>

lemma silent_fields [simp]:
  "history (s\<lparr>ctask := c\<rparr>) = history s" "flags (s\<lparr>ctask := c\<rparr>) = flags s"
  "history (s\<lparr>ptask := p\<rparr>) = history s" "flags (s\<lparr>ptask := p\<rparr>) = flags s"
  "history (s\<lparr>first_seen := b, ptask := p\<rparr>) = history s" "flags (s\<lparr>first_seen := b, ptask := p\<rparr>) = flags s"
  "history (s\<lparr>queue := q\<rparr>) = history s" "flags (s\<lparr>queue := q\<rparr>) = flags s"
  "history (s\<lparr>metrics := m\<rparr>) = history s" "flags (s\<lparr>metrics := m\<rparr>) = flags s"
  "history (s\<lparr>failed := f\<rparr>) = history s" "flags (s\<lparr>failed := f\<rparr>) = flags s"
  "history (s\<lparr>ptask := p, metrics := m\<rparr>) = history s" "flags (s\<lparr>ptask := p, metrics := m\<rparr>) = flags s"
  "history (s\<lparr>ctask := c, metrics := m\<rparr>) = history s" "flags (s\<lparr>ctask := c, metrics := m\<rparr>) = flags s"
  "history (s\<lparr>queue := q, ptask := p\<rparr>) = history s" "flags (s\<lparr>queue := q, ptask := p\<rparr>) = flags s"
  "history (s\<lparr>first_seen := b\<rparr>) = history s" "flags (s\<lparr>first_seen := b\<rparr>) = flags s"
  "history (s\<lparr>htask := h\<rparr>) = history s"
  by (simp_all add: history_def flags_def)

lemma silent_ops [simp]:
  "history (put_frame f s) = history s" "flags (put_frame f s) = flags s"
  "history (finish_producer s) = history s" "flags (finish_producer s) = flags s"
  "history (bump_upstream s) = history s" "flags (bump_upstream s) = flags s"
  "history (bump_disconnects s) = history s" "flags (bump_disconnects s) = flags s"
  "history (first_token_timeout s) = history s" "flags (first_token_timeout s) = flags s"
  "history (retry_later i s) = history s" "flags (retry_later i s) = flags s"
  "history (heartbeat s) = history s" "flags (heartbeat s) = flags s"
  by (simp_all add: put_frame_def finish_producer_def bump_upstream_def
      bump_disconnects_def first_token_timeout_def retry_later_def heartbeat_def)

lemma silent_compounds [simp]:
  "history (fail_producer e s) = history s" "flags (fail_producer e s) = flags s"
  "history (finish_err e s) = history s" "flags (finish_err e s) = flags s"
  "history (chunk_idle s) = history s" "flags (chunk_idle s) = flags s"
  by (simp_all add: fail_producer_def chunk_idle_def finish_err_def)

lemma silent_cancels [simp]:
  "history (connect_failed C i s) = history s" "flags (connect_failed C i s) = flags s"
  "history (cancel_producer s) = history s" "flags (cancel_producer s) = flags s"
  "history (cancel_consumer s) = history s" "flags (cancel_consumer s) = flags s"
  by (simp_all add: connect_failed_def cancel_producer_def cancel_consumer_def
      split: producer_state.split consumer_state.split)

lemma history_post [simp]: "history (post_answered C i st ok s) = history s"
  by (simp add: post_answered_def) (simp add: history_def)

lemma history_take [simp]: "history (consumer_take x s) = history s"
  by (simp add: consumer_take_def Let_def history_def)

lemma history_cleanup [simp]: "history (cleanup s) = history s"
  by (simp add: cleanup_def) (simp add: history_def)

lemma flags_cleanup [simp]: "flags ((cleanup s)\<lparr>htask := h\<rparr>) = (False, False, h)"
proof -
  have "flags (cleanup s) = flags (s\<lparr>heartbeat_on := False, upstream_open := False\<rparr>)" by (simp add: cleanup_def)
  then show ?thesis by (simp add: flags_def)
qed

lemma history_take_chunk:
  "history (take_chunk b s) = (if b = [] then history s else (rx s + length b, tx s, received s @ [b], delivered s))"
  by (simp add: take_chunk_def Let_def history_def finish_producer_def)

lemma flags_take_chunk [simp]: "flags (take_chunk b s) = flags s"
  by (simp add: take_chunk_def Let_def flags_def finish_producer_def)

lemma step_history:
  assumes "step C e s = Some s'"
  shows "history s' = history s
    \<or> (\<exists>b. history s' = (rx s + length b, tx s, received s @ [b], delivered s))
    \<or> (\<exists>it. history s' = (rx s, tx s + item_len C it, received s, delivered s @ [it]))"
proof -
  have first: "history (first_chunk b s) = history (take_chunk b s)" for b
    by (simp add: first_chunk_def history_take_chunk)
  have w: "history (s\<lparr>ctask := c, delivered := d, tx := n\<rparr>) = (rx s, n, received s, d)" for c d n
    by (simp add: history_def)
  have up: "history (budget_expired s) = history s" by (simp add: budget_expired_def)
  show ?thesis
    using assms
    by (cases e) (auto simp: guarded_def first history_take_chunk w up handler_cancelled_def
        split: if_splits producer_state.splits consumer_state.splits supervisor_state.splits)
qed

lemma step_handler:
  assumes "step C e s = Some s'" "e \<notin> {SupFirstSeen, SupBudget, SupJoin, HandlerCancel}"
  shows "htask s' = htask s"
proof -
  have first: "flags (first_chunk b s) = flags s" for b by (simp add: first_chunk_def)
  have w: "flags (s\<lparr>ctask := c, delivered := d, tx := n\<rparr>) = flags s" for c d n by (simp add: flags_def)
  have take: "flags (consumer_take x s) = flags s" for x by (simp add: consumer_take_def Let_def flags_def)
  have post: "flags (s\<lparr>upstream_open := True\<rparr>) = (heartbeat_on s, True, htask s)" by (simp add: flags_def)
  have "snd (snd (flags s')) = htask s"
    using assms
    by (cases e) (auto simp: guarded_def first w take post post_answered_def flags_def [of s]
        split: if_splits producer_state.splits consumer_state.splits)
  then show ?thesis by (simp add: flags_def)
qed

lemma counts_reachable: "reachable C s \<Longrightarrow> counts_ok C s"
proof (induction rule: reachable.induct)
  case start
  show ?case by (simp add: counts_ok_def open_stream_def)
next
  case (step s e s')
  from step_history [OF step.hyps(2)] step.IH show ?case
    by (auto simp: counts_ok_def history_def)
qed

lemma flags_post: "flags (s\<lparr>upstream_open := True\<rparr>) = (heartbeat_on s, True, htask s)"
  by (simp add: flags_def)

lemma step_flags:
  assumes "step C e s = Some s'"
  shows "flags s' = flags s \<or> (\<exists>i. ptask s = PConnect i \<and> flags s' = (heartbeat_on s, True, htask s))
    \<or> (htask s = SAwaitFirst \<and> flags s' = (heartbeat_on s, upstream_open s, SAwaitConsumer))
    \<or> (\<exists>h. flags s' = (False, False, h))"
proof -
  have first: "flags (first_chunk b s) = flags s" for b by (simp add: first_chunk_def)
  have w: "flags (s\<lparr>ctask := c, delivered := d, tx := n\<rparr>) = flags s"
    "flags (s\<lparr>htask := h\<rparr>) = (heartbeat_on s, upstream_open s, h)"
    "flags (s\<lparr>upstream_open := b, ptask := p\<rparr>) = (heartbeat_on s, b, htask s)" for c d n h b p
    by (simp_all add: flags_def)
  have put: "flags (put_frame f t) = flags t" for f t by simp
  have budget: "flags (budget_expired s) = (heartbeat_on s, upstream_open s, SAwaitConsumer)"
  proof -
    let ?t = "finish_err ''gateway_first_token_timeout'' (first_token_timeout ((cancel_producer s)\<lparr>failed := True\<rparr>))"
    have "flags ?t = flags s" by simp
    then show ?thesis by (simp add: budget_expired_def flags_def)
  qed
  have take: "flags (consumer_take x s) = flags s" for x by (simp add: consumer_take_def Let_def flags_def)
  have post: "flags (post_answered C i st ok s) = flags s \<or> flags (post_answered C i st ok s) = (heartbeat_on s, True, htask s)" for i st ok
    by (simp add: post_answered_def flags_post)
  show ?thesis
  proof (cases e)
    case (PostStatus st ok)
    then show ?thesis using assms post by (auto split: producer_state.splits)
  qed (use assms in \<open>auto simp: guarded_def first w budget take handler_cancelled_def
      split: if_splits producer_state.splits consumer_state.splits supervisor_state.splits\<close>)
qed

lemma closed_reachable:
  "reachable C s \<Longrightarrow> ended_handler (htask s) \<Longrightarrow> \<not> heartbeat_on s \<and> \<not> upstream_open s"
proof (induction rule: reachable.induct)
  case (step s e s')
  have k: "control_ok (view s)" using core_invariants [OF reachable_view [OF step.hyps(1)]] by blast
  from step_flags [OF step.hyps(2)] step.IH step.prems k show ?case
    by (auto simp: flags_def control_ok_def)
qed (simp add: open_stream_def)

section \<open>Guarantees\<close>

definition demo_stream_cfg :: stream_cfg where
  "demo_stream_cfg = \<lparr>budget_on = True, retry_connect = 1, err_len = length\<rparr>"

text \<open>Connect after one retry, one chunk, end of body, everything written.\<close>

definition good_run :: "event list" where
  "good_run = [PostFail, HbTick, BackoffOver, PostStatus 200 True, ConsTake False, FirstChunk [1, 2], WriteOk,
     SupFirstSeen, PutOk, NextChunk [], ConsTake False, DonePut, WriteOk, ConsTake False]"

lemmas run_defs = guarded_def put_frame_def heartbeat_def finish_producer_def fail_producer_def
  bump_upstream_def retry_later_def connect_failed_def post_answered_def take_chunk_def first_chunk_def
  first_token_timeout_def chunk_idle_def cancel_producer_def bump_disconnects_def cancel_consumer_def
  consumer_take_def finish_err_def cleanup_def budget_expired_def handler_cancelled_def Let_def
  has_room_def open_stream_def zero_metrics_def queue_max_def item_len_def demo_stream_cfg_def

lemma good_run_result:
  "\<exists>s. run demo_stream_cfg good_run open_stream = Some s \<and> ctask s = CEnd EndDone \<and> \<not> failed s
    \<and> received s = [[1, 2]] \<and> delivered s = [Beat, Chunk [1, 2]] \<and> tx s = 2 \<and> htask s = SAwaitConsumer"
  by (simp add: good_run_def run_defs)

text \<open>C28: The tasks of a stream implement the abstract queue protocol: every step of a reachable stream
  is a protocol step on its view, or invisible there, and the view of a reachable stream is reachable.\<close>

theorem stream_refines_protocol:
  assumes "reachable C s" "step C e s = Some s'"
  shows "core_reachable (view s) \<and> (view s' = view s \<or> core_step (view s) (view s'))"
proof
  show v: "core_reachable (view s)" by (rule reachable_view [OF assms(1)])
  have "first_seen s \<longleftrightarrow> \<not> early (ptask s)"
    using core_invariants [OF v] by (simp add: control_ok_def)
  from step_simulated [OF this assms(2)] show "view s' = view s \<or> core_step (view s) (view s')"
    by (simp add: simulated_def)
qed

theorem stream_refines_protocol_witness:
  "\<exists>s'. step demo_stream_cfg PostFail open_stream = Some s' \<and> ptask s' = PBackoff 1
    \<and> (view s' = view open_stream \<or> core_step (view open_stream) (view s'))"
proof -
  have "\<exists>s'. step demo_stream_cfg PostFail open_stream = Some s' \<and> ptask s' = PBackoff 1"
    by (simp add: run_defs)
  then obtain s' where s': "step demo_stream_cfg PostFail open_stream = Some s'" "ptask s' = PBackoff 1"
    by blast
  from stream_refines_protocol [OF reachable.start s'(1)] s' show ?thesis by blast
qed

text \<open>C29: No data frame is lost, duplicated or reordered: what the client has received is always a prefix
  of what the engine sent, everything else is in flight in order while the client reads, the queue never
  exceeds its bound, and the byte counters are exact (heartbeats excluded).\<close>

theorem stream_data_intact:
  assumes "reachable C s"
  shows "length (queue s) \<le> queue_max \<and> prefix (chunks (delivered s)) (received s)
    \<and> (alive (ctask s) \<longrightarrow> received s = chunks (delivered s @ writing (ctask s) @ queue s) @ pending (ptask s))
    \<and> rx s = sum_list (map length (received s)) \<and> tx s = sum_list (map (item_len C) (delivered s))"
  using core_invariants [OF reachable_view [OF assms]] counts_reachable [OF assms]
  by (simp add: control_ok_def flow_ok_def counts_ok_def)

theorem stream_data_intact_witness:
  "\<exists>s. run demo_stream_cfg good_run open_stream = Some s \<and> chunks (delivered s) = [[1, 2]]
    \<and> length (queue s) \<le> queue_max \<and> prefix (chunks (delivered s)) (received s)
    \<and> rx s = sum_list (map length (received s)) \<and> tx s = sum_list (map (item_len demo_stream_cfg) (delivered s))"
proof -
  obtain s where s: "run demo_stream_cfg good_run open_stream = Some s" "delivered s = [Beat, Chunk [1, 2]]"
    using good_run_result by blast
  from stream_data_intact [OF run_reachable [OF s(1) reachable.start]] s show ?thesis by simp
qed



text \<open>C31: Whichever way the handler ends, nothing of the stream stays behind that serves it: heartbeat and
  upstream are off, the client writer has stopped and the producer is past its last read.\<close>

theorem stream_cleaned_up:
  assumes "reachable C s" "htask s = SReturned \<or> htask s = SRaised"
  shows "\<not> heartbeat_on s \<and> \<not> upstream_open s \<and> (\<exists>r. ctask s = CEnd r) \<and> ptask s \<in> {PFinish, PEnd}"
proof -
  have e: "ended_handler (htask s)" using assms(2) by auto
  have c: "\<not> alive (ctask s)" "over (ptask s)"
    using core_invariants [OF reachable_view [OF assms(1)]] e by (simp_all add: control_ok_def)
  have "\<exists>r. ctask s = CEnd r" using c(1) by (cases "ctask s") auto
  moreover have "ptask s \<in> {PFinish, PEnd}" using c(2) by (cases "ptask s") auto
  ultimately have "\<exists>r. ctask s = CEnd r" "ptask s \<in> {PFinish, PEnd}" by blast+
  then show ?thesis using closed_reachable [OF assms(1) e] by blast
qed

theorem stream_cleaned_up_witness:
  "\<exists>s. run demo_stream_cfg (good_run @ [SupJoin]) open_stream = Some s \<and> htask s = SReturned
    \<and> \<not> heartbeat_on s \<and> \<not> upstream_open s \<and> ptask s \<in> {PFinish, PEnd}"
proof -
  have "\<exists>s. run demo_stream_cfg (good_run @ [SupJoin]) open_stream = Some s \<and> htask s = SReturned"
    by (simp add: good_run_def run_defs)
  then obtain s where s: "run demo_stream_cfg (good_run @ [SupJoin]) open_stream = Some s" "htask s = SReturned"
    by blast
  have "htask s = SReturned \<or> htask s = SRaised" using s(2) by simp
  from stream_cleaned_up [OF run_reachable [OF s(1) reachable.start] this] s show ?thesis by blast
qed

section \<open>Where the contract does not hold\<close>


text \<open>A client that goes away before the first token is not noticed by the handler: the run below
  leaves the writer ended by a reset while the handler, with the upstream open, still waits for the first
  byte, and only the first-token budget or a cancellation by the server can take it out of that wait.\<close>

theorem disconnect_waits_for_first_token:
  "\<exists>es s. run C es open_stream = Some s \<and> ctask s = CEnd EndReset \<and> htask s = SAwaitFirst \<and> upstream_open s
    \<and> \<not> (\<exists>e s'. step C e s = Some s' \<and> htask s' \<noteq> SAwaitFirst \<and> e \<noteq> SupBudget \<and> e \<noteq> HandlerCancel)"
proof -
  let ?es = "[PostStatus 200 True, HbTick, ConsTake False, WriteReset]"
  obtain s where s: "run C ?es open_stream = Some s" "ctask s = CEnd EndReset" "htask s = SAwaitFirst"
    "upstream_open s" "\<not> first_seen s"
  proof -
    have "\<exists>s. run C ?es open_stream = Some s \<and> ctask s = CEnd EndReset \<and> htask s = SAwaitFirst
        \<and> upstream_open s \<and> \<not> first_seen s"
      by (simp add: run_defs)
    then show ?thesis using that by blast
  qed
  have "htask s' = SAwaitFirst" if "e \<noteq> SupBudget" "e \<noteq> HandlerCancel" "step C e s = Some s'" for e s'
  proof (cases "e = SupFirstSeen \<or> e = SupJoin")
    case True
    then show ?thesis using that(3) s by (auto simp: guarded_def)
  next
    case False
    then show ?thesis using step_handler [OF that(3)] that(1,2) s(3) by simp
  qed
  then show ?thesis using s by blast
qed

text \<open>A cancellation while the first token is awaited counts the client twice inside the stream, once
  in the handler and once in the cancelled writer (and the caller counts it again).\<close>

theorem cancel_counts_twice:
  assumes "htask s = SAwaitFirst" "alive (ctask s)" "step C HandlerCancel s = Some s'"
  shows "client_disconnects (metrics s') = client_disconnects (metrics s) + 2 \<and> htask s' = SRaised"
proof -
  have p: "client_disconnects (metrics (cancel_producer t)) = client_disconnects (metrics t)" for t
    by (simp add: cancel_producer_def finish_producer_def split: producer_state.split)
  have "s' = (cleanup (bump_disconnects s))\<lparr>htask := SRaised\<rparr>"
    using assms by (simp add: handler_cancelled_def)
  then show ?thesis using assms(2)
    by (cases "ctask s") (simp_all add: cleanup_def p cancel_consumer_def bump_disconnects_def)
qed

theorem cancel_counts_twice_witness:
  "\<exists>s'. step demo_stream_cfg HandlerCancel open_stream = Some s'
    \<and> client_disconnects (metrics s') = client_disconnects (metrics open_stream) + 2"
proof -
  have h: "htask open_stream = SAwaitFirst" "alive (ctask open_stream)" by (simp_all add: open_stream_def)
  have "\<exists>s'. step demo_stream_cfg HandlerCancel open_stream = Some s'" by (simp add: run_defs)
  then obtain s' where s': "step demo_stream_cfg HandlerCancel open_stream = Some s'" by blast
  from cancel_counts_twice [OF h s'] s' show ?thesis by blast
qed

section \<open>A producer that never ends\<close>

lemma run_append:
  "run C (xs @ ys) s = (case run C xs s of None \<Rightarrow> None | Some t \<Rightarrow> run C ys t)"
  by (induction xs arbitrary: s) (auto split: option.split)

lemma pump:
  assumes "ptask s = PPut [0]" "length (queue s) + n \<le> queue_max"
  shows "run C (concat (replicate n [PutOk, NextChunk [0]])) s =
    Some (s\<lparr>queue := queue s @ replicate n (Chunk [0]), rx := rx s + n, received := received s @ replicate n [0]\<rparr>)"
  using assms
proof (induction n arbitrary: s)
  case (Suc n)
  let ?t = "s\<lparr>queue := queue s @ [Chunk [0]], rx := rx s + 1, received := received s @ [[0]]\<rparr>"
  have "run C [PutOk, NextChunk [0]] s = Some ?t"
    using Suc.prems by (simp add: guarded_def has_room_def take_chunk_def Let_def)
  moreover have "run C (concat (replicate n [PutOk, NextChunk [0]])) ?t =
      Some (?t\<lparr>queue := queue ?t @ replicate n (Chunk [0]), rx := rx ?t + n, received := received ?t @ replicate n [0]\<rparr>)"
    using Suc.prems by (intro Suc.IH) simp_all
  ultimately have "run C ([PutOk, NextChunk [0]] @ concat (replicate n [PutOk, NextChunk [0]])) s =
      Some (?t\<lparr>queue := queue ?t @ replicate n (Chunk [0]), rx := rx ?t + n, received := received ?t @ replicate n [0]\<rparr>)"
    unfolding run_append by simp
  then show ?case by (simp add: replicate_append_same)
qed simp

text \<open>A client that stops reading while the engine keeps sending: the queue is full when the writer
  gives up, and the cancelled producer waits for room for its end marker.\<close>

definition stalled_run :: "event list" where
  "stalled_run = [PostStatus 200 True, FirstChunk [0], SupFirstSeen]
     @ concat (replicate 256 [PutOk, NextChunk [0]])
     @ [ConsTake False, PutOk, NextChunk [0], WriteTimeout, SupJoin]"

text \<open>The producer's end marker is not guaranteed to find room: after the run in which the client's
  writer times out on a full queue, the handler has returned and no step whatsoever moves the producer
  out of its wait - the task never ends.\<close>

theorem finished_producer_stuck:
  "\<exists>s. run C stalled_run open_stream = Some s \<and> htask s = SReturned \<and> ptask s = PFinish
    \<and> \<not> (\<exists>e s'. step C e s = Some s' \<and> ptask s' \<noteq> PFinish)"
proof -
  define a where "a = open_stream\<lparr>ptask := PPut [0], upstream_open := True, first_seen := True, rx := 1,
      received := [[0]], htask := SAwaitConsumer\<rparr>"
  define b where "b = a\<lparr>queue := replicate 256 (Chunk [0]), rx := 1 + 256, received := [0] # replicate 256 [0]\<rparr>"
  have "run C [PostStatus 200 True, FirstChunk [0], SupFirstSeen] open_stream = Some a"
    by (simp add: run_defs a_def)
  moreover have "run C (concat (replicate 256 [PutOk, NextChunk [0]])) a = Some b"
    using pump [of a 256 C] by (simp add: a_def b_def open_stream_def queue_max_def)
  moreover have "\<exists>s. run C [ConsTake False, PutOk, NextChunk [0], WriteTimeout, SupJoin] b = Some s
      \<and> htask s = SReturned \<and> ptask s = PFinish \<and> length (queue s) = 256 \<and> \<not> heartbeat_on s
      \<and> ctask s = CEnd EndWrite"
  proof -
    have "queue b \<noteq> []" "hd (queue b) = Chunk [0]" "length (queue b) = 256" by (simp_all add: b_def)
    moreover have "ctask b = CGet" "ptask b = PPut [0]" "htask b = SAwaitConsumer"
      by (simp_all add: b_def a_def open_stream_def)
    ultimately show ?thesis
      by (simp add: guarded_def consumer_take_def Let_def has_room_def queue_max_def take_chunk_def cleanup_def
          cancel_consumer_def cancel_producer_def finish_producer_def)
  qed
  ultimately obtain s where s: "run C stalled_run open_stream = Some s" "htask s = SReturned" "ptask s = PFinish"
    "length (queue s) = 256" "\<not> heartbeat_on s" "ctask s = CEnd EndWrite"
    unfolding stalled_run_def run_append by auto
  have "ptask s' = PFinish" if "step C e s = Some s'" for e s'
    using that s by (cases e) (auto simp: guarded_def has_room_def queue_max_def handler_cancelled_def)
  then show ?thesis using s by blast
qed

end
