(* ===== verification/GatewayProgress.thy ===== *)
theory GatewayProgress
  imports GatewayStreamFacts
begin

text \<open>
  A stream can always come to its end: from every reachable state there is a run of the tasks, without
  a cancellation by the server, after which the handler has returned. The run is built by a strategy
  (drain the queue, then let the producer fail or finish) with a decreasing measure.
\<close>

section \<open>Strategy and measure\<close>

fun producer_weight :: "producer_state \<Rightarrow> nat" where
  "producer_weight (PBackoff i) = 6"
| "producer_weight (PConnect i) = 5"
| "producer_weight PFirst = 4"
| "producer_weight (PPut b) = 3"
| "producer_weight PRead = 2"
| "producer_weight PFinish = 1"
| "producer_weight PEnd = 0"

fun consumer_weight :: "consumer_state \<Rightarrow> nat" where
  "consumer_weight (CWrite it) = 1"
| "consumer_weight _ = 0"

fun handler_weight :: "supervisor_state \<Rightarrow> nat" where
  "handler_weight SAwaitFirst = 2"
| "handler_weight SAwaitConsumer = 1"
| "handler_weight _ = 0"

definition weight :: "stream \<Rightarrow> nat" where
  "weight s = 5 * producer_weight (ptask s) + 2 * length (queue s) + consumer_weight (ctask s)
     + handler_weight (htask s)"

fun producer_event :: "producer_state \<Rightarrow> event" where
  "producer_event (PBackoff i) = BackoffOver"
| "producer_event (PConnect i) = PostStatus 200 True"
| "producer_event PFirst = FirstFail"
| "producer_event (PPut b) = PutOk"
| "producer_event PRead = ReadFail"
| "producer_event PFinish = DonePut"
| "producer_event PEnd = HbTick"

definition next_event :: "stream \<Rightarrow> event" where
  "next_event s =
     (case ctask s of
        CWrite it \<Rightarrow> WriteOk
      | CGet \<Rightarrow> if queue s \<noteq> [] then ConsTake False else producer_event (ptask s)
      | CEnd e \<Rightarrow> if \<not> first_seen s then producer_event (ptask s)
                  else if htask s = SAwaitFirst then SupFirstSeen else SupJoin)"

lemma next_event_no_cancel: "next_event s \<noteq> HandlerCancel"
proof -
  have "producer_event p \<noteq> HandlerCancel" for p by (cases p) simp_all
  then show ?thesis by (simp add: next_event_def split: consumer_state.split)
qed

lemma put_frame_weight:
  "ptask (put_frame f s) = ptask s" "ctask (put_frame f s) = ctask s" "htask (put_frame f s) = htask s"
  "length (queue (put_frame f s)) \<le> Suc (length (queue s))"
  by (simp_all add: put_frame_def)

lemma fail_weight:
  assumes "2 \<le> producer_weight (ptask s)"
  shows "weight (fail_producer e s) < weight s"
proof -
  have q: "length (queue (fail_producer e s)) \<le> Suc (length (queue s))"
    using put_frame_weight(4) [of "ErrFrame e" "s\<lparr>failed := True\<rparr>"]
    by (simp add: fail_producer_def finish_producer_def)
  have "ptask (fail_producer e s) = PFinish" "ctask (fail_producer e s) = ctask s" "htask (fail_producer e s) = htask s"
    by (simp_all add: fail_producer_def finish_producer_def put_frame_weight)
  then show ?thesis using q assms by (simp add: weight_def)
qed

lemma producer_step:
  assumes "ptask s \<noteq> PEnd" "has_room s \<or> early (ptask s)"
  shows "\<exists>s'. step C (producer_event (ptask s)) s = Some s' \<and> weight s' < weight s"
proof (cases "ptask s")
  case PFirst
  then show ?thesis using fail_weight [of "bump_upstream s" "''gateway_upstream''"]
    by (simp add: guarded_def bump_upstream_def weight_def)
next
  case PRead
  then show ?thesis using fail_weight [of "bump_upstream s" "''gateway_upstream''"]
    by (simp add: guarded_def bump_upstream_def weight_def)
qed (use assms in \<open>simp_all add: guarded_def weight_def post_answered_def\<close>)

lemma strategy_step:
  assumes "reachable C s" "\<not> ended_handler (htask s)"
  shows "\<exists>s'. step C (next_event s) s = Some s' \<and> (ended_handler (htask s') \<or> weight s' < weight s)"
proof -
  note view = reachable_view [OF assms(1)]
  have seen: "first_seen s \<longleftrightarrow> \<not> early (ptask s)"
    using core_invariants [OF view] by (simp add: control_ok_def)
  have live: "DoneMark \<in> set (queue s)" if "ptask s = PEnd" "alive (ctask s)"
    using core_live [OF view] that by (simp add: live_ok_def)
  show ?thesis
  proof (cases "ctask s")
    case CGet
    show ?thesis
    proof (cases "queue s = []")
      case True
      then have "ptask s \<noteq> PEnd" "has_room s"
        using live CGet by (auto simp: has_room_def queue_max_def)
      then show ?thesis using producer_step [of s C] CGet True by (auto simp: next_event_def)
    next
      case False
      then show ?thesis using CGet
        by (cases "queue s") (simp_all add: next_event_def guarded_def consumer_take_def Let_def weight_def)
    qed
  next
    case (CWrite it)
    then show ?thesis by (simp add: next_event_def weight_def)
  next
    case (CEnd e)
    show ?thesis
    proof (cases "first_seen s")
      case True
      then show ?thesis using CEnd assms(2)
        by (cases "htask s") (simp_all add: next_event_def guarded_def weight_def)
    next
      case False
      then have "early (ptask s)" using seen by simp
      moreover from this have "ptask s \<noteq> PEnd" by auto
      ultimately show ?thesis using producer_step [of s C] CEnd False by (auto simp: next_event_def)
    qed
  qed
qed

lemma run_to_end:
  "reachable C s \<Longrightarrow> \<exists>es s'. run C es s = Some s' \<and> ended_handler (htask s') \<and> HandlerCancel \<notin> set es"
proof (induction "weight s" arbitrary: s rule: less_induct)
  case less
  show ?case
  proof (cases "ended_handler (htask s)")
    case True
    then have "run C [] s = Some s \<and> ended_handler (htask s) \<and> HandlerCancel \<notin> set []" by simp
    then show ?thesis by blast
  next
    case False
    then obtain s' where s': "step C (next_event s) s = Some s'" "ended_handler (htask s') \<or> weight s' < weight s"
      using strategy_step [OF less.prems] by blast
    have "\<exists>es t. run C es s' = Some t \<and> ended_handler (htask t) \<and> HandlerCancel \<notin> set es"
    proof (cases "ended_handler (htask s')")
      case True
      then have "run C [] s' = Some s' \<and> ended_handler (htask s') \<and> HandlerCancel \<notin> set []" by simp
      then show ?thesis by blast
    next
      case False
      then show ?thesis using less.hyps [of s'] s'(2) reachable.step [OF less.prems s'(1)] by blast
    qed
    then obtain es t where "run C es s' = Some t" "ended_handler (htask t)" "HandlerCancel \<notin> set es" by blast
    then have "run C (next_event s # es) s = Some t \<and> ended_handler (htask t)
        \<and> HandlerCancel \<notin> set (next_event s # es)"
      using s'(1) next_event_no_cancel [of s] by auto
    then show ?thesis by blast
  qed
qed

section \<open>No stream is stuck\<close>

text \<open>Without a cancellation the handler only ends by returning.\<close>

lemma no_cancel_no_raise:
  "run C es s = Some s' \<Longrightarrow> HandlerCancel \<notin> set es \<Longrightarrow> htask s \<noteq> SRaised \<Longrightarrow> htask s' \<noteq> SRaised"
proof (induction es arbitrary: s)
  case (Cons e es)
  then obtain t where t: "step C e s = Some t" "run C es t = Some s'" by (auto split: option.splits)
  have "htask t \<noteq> SRaised"
  proof (cases "e \<in> {SupFirstSeen, SupBudget, SupJoin, HandlerCancel}")
    case True
    then show ?thesis using t(1) Cons.prems(2)
      by (auto simp: guarded_def budget_expired_def split: if_splits consumer_state.splits)
  next
    case False
    then show ?thesis using step_handler [OF t(1)] Cons.prems(3) by simp
  qed
  then show ?case using Cons.IH t(2) Cons.prems(2) by simp
qed simp

text \<open>C33: A stream never deadlocks: whatever its tasks, the engine and the client have done so far,
  unless the server has cancelled it, there is a continuation without cancellation in which the handler
  returns.\<close>

theorem stream_can_finish:
  assumes "reachable C s" "htask s \<noteq> SRaised"
  shows "\<exists>es s'. run C es s = Some s' \<and> HandlerCancel \<notin> set es \<and> htask s' = SReturned"
proof -
  obtain es s' where r: "run C es s = Some s'" "ended_handler (htask s')" "HandlerCancel \<notin> set es"
    using run_to_end [OF assms(1)] by blast
  then have "htask s' = SReturned"
    using no_cancel_no_raise [OF r(1,3) assms(2)] by (cases "htask s'") auto
  then show ?thesis using r by blast
qed

theorem stream_can_finish_witness:
  "\<exists>es s'. run demo_stream_cfg es open_stream = Some s' \<and> HandlerCancel \<notin> set es \<and> htask s' = SReturned"
proof -
  have "htask open_stream \<noteq> SRaised" by (simp add: open_stream_def)
  from stream_can_finish [OF reachable.start this] show ?thesis by blast
qed

end
