(* ===== verification/GatewayFacts.thy ===== *)
theory GatewayFacts
  imports Gateway GatewayProgress
begin

text \<open>
  Invariants of the gateway over all its requests: permits of the semaphore, the table of
  deduplication keys and the counters are exact in every reachable state, and every open stream is a
  reachable stream of \<open>GatewayStream\<close>.
\<close>

section \<open>What a phase holds\<close>

fun holds :: "'k phase \<Rightarrow> bool" where
  "holds Getting = False"
| "holds (Queued r) = False"
| "holds (Finished out) = False"
| "holds _ = True"

fun waits :: "'k phase \<Rightarrow> bool" where
  "waits (Queued r) = True"
| "waits _ = False"

fun streams :: "'k phase \<Rightarrow> bool" where
  "streams (Streaming k reg s) = True"
| "streams _ = False"

fun held_keys :: "'k phase \<Rightarrow> 'k list" where
  "held_keys (Opening k reg) = (if reg then [k] else [])"
| "held_keys (Streaming k reg s) = (if reg then [k] else [])"
| "held_keys _ = []"

definition count :: "('a \<Rightarrow> bool) \<Rightarrow> 'a list \<Rightarrow> nat" where
  "count P xs = length (filter P xs)"

definition ones :: "bool \<Rightarrow> nat" where
  "ones b = (if b then 1 else 0)"

lemma ones_simps [simp]: "ones True = 1" "ones False = 0"
  by (simp_all add: ones_def)

lemma count_simps [simp]: "count P [] = 0" "count P (xs @ [x]) = count P xs + ones (P x)"
  by (simp_all add: count_def ones_def)

lemma count_update:
  "i < length xs \<Longrightarrow> count P (xs[i := x]) + ones (P (xs ! i)) = count P xs + ones (P x)"
proof (induction xs arbitrary: i)
  case (Cons y ys)
  then show ?case by (cases i) (auto simp: count_def ones_def)
qed simp

lemma count_pos: "i < length xs \<Longrightarrow> P (xs ! i) \<Longrightarrow> 0 < count P xs"
  unfolding count_def length_greater_0_conv filter_empty_conv using nth_mem by blast

lemma concat_update:
  "i < length xs \<Longrightarrow>
     mset (concat (map f (xs[i := x]))) + mset (f (xs ! i)) = mset (concat (map f xs)) + mset (f x)"
proof (induction xs arbitrary: i)
  case (Cons y ys)
  show ?case
  proof (cases i)
    case 0
    then show ?thesis by simp
  next
    case (Suc j)
    then have "mset (concat (map f (ys[j := x]))) + mset (f (ys ! j)) = mset (concat (map f ys)) + mset (f x)"
      using Cons by simp
    then show ?thesis using Suc by (simp add: ac_simps)
  qed
qed simp

section \<open>The invariant\<close>

definition slots_ok :: "'k gw_env \<Rightarrow> 'k gateway \<Rightarrow> bool" where
  "slots_ok E g \<longleftrightarrow> sem g + count holds (requests g) = max_concurrency E
     \<and> queue_now g = count waits (requests g) \<and> active_streams g = count streams (requests g)"

definition keys_ok :: "'k gateway \<Rightarrow> bool" where
  "keys_ok g \<longleftrightarrow> distinct (inflight g) \<and> mset (inflight g) = mset (concat (map held_keys (requests g)))"

fun phase_ok :: "'k gw_env \<Rightarrow> 'k phase \<Rightarrow> bool" where
  "phase_ok E (Opening k reg) = (reg = dedup_enable E)"
| "phase_ok E (Streaming k reg s) = (reg = dedup_enable E \<and> reachable (env_stream E) s \<and> \<not> ended_handler (htask s))"
| "phase_ok E (Closing raised frames) =
     (\<exists>s. reachable (env_stream E) s \<and> ended_handler (htask s) \<and> frames = delivered s \<and> raised = (htask s = SRaised))"
| "phase_ok E (Relaying v) = (case rstate v of
      RWrite st b \<Rightarrow> rgot v = rsent v @ [b] | RConnect \<Rightarrow> rgot v = [] \<and> rsent v = [] | _ \<Rightarrow> rgot v = rsent v)"
| "phase_ok E (Finished (Relayed st got sent broken)) = (prefix sent got \<and> (broken \<or> sent = got))"
| "phase_ok E (Finished (Streamed frames)) =
     (\<exists>s. reachable (env_stream E) s \<and> htask s = SReturned \<and> frames = delivered s)"
| "phase_ok E _ = True"

text \<open>A step of request \<open>i\<close> from phase \<open>p\<close> to \<open>p'\<close> that keeps the books.\<close>

definition booked :: "'k gw_env \<Rightarrow> nat \<Rightarrow> 'k gateway \<Rightarrow> 'k gateway \<Rightarrow> bool" where
  "booked E i g g' \<longleftrightarrow>
     (\<exists>p'. requests g' = (requests g)[i := p'] \<and> phase_ok E p'
        \<and> sem g' + ones (holds p') = sem g + ones (holds (requests g ! i))
        \<and> queue_now g' + ones (waits (requests g ! i)) = queue_now g + ones (waits p')
        \<and> active_streams g' + ones (streams (requests g ! i)) = active_streams g + ones (streams p')
        \<and> (inflight g' = inflight g \<and> held_keys p' = held_keys (requests g ! i)
           \<or> (\<exists>k. k \<notin> set (inflight g) \<and> inflight g' = inflight g @ [k]
                \<and> held_keys (requests g ! i) = [] \<and> held_keys p' = [k])
           \<or> (\<exists>k. inflight g' = removeAll k (inflight g)
                \<and> held_keys (requests g ! i) = [k] \<and> held_keys p' = [])))"

definition gw_inv :: "'k gw_env \<Rightarrow> 'k gateway \<Rightarrow> bool" where
  "gw_inv E g \<longleftrightarrow> slots_ok E g \<and> keys_ok g \<and> list_all (phase_ok E) (requests g)"

lemma removeAll_single: "distinct xs \<Longrightarrow> x \<in> set xs \<Longrightarrow> mset (removeAll x xs) + {#x#} = mset xs"
  by (induction xs) auto

lemma booked_keys:
  assumes "booked E i g g'" "i < length (requests g)" "keys_ok g"
  shows "keys_ok g'"
proof -
  obtain p where p: "requests g' = (requests g)[i := p]"
    "inflight g' = inflight g \<and> held_keys p = held_keys (requests g ! i)
      \<or> (\<exists>k. k \<notin> set (inflight g) \<and> inflight g' = inflight g @ [k] \<and> held_keys (requests g ! i) = [] \<and> held_keys p = [k])
      \<or> (\<exists>k. inflight g' = removeAll k (inflight g) \<and> held_keys (requests g ! i) = [k] \<and> held_keys p = [])"
    using assms(1) unfolding booked_def by blast
  note upd = concat_update [OF assms(2), of held_keys p, folded p(1)]
  have d: "distinct (inflight g)" and m: "mset (inflight g) = mset (concat (map held_keys (requests g)))"
    using assms(3) by (simp_all add: keys_ok_def)
  from p(2) show ?thesis
  proof (elim disjE exE conjE)
    assume "inflight g' = inflight g" "held_keys p = held_keys (requests g ! i)"
    then show ?thesis using upd d m by (simp add: keys_ok_def)
  next
    fix k assume "k \<notin> set (inflight g)" "inflight g' = inflight g @ [k]" "held_keys (requests g ! i) = []" "held_keys p = [k]"
    then show ?thesis using upd d m by (simp add: keys_ok_def)
  next
    fix k assume k: "inflight g' = removeAll k (inflight g)" "held_keys (requests g ! i) = [k]" "held_keys p = []"
    have "k \<in> set (concat (map held_keys (requests g)))"
      using k(2) nth_mem [OF assms(2)] by force
    then have kin: "k \<in> set (inflight g)" using m by (metis set_mset_mset)
    have "mset (inflight g') + {#k#} = mset (inflight g)" unfolding k(1) by (rule removeAll_single [OF d kin])
    also have "\<dots> = mset (concat (map held_keys (requests g'))) + {#k#}" using upd k(2,3) m by simp
    finally have "mset (inflight g') = mset (concat (map held_keys (requests g')))" by (rule add_right_imp_eq)
    moreover have "distinct (inflight g')" unfolding k(1) by (rule distinct_removeAll [OF d])
    ultimately show ?thesis by (simp add: keys_ok_def)
  qed
qed

lemma booked_inv:
  assumes "booked E i g g'" "i < length (requests g)" "gw_inv E g"
  shows "gw_inv E g'"
proof -
  obtain p where p: "requests g' = (requests g)[i := p]" "phase_ok E p"
    "sem g' + ones (holds p) = sem g + ones (holds (requests g ! i))"
    "queue_now g' + ones (waits (requests g ! i)) = queue_now g + ones (waits p)"
    "active_streams g' + ones (streams (requests g ! i)) = active_streams g + ones (streams p)"
    using assms(1) unfolding booked_def by blast
  note upd = count_update [OF assms(2), of _ p, folded p(1)]
  have "slots_ok E g'"
    using assms(3) upd [of holds] upd [of waits] upd [of streams] p(3-5) by (simp add: gw_inv_def slots_ok_def)
  moreover have "list_all (phase_ok E) (requests g')"
    using assms(3) p(1,2) by (auto simp: gw_inv_def list_all_iff dest: set_update_subset_insert [THEN subsetD])
  ultimately show ?thesis using booked_keys [OF assms(1,2)] assms(3) by (simp add: gw_inv_def)
qed

section \<open>Every step keeps the books\<close>

lemma set_phase_fields [simp]:
  "requests (set_phase i p g) = (requests g)[i := p]" "sem (set_phase i p g) = sem g"
  "queue_now (set_phase i p g) = queue_now g" "active_streams (set_phase i p g) = active_streams g"
  "inflight (set_phase i p g) = inflight g"
  by (simp_all add: set_phase_def)

lemma inflight_pop_fields [simp]:
  "requests (inflight_pop reg k g) = requests g" "sem (inflight_pop reg k g) = sem g"
  "queue_now (inflight_pop reg k g) = queue_now g" "active_streams (inflight_pop reg k g) = active_streams g"
  "inflight (inflight_pop reg k g) = (if reg then removeAll k (inflight g) else inflight g)"
  by (simp_all add: inflight_pop_def)

text \<open>Giving up the permit: nothing but the key may be held besides.\<close>

lemma booked_release:
  assumes "holds (requests g ! i)" "\<not> streams (requests g ! i)" "phase_ok E (Finished out)"
    and "requests h = requests g" "sem h = sem g" "queue_now h = queue_now g" "active_streams h = active_streams g"
    and "inflight h = inflight g \<and> held_keys (requests g ! i) = []
      \<or> (\<exists>k. inflight h = removeAll k (inflight g) \<and> held_keys (requests g ! i) = [k])"
  shows "booked E i g (release i out h)"
proof -
  have "\<not> waits (requests g ! i)" using assms(1) by (cases "requests g ! i") auto
  then show ?thesis unfolding booked_def
    by (intro exI [of _ "Finished out"]) (use assms in \<open>auto simp: release_def\<close>)
qed

lemma booked_raised:
  assumes "holds (requests g ! i)" "\<not> streams (requests g ! i)"
    and "requests h = requests g" "sem h = sem g" "queue_now h = queue_now g" "active_streams h = active_streams g"
    and "inflight h = inflight g \<and> held_keys (requests g ! i) = []
      \<or> (\<exists>k. inflight h = removeAll k (inflight g) \<and> held_keys (requests g ! i) = [k])"
  shows "booked E i g (dispatch_raised i gone h)"
  unfolding dispatch_raised_def using assms
  by (cases gone) (simp_all add: booked_release)

text \<open>Changing nothing but the phase.\<close>

lemma booked_move:
  assumes "requests h = requests g" "sem h = sem g" "queue_now h = queue_now g"
    "active_streams h = active_streams g" "inflight h = inflight g"
    and "phase_ok E p" "holds p = holds (requests g ! i)" "waits p = waits (requests g ! i)"
    "streams p = streams (requests g ! i)" "held_keys p = held_keys (requests g ! i)"
  shows "booked E i g (set_phase i p h)"
  unfolding booked_def by (intro exI [of _ p]) (use assms in simp)

lemma booked_open:
  assumes "requests g ! i = Reading r" "requests h = requests g" "sem h = sem g" "queue_now h = queue_now g"
    "active_streams h = active_streams g" "inflight h = inflight g"
  shows "booked E i g (open_request E i body h)"
proof -
  have "booked E i g (set_phase i (Opening key True) (h\<lparr>inflight := inflight h @ [key]\<rparr>))"
    if "key \<notin> set (inflight h)" "dedup_enable E" for key
    unfolding booked_def by (intro exI [of _ "Opening key True"]) (use assms that in auto)
  moreover have "booked E i g (set_phase i (Opening key False) h)" if "\<not> dedup_enable E" for key
    by (rule booked_move) (use assms that in simp_all)
  moreover have "booked E i g (release i (Reply 429) (h\<lparr>rejected_429_duplicate := n\<rparr>))" for n
    by (rule booked_release) (use assms in simp_all)
  ultimately show ?thesis by (simp add: open_request_def Let_def)
qed

lemma booked_body:
  assumes "requests g ! i = Reading r"
  shows "booked E i g (body_read E i r raw g)"
proof -
  have relay: "booked E i g (set_phase i (Relaying \<lparr>rstate = RConnect, rgot = [], rsent = []\<rparr>) h)"
    if "requests h = requests g" "sem h = sem g" "queue_now h = queue_now g"
      "active_streams h = active_streams g" "inflight h = inflight g" for h
    by (rule booked_move) (use assms that in simp_all)
  show ?thesis unfolding body_read_def Let_def
    by (auto simp: split_def intro!: relay booked_open [OF assms])
qed

lemma booked_relay:
  assumes "requests g ! i = Relaying v" "phase_ok E (Relaying v)" "relay_step i v e g = Some g'"
  shows "booked E i g g'"
proof -
  have b: "booked E i g (relay_broken i st v g)" for st
    unfolding relay_broken_def
    by (cases "rstate v") (use assms(1,2) in \<open>auto simp: relay_status_def count_upstream_def intro!: booked_release\<close>)
  have r: "booked E i g (dispatch_raised i True g)" by (rule booked_raised) (use assms(1) in simp_all)
  show ?thesis
    using assms b r
    by (cases e) (auto simp: guarded_def split: if_splits relay_state.splits
        intro!: booked_move booked_release)
qed

lemma booked_stream:
  assumes "requests g ! i = Streaming k reg s" "phase_ok E (Streaming k reg s)"
    and "i < length (requests g)" "active_streams g = count streams (requests g)"
    and "stream_step E i k reg s e g = Some g'"
  shows "booked E i g g'"
proof -
  obtain s' where s': "step (env_stream E) e s = Some s'" using assms(5) by (auto simp: stream_step_def split: option.splits)
  have r: "reachable (env_stream E) s'" using reachable.step [OF _ s'] assms(2) by simp
  have pos: "0 < active_streams g" using count_pos [OF assms(3), of streams] assms(1,4) by simp
  show ?thesis
  proof (cases "ended_handler (htask s')")
    case True
    then have h: "htask s' = SReturned \<or> htask s' = SRaised" by (cases "htask s'") auto
    have g': "g' = set_phase i (Closing (htask s' = SRaised) (delivered s'))
        (inflight_pop reg k (g\<lparr>active_streams := active_streams g - 1\<rparr>))"
      using assms(5) s' h by (auto simp: stream_step_def)
    show ?thesis unfolding booked_def g'
      by (intro exI [of _ "Closing (htask s' = SRaised) (delivered s')"])
        (use assms(1) pos r True in \<open>auto\<close>)
  next
    case False
    then have g': "g' = set_phase i (Streaming k reg s') g"
      using assms(5) s' by (auto simp: stream_step_def split: if_splits)
    show ?thesis unfolding g' by (rule booked_move) (use assms(1,2) r False in simp_all)
  qed
qed

lemma gw_step_booked:
  assumes "gw_inv E g" "i < length (requests g)" "gw_step E i ev (requests g ! i) g = Some g'"
  shows "booked E i g g'"
proof -
  have ok: "phase_ok E (requests g ! i)" and act: "active_streams g = count streams (requests g)"
    and que: "queue_now g = count waits (requests g)"
    using assms(1,2) by (simp_all add: gw_inv_def slots_ok_def list_all_length)
  show ?thesis
  proof (cases "requests g ! i")
    case Getting
    then show ?thesis using assms(3) by (cases ev) (auto simp: relay_get_def intro!: booked_move)
  next
    case (Queued r)
    then have pos: "0 < queue_now g" using count_pos [OF assms(2), of waits] que by simp
    have "booked E i g (acquired i r w g)" if "0 < sem g" for w
      unfolding booked_def by (intro exI [of _ "Reading r"]) (use Queued pos that in \<open>simp add: acquired_def\<close>)
    moreover have "booked E i g (queue_timeout i g)"
      unfolding booked_def by (intro exI [of _ "Finished (Reply 429)"]) (use Queued pos in \<open>simp add: queue_timeout_def\<close>)
    moreover have "booked E i g (queue_cancel i g)"
      unfolding booked_def by (intro exI [of _ "Finished Raised"]) (use Queued pos in \<open>simp add: queue_cancel_def\<close>)
    ultimately show ?thesis using assms(3) Queued by (cases ev) (auto simp: guarded_def split: if_splits)
  next
    case (Reading r)
    have "booked E i g (dispatch_raised i gone g)" for gone by (rule booked_raised) (use Reading in simp_all)
    then show ?thesis using assms(3) Reading booked_body [OF Reading] by (cases ev) auto
  next
    case (Opening k reg)
    have "booked E i g (prepare_ok i k reg g)"
      unfolding booked_def prepare_ok_def
      by (intro exI [of _ "Streaming k reg open_stream"])
        (use Opening ok reachable.start in \<open>simp add: open_stream_def\<close>)
    moreover have "booked E i g (prepare_failed i k reg gone g)" for gone
      unfolding prepare_failed_def by (rule booked_raised) (use Opening in simp_all)
    ultimately show ?thesis using assms(3) Opening by (cases ev) auto
  next
    case (Streaming k reg s)
    then show ?thesis using assms(3) booked_stream [OF Streaming _ assms(2) act] ok by (cases ev) auto
  next
    case (Closing raised frames)
    have "booked E i g (eof_done i raised frames g)"
    proof (cases raised)
      case True
      then show ?thesis by (simp add: eof_done_def) (rule booked_raised; use Closing in simp)
    next
      case False
      then have "phase_ok E (Finished (Streamed frames))" using ok Closing
        by (auto elim: ended_handler.elims)
      then show ?thesis using False Closing by (simp add: eof_done_def booked_release)
    qed
    then show ?thesis using assms(3) Closing by (cases ev) auto
  next
    case (Relaying v)
    then show ?thesis using assms(3) booked_relay [OF Relaying] ok by (cases ev) auto
  qed (use assms(3) in simp)
qed

lemma arrive_inv:
  assumes "gw_inv E g"
  shows "gw_inv E (arrive E r g)"
proof -
  have "gw_inv E (h\<lparr>requests := requests g @ [p]\<rparr>)"
    if "phase_ok E p" "\<not> holds p" "\<not> streams p" "held_keys p = []" "sem h = sem g" "inflight h = inflight g"
      "active_streams h = active_streams g" "queue_now h = queue_now g + ones (waits p)" for p h
    using assms that by (simp add: gw_inv_def slots_ok_def keys_ok_def)
  note add = this
  show ?thesis
    by (auto simp: arrive_def Let_def intro!: add split: sum.split bool.split)
qed

theorem gateway_invariant: "gw_reachable E g \<Longrightarrow> gw_inv E g"
proof (induction rule: gw_reachable.induct)
  case start
  show ?case by (simp add: gw_inv_def slots_ok_def keys_ok_def new_gateway_def)
next
  case (arrival g r)
  then show ?case by (simp add: arrive_inv)
next
  case (progress g i e g')
  show ?case
    by (rule booked_inv [OF gw_step_booked [OF progress.IH progress.hyps(2,3)] progress.hyps(2) progress.IH])
qed

lemma reachable_phase:
  "gw_reachable E g \<Longrightarrow> i < length (requests g) \<Longrightarrow> phase_ok E (requests g ! i)"
  using gateway_invariant by (auto simp: gw_inv_def list_all_length)

lemma count_zero: "list_all (\<lambda>x. \<not> P x) xs \<Longrightarrow> count P xs = 0"
  by (induction xs) (auto simp: count_def)

section \<open>Guarantees\<close>

definition finished :: "'k phase \<Rightarrow> bool" where
  "finished p = (case p of Finished out \<Rightarrow> True | _ \<Rightarrow> False)"

lemma finished_iff [simp]: "finished p \<longleftrightarrow> (\<exists>out. p = Finished out)"
  by (cases p) (simp_all add: finished_def)

lemma quiescent:
  assumes "list_all finished ps"
  shows "count holds ps = 0" "count waits ps = 0" "count streams ps = 0" "concat (map held_keys ps) = []"
  using assms by (induction ps) (auto simp: count_def)

definition demo_env :: "nat gw_env" where
  "demo_env = \<lparr>max_concurrency = 1, dedup_enable = True, gw_api_key = [], inject_enable_thinking = False,
     sanitize_enable = True, json_loads = (\<lambda>b. Some (JObj [(codes ''stream'', JBool True)])),
     json_dumps = (\<lambda>v. None), json_dumps_utf8 = (\<lambda>v. None), walk_raises = (\<lambda>v. False), sha = length,
     env_stream = demo_stream_cfg\<rparr>"

definition demo_request :: http_request where
  "demo_request = \<lparr>req_method = ''POST'', req_path = ''/v1/chat/completions'', authorization = []\<rparr>"

lemma demo_reachable:
  "\<exists>g. gw_reachable demo_env g \<and> (\<exists>k. requests g = [Opening k True] \<and> sem g = 0 \<and> inflight g = [k])"
proof -
  let ?g1 = "arrive demo_env demo_request (new_gateway demo_env)"
  let ?b = "codes ''{\"stream\":true}''"
  have r1: "gw_reachable demo_env ?g1" by (intro gw_reachable.arrival gw_reachable.start)
  have q1: "requests ?g1 = [Queued demo_request]" "sem ?g1 = 1" "inflight ?g1 = []"
    by (simp_all add: arrive_def new_gateway_def demo_env_def demo_request_def Let_def)
  define g2 where "g2 = acquired 0 demo_request 0 ?g1"
  have r2: "gw_reachable demo_env g2"
    by (rule gw_reachable.progress [OF r1, of 0 "Acquired 0"]) (simp_all add: q1 g2_def guarded_def)
  have q2: "requests g2 = [Reading demo_request]" "sem g2 = 0" "inflight g2 = []"
    by (simp_all add: g2_def acquired_def q1)
  define g3 where "g3 = body_read demo_env 0 demo_request ?b g2"
  have r3: "gw_reachable demo_env g3"
    by (rule gw_reachable.progress [OF r2, of 0 "BodyRead ?b"]) (simp_all add: q2 g3_def)
  have "is_stream (json_loads demo_env) ?b"
    by (simp add: is_stream_def demo_env_def codes_def)
  moreover have "\<not> contains_sub (codes ''deepseek_image'') ?b" by (simp add: codes_def)
  ultimately have "g3 = open_request demo_env 0 ?b (g2\<lparr>gw_sanitized := gw_sanitized g2\<rparr>)"
    by (simp add: g3_def body_read_def demo_request_def sanitize_image_placeholders_def maybe_inject_def
        demo_env_def Let_def)
  then have "\<exists>k. requests g3 = [Opening k True] \<and> sem g3 = 0 \<and> inflight g3 = [k]"
    by (simp add: open_request_def Let_def q2 demo_env_def)
  then show ?thesis using r3 by blast
qed

text \<open>C34: Slots never leak and never go missing: free permits and requests that hold one always add up
  to the configured concurrency, the waiting and streaming counters are exact, and once every request
  has finished all permits are free, no key is registered and both counters are zero.\<close>

theorem gateway_slots_exact:
  assumes "gw_reachable E g"
  shows "sem g + count holds (requests g) = max_concurrency E
    \<and> queue_now g = count waits (requests g) \<and> active_streams g = count streams (requests g)
    \<and> (list_all finished (requests g) \<longrightarrow>
         sem g = max_concurrency E \<and> inflight g = [] \<and> queue_now g = 0 \<and> active_streams g = 0)"
proof -
  have k: "mset (inflight g) = mset (concat (map held_keys (requests g)))" and s: "slots_ok E g"
    using gateway_invariant [OF assms] by (simp_all add: gw_inv_def keys_ok_def)
  have "inflight g = []" if "list_all finished (requests g)"
    using k unfolding quiescent(4) [OF that] by simp
  then show ?thesis using s quiescent(1-3) [of "requests g"] by (auto simp: slots_ok_def)
qed

theorem gateway_slots_exact_witness:
  "\<exists>(g :: nat gateway). length (requests g) = 1 \<and> sem g + count holds (requests g) = max_concurrency demo_env"
proof -
  obtain g where "gw_reachable demo_env g" "length (requests g) = 1" using demo_reachable by force
  then show ?thesis using gateway_slots_exact [of demo_env g] by blast
qed

lemma distinct_concat_nth:
  assumes "distinct (concat (map f xs))" "i < length xs" "j < length xs" "k \<in> set (f (xs ! i))" "k \<in> set (f (xs ! j))"
  shows "i = j"
  using assms
proof (induction xs arbitrary: i j)
  case (Cons x xs)
  have none: "k \<notin> set (f x)" if "a < length xs" "k \<in> set (f (xs ! a))" for a
    using Cons.prems(1) that nth_mem [OF that(1)] by fastforce
  show ?case
  proof (cases i; cases j)
    fix i' j' assume "i = Suc i'" "j = Suc j'"
    then show ?thesis using Cons by simp
  qed (use Cons.prems none in auto)
qed simp

text \<open>C35: Deduplication is exact: the table holds precisely the keys of the streaming requests between
  registration and cleanup, and with it switched on no two of them share a key.\<close>

theorem gateway_dedup_exact:
  assumes "gw_reachable E g"
  shows "set (inflight g) = \<Union> (set (map (\<lambda>p. set (held_keys p)) (requests g))) \<and> distinct (inflight g)
    \<and> (\<forall>i j k. i < length (requests g) \<and> j < length (requests g)
         \<and> k \<in> set (held_keys (requests g ! i)) \<and> k \<in> set (held_keys (requests g ! j)) \<longrightarrow> i = j)"
proof -
  have d: "distinct (inflight g)" and m: "mset (inflight g) = mset (concat (map held_keys (requests g)))"
    using gateway_invariant [OF assms] by (simp_all add: gw_inv_def keys_ok_def)
  have "set (inflight g) = set (concat (map held_keys (requests g)))" using m by (metis set_mset_mset)
  moreover have "distinct (concat (map held_keys (requests g)))" using d m by (metis mset_eq_imp_distinct_iff)
  ultimately show ?thesis using d distinct_concat_nth [of held_keys "requests g"] by auto
qed

theorem gateway_dedup_exact_witness:
  "\<exists>(g :: nat gateway) k. requests g = [Opening k True] \<and> set (inflight g) = {k} \<and> distinct (inflight g)"
proof -
  obtain g k where g: "gw_reachable demo_env g" "requests g = [Opening k True]" using demo_reachable by blast
  from gateway_dedup_exact [OF g(1)] g(2) have "set (inflight g) = {k} \<and> distinct (inflight g)" by simp
  then show ?thesis using g(2) by blast
qed

text \<open>C36: What a finished request got is what the engine sent: a relayed answer wrote a prefix of the
  chunks it read, all of them unless the connection was cut; a streamed answer carried the frames of a
  returned stream, whose data is a prefix of the engine's.\<close>

theorem gateway_answers_faithful:
  assumes "gw_reachable E g" "i < length (requests g)" "requests g ! i = Finished out"
  shows "case out of
      Relayed st got sent broken \<Rightarrow> prefix sent got \<and> (broken \<or> sent = got)
    | Streamed frames \<Rightarrow> \<exists>s. reachable (env_stream E) s \<and> htask s = SReturned \<and> frames = delivered s
                          \<and> prefix (chunks frames) (received s)
    | _ \<Rightarrow> True"
proof -
  have ok: "phase_ok E (Finished out)" using reachable_phase [OF assms(1,2)] assms(3) by simp
  show ?thesis
  proof (cases out)
    case (Streamed frames)
    then obtain s where s: "reachable (env_stream E) s" "htask s = SReturned" "frames = delivered s" using ok by auto
    moreover have "prefix (chunks (delivered s)) (received s)"
      using core_invariants [OF reachable_view [OF s(1)]] by (simp add: flow_ok_def)
    ultimately show ?thesis using Streamed by auto
  qed (use ok in auto)
qed

fun gw_run :: "'k gw_env \<Rightarrow> (nat \<times> gw_event) list \<Rightarrow> 'k gateway \<Rightarrow> 'k gateway option" where
  "gw_run E [] g = Some g"
| "gw_run E (e # es) g =
     (if fst e < length (requests g) then
        (case gw_step E (fst e) (snd e) (requests g ! fst e) g of None \<Rightarrow> None | Some g' \<Rightarrow> gw_run E es g')
      else None)"

lemma gw_run_reachable: "gw_run E es g = Some g' \<Longrightarrow> gw_reachable E g \<Longrightarrow> gw_reachable E g'"
proof (induction es arbitrary: g)
  case (Cons e es)
  then obtain h where "fst e < length (requests g)" "gw_step E (fst e) (snd e) (requests g ! fst e) g = Some h"
    "gw_run E es h = Some g'" by (auto split: if_splits option.splits)
  then show ?case using Cons.IH gw_reachable.progress [OF Cons.prems(2)] by blast
qed simp

text \<open>A PUT whose client stops reading after one of two chunks.\<close>

theorem gateway_answers_faithful_witness:
  "\<exists>(g :: nat gateway). requests g = [Finished (Relayed 200 [[1], [2]] [[1]] True)] \<and> prefix [[1]] [[1], [2 :: nat]]"
proof -
  let ?g = "arrive demo_env (demo_request\<lparr>req_method := ''PUT''\<rparr>) (new_gateway demo_env)"
  let ?es = "map (Pair 0) [Acquired 0, BodyRead [], RelayEv (RelayHead 200), RelayEv RelayPrepared, RelayEv (RelayChunk [1]),
      RelayEv RelayWritten, RelayEv (RelayChunk [2]), RelayEv RelayTimeout]"
  have "\<exists>g. gw_run demo_env ?es ?g = Some g \<and> requests g = [Finished (Relayed 200 [[1], [2]] [[1]] True)]"
    by (simp add: arrive_def new_gateway_def demo_env_def demo_request_def Let_def guarded_def acquired_def
        body_read_def relay_broken_def relay_status_def release_def count_upstream_def set_phase_def)
  then obtain g where g: "gw_run demo_env ?es ?g = Some g" "requests g = [Finished (Relayed 200 [[1], [2]] [[1]] True)]"
    by blast
  have "gw_reachable demo_env g" by (rule gw_run_reachable [OF g(1)]) (intro gw_reachable.arrival gw_reachable.start)
  then have "prefix [[1]] [[1], [2 :: nat]]" using gateway_answers_faithful [of demo_env g 0] g(2) by simp
  then show ?thesis using g(2) by blast
qed

end
