(* ===== verification/Tensors.thy ===== *)
theory Tensors
  imports Prelude
begin

text \<open>
  Integer tensors as the torch and Triton code of the overlay see them: a type and values in its
  range; storing or converting keeps the low bits of a value.
\<close>

datatype dtype = I32 | I64

fun width :: "dtype \<Rightarrow> nat" where
  "width I32 = 32"
| "width I64 = 64"

text \<open>Conversion to a signed type keeps the low bits.\<close>

definition cast :: "dtype \<Rightarrow> int \<Rightarrow> int" where
  "cast d x = (x + 2 ^ (width d - 1)) mod 2 ^ width d - 2 ^ (width d - 1)"

definition fits :: "dtype \<Rightarrow> int \<Rightarrow> bool" where
  "fits d x \<longleftrightarrow> - (2 ^ (width d - 1)) \<le> x \<and> x < 2 ^ (width d - 1)"

record tensor =
  tdtype :: dtype
  tdata :: "int list"

definition wf_tensor :: "tensor \<Rightarrow> bool" where
  "wf_tensor t \<longleftrightarrow> list_all (fits (tdtype t)) (tdata t)"

lemma two_width: "(2 :: int) ^ width d = 2 * 2 ^ (width d - 1)"
  by (cases d) simp_all

lemma cast_id [simp]: "fits d x \<Longrightarrow> cast d x = x"
  unfolding cast_def fits_def two_width by (subst mod_pos_pos_trivial) auto

lemma cast_fits [simp]: "fits d (cast d x)"
proof -
  have "0 \<le> (x + 2 ^ (width d - 1)) mod 2 ^ width d" "(x + 2 ^ (width d - 1)) mod 2 ^ width d < 2 ^ width d"
    by simp_all
  then show ?thesis unfolding cast_def fits_def by (simp add: two_width)
qed

lemma fits_I32: "fits I32 x \<longleftrightarrow> - 2147483648 \<le> x \<and> x < 2147483648"
  and fits_I64: "fits I64 x \<longleftrightarrow> - 9223372036854775808 \<le> x \<and> x < 9223372036854775808"
  by (simp_all add: fits_def)

lemma fits_widen: "fits I32 x \<Longrightarrow> fits d x"
  by (cases d) (simp_all add: fits_I32 fits_I64)

lemma fits_I64_any: "fits d x \<Longrightarrow> fits I64 x"
  by (cases d) (simp_all add: fits_I32 fits_I64)

lemma fits_nth [simp]: "wf_tensor t \<Longrightarrow> i < length (tdata t) \<Longrightarrow> fits (tdtype t) (tdata t ! i)"
  by (simp add: wf_tensor_def list_all_length)

section \<open>Indexing\<close>

text \<open>torch counts negative indices from the end; a device load has no bounds.\<close>

definition torch_index :: "nat \<Rightarrow> int \<Rightarrow> py_error + nat" where
  "torch_index n i =
     (if 0 \<le> i \<and> i < int n then Inr (nat i)
      else if - int n \<le> i \<and> i < 0 then Inr (nat (i + int n)) else Inl IndexError)"

fun sequence :: "('e + 'a) list \<Rightarrow> 'e + 'a list" where
  "sequence [] = Inr []"
| "sequence (Inl e # xs) = Inl e"
| "sequence (Inr x # xs) = (case sequence xs of Inl e \<Rightarrow> Inl e | Inr ys \<Rightarrow> Inr (x # ys))"

text \<open>A device load; \<open>oob\<close> is whatever lies outside of the buffer.\<close>

definition peek :: "(int \<Rightarrow> int) \<Rightarrow> int list \<Rightarrow> int \<Rightarrow> int" where
  "peek oob mem a = (if 0 \<le> a \<and> a < int (length mem) then mem ! nat a else oob a)"

lemma sequence_Inr [simp]: "sequence (map Inr xs) = Inr xs"
  by (induction xs) simp_all

lemma sequence_tabulate:
  assumes "\<And>i. i < n \<Longrightarrow> f i = Inr (g i)"
  shows "sequence (tabulate n f) = Inr (tabulate n g)"
proof -
  have "tabulate n f = map Inr (tabulate n g)"
    using assms by (intro nth_equalityI) simp_all
  then show ?thesis by simp
qed

end
