(* ===== verification/FastArgmax.thy ===== *)
theory FastArgmax
  imports Prelude
begin

text \<open>
  \<open>sglang-overlay/fast_argmax.py\<close>: the row-wise argmax of the speculative verify logits, split over
  64 parts of the vocabulary that are reduced tile by tile, and a final reduction over the parts.
  Values are a linear order with a least element (float32 without NaN, whose least element is
  minus infinity); a row is a list, \<open>rows\<close> of the launch are independent.
\<close>

section \<open>The kernels\<close>

definition lanes_max :: "'a :: linorder list \<Rightarrow> 'a" where
  "lanes_max vs = fold max (tl vs) (hd vs)"

definition lanes_min :: "'a :: linorder list \<Rightarrow> 'a" where
  "lanes_min vs = fold min (tl vs) (hd vs)"

text \<open>One tile of \<open>_argmax_partial_kernel\<close>: lanes at \<open>off ..< off + block\<close>, masked at \<open>stop\<close>.\<close>

definition tile_lane :: "'a :: {linorder, order_bot} list \<Rightarrow> nat \<Rightarrow> nat \<Rightarrow> 'a" where
  "tile_lane xs stop idx = (if idx < stop then xs ! idx else bot)"

definition argmax_tile :: "'a :: {linorder, order_bot} list \<Rightarrow> nat \<Rightarrow> nat \<Rightarrow> nat \<Rightarrow> nat \<Rightarrow> 'a \<times> nat \<Rightarrow> 'a \<times> nat" where
  "argmax_tile xs n stop block off best =
     (let idxs = [off..<off + block];
          cur_v = lanes_max (map (tile_lane xs stop) idxs);
          cur_i = lanes_min (map (\<lambda>idx. if tile_lane xs stop idx = cur_v then idx else n) idxs);
          take = (fst best < cur_v \<or> cur_v = fst best \<and> cur_i < snd best)
      in (if take then cur_v else fst best, if take then cur_i else snd best))"

text \<open>\<open>tl.range(start, stop, BLOCK)\<close>.\<close>

function argmax_tiles :: "'a :: {linorder, order_bot} list \<Rightarrow> nat \<Rightarrow> nat \<Rightarrow> nat \<Rightarrow> nat \<Rightarrow> 'a \<times> nat \<Rightarrow> 'a \<times> nat" where
  "argmax_tiles xs n stop block off best =
     (if block = 0 \<or> stop \<le> off then best
      else argmax_tiles xs n stop block (off + block) (argmax_tile xs n stop block off best))"
  by pat_completeness auto
termination
  by (relation "measure (\<lambda>(xs, n, stop, block, off, best). stop - off)") auto

declare argmax_tiles.simps [simp del]

definition argmax_partial :: "nat \<Rightarrow> nat \<Rightarrow> 'a :: {linorder, order_bot} list \<Rightarrow> nat \<Rightarrow> 'a \<times> nat" where
  "argmax_partial splits block xs part =
     (let n = length xs; per = cdiv n splits; start = part * per
      in argmax_tiles xs n (min (start + per) n) block start (bot, n))"

definition idx_max :: nat where
  "idx_max = 0x7FFFFFFF"

definition argmax_final :: "nat \<Rightarrow> nat \<Rightarrow> ('a :: {linorder, order_bot} \<times> nat) list \<Rightarrow> nat" where
  "argmax_final splits block parts =
     (let lane = (\<lambda>q. if q < splits then parts ! q else (bot, idx_max));
          best_v = lanes_max (map (\<lambda>q. fst (lane q)) [0..<block])
      in lanes_min (map (\<lambda>q. if fst (lane q) = best_v then snd (lane q) else idx_max) [0..<block]))"

definition fast_row_argmax :: "'a :: {linorder, order_bot} list \<Rightarrow> nat" where
  "fast_row_argmax xs = argmax_final 64 64 (map (argmax_partial 64 2048 xs) [0..<64])"

text \<open>The two-dimensional call, and the dispatch of \<open>_row_argmax\<close> in \<open>dspark_accept.py\<close>.\<close>

definition fast_row_argmax_2d :: "'a :: {linorder, order_bot} list list \<Rightarrow> nat list" where
  "fast_row_argmax_2d rows = map fast_row_argmax rows"

section \<open>The reference\<close>

text \<open>\<open>torch.argmax\<close>: the first index of the maximum.\<close>

fun argmax_from :: "'a :: linorder \<Rightarrow> nat \<Rightarrow> nat \<Rightarrow> 'a list \<Rightarrow> nat" where
  "argmax_from best bi i [] = bi"
| "argmax_from best bi i (x # xs) =
     (if best < x then argmax_from x i (Suc i) xs else argmax_from best bi (Suc i) xs)"

fun row_argmax :: "'a :: linorder list \<Rightarrow> nat" where
  "row_argmax [] = 0"
| "row_argmax (x # xs) = argmax_from x 0 1 xs"

definition first_max :: "'a :: linorder list \<Rightarrow> nat \<Rightarrow> bool" where
  "first_max xs i \<longleftrightarrow> i < length xs \<and> (\<forall>j < length xs. xs ! j \<le> xs ! i) \<and> (\<forall>j < i. xs ! j < xs ! i)"

lemma first_max_unique: "first_max xs i \<Longrightarrow> first_max xs j \<Longrightarrow> i = j"
  unfolding first_max_def by (metis linorder_neqE_nat not_less order_less_irrefl order_less_le_trans)

lemma argmax_from_first:
  assumes "first_max ys bi" "best = ys ! bi" "i = length ys"
  shows "first_max (ys @ xs) (argmax_from best bi i xs)"
  using assms
proof (induction xs arbitrary: ys best bi i)
  case (Cons x xs)
  show ?case
  proof (cases "best < x")
    case True
    have "first_max (ys @ [x]) i"
      unfolding first_max_def
    proof (intro conjI allI impI)
      show "i < length (ys @ [x])" using Cons.prems(3) by simp
      fix j
      have lt: "ys ! j < x" if "j < length ys"
        using Cons.prems(1,2) that True unfolding first_max_def by (metis order_le_less_trans)
      show "(ys @ [x]) ! j \<le> (ys @ [x]) ! i" if "j < length (ys @ [x])"
        using that lt Cons.prems(3) by (cases "j < length ys") (auto simp: nth_append less_Suc_eq intro: less_imp_le)
      show "(ys @ [x]) ! j < (ys @ [x]) ! i" if "j < i"
        using that lt Cons.prems(3) by (simp add: nth_append)
    qed
    then show ?thesis using Cons.IH [of "ys @ [x]" i x "Suc i"] True Cons.prems(3) by (simp add: nth_append)
  next
    case False
    have "first_max (ys @ [x]) bi"
      using Cons.prems(1,2) False by (auto simp: first_max_def nth_append less_Suc_eq not_less)
    moreover have "best = (ys @ [x]) ! bi" using Cons.prems(1,2) by (simp add: first_max_def nth_append)
    ultimately show ?thesis using Cons.IH [of "ys @ [x]" bi best "Suc i"] False Cons.prems(3) by simp
  qed
qed simp

lemma row_argmax_first: "xs \<noteq> [] \<Longrightarrow> first_max xs (row_argmax xs)"
proof (cases xs)
  case (Cons x ys)
  have "first_max [x] 0" by (simp add: first_max_def)
  from argmax_from_first [OF this, of x 1 ys] Cons show ?thesis by simp
qed simp

section \<open>The best of a range\<close>

lemma lanes_max_eq: "vs \<noteq> [] \<Longrightarrow> lanes_max vs = Max (set vs)"
  by (cases vs) (simp_all add: lanes_max_def Max.set_eq_fold del: list.set)

lemma lanes_min_eq: "vs \<noteq> [] \<Longrightarrow> lanes_min vs = Min (set vs)"
  by (cases vs) (simp_all add: lanes_min_def Min.set_eq_fold del: list.set)

text \<open>The value and first index of the maximum of \<open>xs\<close> on \<open>lo ..< hi\<close>, or the initial pair.\<close>

definition best_on :: "'a :: {linorder, order_bot} list \<Rightarrow> nat \<Rightarrow> nat \<Rightarrow> 'a \<times> nat \<Rightarrow> bool" where
  "best_on xs lo hi b \<longleftrightarrow>
     (if hi \<le> lo then b = (bot, length xs)
      else lo \<le> snd b \<and> snd b < hi \<and> fst b = xs ! snd b
           \<and> (\<forall>j. lo \<le> j \<and> j < hi \<longrightarrow> xs ! j \<le> fst b) \<and> (\<forall>j. lo \<le> j \<and> j < snd b \<longrightarrow> xs ! j < fst b))"

lemma best_on_empty: "hi \<le> lo \<Longrightarrow> best_on xs lo hi (bot, length xs)"
  by (simp add: best_on_def)

lemma best_on_append:
  assumes "best_on xs lo mid b" "best_on xs mid hi c" "lo \<le> mid" "mid < hi" "hi \<le> length xs"
  shows "best_on xs lo hi (if fst b < fst c \<or> fst c = fst b \<and> snd c < snd b then c else b)"
proof -
  have c: "mid \<le> snd c" "snd c < hi" "fst c = xs ! snd c" "\<And>j. mid \<le> j \<Longrightarrow> j < hi \<Longrightarrow> xs ! j \<le> fst c"
    "\<And>j. mid \<le> j \<Longrightarrow> j < snd c \<Longrightarrow> xs ! j < fst c"
    using assms(2,4) by (auto simp: best_on_def)
  show ?thesis
  proof (cases "lo < mid")
    case False
    then have "b = (bot, length xs)" "lo = mid" using assms(1,3) by (simp_all add: best_on_def)
    moreover have "bot \<le> fst c" by simp
    ultimately show ?thesis using assms c(2) by (auto simp: less_le)
  next
    case True
    then have b: "lo \<le> snd b" "snd b < mid" "fst b = xs ! snd b" "\<And>j. lo \<le> j \<Longrightarrow> j < mid \<Longrightarrow> xs ! j \<le> fst b"
      "\<And>j. lo \<le> j \<Longrightarrow> j < snd b \<Longrightarrow> xs ! j < fst b"
      using assms(1) by (auto simp: best_on_def)
    have nt: "\<not> snd c < snd b" using b(2) c(1) by simp
    show ?thesis
    proof (cases "fst b < fst c")
      case True
      have "xs ! j < fst c" if "lo \<le> j" "j < snd c" for j
        using that b(4) [of j] c(5) [of j] True by (cases "j < mid") (auto intro: le_less_trans)
      moreover have "xs ! j \<le> fst c" if "lo \<le> j" "j < hi" for j
        using that b(4) [of j] c(4) [of j] True by (cases "j < mid") auto
      ultimately show ?thesis using True c(1-3) \<open>lo < mid\<close> assms(4) by (simp add: best_on_def)
    next
      case False
      have "xs ! j \<le> fst b" if "lo \<le> j" "j < hi" for j
        using that b(4) [of j] c(4) [of j] False by (cases "j < mid") auto
      then show ?thesis using False nt b(1-3,5) assms(3,4) by (simp add: best_on_def)
    qed
  qed
qed

lemma argmax_tile_best:
  assumes "0 < block" "off < stop" "stop \<le> length xs"
  shows "\<exists>c. best_on xs off (min (off + block) stop) c
     \<and> argmax_tile xs (length xs) stop block off b = (if fst b < fst c \<or> fst c = fst b \<and> snd c < snd b then c else b)"
proof -
  let ?idxs = "[off..<off + block]" and ?lane = "tile_lane xs stop"
  let ?hi = "min (off + block) stop"
  define v where "v = lanes_max (map ?lane ?idxs)"
  define f where "f idx = (if ?lane idx = v then idx else length xs)" for idx
  define i where "i = lanes_min (map f ?idxs)"
  have ne: "?idxs \<noteq> []" using assms(1) by simp
  have vmax: "v = Max (?lane ` {off..<off + block})" using ne by (simp add: v_def lanes_max_eq)
  have imin: "i = Min (f ` {off..<off + block})" using ne by (simp add: i_def lanes_min_eq)
  have vin: "v \<in> ?lane ` {off..<off + block}" unfolding vmax using assms(1) by (intro Max_in) auto
  have le: "?lane j \<le> v" if "off \<le> j" "j < off + block" for j unfolding vmax using that by (intro Max_ge) auto
  have some: "\<exists>k. off \<le> k \<and> k < ?hi \<and> ?lane k = v"
  proof -
    obtain k where k: "off \<le> k" "k < off + block" "v = ?lane k" using vin by auto
    show ?thesis
    proof (cases "k < stop")
      case True
      then show ?thesis using k by auto
    next
      case False
      then have "v = bot" using k by (simp add: tile_lane_def)
      then have "?lane off = v" using le [of off] assms(1) by (simp add: bot.extremum_unique)
      then show ?thesis using assms(1,2) by auto
    qed
  qed
  then obtain k where k: "off \<le> k" "k < ?hi" "?lane k = v" by blast
  have ile: "i \<le> f j" if "off \<le> j" "j < off + block" for j unfolding imin using that by (intro Min_le) auto
  have ik: "i \<le> k" using ile [of k] k by (simp add: f_def)
  have "i \<in> f ` {off..<off + block}" unfolding imin using assms(1) by (intro Min_in) auto
  then obtain j where j: "off \<le> j" "j < off + block" "i = f j" by auto
  have "k < length xs" using k(2) assms(3) by simp
  then have vi: "?lane i = v" "off \<le> i" using j ik by (auto simp: f_def split: if_splits)
  have first: "?lane m < v" if "off \<le> m" "m < i" for m
  proof -
    have "m < off + block" using that(2) ik k(2) by simp
    moreover have "?lane m \<noteq> v" using ile [of m] that calculation by (auto simp: f_def)
    ultimately show ?thesis using le [of m] that(1) by simp
  qed
  have ib: "i < stop" "i < ?hi" using ik k(2) by simp_all
  have xv: "xs ! j \<le> v" if "off \<le> j" "j < ?hi" for j using le [of j] that by (simp add: tile_lane_def)
  have xf: "xs ! j < v" if "off \<le> j" "j < i" for j using first [of j] that ib(1) by (simp add: tile_lane_def)
  have "best_on xs off ?hi (v, i)"
    using vi ib xv xf by (simp add: best_on_def tile_lane_def) (use ib(2) vi(2) in linarith)
  moreover have "argmax_tile xs (length xs) stop block off b = (if fst b < v \<or> v = fst b \<and> i < snd b then (v, i) else b)"
    by (simp add: argmax_tile_def Let_def v_def [symmetric] f_def [symmetric] i_def [symmetric])
  ultimately show ?thesis by (intro exI [of _ "(v, i)"]) simp
qed

lemma argmax_tiles_best:
  assumes "0 < block" "stop \<le> length xs" "lo \<le> stop"
  shows "lo \<le> off \<Longrightarrow> best_on xs lo (min off stop) b \<Longrightarrow>
    best_on xs lo stop (argmax_tiles xs (length xs) stop block off b)"
proof (induction "stop - off" arbitrary: off b rule: less_induct)
  case less
  show ?case
  proof (cases "stop \<le> off")
    case True
    then show ?thesis using less.prems by (simp add: argmax_tiles.simps min_def split: if_splits)
  next
    case False
    then have off: "off < stop" by simp
    from argmax_tile_best [OF assms(1) off assms(2)] obtain c where
      c: "best_on xs off (min (off + block) stop) c"
      "argmax_tile xs (length xs) stop block off b = (if fst b < fst c \<or> fst c = fst b \<and> snd c < snd b then c else b)"
      by blast
    have "best_on xs lo (min (off + block) stop) (argmax_tile xs (length xs) stop block off b)"
      unfolding c(2) using less.prems off assms(1,2) c(1) by (intro best_on_append) auto
    then show ?thesis using less.hyps [of "off + block"] less.prems(1) off assms(1)
      by (subst argmax_tiles.simps) simp
  qed
qed

lemma argmax_partial_best:
  assumes "0 < block" "part * cdiv (length xs) splits \<le> length xs"
  shows "best_on xs (part * cdiv (length xs) splits)
     (min (part * cdiv (length xs) splits + cdiv (length xs) splits) (length xs)) (argmax_partial splits block xs part)"
  unfolding argmax_partial_def Let_def
  by (rule argmax_tiles_best) (use assms in \<open>auto intro: best_on_empty\<close>)

lemma argmax_partial_empty:
  assumes "length xs \<le> part * cdiv (length xs) splits"
  shows "argmax_partial splits block xs part = (bot, length xs)"
  unfolding argmax_partial_def Let_def by (subst argmax_tiles.simps) (use assms in simp)

section \<open>The final reduction\<close>

lemma part_of:
  assumes "i < n" "0 < splits"
  shows "i div cdiv n splits < splits \<and> i div cdiv n splits * cdiv n splits \<le> i
    \<and> i < i div cdiv n splits * cdiv n splits + cdiv n splits"
proof -
  have c: "n \<le> cdiv n splits * splits" using cdiv_covers [OF assms(2)] .
  then have p: "0 < cdiv n splits" using assms(1) by (cases "cdiv n splits") auto
  have "i < splits * cdiv n splits" using c assms(1) by (simp add: mult.commute)
  then have "i div cdiv n splits < splits" using p by (simp add: div_less_iff_less_mult)
  moreover have "i < i div cdiv n splits * cdiv n splits + cdiv n splits"
    using mod_less_divisor [OF p, of i] div_mult_mod_eq [of i "cdiv n splits"] by linarith
  ultimately show ?thesis by simp
qed

lemma partial_cases:
  assumes "0 < block"
  obtains "argmax_partial splits block xs q = (bot, length xs)"
    | i where "argmax_partial splits block xs q = (xs ! i, i)" "i < length xs"
proof (cases "length xs \<le> q * cdiv (length xs) splits \<or> cdiv (length xs) splits = 0")
  case True
  have "best_on xs 0 0 (argmax_partial splits block xs q)" if "cdiv (length xs) splits = 0"
    using argmax_partial_best [OF assms, of q xs splits] that by simp
  then show ?thesis using that(1) True argmax_partial_empty [of xs q splits] by (auto simp: best_on_def)
next
  case False
  let ?lo = "q * cdiv (length xs) splits"
  have "best_on xs ?lo (min (?lo + cdiv (length xs) splits) (length xs)) (argmax_partial splits block xs q)"
    using argmax_partial_best [OF assms, of q xs splits] False by simp
  then have "fst (argmax_partial splits block xs q) = xs ! snd (argmax_partial splits block xs q)
      \<and> snd (argmax_partial splits block xs q) < length xs"
    using False by (simp add: best_on_def split: if_splits)
  then show ?thesis using that(2) by (metis prod.collapse)
qed

lemma first_max_part:
  assumes "first_max xs i" "0 < block" "0 < splits"
  shows "\<exists>q < splits. argmax_partial splits block xs q = (xs ! i, i)"
proof -
  have i: "i < length xs" "\<And>j. j < length xs \<Longrightarrow> xs ! j \<le> xs ! i" "\<And>j. j < i \<Longrightarrow> xs ! j < xs ! i"
    using assms(1) by (simp_all add: first_max_def)
  let ?per = "cdiv (length xs) splits"
  define q where "q = i div ?per"
  have q: "q < splits" "q * ?per \<le> i" "i < q * ?per + ?per"
    using part_of [OF i(1) assms(3)] by (simp_all add: q_def)
  define r where "r = argmax_partial splits block xs q"
  have "best_on xs (q * ?per) (min (q * ?per + ?per) (length xs)) r"
    unfolding r_def using q(2) i(1) by (intro argmax_partial_best [OF assms(2)]) simp
  then have r: "q * ?per \<le> snd r" "snd r < length xs" "fst r = xs ! snd r"
    "\<And>j. q * ?per \<le> j \<Longrightarrow> j < q * ?per + ?per \<Longrightarrow> j < length xs \<Longrightarrow> xs ! j \<le> fst r"
    "\<And>j. q * ?per \<le> j \<Longrightarrow> j < snd r \<Longrightarrow> xs ! j < fst r"
    using q i(1) by (auto simp: best_on_def split: if_splits)
  have v: "fst r = xs ! i" using r(4) [of i] i(1) i(2) [of "snd r"] q r(2,3) by (simp add: antisym)
  have "snd r = i"
  proof (rule linorder_cases [of "snd r" i])
    assume "snd r < i"
    then show ?thesis using i(3) [of "snd r"] r(3) v by simp
  next
    assume "i < snd r"
    then show ?thesis using r(5) [of i] q(2) v by simp
  qed simp
  then show ?thesis using v q(1) r_def by (metis prod.collapse)
qed

lemma argmax_final_first:
  fixes xs :: "'a :: {linorder, order_bot} list"
  assumes "first_max xs i" "0 < splits" "splits \<le> fblock" "0 < block" "length xs \<le> idx_max"
  shows "argmax_final splits fblock (map (argmax_partial splits block xs) [0..<splits]) = i"
proof -
  define lane where "lane q = (if q < splits then argmax_partial splits block xs q else (bot, idx_max))" for q
  have i: "i < length xs" "\<And>j. j < length xs \<Longrightarrow> xs ! j \<le> xs ! i" "\<And>j. j < i \<Longrightarrow> xs ! j < xs ! i"
    using assms(1) by (simp_all add: first_max_def)
  obtain p where p: "p < splits" "lane p = (xs ! i, i)"
    using first_max_part [OF assms(1,4,2)] by (auto simp: lane_def)
  have lane: "fst (lane q) \<le> xs ! i \<and> (fst (lane q) = xs ! i \<longrightarrow> i \<le> snd (lane q))" for q
  proof (cases "q < splits")
    case True
    show ?thesis
    proof (rule partial_cases [OF assms(4), of splits xs q])
      assume "argmax_partial splits block xs q = (bot, length xs)"
      then show ?thesis using True i(1) by (simp add: lane_def)
    next
      fix j assume j: "argmax_partial splits block xs q = (xs ! j, j)" "j < length xs"
      have "i \<le> j" if "xs ! j = xs ! i" using i(3) [of j] that by (cases "j < i") auto
      then show ?thesis using True i(2) [OF j(2)] j(1) by (simp add: lane_def)
    qed
  qed (use i(1) assms(5) in \<open>simp add: lane_def\<close>)
  have ne: "[0..<fblock] \<noteq> []" using assms(2,3) by simp
  have best: "lanes_max (map (\<lambda>q. fst (lane q)) [0..<fblock]) = xs ! i"
  proof -
    have "p \<in> {0..<fblock}" "fst (lane p) = xs ! i" using p assms(3) by simp_all
    then have "xs ! i \<in> (\<lambda>q. fst (lane q)) ` {0..<fblock}" by (intro image_eqI [of _ _ p]) simp_all
    then have "Max ((\<lambda>q. fst (lane q)) ` {0..<fblock}) = xs ! i"
      by (intro Max_eqI) (use lane in auto)
    then show ?thesis using ne by (simp add: lanes_max_eq)
  qed
  have "Min ((\<lambda>q. if fst (lane q) = xs ! i then snd (lane q) else idx_max) ` {0..<fblock}) = i"
  proof (rule Min_eqI)
    have "p \<in> {0..<fblock}" using p(1) assms(3) by simp
    then show "i \<in> (\<lambda>q. if fst (lane q) = xs ! i then snd (lane q) else idx_max) ` {0..<fblock}"
      using p(2) by (intro image_eqI [of _ _ p]) simp_all
  qed (use lane i(1) assms(5) in auto)
  then have "lanes_min (map (\<lambda>q. if fst (lane q) = xs ! i then snd (lane q) else idx_max) [0..<fblock]) = i"
    using ne by (simp add: lanes_min_eq)
  moreover have fl: "(if q < splits then map (argmax_partial splits block xs) [0..<splits] ! q else (bot, idx_max)) = lane q" for q
    by (simp add: lane_def)
  ultimately show ?thesis
    unfolding argmax_final_def Let_def fl best by simp
qed

section \<open>Values\<close>

text \<open>A float32 that is not NaN.\<close>

datatype f32 = NegInf | Finite real | PosInf

fun f32_rank :: "f32 \<Rightarrow> nat \<times> real" where
  "f32_rank NegInf = (0, 0)"
| "f32_rank (Finite r) = (1, r)"
| "f32_rank PosInf = (2, 0)"

instantiation f32 :: "{linorder, order_bot}"
begin

definition less_eq_f32 :: "f32 \<Rightarrow> f32 \<Rightarrow> bool" where
  "x \<le> y \<longleftrightarrow> (case (x, y) of (NegInf, _) \<Rightarrow> True | (_, PosInf) \<Rightarrow> True | (Finite a, Finite b) \<Rightarrow> a \<le> b | _ \<Rightarrow> False)"

definition less_f32 :: "f32 \<Rightarrow> f32 \<Rightarrow> bool" where
  "x < y \<longleftrightarrow> x \<le> y \<and> \<not> y \<le> (x :: f32)"

definition bot_f32 :: f32 where
  "bot = NegInf"

instance
proof
  fix x y z :: f32
  show "x < y \<longleftrightarrow> x \<le> y \<and> \<not> y \<le> x" by (simp add: less_f32_def)
  show "x \<le> x" by (cases x) (simp_all add: less_eq_f32_def)
  show "x \<le> y \<Longrightarrow> y \<le> z \<Longrightarrow> x \<le> z" by (cases x; cases y; cases z) (simp_all add: less_eq_f32_def)
  show "x \<le> y \<Longrightarrow> y \<le> x \<Longrightarrow> x = y" by (cases x; cases y) (simp_all add: less_eq_f32_def)
  show "x \<le> y \<or> y \<le> x" by (cases x; cases y) (auto simp: less_eq_f32_def)
  show "bot \<le> x" by (simp add: bot_f32_def less_eq_f32_def)
qed

end

section \<open>Equivalence\<close>

lemma fast_row_argmax_first:
  "xs \<noteq> [] \<Longrightarrow> length xs \<le> idx_max \<Longrightarrow> fast_row_argmax xs = row_argmax xs"
  unfolding fast_row_argmax_def by (rule argmax_final_first [OF row_argmax_first]) simp_all

text \<open>C38: The split argmax is the reference argmax on every row without NaN, minus infinities and rows
  narrower than the split included: the index of the first maximum.\<close>

theorem fast_argmax_equals_argmax:
  fixes rows :: "f32 list list"
  assumes "\<And>xs. xs \<in> set rows \<Longrightarrow> xs \<noteq> [] \<and> length xs \<le> idx_max"
  shows "fast_row_argmax_2d rows = map row_argmax rows \<and> list_all2 first_max rows (fast_row_argmax_2d rows)"
proof -
  have e: "fast_row_argmax_2d rows = map row_argmax rows"
    unfolding fast_row_argmax_2d_def using assms fast_row_argmax_first by (intro map_cong) auto
  have "\<forall>xs \<in> set rows. first_max xs (row_argmax xs)" using assms row_argmax_first by blast
  then show ?thesis by (simp add: e list_all2_map2 list_all2_same)
qed

theorem fast_argmax_equals_argmax_witness:
  "fast_row_argmax_2d [[NegInf, NegInf], [Finite 1, PosInf, Finite 2, PosInf]] = [0, 1]"
proof -
  let ?rows = "[[NegInf, NegInf], [Finite 1, PosInf, Finite 2, PosInf]]"
  have "xs \<noteq> [] \<and> length xs \<le> idx_max" if "xs \<in> set ?rows" for xs using that by (auto simp: idx_max_def)
  from fast_argmax_equals_argmax [OF this] have "fast_row_argmax_2d ?rows = map row_argmax ?rows" by blast
  then show ?thesis by (simp add: less_f32_def less_eq_f32_def)
qed

end
