(* ===== verification/SpecAccept.thy ===== *)
theory SpecAccept
  imports Tensors FastArgmax
begin

text \<open>
  \<open>sglang-overlay/dspark_accept.py\<close>: how many draft tokens of a speculative step are accepted, the
  bonus token after them, and the new sequence lengths. Every operation exists as torch code and as a
  Triton kernel; \<open>execute\<close> picks one by where the inputs are. The verify kernel, the library softmax
  and the comparison of candidates with predictions are arguments. Floats are reals.
\<close>

section \<open>Tensors\<close>

record matrix =
  mcols :: nat
  mflat :: tensor

definition mrows :: "matrix \<Rightarrow> nat" where
  "mrows m = length (tdata (mflat m)) div mcols m"

fun promote :: "dtype \<Rightarrow> dtype \<Rightarrow> dtype" where
  "promote I32 I32 = I32"
| "promote _ _ = I64"

definition to_dtype :: "dtype \<Rightarrow> tensor \<Rightarrow> tensor" where
  "to_dtype d t = \<lparr>tdtype = d, tdata = map (cast d) (tdata t)\<rparr>"

definition zeros_like :: "tensor \<Rightarrow> tensor" where
  "zeros_like t = t\<lparr>tdata := replicate (length (tdata t)) 0\<rparr>"

text \<open>Broadcasting of one-dimensional shapes.\<close>

definition bcast_len :: "nat list \<Rightarrow> py_error + nat" where
  "bcast_len ns =
     (case filter (\<lambda>n. n \<noteq> 1) ns of
        [] \<Rightarrow> Inr 1
      | n # ms \<Rightarrow> if list_all (\<lambda>m. m = n) ms then Inr n else Inl (RuntimeError ''size mismatch''))"

definition bget :: "'a list \<Rightarrow> nat \<Rightarrow> 'a" where
  "bget xs i = (if length xs = 1 then xs ! 0 else xs ! i)"

section \<open>CapCorrectLen\<close>

definition cap_correct_len :: "tensor \<Rightarrow> tensor \<Rightarrow> py_error + tensor \<times> tensor" where
  "cap_correct_len correct verify =
     (let d = tdtype correct;
          ell = map (\<lambda>v. cast d (cast (tdtype verify) (v - 1))) (tdata verify)
      in case bcast_len [length (tdata correct), length ell] of
           Inl e \<Rightarrow> Inl e
         | Inr n \<Rightarrow>
             (let capped = tabulate n (\<lambda>i. min (bget (tdata correct) i) (bget ell i))
              in Inr (\<lparr>tdtype = d, tdata = capped\<rparr>,
                      \<lparr>tdtype = d, tdata = tabulate n (\<lambda>i. cast d (bget (tdata correct) i - capped ! i))\<rparr>)))"

definition cap_lane :: "(int \<Rightarrow> int) \<Rightarrow> tensor \<Rightarrow> tensor \<Rightarrow> nat \<Rightarrow> int \<times> int" where
  "cap_lane oob correct verify offs =
     (let cl = cast I64 (peek oob (tdata correct) (int offs));
          vl = cast I64 (peek oob (tdata verify) (int offs));
          ell = cast I64 (vl - 1);
          capped = min cl ell
      in (capped, cast I64 (cl - capped)))"

definition cap_correct_len_triton ::
    "(int \<Rightarrow> int) \<Rightarrow> int list \<times> int list \<Rightarrow> tensor \<Rightarrow> tensor \<Rightarrow> tensor \<times> tensor" where
  "cap_correct_len_triton oob bufs correct verify =
     (let d = tdtype correct; n = length (tdata correct);
          lane = cap_lane oob correct verify
      in (\<lparr>tdtype = d, tdata = launch 1024 n (\<lambda>i. cast d (fst (lane i))) (fst bufs)\<rparr>,
          \<lparr>tdtype = d, tdata = launch 1024 n (\<lambda>i. cast d (snd (lane i))) (snd bufs)\<rparr>))"

text \<open>What the device brings along: whether the inputs are on it, what lies outside of a buffer, and
  the former contents of a fresh buffer of a given size.\<close>

record device =
  on_cuda :: bool
  out_of_bounds :: "int \<Rightarrow> int"
  fresh :: "nat \<Rightarrow> int list"
  fresh_float :: "nat \<Rightarrow> real list"

definition wf_device :: "device \<Rightarrow> bool" where
  "wf_device D \<longleftrightarrow> (\<forall>n. length (fresh D n) = n \<and> length (fresh_float D n) = n)"

definition cap_execute :: "device \<Rightarrow> tensor \<Rightarrow> tensor \<Rightarrow> py_error + tensor \<times> tensor" where
  "cap_execute D correct verify =
     (if on_cuda D then
        (let b = fresh D (length (tdata correct))
         in Inr (cap_correct_len_triton (out_of_bounds D) (b, b) correct verify))
      else cap_correct_len correct verify)"

section \<open>FinalizeAcceptLens\<close>

record finalize_result =
  commit_lens :: tensor
  new_seq_lens :: tensor
  fin_trim_lens :: tensor

definition finalize_accept_lens :: "tensor \<Rightarrow> tensor \<Rightarrow> tensor \<Rightarrow> py_error + finalize_result" where
  "finalize_accept_lens correct trim prefix_lens =
     (let commit = map (\<lambda>c. cast I32 (cast I32 c + 1)) (tdata correct);
          d = tdtype prefix_lens
      in case bcast_len [length (tdata prefix_lens), length commit] of
           Inl e \<Rightarrow> Inl e
         | Inr n \<Rightarrow> Inr \<lparr>commit_lens = \<lparr>tdtype = I32, tdata = commit\<rparr>,
             new_seq_lens = \<lparr>tdtype = d,
               tdata = tabulate n (\<lambda>i. cast d (bget (tdata prefix_lens) i + cast d (bget commit i)))\<rparr>,
             fin_trim_lens = to_dtype I32 trim\<rparr>)"

definition finalize_accept_lens_triton :: "device \<Rightarrow> tensor \<Rightarrow> tensor \<Rightarrow> tensor \<Rightarrow> finalize_result" where
  "finalize_accept_lens_triton D correct trim prefix_lens =
     (let bs = length (tdata correct); d = tdtype prefix_lens; ld = peek (out_of_bounds D);
          commit = (\<lambda>i. cast I32 (cast I32 (ld (tdata correct) (int i)) + 1))
      in \<lparr>commit_lens = \<lparr>tdtype = I32, tdata = launch 256 bs commit (fresh D bs)\<rparr>,
          new_seq_lens = \<lparr>tdtype = d, tdata = launch 256 bs
             (\<lambda>i. cast d (cast (promote d I32) (ld (tdata prefix_lens) (int i) + commit i))) (fresh D bs)\<rparr>,
          fin_trim_lens = \<lparr>tdtype = I32, tdata = launch 256 bs (\<lambda>i. cast I32 (ld (tdata trim) (int i))) (fresh D bs)\<rparr>\<rparr>)"

definition finalize_execute :: "device \<Rightarrow> tensor \<Rightarrow> tensor \<Rightarrow> tensor \<Rightarrow> py_error + finalize_result" where
  "finalize_execute D correct trim prefix_lens =
     (if on_cuda D then Inr (finalize_accept_lens_triton D correct trim prefix_lens)
      else finalize_accept_lens correct trim prefix_lens)"

section \<open>SelectMixedAccept\<close>

text \<open>Lengths, bonus tokens and trims of a batch, as the greedy and the sampling path return them.\<close>

record accept =
  correct_len :: tensor
  bonus :: tensor
  cap_trim_lens :: tensor

definition torch_where :: "bool list \<Rightarrow> tensor \<Rightarrow> tensor \<Rightarrow> py_error + tensor" where
  "torch_where gm a b =
     (case bcast_len [length gm, length (tdata a), length (tdata b)] of
        Inl e \<Rightarrow> Inl e
      | Inr n \<Rightarrow> Inr \<lparr>tdtype = promote (tdtype a) (tdtype b),
          tdata = tabulate n (\<lambda>i. if bget gm i then bget (tdata a) i else bget (tdata b) i)\<rparr>)"

definition select_mixed_accept :: "bool list \<Rightarrow> accept \<Rightarrow> accept \<Rightarrow> py_error + accept" where
  "select_mixed_accept gm greedy sampling =
     (case torch_where gm (to_dtype (tdtype (correct_len sampling)) (correct_len greedy)) (correct_len sampling) of
        Inl e \<Rightarrow> Inl e
      | Inr cl \<Rightarrow>
          (case torch_where gm (bonus greedy) (bonus sampling) of
             Inl e \<Rightarrow> Inl e
           | Inr bo \<Rightarrow>
               (case torch_where gm (to_dtype (tdtype (cap_trim_lens sampling)) (cap_trim_lens greedy))
                       (cap_trim_lens sampling) of
                  Inl e \<Rightarrow> Inl e
                | Inr tr \<Rightarrow> Inr \<lparr>correct_len = cl, bonus = bo, cap_trim_lens = tr\<rparr>)))"

definition select_lane :: "device \<Rightarrow> bool list \<Rightarrow> tensor \<Rightarrow> tensor \<Rightarrow> tensor" where
  "select_lane D gm g s =
     (let bs = length gm; ld = peek (out_of_bounds D)
      in \<lparr>tdtype = tdtype s, tdata = launch 256 bs
           (\<lambda>i. cast (tdtype s) (if gm ! i then ld (tdata g) (int i) else ld (tdata s) (int i))) (fresh D bs)\<rparr>)"

definition select_mixed_accept_triton :: "device \<Rightarrow> bool list \<Rightarrow> accept \<Rightarrow> accept \<Rightarrow> accept" where
  "select_mixed_accept_triton D gm greedy sampling =
     \<lparr>correct_len = select_lane D gm (correct_len greedy) (correct_len sampling),
      bonus = select_lane D gm (bonus greedy) (bonus sampling),
      cap_trim_lens = select_lane D gm (cap_trim_lens greedy) (cap_trim_lens sampling)\<rparr>"

definition select_execute :: "device \<Rightarrow> bool list \<Rightarrow> accept \<Rightarrow> accept \<Rightarrow> py_error + accept" where
  "select_execute D gm greedy sampling =
     (if on_cuda D then Inr (select_mixed_accept_triton D gm greedy sampling)
      else select_mixed_accept gm greedy sampling)"

section \<open>Greedy acceptance\<close>

text \<open>The logits of the verify step: a two-dimensional tensor with its type and layout.\<close>

record logits =
  lrows :: "f32 list list"
  lvocab :: nat
  l_is_2d :: bool
  l_float32 :: bool
  l_unit_stride :: bool

definition row_argmax_dispatch :: "device \<Rightarrow> logits \<Rightarrow> nat list" where
  "row_argmax_dispatch D l =
     (if on_cuda D \<and> l_is_2d l \<and> l_float32 l \<and> l_unit_stride l \<and> length (lrows l) \<le> 64 \<and> 4096 \<le> lvocab l
      then fast_row_argmax_2d (lrows l) else map row_argmax (lrows l))"

definition view_matrix :: "nat \<Rightarrow> nat \<Rightarrow> int list \<Rightarrow> py_error + matrix" where
  "view_matrix bs cols xs =
     (if length xs = bs * cols then Inr \<lparr>mcols = cols, mflat = \<lparr>tdtype = I64, tdata = xs\<rparr>\<rparr>
      else Inl (RuntimeError ''invalid shape''))"

text \<open>\<open>m[arange(bs), idx]\<close>, both sides as one-dimensional tensors.\<close>

definition torch_gather :: "matrix \<Rightarrow> nat \<Rightarrow> tensor \<Rightarrow> py_error + int list" where
  "torch_gather m bs idx =
     (case bcast_len [bs, length (tdata idx)] of
        Inl e \<Rightarrow> Inl e
      | Inr n \<Rightarrow> sequence (tabulate n (\<lambda>i.
          case (torch_index (mrows m) (int (bget [0..<bs] i)), torch_index (mcols m) (bget (tdata idx) i)) of
            (Inr r, Inr c) \<Rightarrow> Inr (tdata (mflat m) ! (r * mcols m + c))
          | (Inl e, _) \<Rightarrow> Inl e
          | (_, Inl e) \<Rightarrow> Inl e)))"

definition gather_row_bonus_triton :: "device \<Rightarrow> matrix \<Rightarrow> tensor \<Rightarrow> tensor" where
  "gather_row_bonus_triton D table idx =
     (let bs = mrows table; ld = peek (out_of_bounds D)
      in \<lparr>tdtype = I64, tdata = launch 256 bs (\<lambda>i. cast I64 (ld (tdata (mflat table))
            (int i * int (mcols table) + cast I64 (ld (tdata idx) (int i))))) (fresh D bs)\<rparr>)"

text \<open>\<open>compare\<close> is \<open>compute_dflash_correct_drafts_and_bonus\<close>.\<close>

definition accept_greedy ::
    "(int list list \<Rightarrow> matrix \<Rightarrow> tensor \<times> tensor) \<Rightarrow> device \<Rightarrow> int list list \<Rightarrow> logits \<Rightarrow> nat \<Rightarrow> tensor option
      \<Rightarrow> py_error + accept" where
  "accept_greedy compare D candidates l vn cutoff =
     (let bs = length candidates in
      case view_matrix bs vn (map int (row_argmax_dispatch D l)) of
        Inl e \<Rightarrow> Inl e
      | Inr tp \<Rightarrow>
          (let (cl, bo) = compare candidates tp in
           case cutoff of
             None \<Rightarrow> Inr \<lparr>correct_len = cl, bonus = bo, cap_trim_lens = zeros_like cl\<rparr>
           | Some vl \<Rightarrow>
               (case cap_execute D cl vl of
                  Inl e \<Rightarrow> Inl e
                | Inr (capped, trim) \<Rightarrow>
                    (case torch_gather tp bs (to_dtype I64 capped) of
                       Inl e \<Rightarrow> Inl e
                     | Inr b \<Rightarrow> Inr \<lparr>correct_len = capped, bonus = \<lparr>tdtype = I64, tdata = map (cast I64) b\<rparr>,
                                      cap_trim_lens = trim\<rparr>))))"

definition accept_greedy_triton ::
    "(int list list \<Rightarrow> matrix \<Rightarrow> tensor \<times> tensor) \<Rightarrow> device \<Rightarrow> int list list \<Rightarrow> logits \<Rightarrow> nat \<Rightarrow> tensor option
      \<Rightarrow> py_error + accept" where
  "accept_greedy_triton compare D candidates l vn cutoff =
     (let bs = length candidates in
      case view_matrix bs vn (map int (row_argmax_dispatch D l)) of
        Inl e \<Rightarrow> Inl e
      | Inr tp \<Rightarrow>
          (let (cl, bo) = compare candidates tp in
           case cutoff of
             None \<Rightarrow> Inr \<lparr>correct_len = cl, bonus = bo, cap_trim_lens = zeros_like cl\<rparr>
           | Some vl \<Rightarrow>
               (case cap_execute D cl vl of
                  Inl e \<Rightarrow> Inl e
                | Inr (capped, trim) \<Rightarrow> Inr \<lparr>correct_len = capped, bonus = gather_row_bonus_triton D tp capped,
                                              cap_trim_lens = trim\<rparr>)))"

definition accept_greedy_execute ::
    "(int list list \<Rightarrow> matrix \<Rightarrow> tensor \<times> tensor) \<Rightarrow> device \<Rightarrow> int list list \<Rightarrow> logits \<Rightarrow> nat \<Rightarrow> tensor option
      \<Rightarrow> py_error + accept" where
  "accept_greedy_execute compare D candidates l vn cutoff =
     (if on_cuda D then accept_greedy_triton compare D candidates l vn cutoff
      else accept_greedy compare D candidates l vn cutoff)"

section \<open>Softmax with temperature\<close>

definition softmax_row :: "real list \<Rightarrow> real list" where
  "softmax_row xs = map (\<lambda>x. exp x / sum_list (map exp xs)) xs"

text \<open>The checks all three variants share: the divisibility assertion and the reshape.\<close>

definition softmax_guard :: "nat \<Rightarrow> nat \<Rightarrow> nat \<Rightarrow> py_error option" where
  "softmax_guard num_rows ntemps rpr =
     (if rpr = 0 then Some ZeroDivisionError
      else if num_rows div rpr * rpr \<noteq> num_rows then Some AssertionError
      else if ntemps \<noteq> num_rows div rpr then Some (RuntimeError ''shape'') else None)"

definition repeat_interleave :: "nat \<Rightarrow> 'a list \<Rightarrow> 'a list" where
  "repeat_interleave k xs = concat (map (replicate k) xs)"

definition softmax_temp :: "real list list \<Rightarrow> real list \<Rightarrow> nat \<Rightarrow> py_error + real list list" where
  "softmax_temp rows temps rpr =
     (case softmax_guard (length rows) (length temps) rpr of
        Some e \<Rightarrow> Inl e
      | None \<Rightarrow> Inr (map (\<lambda>(row, t). softmax_row (map (\<lambda>x. x / t) row)) (zip rows (repeat_interleave rpr temps))))"

text \<open>Minus infinity is \<open>None\<close>; a masked lane loads it.\<close>

fun omax :: "real option \<Rightarrow> real option \<Rightarrow> real option" where
  "omax None y = y"
| "omax x None = x"
| "omax (Some a) (Some b) = Some (max a b)"

definition lane_logit :: "real list \<Rightarrow> real \<Rightarrow> nat \<Rightarrow> real option" where
  "lane_logit row t offs = (if offs < length row then Some (row ! offs / t) else None)"

text \<open>The three loops of the kernel over the tiles \<open>range(0, vocab, BLOCK_V)\<close>.\<close>

definition kernel_max :: "nat \<Rightarrow> real list \<Rightarrow> real \<Rightarrow> real option" where
  "kernel_max blk row t =
     fold (\<lambda>k m. omax m (fold omax (map (\<lambda>l. lane_logit row t (k * blk + l)) [0..<blk]) None))
       [0..<cdiv (length row) blk] None"

definition lane_exp :: "real list \<Rightarrow> real \<Rightarrow> real \<Rightarrow> nat \<Rightarrow> real" where
  "lane_exp row t m offs = (case lane_logit row t offs of Some x \<Rightarrow> exp (x - m) | None \<Rightarrow> 0)"

definition kernel_sum :: "nat \<Rightarrow> real list \<Rightarrow> real \<Rightarrow> real \<Rightarrow> real" where
  "kernel_sum blk row t m =
     fold (\<lambda>k acc. acc + sum_list (map (\<lambda>l. lane_exp row t m (k * blk + l)) [0..<blk]))
       [0..<cdiv (length row) blk] 0"

definition softmax_temp_kernel :: "nat \<Rightarrow> real list \<Rightarrow> real \<Rightarrow> real list \<Rightarrow> real list" where
  "softmax_temp_kernel blk row t out =
     (case kernel_max blk row t of
        None \<Rightarrow> out
      | Some m \<Rightarrow>
          (let s = kernel_sum blk row t m
           in launch blk (length row) (\<lambda>i. lane_exp row t m i / s) out))"

definition softmax_temp_triton ::
    "device \<Rightarrow> real list list \<Rightarrow> real list \<Rightarrow> nat \<Rightarrow> py_error + real list list" where
  "softmax_temp_triton D rows temps rpr =
     (case softmax_guard (length rows) (length temps) rpr of
        Some e \<Rightarrow> Inl e
      | None \<Rightarrow> Inr (tabulate (length rows) (\<lambda>r.
          softmax_temp_kernel 4096 (rows ! r) (temps ! (r div rpr)) (fresh_float D (length (rows ! r))))))"

definition softmax_temp_flashinfer ::
    "(real list list \<Rightarrow> real list \<Rightarrow> real list list) option \<Rightarrow> real list list \<Rightarrow> real list \<Rightarrow> nat
      \<Rightarrow> py_error + real list list" where
  "softmax_temp_flashinfer lib rows temps rpr =
     (case lib of
        None \<Rightarrow> Inl (RuntimeError ''flashinfer unavailable'')
      | Some f \<Rightarrow>
          (case softmax_guard (length rows) (length temps) rpr of
             Some e \<Rightarrow> Inl e
           | None \<Rightarrow> Inr (f rows (repeat_interleave rpr temps))))"

definition softmax_execute ::
    "(real list list \<Rightarrow> real list \<Rightarrow> real list list) option \<Rightarrow> device \<Rightarrow> real list list \<Rightarrow> real list \<Rightarrow> nat
      \<Rightarrow> py_error + real list list" where
  "softmax_execute lib D rows temps rpr =
     (if \<not> on_cuda D then softmax_temp rows temps rpr
      else if lib \<noteq> None then softmax_temp_flashinfer lib rows temps rpr
      else softmax_temp_triton D rows temps rpr)"

section \<open>Sampled acceptance\<close>

text \<open>\<open>chain\<close> is the verify kernel: from probabilities and random numbers it fills \<open>predicts\<close>,
  \<open>accept_index\<close> and \<open>accept_token_num\<close>. \<open>truncated_probs\<close> is the library's top-k/top-p path.\<close>

record sampling =
  need_top_k :: bool
  need_top_p :: bool
  temperatures :: "real list"
  library_softmax :: "(real list list \<Rightarrow> real list \<Rightarrow> real list list) option"
  truncated_probs :: "real list list \<Rightarrow> py_error + real list list"
  chain :: "int list list \<Rightarrow> real list list \<Rightarrow> real list list \<Rightarrow> tensor \<times> matrix \<times> tensor"

text \<open>\<open>view(bs, vn, -1)\<close>, one list for each of the \<open>bs * vn\<close> rows.\<close>

definition view_rows :: "nat \<Rightarrow> real list list \<Rightarrow> py_error + real list list" where
  "view_rows k rows =
     (let flat = concat rows; w = length flat div k
      in if k = 0 \<or> length flat mod k \<noteq> 0 then Inl (RuntimeError ''invalid shape'')
         else Inr (tabulate k (\<lambda>i. take w (drop (i * w) flat))))"

definition target_probs ::
    "sampling \<Rightarrow> device \<Rightarrow> nat \<Rightarrow> real list list \<Rightarrow> nat \<Rightarrow> py_error + real list list" where
  "target_probs S D bs target_logits vn =
     (if \<not> need_top_k S \<and> \<not> need_top_p S then
        (case softmax_execute (library_softmax S) D target_logits (temperatures S) vn of
           Inl e \<Rightarrow> Inl e
         | Inr probs \<Rightarrow> view_rows (bs * vn) probs)
      else truncated_probs S target_logits)"

definition accept_sampling_core ::
    "sampling \<Rightarrow> device \<Rightarrow> int list list \<Rightarrow> real list list \<Rightarrow> real list list \<Rightarrow> nat \<Rightarrow> tensor option
      \<Rightarrow> py_error + tensor \<times> tensor \<times> matrix \<times> tensor" where
  "accept_sampling_core S D candidates target_logits draft_probs vn cutoff =
     (case target_probs S D (length candidates) target_logits vn of
        Inl e \<Rightarrow> Inl e
      | Inr probs \<Rightarrow>
          (let (predicts, accept_index, accept_token_num) = chain S candidates probs draft_probs in
           case cutoff of
             None \<Rightarrow> Inr (accept_token_num, zeros_like accept_token_num, accept_index, predicts)
           | Some vl \<Rightarrow>
               (case cap_execute D accept_token_num vl of
                  Inl e \<Rightarrow> Inl e
                | Inr (capped, trim) \<Rightarrow> Inr (capped, trim, accept_index, predicts))))"

definition accept_sampling ::
    "sampling \<Rightarrow> device \<Rightarrow> int list list \<Rightarrow> real list list \<Rightarrow> real list list \<Rightarrow> nat \<Rightarrow> tensor option
      \<Rightarrow> py_error + accept" where
  "accept_sampling S D candidates target_logits draft_probs vn cutoff =
     (case accept_sampling_core S D candidates target_logits draft_probs vn cutoff of
        Inl e \<Rightarrow> Inl e
      | Inr (cl, trim, accept_index, predicts) \<Rightarrow>
          (case torch_gather accept_index (length candidates) (to_dtype I64 cl) of
             Inl e \<Rightarrow> Inl e
           | Inr pos \<Rightarrow>
               (case sequence (map (\<lambda>p. map_sum id (\<lambda>j. cast I64 (tdata predicts ! j))
                          (torch_index (length (tdata predicts)) p)) pos) of
                  Inl e \<Rightarrow> Inl e
                | Inr b \<Rightarrow> Inr \<lparr>correct_len = cl, bonus = \<lparr>tdtype = I64, tdata = b\<rparr>, cap_trim_lens = trim\<rparr>)))"

definition gather_two_level_bonus_triton :: "device \<Rightarrow> matrix \<Rightarrow> tensor \<Rightarrow> tensor \<Rightarrow> tensor" where
  "gather_two_level_bonus_triton D accept_index predicts cl =
     (let bs = mrows accept_index; ld = peek (out_of_bounds D)
      in \<lparr>tdtype = I64, tdata = launch 256 bs (\<lambda>i.
            (let c = cast I64 (ld (tdata cl) (int i));
                 pos = cast I64 (ld (tdata (mflat accept_index)) (int i * int (mcols accept_index) + c))
             in cast I64 (ld (tdata predicts) pos))) (fresh D bs)\<rparr>)"

definition accept_sampling_triton ::
    "sampling \<Rightarrow> device \<Rightarrow> int list list \<Rightarrow> real list list \<Rightarrow> real list list \<Rightarrow> nat \<Rightarrow> tensor option
      \<Rightarrow> py_error + accept" where
  "accept_sampling_triton S D candidates target_logits draft_probs vn cutoff =
     (case accept_sampling_core S D candidates target_logits draft_probs vn cutoff of
        Inl e \<Rightarrow> Inl e
      | Inr (cl, trim, accept_index, predicts) \<Rightarrow>
          Inr \<lparr>correct_len = cl, bonus = gather_two_level_bonus_triton D accept_index predicts cl,
               cap_trim_lens = trim\<rparr>)"

definition accept_sampling_execute ::
    "sampling \<Rightarrow> device \<Rightarrow> int list list \<Rightarrow> real list list \<Rightarrow> real list list \<Rightarrow> nat \<Rightarrow> tensor option
      \<Rightarrow> py_error + accept" where
  "accept_sampling_execute S D candidates target_logits draft_probs vn cutoff =
     (if on_cuda D then accept_sampling_triton S D candidates target_logits draft_probs vn cutoff
      else accept_sampling S D candidates target_logits draft_probs vn cutoff)"

end
