(* ===== verification/SpecAcceptFacts.thy ===== *)
theory SpecAcceptFacts
  imports SpecAccept
begin

text \<open>
  The torch and the Triton code of every acceptance step compute the same, whatever a fresh buffer
  holds and whatever lies outside of the buffers, and what the results mean: a capped step never
  commits more tokens than were verified.
\<close>

section \<open>Reads and shapes\<close>

lemma peek_nth [simp]: "i < length mem \<Longrightarrow> peek oob mem (int i) = mem ! i"
  by (simp add: peek_def)

lemma bcast_same [simp]: "bcast_len [n, n] = Inr n" "bcast_len [n, n, n] = Inr n"
  by (simp_all add: bcast_len_def)

lemma bget_same [simp]: "i < length xs \<Longrightarrow> bget xs i = xs ! i"
  by (auto simp: bget_def)

lemma fresh_length [simp]: "wf_device D \<Longrightarrow> length (fresh D n) = n" "wf_device D \<Longrightarrow> length (fresh_float D n) = n"
  by (simp_all add: wf_device_def)

lemma launch_fresh [simp]: "wf_device D \<Longrightarrow> 0 < b \<Longrightarrow> launch b n f (fresh D n) = tabulate n f"
  by (rule launch_tabulate) simp_all

lemma tabulate_eq_iff: "tabulate n f = tabulate n g \<longleftrightarrow> (\<forall>i < n. f i = g i)"
  by (auto simp: tabulate_def)

lemma map_as_tabulate: "map f xs = tabulate (length xs) (\<lambda>i. f (xs ! i))"
  by (rule tabulate_eqI) simp_all

lemma cast_cast: "cast I32 (cast I32 x + y) = cast I32 (x + y)" "cast I32 (y + cast I32 x) = cast I32 (y + x)"
  "cast d (cast d x) = cast d x"
proof -
  show "cast I32 (cast I32 x + y) = cast I32 (x + y)" "cast I32 (y + cast I32 x) = cast I32 (y + x)"
    by (simp_all add: cast_def mod_simps algebra_simps)
qed simp

lemma cast_min: "fits d a \<Longrightarrow> fits d b \<Longrightarrow> cast d (min a b) = min a b"
  by (simp add: min_def)

lemma fits_mono: "fits d x \<Longrightarrow> 0 \<le> y \<Longrightarrow> y \<le> x \<Longrightarrow> fits d y"
  by (cases d) (auto simp: fits_I32 fits_I64)

lemma fits_pred: "fits d x \<Longrightarrow> 1 \<le> x \<Longrightarrow> fits d (x - 1)"
  by (rule fits_mono [of d x]) simp_all

lemma fits_zero [simp]: "fits d 0"
  by (cases d) (simp_all add: fits_I32 fits_I64)

section \<open>Capping\<close>

text \<open>The inputs of a capped step: as many limits as lengths, each at least one.\<close>

definition cap_ok :: "tensor \<Rightarrow> tensor \<Rightarrow> bool" where
  "cap_ok correct verify \<longleftrightarrow> wf_tensor correct \<and> wf_tensor verify \<and> length (tdata verify) = length (tdata correct)
     \<and> list_all (\<lambda>c. 0 \<le> c) (tdata correct)
     \<and> list_all (\<lambda>v. 1 \<le> v \<and> fits (tdtype correct) (v - 1)) (tdata verify)"

lemma cap_ok_nth:
  assumes "cap_ok correct verify" "i < length (tdata correct)"
  shows "fits (tdtype correct) (tdata correct ! i)" "0 \<le> tdata correct ! i" "1 \<le> tdata verify ! i"
    "fits (tdtype correct) (tdata verify ! i - 1)" "fits (tdtype verify) (tdata verify ! i)"
    "fits (tdtype verify) (tdata verify ! i - 1)"
  using assms by (auto simp: cap_ok_def list_all_length intro: fits_pred)

definition capped_data :: "tensor \<Rightarrow> tensor \<Rightarrow> int list" where
  "capped_data correct verify =
     tabulate (length (tdata correct)) (\<lambda>i. min (tdata correct ! i) (tdata verify ! i - 1))"

definition trim_data :: "tensor \<Rightarrow> tensor \<Rightarrow> int list" where
  "trim_data correct verify =
     tabulate (length (tdata correct)) (\<lambda>i. tdata correct ! i - min (tdata correct ! i) (tdata verify ! i - 1))"

lemma trim_fits: "cap_ok correct verify \<Longrightarrow> i < length (tdata correct) \<Longrightarrow>
    fits (tdtype correct) (tdata correct ! i - min (tdata correct ! i) (tdata verify ! i - 1))"
  by (rule fits_mono [of _ "tdata correct ! i"]) (use cap_ok_nth in \<open>fastforce+\<close>)

lemma cap_torch:
  assumes "cap_ok correct verify"
  shows "cap_correct_len correct verify =
    Inr (\<lparr>tdtype = tdtype correct, tdata = capped_data correct verify\<rparr>,
         \<lparr>tdtype = tdtype correct, tdata = trim_data correct verify\<rparr>)"
proof -
  have len: "length (tdata verify) = length (tdata correct)" using assms by (simp add: cap_ok_def)
  let ?ell = "map (\<lambda>v. cast (tdtype correct) (cast (tdtype verify) (v - 1))) (tdata verify)"
  have ell: "?ell ! i = tdata verify ! i - 1" if "i < length (tdata correct)" for i
    using that len cap_ok_nth [OF assms that] by simp
  show ?thesis
    unfolding cap_correct_len_def Let_def
    using len ell trim_fits [OF assms] by (simp add: capped_data_def trim_data_def tabulate_eq_iff)
qed

lemma cap_triton:
  assumes "cap_ok correct verify" "length (fst bufs) = length (tdata correct)" "length (snd bufs) = length (tdata correct)"
  shows "cap_correct_len_triton oob bufs correct verify =
    (\<lparr>tdtype = tdtype correct, tdata = capped_data correct verify\<rparr>,
     \<lparr>tdtype = tdtype correct, tdata = trim_data correct verify\<rparr>)"
proof -
  have len: "length (tdata verify) = length (tdata correct)" using assms(1) by (simp add: cap_ok_def)
  have lane: "cap_lane oob correct verify i =
      (min (tdata correct ! i) (tdata verify ! i - 1), tdata correct ! i - min (tdata correct ! i) (tdata verify ! i - 1))"
    if "i < length (tdata correct)" for i
    using that len cap_ok_nth [OF assms(1) that] trim_fits [OF assms(1) that]
    by (simp add: cap_lane_def Let_def fits_I64_any [of "tdtype correct"] fits_I64_any [of "tdtype verify"])
  have "fits (tdtype correct) (min (tdata correct ! i) (tdata verify ! i - 1))" if "i < length (tdata correct)" for i
    using cap_ok_nth [OF assms(1) that] by (simp add: min_def)
  then show ?thesis
    unfolding cap_correct_len_triton_def Let_def capped_data_def trim_data_def
    using assms(2,3) lane trim_fits [OF assms(1)]
    by (simp add: launch_tabulate tabulate_eq_iff)
qed

lemma cap_execute_eq:
  assumes "wf_device D" "cap_ok correct verify"
  shows "cap_execute D correct verify =
    Inr (\<lparr>tdtype = tdtype correct, tdata = capped_data correct verify\<rparr>,
         \<lparr>tdtype = tdtype correct, tdata = trim_data correct verify\<rparr>)"
  using assms cap_torch [OF assms(2)] cap_triton [OF assms(2)] by (simp add: cap_execute_def Let_def)

section \<open>Lengths after the step\<close>

lemma finalize_torch:
  assumes "length (tdata prefix_lens) = length (tdata correct)" "length (tdata trim) = length (tdata correct)"
  shows "finalize_accept_lens correct trim prefix_lens =
    Inr \<lparr>commit_lens = \<lparr>tdtype = I32, tdata = map (\<lambda>c. cast I32 (cast I32 c + 1)) (tdata correct)\<rparr>,
         new_seq_lens = \<lparr>tdtype = tdtype prefix_lens, tdata = tabulate (length (tdata correct))
           (\<lambda>i. cast (tdtype prefix_lens) (tdata prefix_lens ! i
                + cast (tdtype prefix_lens) (cast I32 (cast I32 (tdata correct ! i) + 1))))\<rparr>,
         fin_trim_lens = to_dtype I32 trim\<rparr>"
  using assms by (simp add: finalize_accept_lens_def Let_def tabulate_eq_iff)

lemma finalize_triton:
  assumes "wf_device D" "length (tdata prefix_lens) = length (tdata correct)"
    and "length (tdata trim) = length (tdata correct)"
  shows "finalize_accept_lens correct trim prefix_lens = Inr (finalize_accept_lens_triton D correct trim prefix_lens)"
proof -
  have c: "cast d (cast (promote d I32) (p + q)) = cast d (p + cast d q)" if "fits I32 q" for d p q
    using that by (cases d) (simp_all add: fits_I64_any [of I32] cast_cast)
  show ?thesis
    unfolding finalize_torch [OF assms(2,3)] finalize_accept_lens_triton_def Let_def
    using assms by (simp add: map_as_tabulate to_dtype_def tabulate_eq_iff c)
qed

section \<open>Merging the two paths\<close>

lemma promote_fits: "promote d d' = d' \<Longrightarrow> fits d x \<Longrightarrow> fits d' x"
  by (cases d; cases d') (auto intro: fits_widen)

definition same_shape_accept :: "nat \<Rightarrow> accept \<Rightarrow> bool" where
  "same_shape_accept n a \<longleftrightarrow> wf_tensor (correct_len a) \<and> wf_tensor (bonus a) \<and> wf_tensor (cap_trim_lens a)
     \<and> length (tdata (correct_len a)) = n \<and> length (tdata (bonus a)) = n \<and> length (tdata (cap_trim_lens a)) = n"

lemma where_lane:
  assumes "wf_device D" "wf_tensor g" "wf_tensor s" "length (tdata g) = length gm" "length (tdata s) = length gm"
    and "promote (tdtype g) (tdtype s) = tdtype s"
  shows "torch_where gm g s = Inr (select_lane D gm g s)"
proof -
  have "cast (tdtype s) (tdata g ! i) = tdata g ! i" if "i < length gm" for i
    using promote_fits [OF assms(6)] fits_nth [OF assms(2)] that assms(4) by simp
  moreover have "cast (tdtype s) (tdata s ! i) = tdata s ! i" if "i < length gm" for i
    using fits_nth [OF assms(3)] that assms(5) by simp
  ultimately show ?thesis using assms(1,4-6)
    by (simp add: torch_where_def select_lane_def Let_def tabulate_eq_iff)
qed

lemma where_lane_cast:
  assumes "wf_device D" "wf_tensor s" "length (tdata g) = length gm" "length (tdata s) = length gm"
  shows "torch_where gm (to_dtype (tdtype s) g) s = Inr (select_lane D gm g s)"
proof -
  have p: "promote d d = d" for d by (cases d) simp_all
  have "cast (tdtype s) (tdata s ! i) = tdata s ! i" if "i < length gm" for i
    using fits_nth [OF assms(2)] that assms(4) by simp
  then show ?thesis using assms(1,3,4)
    by (simp add: torch_where_def select_lane_def Let_def tabulate_eq_iff to_dtype_def p)
qed

lemma select_equal:
  assumes "wf_device D" "same_shape_accept (length gm) g" "same_shape_accept (length gm) s"
    and "promote (tdtype (bonus g)) (tdtype (bonus s)) = tdtype (bonus s)"
  shows "select_mixed_accept gm g s = Inr (select_mixed_accept_triton D gm g s)"
  using assms where_lane_cast [OF assms(1)] where_lane [OF assms(1)]
  by (simp add: select_mixed_accept_def select_mixed_accept_triton_def same_shape_accept_def)

section \<open>Gathering\<close>

definition wf_matrix :: "matrix \<Rightarrow> bool" where
  "wf_matrix m \<longleftrightarrow> wf_tensor (mflat m) \<and> 0 < mcols m \<and> length (tdata (mflat m)) = mrows m * mcols m"

definition in_cols :: "matrix \<Rightarrow> int list \<Rightarrow> bool" where
  "in_cols m idx \<longleftrightarrow> length idx = mrows m \<and> list_all (\<lambda>c. 0 \<le> c \<and> c < int (mcols m)) idx"

definition entry :: "matrix \<Rightarrow> nat \<Rightarrow> int \<Rightarrow> int" where
  "entry m i c = tdata (mflat m) ! (i * mcols m + nat c)"

lemma in_cols_nth: "in_cols m idx \<Longrightarrow> i < mrows m \<Longrightarrow> 0 \<le> idx ! i \<and> idx ! i < int (mcols m)"
  by (simp add: in_cols_def list_all_length)

lemma entry_bound:
  assumes "wf_matrix m" "i < mrows m" "0 \<le> c" "c < int (mcols m)"
  shows "i * mcols m + nat c < length (tdata (mflat m))"
proof -
  have "i * mcols m + nat c < i * mcols m + mcols m" using assms(3,4) by simp
  also have "\<dots> = Suc i * mcols m" by simp
  also have "\<dots> \<le> mrows m * mcols m" using assms(2) by (intro mult_le_mono1) simp
  finally show ?thesis using assms(1) by (simp add: wf_matrix_def)
qed

lemma entry_fits:
  "wf_matrix m \<Longrightarrow> i < mrows m \<Longrightarrow> 0 \<le> c \<Longrightarrow> c < int (mcols m) \<Longrightarrow> fits (tdtype (mflat m)) (entry m i c)"
  using fits_nth [of "mflat m" "i * mcols m + nat c"] entry_bound [of m i c] by (simp add: wf_matrix_def entry_def)

lemma peek_entry:
  assumes "wf_matrix m" "i < mrows m" "0 \<le> c" "c < int (mcols m)"
  shows "peek oob (tdata (mflat m)) (int i * int (mcols m) + c) = entry m i c"
proof -
  have "int i * int (mcols m) + c = int (i * mcols m + nat c)" using assms(3) by simp
  then show ?thesis using peek_nth [OF entry_bound [OF assms]] by (simp add: entry_def)
qed

lemma torch_gather_eq:
  assumes "wf_matrix m" "in_cols m (tdata idx)"
  shows "torch_gather m (mrows m) idx = Inr (tabulate (mrows m) (\<lambda>i. entry m i (tdata idx ! i)))"
proof -
  have l: "length (tdata idx) = mrows m" using assms(2) by (simp add: in_cols_def)
  have b: "bget [0..<mrows m] i = i" if "i < mrows m" for i using that by simp
  show ?thesis unfolding torch_gather_def l
    by (simp add: b l torch_index_def entry_def in_cols_nth [OF assms(2)] sequence_tabulate)
qed

lemma gather_row_eq:
  assumes "wf_device D" "wf_matrix m" "in_cols m (tdata idx)" "mcols m < 2 ^ 31"
  shows "gather_row_bonus_triton D m idx =
    \<lparr>tdtype = I64, tdata = tabulate (mrows m) (\<lambda>i. entry m i (tdata idx ! i))\<rparr>"
proof -
  have l: "length (tdata idx) = mrows m" using assms(3) by (simp add: in_cols_def)
  have c: "cast I64 (tdata idx ! i) = tdata idx ! i" if "i < mrows m" for i
    using in_cols_nth [OF assms(3) that] assms(4) by (intro cast_id) (simp add: fits_I64)
  have e: "cast I64 (entry m i (tdata idx ! i)) = entry m i (tdata idx ! i)" if "i < mrows m" for i
    using in_cols_nth [OF assms(3) that] entry_fits [OF assms(2) that] by (intro cast_id fits_I64_any) blast
  show ?thesis unfolding gather_row_bonus_triton_def Let_def
    using assms(1) l c e peek_entry [OF assms(2)] in_cols_nth [OF assms(3)]
    by (simp add: tabulate_eq_iff)
qed

section \<open>Greedy steps\<close>

abbreviation on_cpu :: "device \<Rightarrow> device" where
  "on_cpu D \<equiv> D\<lparr>on_cuda := False\<rparr>"

lemma wf_on_cpu [simp]: "wf_device (on_cpu D) = wf_device D"
  by (simp add: wf_device_def del: fresh_length)

definition logits_ok :: "nat \<Rightarrow> nat \<Rightarrow> logits \<Rightarrow> bool" where
  "logits_ok bs vn l \<longleftrightarrow> length (lrows l) = bs * vn \<and> 0 < vn \<and> vn < 2 ^ 31
     \<and> list_all (\<lambda>row. row \<noteq> [] \<and> length row \<le> idx_max) (lrows l)"

definition predictions :: "nat \<Rightarrow> logits \<Rightarrow> matrix" where
  "predictions vn l = \<lparr>mcols = vn, mflat = \<lparr>tdtype = I64, tdata = map (\<lambda>row. int (row_argmax row)) (lrows l)\<rparr>\<rparr>"

text \<open>The library's comparison: one count per request, at most all drafts.\<close>

definition compare_ok :: "nat \<Rightarrow> nat \<Rightarrow> tensor \<Rightarrow> bool" where
  "compare_ok bs vn cl \<longleftrightarrow> wf_tensor cl \<and> length (tdata cl) = bs
     \<and> list_all (\<lambda>c. 0 \<le> c \<and> c < int vn) (tdata cl)"

lemma argmax_dispatch:
  assumes "logits_ok bs vn l"
  shows "row_argmax_dispatch D l = map row_argmax (lrows l)"
proof -
  have "map fast_row_argmax (lrows l) = map row_argmax (lrows l)"
    using assms fast_row_argmax_first by (auto simp: logits_ok_def list_all_iff)
  then show ?thesis by (simp add: row_argmax_dispatch_def fast_row_argmax_2d_def)
qed

lemma predictions_ok:
  assumes "logits_ok bs vn l"
  shows "view_matrix bs vn (map int (row_argmax_dispatch D l)) = Inr (predictions vn l)"
    "mrows (predictions vn l) = bs" "mcols (predictions vn l) = vn" "wf_matrix (predictions vn l)"
proof -
  have l: "length (lrows l) = bs * vn" "0 < vn" using assms by (simp_all add: logits_ok_def)
  show "view_matrix bs vn (map int (row_argmax_dispatch D l)) = Inr (predictions vn l)"
    using l by (simp add: argmax_dispatch [OF assms] view_matrix_def predictions_def)
  show r: "mrows (predictions vn l) = bs" using l by (simp add: mrows_def predictions_def)
  show "mcols (predictions vn l) = vn" by (simp add: predictions_def)
  have "fits I64 (int (row_argmax row))" if "row \<in> set (lrows l)" for row
  proof -
    have "row \<noteq> []" "length row \<le> idx_max" using assms that by (auto simp: logits_ok_def list_all_iff)
    then have "row_argmax row < idx_max" using row_argmax_first [of row] by (simp add: first_max_def)
    then show ?thesis by (simp add: idx_max_def fits_I64)
  qed
  then have "wf_tensor (mflat (predictions vn l))" by (auto simp: wf_tensor_def predictions_def list_all_iff)
  then show "wf_matrix (predictions vn l)" using l r by (simp add: wf_matrix_def predictions_def)
qed

lemma cap_in_cols:
  assumes "cap_ok cl vl" "compare_ok bs vn cl"
  shows "length (capped_data cl vl) = bs"
    "\<And>i. i < bs \<Longrightarrow> 0 \<le> capped_data cl vl ! i \<and> capped_data cl vl ! i < int vn"
proof -
  have l: "length (tdata cl) = bs" using assms(2) by (simp add: compare_ok_def)
  then show "length (capped_data cl vl) = bs" by (simp add: capped_data_def)
  fix i assume "i < bs"
  then show "0 \<le> capped_data cl vl ! i \<and> capped_data cl vl ! i < int vn"
    using assms(2) cap_ok_nth [OF assms(1), of i] l by (auto simp: capped_data_def compare_ok_def list_all_length min_def)
qed

definition greedy_result :: "nat \<Rightarrow> logits \<Rightarrow> tensor \<Rightarrow> tensor \<Rightarrow> accept" where
  "greedy_result vn l cl vl =
     \<lparr>correct_len = \<lparr>tdtype = tdtype cl, tdata = capped_data cl vl\<rparr>,
      bonus = \<lparr>tdtype = I64, tdata = tabulate (length (tdata cl)) (\<lambda>i. entry (predictions vn l) i (capped_data cl vl ! i))\<rparr>,
      cap_trim_lens = \<lparr>tdtype = tdtype cl, tdata = trim_data cl vl\<rparr>\<rparr>"

lemma greedy_capped:
  assumes D: "wf_device D" and l: "logits_ok (length candidates) vn l"
    and c: "compare candidates (predictions vn l) = (cl, bo)" "compare_ok (length candidates) vn cl" "cap_ok cl vl"
  shows "accept_greedy_execute compare D candidates l vn (Some vl) = Inr (greedy_result vn l cl vl)"
proof -
  let ?bs = "length candidates" and ?p = "predictions vn l"
  note p = predictions_ok [OF l]
  have len: "length (tdata cl) = ?bs" using c(2) by (simp add: compare_ok_def)
  have vn: "vn < 2 ^ 31" using l by (simp add: logits_ok_def)
  have cols: "in_cols ?p (capped_data cl vl)"
    using cap_in_cols [OF c(3,2)] p(2,3) by (simp add: in_cols_def list_all_length)
  have ids: "map (cast I64) (capped_data cl vl) = capped_data cl vl"
  proof (intro map_idI cast_id)
    fix x assume "x \<in> set (capped_data cl vl)"
    then obtain i where "i < ?bs" "x = capped_data cl vl ! i"
      using cap_in_cols(1) [OF c(3,2)] by (auto simp: in_set_conv_nth)
    then have "0 \<le> x" "x < int vn" using cap_in_cols(2) [OF c(3,2)] by simp_all
    then show "fits I64 x" using vn by (simp add: fits_I64)
  qed
  have torch: "torch_gather ?p ?bs (to_dtype I64 \<lparr>tdtype = tdtype cl, tdata = capped_data cl vl\<rparr>)
      = Inr (tabulate ?bs (\<lambda>i. entry ?p i (capped_data cl vl ! i)))"
    using torch_gather_eq [OF p(4), of "\<lparr>tdtype = I64, tdata = capped_data cl vl\<rparr>"] cols
    by (simp add: to_dtype_def ids p(2))
  have e: "map (cast I64) (tabulate ?bs (\<lambda>i. entry ?p i (capped_data cl vl ! i))) = tabulate ?bs (\<lambda>i. entry ?p i (capped_data cl vl ! i))"
    using entry_fits [OF p(4)] in_cols_nth [OF cols] p(2)
    by (auto simp: tabulate_def predictions_def [of vn l] intro!: map_idI)
  show ?thesis
  proof (cases "on_cuda D")
    case True
    then show ?thesis
      using gather_row_eq [OF D p(4), of "\<lparr>tdtype = tdtype cl, tdata = capped_data cl vl\<rparr>"] cols vn
      by (simp add: accept_greedy_execute_def accept_greedy_triton_def p c(1) cap_execute_eq [OF D c(3)]
          greedy_result_def len)
  next
    case False
    then show ?thesis
      by (simp add: accept_greedy_execute_def accept_greedy_def p c(1) cap_execute_eq [OF D c(3)] torch e
          greedy_result_def len)
  qed
qed

section \<open>Softmax\<close>

lemma fold_omax_some: "acc \<noteq> None \<or> (\<exists>x \<in> set xs. x \<noteq> None) \<Longrightarrow> fold omax xs acc \<noteq> None"
proof (induction xs arbitrary: acc)
  case (Cons x xs)
  have "omax x acc \<noteq> None \<or> (\<exists>y \<in> set xs. y \<noteq> None)" using Cons.prems by (cases x; cases acc) auto
  then show ?case using Cons.IH by simp
qed simp

lemma fold_tiles_some: "acc \<noteq> None \<Longrightarrow> fold (\<lambda>k m. omax m (f k)) ks acc \<noteq> None"
proof (induction ks arbitrary: acc)
  case (Cons k ks)
  have "omax acc (f k) \<noteq> None" using Cons.prems by (cases acc; cases "f k") auto
  then show ?case using Cons.IH by simp
qed simp

lemma kernel_max_some:
  assumes "row \<noteq> []" "0 < blk"
  shows "kernel_max blk row t \<noteq> None"
proof -
  let ?f = "\<lambda>k. fold omax (map (\<lambda>l. lane_logit row t (k * blk + l)) [0..<blk]) None"
  have "lane_logit row t (0 * blk + 0) \<noteq> None" using assms(1) by (simp add: lane_logit_def)
  then have f0: "?f 0 \<noteq> None" using assms(2) by (intro fold_omax_some) force
  have "0 < cdiv (length row) blk" using cdiv_covers [OF assms(2), of "length row"] assms(1) by (cases "cdiv (length row) blk") auto
  then have "[0..<cdiv (length row) blk] = 0 # [1..<cdiv (length row) blk]" by (simp add: upt_conv_Cons)
  then show ?thesis unfolding kernel_max_def using fold_tiles_some [OF f0, of ?f] by simp
qed

lemma kernel_sum_eq:
  assumes "0 < blk"
  shows "kernel_sum blk row t m = sum_list (map (\<lambda>x. exp (x / t - m)) row)"
proof -
  let ?g = "lane_exp row t m" and ?c = "cdiv (length row) blk"
  have fold: "fold (\<lambda>k acc. acc + h k) [0..<c] 0 = sum h {..<c}" for h :: "nat \<Rightarrow> real" and c
    by (induction c) simp_all
  have inner: "sum_list (map (\<lambda>l. ?g (k * blk + l)) [0..<blk]) = sum ?g {k * blk..<k * blk + blk}" for k
  proof -
    have "sum_list (map (\<lambda>l. ?g (k * blk + l)) [0..<blk]) = (\<Sum>l = 0..<blk. ?g (k * blk + l))"
      by (simp add: interv_sum_list_conv_sum_set_nat)
    also have "\<dots> = sum ?g {0 + k * blk..<blk + k * blk}"
      by (subst sum.shift_bounds_nat_ivl) (simp add: add.commute)
    finally show ?thesis by (simp add: add.commute)
  qed
  have "kernel_sum blk row t m = (\<Sum>k<?c. sum ?g {k * blk..<k * blk + blk})"
    by (simp add: kernel_sum_def fold inner)
  also have "\<dots> = sum ?g {..<?c * blk}" by (rule sum.nat_group)
  also have "\<dots> = sum ?g {..<length row}"
    using cdiv_covers [OF assms, of "length row"]
    by (intro sum.mono_neutral_right) (auto simp: lane_exp_def lane_logit_def)
  also have "\<dots> = (\<Sum>i<length row. exp (row ! i / t - m))"
    by (intro sum.cong) (auto simp: lane_exp_def lane_logit_def)
  also have "\<dots> = sum_list (map (\<lambda>x. exp (x / t - m)) row)"
    by (simp add: sum_list_sum_nth atLeast0LessThan)
  finally show ?thesis .
qed

lemma softmax_kernel_eq:
  assumes "0 < blk" "length out = length row"
  shows "softmax_temp_kernel blk row t out = softmax_row (map (\<lambda>x. x / t) row)"
proof (cases "row = []")
  case True
  then show ?thesis using assms(2)
    by (simp add: softmax_temp_kernel_def softmax_row_def launch_tabulate tabulate_def assms(1) split: option.split)
next
  case False
  then obtain m where m: "kernel_max blk row t = Some m" using kernel_max_some [OF _ assms(1)] by blast
  have s: "sum_list (map (\<lambda>x. exp (x / t - m)) row) = sum_list (map (\<lambda>x. exp (x / t)) row) / exp m"
    by (induction row) (simp_all add: exp_diff add_divide_distrib)
  have "softmax_temp_kernel blk row t out
      = tabulate (length row) (\<lambda>i. exp (row ! i / t - m) / sum_list (map (\<lambda>x. exp (x / t - m)) row))"
    using assms by (simp add: softmax_temp_kernel_def m kernel_sum_eq launch_tabulate lane_exp_def lane_logit_def
        cong: tabulate_cong)
  also have "\<dots> = tabulate (length row) (\<lambda>i. exp (row ! i / t) / sum_list (map (\<lambda>x. exp (x / t)) row))"
    unfolding s by (simp add: tabulate_eq_iff exp_diff)
  also have "\<dots> = softmax_row (map (\<lambda>x. x / t) row)"
    by (rule nth_equalityI) (simp_all add: softmax_row_def o_def)
  finally show ?thesis .
qed

lemma nth_repeat_interleave:
  "0 < k \<Longrightarrow> i < length xs * k \<Longrightarrow> repeat_interleave k xs ! i = xs ! (i div k)"
proof (induction xs arbitrary: i)
  case (Cons x xs)
  then show ?case
    using Cons.IH [of "i - k"] by (auto simp: repeat_interleave_def nth_append div_if [of i k])
qed simp

lemma length_repeat_interleave [simp]: "length (repeat_interleave k xs) = length xs * k"
  by (induction xs) (simp_all add: repeat_interleave_def)

text \<open>The library's softmax, where there is one, is the softmax of the scaled rows.\<close>

definition softmax_lib_ok :: "(real list list \<Rightarrow> real list \<Rightarrow> real list list) option \<Rightarrow> bool" where
  "softmax_lib_ok lib \<longleftrightarrow> (\<forall>f. lib = Some f \<longrightarrow>
     (\<forall>rows ts. f rows ts = map (\<lambda>(row, t). softmax_row (map (\<lambda>x. x / t) row)) (zip rows ts)))"

lemma softmax_device_independent:
  assumes "wf_device D" "softmax_lib_ok lib"
  shows "softmax_execute lib D rows temps rpr = softmax_temp rows temps rpr"
proof (cases "softmax_guard (length rows) (length temps) rpr")
  case (Some e)
  then show ?thesis
    by (auto simp: softmax_execute_def softmax_temp_def softmax_temp_triton_def softmax_temp_flashinfer_def split: option.split)
next
  case None
  then have g: "0 < rpr" "length rows = length temps * rpr"
    by (auto simp: softmax_guard_def split: if_splits)
  have "map (\<lambda>(row, t). softmax_row (map (\<lambda>x. x / t) row)) (zip rows (repeat_interleave rpr temps))
      = tabulate (length rows) (\<lambda>r. softmax_temp_kernel 4096 (rows ! r) (temps ! (r div rpr)) (fresh_float D (length (rows ! r))))"
    using assms(1) g by (intro tabulate_eqI) (simp_all add: nth_repeat_interleave softmax_kernel_eq)
  then show ?thesis using None assms(2)
    by (auto simp: softmax_execute_def softmax_temp_def softmax_temp_triton_def softmax_temp_flashinfer_def
        softmax_lib_ok_def split: option.split)
qed

lemma softmax_row_distribution:
  assumes "xs \<noteq> []"
  shows "list_all (\<lambda>p. 0 < p) (softmax_row xs) \<and> sum_list (softmax_row xs) = 1"
proof -
  have pos: "0 < sum_list (map exp xs)" using assms
  proof (induction xs)
    case (Cons x xs)
    then show ?case by (cases xs) (auto intro: add_pos_pos simp del: sum_list.Cons simp: sum_list.Cons)
  qed simp
  have "sum_list (map (\<lambda>x. exp x / c) ys) = sum_list (map exp ys) / c" for c :: real and ys
    by (induction ys) (simp_all add: add_divide_distrib)
  then have "sum_list (softmax_row xs) = sum_list (map exp xs) / sum_list (map exp xs)"
    by (simp add: softmax_row_def)
  then show ?thesis using pos by (simp add: softmax_row_def list_all_iff)
qed

section \<open>Sampled steps\<close>

lemma core_device_independent:
  assumes "wf_device D" "softmax_lib_ok (library_softmax S)"
    and "\<And>probs p ai tn vl. chain S candidates probs draft_probs = (p, ai, tn) \<Longrightarrow> cutoff = Some vl \<Longrightarrow> cap_ok tn vl"
  shows "accept_sampling_core S D candidates lg draft_probs vn cutoff
    = accept_sampling_core S (on_cpu D) candidates lg draft_probs vn cutoff"
proof -
  have "target_probs S D bs lg vn = target_probs S (on_cpu D) bs lg vn" for bs
    using softmax_device_independent [OF assms(1,2)] softmax_device_independent [OF _ assms(2), of "on_cpu D"] assms(1)
    by (simp add: target_probs_def)
  moreover have "cap_execute D tn vl = cap_execute (on_cpu D) tn vl" if "cap_ok tn vl" for tn vl
    using cap_execute_eq [OF _ that] assms(1) by simp
  ultimately have eq: "target_probs S D bs lg vn = target_probs S (on_cpu D) bs lg vn"
    "cap_ok tn vl \<Longrightarrow> cap_execute D tn vl = cap_execute (on_cpu D) tn vl" for bs tn vl by blast+
  show ?thesis
  proof (cases "target_probs S (on_cpu D) (length candidates) lg vn")
    case (Inr probs)
    obtain p ai tn where ch: "chain S candidates probs draft_probs = (p, ai, tn)" by (rule prod_cases3)
    have "cutoff = Some vl \<Longrightarrow> cap_execute D tn vl = cap_execute (on_cpu D) tn vl" for vl
      using assms(3) [OF ch] eq(2) by blast
    then show ?thesis by (simp add: accept_sampling_core_def eq(1) Inr ch split: option.split)
  qed (simp add: accept_sampling_core_def eq(1))
qed

text \<open>What the verify kernel leaves behind: per request the positions of its accepted tokens and of the
  token after them, all inside of \<open>predicts\<close>.\<close>

definition chain_ok :: "nat \<Rightarrow> matrix \<Rightarrow> tensor \<Rightarrow> tensor \<Rightarrow> bool" where
  "chain_ok bs ai predicts cl \<longleftrightarrow> wf_matrix ai \<and> mrows ai = bs \<and> mcols ai < 2 ^ 31 \<and> wf_tensor predicts
     \<and> in_cols ai (tdata cl)
     \<and> (\<forall>i < bs. 0 \<le> entry ai i (tdata cl ! i) \<and> entry ai i (tdata cl ! i) < int (length (tdata predicts)))"

lemma two_level_equal:
  assumes "wf_device D" "chain_ok (length candidates) ai predicts cl"
  shows "torch_gather ai (length candidates) (to_dtype I64 cl)
      = Inr (tabulate (length candidates) (\<lambda>i. entry ai i (tdata cl ! i)))"
    and "sequence (map (\<lambda>p. map_sum id (\<lambda>j. cast I64 (tdata predicts ! j)) (torch_index (length (tdata predicts)) p))
        (tabulate (length candidates) (\<lambda>i. entry ai i (tdata cl ! i))))
      = Inr (tdata (gather_two_level_bonus_triton D ai predicts cl))"
proof -
  let ?bs = "length candidates"
  have ok: "wf_matrix ai" "mrows ai = ?bs" "in_cols ai (tdata cl)" "mcols ai < 2 ^ 31"
    using assms(2) by (simp_all add: chain_ok_def)
  have l: "length (tdata cl) = ?bs" using ok(2,3) by (simp add: in_cols_def)
  have c: "cast I64 (tdata cl ! i) = tdata cl ! i" if "i < ?bs" for i
    using in_cols_nth [OF ok(3), of i] that ok(2,4) by (intro cast_id) (simp add: fits_I64)
  have "map (cast I64) (tdata cl) = tdata cl" by (rule map_idI) (use c l in \<open>auto simp: in_set_conv_nth\<close>)
  then show "torch_gather ai ?bs (to_dtype I64 cl) = Inr (tabulate ?bs (\<lambda>i. entry ai i (tdata cl ! i)))"
    using torch_gather_eq [OF ok(1), of "\<lparr>tdtype = I64, tdata = tdata cl\<rparr>"] ok(2,3) by (simp add: to_dtype_def)
  have e: "0 \<le> entry ai i (tdata cl ! i)" "entry ai i (tdata cl ! i) < int (length (tdata predicts))"
    "cast I64 (entry ai i (tdata cl ! i)) = entry ai i (tdata cl ! i)" if "i < ?bs" for i
    using assms(2) that entry_fits [OF ok(1), of i "tdata cl ! i"] in_cols_nth [OF ok(3), of i] ok(2)
    by (auto simp: chain_ok_def intro!: cast_id intro: fits_I64_any)
  have "map (\<lambda>p. map_sum id (\<lambda>j. cast I64 (tdata predicts ! j)) (torch_index (length (tdata predicts)) p))
        (tabulate ?bs (\<lambda>i. entry ai i (tdata cl ! i)))
      = tabulate ?bs (\<lambda>i. Inr (cast I64 (tdata predicts ! nat (entry ai i (tdata cl ! i)))))"
    using e by (intro tabulate_eqI) (simp_all add: torch_index_def)
  moreover have "tdata (gather_two_level_bonus_triton D ai predicts cl)
      = tabulate ?bs (\<lambda>i. cast I64 (tdata predicts ! nat (entry ai i (tdata cl ! i))))"
    using assms(1) ok(2) l c e peek_entry [OF ok(1)] in_cols_nth [OF ok(3)]
    by (simp add: gather_two_level_bonus_triton_def Let_def tabulate_eq_iff) (simp add: peek_def)
  ultimately show "sequence (map (\<lambda>p. map_sum id (\<lambda>j. cast I64 (tdata predicts ! j)) (torch_index (length (tdata predicts)) p))
        (tabulate ?bs (\<lambda>i. entry ai i (tdata cl ! i))))
      = Inr (tdata (gather_two_level_bonus_triton D ai predicts cl))"
    by (simp add: sequence_tabulate)
qed

section \<open>Guarantees\<close>

lemma entry_predictions:
  assumes "logits_ok bs vn l" "i < bs" "0 \<le> c" "c < int vn"
  shows "entry (predictions vn l) i c = int (row_argmax (lrows l ! (i * vn + nat c)))"
proof -
  have "i * vn + nat c < length (tdata (mflat (predictions vn l)))"
    using entry_bound [OF predictions_ok(4) [OF assms(1)], of i c] predictions_ok(2,3) [OF assms(1)] assms(2-4) by simp
  then show ?thesis by (simp add: entry_def predictions_def)
qed

text \<open>C39: A capped greedy step gives the same on the device as on the host, whatever fresh buffers and
  the memory around them hold: per request the accepted drafts are cut to one less than its limit, and
  the bonus token is the target model's first best token right after them.\<close>

theorem greedy_step_sound:
  assumes "wf_device D" "logits_ok (length candidates) vn l" "compare candidates (predictions vn l) = (cl, bo)"
    and "compare_ok (length candidates) vn cl" "cap_ok cl vl"
  shows "accept_greedy_execute compare D candidates l vn (Some vl)
      = accept_greedy_execute compare (on_cpu D) candidates l vn (Some vl)
    \<and> (\<exists>r. accept_greedy_execute compare D candidates l vn (Some vl) = Inr r
        \<and> (\<forall>i < length candidates.
             tdata (correct_len r) ! i = min (tdata cl ! i) (tdata vl ! i - 1)
             \<and> tdata (bonus r) ! i
                 = int (row_argmax (lrows l ! (i * vn + nat (tdata (correct_len r) ! i))))))"
proof -
  have len: "length (tdata cl) = length candidates" using assms(4) by (simp add: compare_ok_def)
  have D': "wf_device (on_cpu D)" using assms(1) by simp
  have e: "accept_greedy_execute compare D candidates l vn (Some vl) = Inr (greedy_result vn l cl vl)"
    "accept_greedy_execute compare (on_cpu D) candidates l vn (Some vl) = Inr (greedy_result vn l cl vl)"
    by (rule greedy_capped; fact assms D')+
  have "tdata (bonus (greedy_result vn l cl vl)) ! i = int (row_argmax (lrows l ! (i * vn + nat (capped_data cl vl ! i))))"
    if "i < length candidates" for i
    using that entry_predictions [OF assms(2) that] cap_in_cols(2) [OF assms(5,4) that] len
    by (simp add: greedy_result_def)
  then show ?thesis unfolding e using len by (simp add: greedy_result_def capped_data_def)
qed

definition demo_device :: device where
  "demo_device = \<lparr>on_cuda = True, out_of_bounds = (\<lambda>_. 99), fresh = (\<lambda>n. replicate n 77), fresh_float = (\<lambda>n. replicate n 7)\<rparr>"

lemma demo_device_ok: "wf_device demo_device"
  by (simp add: wf_device_def demo_device_def)

definition demo_logits :: logits where
  "demo_logits = \<lparr>lrows = [[Finite 1, Finite 5], [Finite 3, Finite 2]], lvocab = 2, l_is_2d = True, l_float32 = True, l_unit_stride = True\<rparr>"

definition demo_compare :: "int list list \<Rightarrow> matrix \<Rightarrow> tensor \<times> tensor" where
  "demo_compare cands m = (\<lparr>tdtype = I32, tdata = [1]\<rparr>, \<lparr>tdtype = I64, tdata = [0]\<rparr>)"

lemma demo_step_ok:
  "logits_ok (length [[7, 1 :: int]]) 2 demo_logits"
  "compare_ok (length [[7, 1 :: int]]) 2 \<lparr>tdtype = I32, tdata = [1]\<rparr>"
  "cap_ok \<lparr>tdtype = I32, tdata = [1]\<rparr> \<lparr>tdtype = I32, tdata = [1]\<rparr>"
  by (simp_all add: logits_ok_def demo_logits_def idx_max_def compare_ok_def cap_ok_def wf_tensor_def fits_I32)

theorem greedy_step_sound_witness:
  "\<exists>r. accept_greedy_execute demo_compare demo_device [[7, 1]] demo_logits 2 (Some \<lparr>tdtype = I32, tdata = [1]\<rparr>) = Inr r
    \<and> tdata (correct_len r) ! 0 = 0 \<and> tdata (bonus r) ! 0 = 1"
proof -
  have c: "demo_compare [[7, 1]] (predictions 2 demo_logits) = (\<lparr>tdtype = I32, tdata = [1]\<rparr>, \<lparr>tdtype = I64, tdata = [0]\<rparr>)"
    by (simp add: demo_compare_def)
  have "row_argmax (lrows demo_logits ! 0) = 1" by (simp add: demo_logits_def less_f32_def less_eq_f32_def)
  then show ?thesis using greedy_step_sound [where compare = demo_compare and candidates = "[[7, 1]]", OF demo_device_ok demo_step_ok(1) c demo_step_ok(2,3)] by force
qed

text \<open>Sequence lengths that leave room for a whole step in their type.\<close>

definition room_ok :: "nat \<Rightarrow> nat \<Rightarrow> tensor \<Rightarrow> bool" where
  "room_ok n vn lens \<longleftrightarrow> length (tdata lens) = n
     \<and> list_all (\<lambda>x. 0 \<le> x \<and> fits (tdtype lens) (x + int vn)) (tdata lens)"

text \<open>C40: A step never commits more than was verified: after a capped greedy step each request commits
  at least one and at most its limit of tokens, its length grows by exactly that many, and what was
  committed and what was trimmed add up to the accepted drafts and the bonus token.\<close>

theorem committed_within_verified:
  assumes "wf_device D" "logits_ok (length candidates) vn l" "compare candidates (predictions vn l) = (cl, bo)"
    and "compare_ok (length candidates) vn cl" "cap_ok cl vl" "tdtype cl = I32"
    and "room_ok (length candidates) vn lens"
  shows "\<exists>r f. accept_greedy_execute compare D candidates l vn (Some vl) = Inr r
    \<and> finalize_execute D (correct_len r) (cap_trim_lens r) lens = Inr f
    \<and> (\<forall>i < length candidates.
         1 \<le> tdata (commit_lens f) ! i \<and> tdata (commit_lens f) ! i \<le> tdata vl ! i
         \<and> tdata (new_seq_lens f) ! i = tdata lens ! i + tdata (commit_lens f) ! i
         \<and> tdata (commit_lens f) ! i + tdata (fin_trim_lens f) ! i = tdata cl ! i + 1)"
proof -
  let ?r = "greedy_result vn l cl vl" and ?n = "length candidates"
  have len: "length (tdata cl) = ?n" "vn < 2 ^ 31" using assms(2,4) by (simp_all add: compare_ok_def logits_ok_def)
  have sizes: "length (tdata lens) = length (tdata (correct_len ?r))"
    "length (tdata (cap_trim_lens ?r)) = length (tdata (correct_len ?r))"
    using assms(7) len by (simp_all add: room_ok_def greedy_result_def capped_data_def trim_data_def)
  obtain f where f: "finalize_accept_lens (correct_len ?r) (cap_trim_lens ?r) lens = Inr f"
    "finalize_execute D (correct_len ?r) (cap_trim_lens ?r) lens = Inr f"
    using finalize_triton [OF assms(1) sizes] by (auto simp: finalize_execute_def)
  have "1 \<le> tdata (commit_lens f) ! i \<and> tdata (commit_lens f) ! i \<le> tdata vl ! i
      \<and> tdata (new_seq_lens f) ! i = tdata lens ! i + tdata (commit_lens f) ! i
      \<and> tdata (commit_lens f) ! i + tdata (fin_trim_lens f) ! i = tdata cl ! i + 1" if i: "i < ?n" for i
  proof -
    let ?c = "min (tdata cl ! i) (tdata vl ! i - 1)"
    have c: "0 \<le> ?c" "?c < int vn" "?c \<le> tdata vl ! i - 1"
      using cap_in_cols(2) [OF assms(5,4) i] i len by (simp_all add: capped_data_def)
    have w: "fits I32 ?c" "fits I32 (?c + 1)" using c(1,2) len(2) by (simp_all add: fits_I32)
    have t: "fits I32 (tdata cl ! i - ?c)" using trim_fits [OF assms(5)] assms(6) i len(1) by simp
    have room: "0 \<le> tdata lens ! i" "fits (tdtype lens) (tdata lens ! i + int vn)"
      using assms(7) i by (auto simp: room_ok_def list_all_length)
    have d: "fits (tdtype lens) (?c + 1)" "fits (tdtype lens) (tdata lens ! i + (?c + 1))"
      by (rule fits_mono [OF room(2)]; use room(1) c in linarith)+
    have f': "f = \<lparr>commit_lens = \<lparr>tdtype = I32, tdata = map (\<lambda>c. cast I32 (cast I32 c + 1)) (capped_data cl vl)\<rparr>,
         new_seq_lens = \<lparr>tdtype = tdtype lens, tdata = tabulate (length (capped_data cl vl))
           (\<lambda>i. cast (tdtype lens) (tdata lens ! i
                + cast (tdtype lens) (cast I32 (cast I32 (capped_data cl vl ! i) + 1))))\<rparr>,
         fin_trim_lens = to_dtype I32 (cap_trim_lens ?r)\<rparr>"
      using f(1) unfolding finalize_torch [OF sizes] by (simp add: greedy_result_def)
    have cd: "capped_data cl vl ! i = ?c" "length (capped_data cl vl) = ?n"
      "tdata (fin_trim_lens f) ! i = tdata cl ! i - ?c"
      using i len t by (simp_all add: capped_data_def f' to_dtype_def greedy_result_def trim_data_def)
    then show ?thesis using i w d c by (simp add: f')
  qed
  then show ?thesis using greedy_capped [where compare = compare, OF assms(1-5)] f(2) by blast
qed

theorem committed_within_verified_witness:
  "\<exists>r f. accept_greedy_execute demo_compare demo_device [[7, 1]] demo_logits 2 (Some \<lparr>tdtype = I32, tdata = [1]\<rparr>) = Inr r
    \<and> finalize_execute demo_device (correct_len r) (cap_trim_lens r) \<lparr>tdtype = I64, tdata = [10]\<rparr> = Inr f
    \<and> tdata (new_seq_lens f) ! 0 = 11"
proof -
  have c: "demo_compare [[7, 1]] (predictions 2 demo_logits) = (\<lparr>tdtype = I32, tdata = [1]\<rparr>, \<lparr>tdtype = I64, tdata = [0]\<rparr>)"
    by (simp add: demo_compare_def)
  let ?lens = "\<lparr>tdtype = I64, tdata = [10]\<rparr>"
  have "tdtype \<lparr>tdtype = I32, tdata = [1]\<rparr> = I32" "room_ok (length [[7, 1 :: int]]) 2 ?lens"
    by (simp_all add: fits_I64 room_ok_def)
  from committed_within_verified [where compare = demo_compare and candidates = "[[7, 1]]", OF demo_device_ok demo_step_ok(1) c demo_step_ok(2,3) this]
  obtain r f where r: "accept_greedy_execute demo_compare demo_device [[7, 1]] demo_logits 2 (Some \<lparr>tdtype = I32, tdata = [1]\<rparr>) = Inr r"
      "finalize_execute demo_device (correct_len r) (cap_trim_lens r) ?lens = Inr f"
    and all: "\<forall>i < length [[7, 1 :: int]]. 1 \<le> tdata (commit_lens f) ! i \<and> tdata (commit_lens f) ! i \<le> tdata \<lparr>tdtype = I32, tdata = [1]\<rparr> ! i
       \<and> tdata (new_seq_lens f) ! i = tdata ?lens ! i + tdata (commit_lens f) ! i"
    by blast
  have "tdata (new_seq_lens f) ! 0 = 11" using all by simp
  then show ?thesis using r by blast
qed

text \<open>The temperature softmax is the same function on the host, in the Triton kernel and in the
  library, for every vocabulary size and tiling, and every row it returns is a probability distribution
  (over the reals).\<close>

theorem softmax_step_equal:
  assumes "wf_device D" "softmax_lib_ok lib" "0 < rpr" "length rows = length temps * rpr"
    and "list_all (\<lambda>row. row \<noteq> []) rows" "list_all (\<lambda>t. 0 < t) temps"
  shows "\<exists>ps. softmax_execute lib D rows temps rpr = Inr ps \<and> softmax_execute lib (on_cpu D) rows temps rpr = Inr ps
    \<and> map length ps = map length rows \<and> list_all (\<lambda>p. list_all (\<lambda>x. 0 < x) p \<and> sum_list p = 1) ps"
proof -
  let ?ps = "map (\<lambda>(row, t). softmax_row (map (\<lambda>x. x / t) row)) (zip rows (repeat_interleave rpr temps))"
  have g: "softmax_guard (length rows) (length temps) rpr = None" using assms(3,4) by (simp add: softmax_guard_def)
  have ps: "softmax_temp rows temps rpr = Inr ?ps" by (simp add: softmax_temp_def g)
  have rows: "row \<noteq> []" if "row \<in> set rows" for row using assms(5) that by (auto simp: list_all_iff)
  have "map length ?ps = map length rows"
    using assms(4) by (intro nth_equalityI) (simp_all add: softmax_row_def split_def)
  moreover have "list_all (\<lambda>p. list_all (\<lambda>x. 0 < x) p \<and> sum_list p = 1) ?ps"
    using softmax_row_distribution rows by (auto simp: list_all_iff dest!: set_zip_leftD)
  ultimately show ?thesis
    using softmax_device_independent [OF assms(1,2)] softmax_device_independent [OF _ assms(2), of "on_cpu D"] assms(1) ps
    by simp
qed

theorem softmax_step_equal_witness:
  "\<exists>ps. softmax_execute None demo_device [[0, 1], [2, 0]] [1] 2 = Inr ps \<and> map length ps = [2, 2]"
proof -
  have "softmax_lib_ok None" by (simp add: softmax_lib_ok_def)
  then show ?thesis using softmax_step_equal [OF demo_device_ok, of None 2 "[[0, 1], [2, 0]]" "[1]"] by force
qed

text \<open>A sampled step returns the same accepted lengths, bonus tokens and trims on the device as on
  the host for the same verify kernel and random numbers, provided the kernel leaves every request a
  position inside of its buffers.\<close>

theorem sampling_step_equal:
  assumes "wf_device D" "softmax_lib_ok (library_softmax S)"
    and "\<And>probs p ai tn vl. chain S candidates probs draft_probs = (p, ai, tn) \<Longrightarrow> cutoff = Some vl \<Longrightarrow> cap_ok tn vl"
    and "\<And>cl trim ai p. accept_sampling_core S D candidates lg draft_probs vn cutoff = Inr (cl, trim, ai, p)
      \<Longrightarrow> chain_ok (length candidates) ai p cl"
  shows "accept_sampling_execute S D candidates lg draft_probs vn cutoff
    = accept_sampling_execute S (on_cpu D) candidates lg draft_probs vn cutoff"
proof -
  note core = core_device_independent [OF assms(1-3)]
  have torch: "accept_sampling S D candidates lg draft_probs vn cutoff = accept_sampling_triton S D candidates lg draft_probs vn cutoff"
  proof (cases "accept_sampling_core S D candidates lg draft_probs vn cutoff")
    case (Inr r)
    obtain cl trim ai p where r: "r = (cl, trim, ai, p)" by (rule prod_cases4)
    note two = two_level_equal [OF assms(1) assms(4) [OF Inr [unfolded r]]]
    have "gather_two_level_bonus_triton D ai p cl = \<lparr>tdtype = I64, tdata = tdata (gather_two_level_bonus_triton D ai p cl)\<rparr>"
      by (simp add: gather_two_level_bonus_triton_def Let_def)
    then show ?thesis using two by (simp add: accept_sampling_def accept_sampling_triton_def Inr r)
  qed (simp add: accept_sampling_def accept_sampling_triton_def)
  have "accept_sampling S (on_cpu D) candidates lg draft_probs vn cutoff = accept_sampling S D candidates lg draft_probs vn cutoff"
    using core by (simp add: accept_sampling_def)
  then show ?thesis using torch by (simp add: accept_sampling_execute_def)
qed

definition demo_sampling :: sampling where
  "demo_sampling = \<lparr>need_top_k = False, need_top_p = False, temperatures = [1], library_softmax = None,
     truncated_probs = (\<lambda>rows. Inr rows),
     chain = (\<lambda>cands probs drafts. (\<lparr>tdtype = I32, tdata = [5, 6]\<rparr>,
       \<lparr>mcols = 2, mflat = \<lparr>tdtype = I32, tdata = [0, 1]\<rparr>\<rparr>, \<lparr>tdtype = I32, tdata = [1]\<rparr>))\<rparr>"

theorem sampling_step_equal_witness:
  "accept_sampling_execute demo_sampling demo_device [[7, 1]] [[0, 1], [2, 0]] [] 2 (Some \<lparr>tdtype = I32, tdata = [2]\<rparr>)
    = accept_sampling_execute demo_sampling (on_cpu demo_device) [[7, 1]] [[0, 1], [2, 0]] [] 2 (Some \<lparr>tdtype = I32, tdata = [2]\<rparr>)"
proof (rule sampling_step_equal)
  show "wf_device demo_device" by (rule demo_device_ok)
  show "softmax_lib_ok (library_softmax demo_sampling)" by (simp add: softmax_lib_ok_def demo_sampling_def)
  have ok: "cap_ok \<lparr>tdtype = I32, tdata = [1]\<rparr> \<lparr>tdtype = I32, tdata = [2]\<rparr>"
    by (simp add: cap_ok_def wf_tensor_def fits_I32)
  show "chain demo_sampling [[7, 1]] probs [] = (p, ai, tn) \<Longrightarrow> Some \<lparr>tdtype = I32, tdata = [2]\<rparr> = Some vl \<Longrightarrow> cap_ok tn vl"
    for probs p ai tn vl using ok by (auto simp: demo_sampling_def)
  have "cap_execute demo_device \<lparr>tdtype = I32, tdata = [1]\<rparr> \<lparr>tdtype = I32, tdata = [2]\<rparr>
      = Inr (\<lparr>tdtype = I32, tdata = [1]\<rparr>, \<lparr>tdtype = I32, tdata = [0]\<rparr>)"
    using cap_execute_eq [OF demo_device_ok ok] by (simp add: capped_data_def trim_data_def tabulate_def)
  then show "chain_ok (length [[7, 1 :: int]]) ai p cl"
    if "accept_sampling_core demo_sampling demo_device [[7, 1]] [[0, 1], [2, 0]] [] 2 (Some \<lparr>tdtype = I32, tdata = [2]\<rparr>)
      = Inr (cl, trim, ai, p)" for cl trim ai p
    using that by (auto simp: accept_sampling_core_def demo_sampling_def chain_ok_def wf_matrix_def mrows_def
        wf_tensor_def fits_I32 in_cols_def entry_def split: sum.splits)
qed

text \<open>In a mixed batch every request gets the length, bonus and trim of its own path, greedy or
  sampled, and nothing of the other, on the device as on the host.\<close>

theorem mixed_batch_sound:
  assumes "wf_device D" "same_shape_accept (length gm) g" "same_shape_accept (length gm) s"
    and "promote (tdtype (bonus g)) (tdtype (bonus s)) = tdtype (bonus s)"
  shows "\<exists>r. select_execute D gm g s = Inr r \<and> select_execute (on_cpu D) gm g s = Inr r
    \<and> (\<forall>i < length gm.
         tdata (bonus r) ! i = (if gm ! i then tdata (bonus g) ! i else tdata (bonus s) ! i)
         \<and> tdata (correct_len r) ! i = (if gm ! i then cast (tdtype (correct_len s)) (tdata (correct_len g) ! i)
                                        else tdata (correct_len s) ! i)
         \<and> tdata (cap_trim_lens r) ! i = (if gm ! i then cast (tdtype (cap_trim_lens s)) (tdata (cap_trim_lens g) ! i)
                                          else tdata (cap_trim_lens s) ! i))"
proof -
  let ?r = "select_mixed_accept_triton D gm g s"
  have e: "select_execute D gm g s = Inr ?r" "select_execute (on_cpu D) gm g s = Inr ?r"
    using select_equal [OF assms] by (simp_all add: select_execute_def)
  have lane: "tdata (select_lane D gm a b) ! i
      = (if gm ! i then cast (tdtype b) (tdata a ! i) else cast (tdtype b) (tdata b ! i))"
    if "i < length gm" "length (tdata a) = length gm" "length (tdata b) = length gm" for a b i
    using that assms(1) by (simp add: select_lane_def Let_def)
  have own: "cast (tdtype b) (tdata b ! i) = tdata b ! i" if "wf_tensor b" "i < length (tdata b)" for b i
    using fits_nth [OF that] by simp
  have bg: "cast (tdtype (bonus s)) (tdata (bonus g) ! i) = tdata (bonus g) ! i" if "i < length gm" for i
    using promote_fits [OF assms(4)] fits_nth [of "bonus g" i] assms(2) that by (simp add: same_shape_accept_def)
  show ?thesis unfolding e using assms(2,3) own bg
    by (simp add: select_mixed_accept_triton_def lane same_shape_accept_def)
qed

theorem mixed_batch_sound_witness:
  "\<exists>r. select_execute demo_device [True, False]
       \<lparr>correct_len = \<lparr>tdtype = I64, tdata = [1, 2]\<rparr>, bonus = \<lparr>tdtype = I64, tdata = [3, 4]\<rparr>, cap_trim_lens = \<lparr>tdtype = I64, tdata = [0, 0]\<rparr>\<rparr>
       \<lparr>correct_len = \<lparr>tdtype = I32, tdata = [5, 6]\<rparr>, bonus = \<lparr>tdtype = I64, tdata = [7, 8]\<rparr>, cap_trim_lens = \<lparr>tdtype = I32, tdata = [1, 1]\<rparr>\<rparr>
     = Inr r \<and> tdata (bonus r) ! 0 = 3 \<and> tdata (bonus r) ! 1 = 8"
proof -
  let ?g = "\<lparr>correct_len = \<lparr>tdtype = I64, tdata = [1, 2]\<rparr>, bonus = \<lparr>tdtype = I64, tdata = [3, 4]\<rparr>, cap_trim_lens = \<lparr>tdtype = I64, tdata = [0, 0]\<rparr>\<rparr>"
  let ?s = "\<lparr>correct_len = \<lparr>tdtype = I32, tdata = [5, 6]\<rparr>, bonus = \<lparr>tdtype = I64, tdata = [7, 8]\<rparr>, cap_trim_lens = \<lparr>tdtype = I32, tdata = [1, 1]\<rparr>\<rparr>"
  have "same_shape_accept (length [True, False]) ?g" "same_shape_accept (length [True, False]) ?s"
    "promote (tdtype (bonus ?g)) (tdtype (bonus ?s)) = tdtype (bonus ?s)"
    by (simp_all add: same_shape_accept_def wf_tensor_def fits_I64 fits_I32)
  from mixed_batch_sound [OF demo_device_ok this] show ?thesis by force
qed

end
