(* ===== verification/PoolConfig.thy ===== *)
theory PoolConfig
  imports Prelude
begin

text \<open>
  \<open>sglang-overlay/pool_configurator.py\<close>: how many tokens the key/value pools hold, from the bytes a
  device has left (the profiling path) or from a token count that another rank has fixed (the
  constraint path). Configurations, the standard configurator, the hybrid ones with a sliding-window
  pool and the binary search of the unified pool. Pages are rounded by the library's \<open>ceil_align\<close>, an
  argument; Python floats are reals.
\<close>

section \<open>Configurations\<close>

record pool_config =
  max_total_num_tokens :: int
  pc_max_running :: "int option"
  full_max_total :: "int option"
  swa_max_total :: "int option"
  c4_max_total :: int
  c128_max_total :: int
  c4_state_pool :: int
  c128_state_pool :: int

text \<open>\<open>__post_init__\<close> refuses a configuration without tokens.\<close>

definition make_config :: "pool_config \<Rightarrow> py_error + pool_config" where
  "make_config c =
     (if max_total_num_tokens c \<le> 0 then Inl (RuntimeError ''Not enough memory'') else Inr c)"

definition plain_config :: "int \<Rightarrow> pool_config" where
  "plain_config n = \<lparr>max_total_num_tokens = n, pc_max_running = None, full_max_total = None, swa_max_total = None,
     c4_max_total = 0, c128_max_total = 0, c4_state_pool = 0, c128_state_pool = 0\<rparr>"

definition split_config :: "int \<Rightarrow> int \<Rightarrow> int \<Rightarrow> pool_config" where
  "split_config n full swa = (plain_config n)\<lparr>full_max_total := Some full, swa_max_total := Some swa\<rparr>"

section \<open>Standard models\<close>

record default_pool =
  dp_cell_size :: int
  zero_kv_max_tokens :: int

text \<open>A draft model of the EAGLE family is priced by its share of layers.\<close>

definition eagle_cell_size :: "int \<Rightarrow> int \<Rightarrow> int \<Rightarrow> int" where
  "eagle_cell_size cell num_layers draft_layers =
     (if 0 < draft_layers \<and> 0 < num_layers
      then py_int (real_of_int cell * (1 + real_of_int draft_layers / real_of_int num_layers)) else cell)"

definition default_sizes :: "default_pool \<Rightarrow> int \<Rightarrow> int \<Rightarrow> py_error + pool_config" where
  "default_sizes p avail page =
     (let n = (if dp_cell_size p \<noteq> 0 then avail div dp_cell_size p else zero_kv_max_tokens p)
      in make_config (plain_config (floor_align n page)))"

definition default_from_tokens :: "int \<Rightarrow> int \<Rightarrow> py_error + pool_config" where
  "default_from_tokens n page = make_config (plain_config (floor_align n page))"

section \<open>Sliding-window models\<close>

record hybrid_pool =
  full_layers :: int
  swa_layers :: int
  full_per_token :: int
  swa_per_token :: int
  swa_ratio :: real
  sliding_window :: "int option"
  hp_page_size :: int
  unified_memory :: bool
  draft_full_layers :: int
  draft_swa_layers :: int
  draft_swa_full_layers :: int
  draft_cell_size :: int

text \<open>The draft's layers by the pool they live in: full, sliding-window, or sliding-window geometry at
  full capacity.\<close>

definition draft_layer_split :: "int option \<Rightarrow> int list option \<Rightarrow> int option \<Rightarrow> int \<times> int \<times> int" where
  "draft_layer_split draft mtp_local draft_swa =
     (case draft of
        None \<Rightarrow> (0, 0, 0)
      | Some d \<Rightarrow>
          if d \<le> 0 then (0, 0, 0)
          else
            (let swa_full = (case mtp_local of None \<Rightarrow> 0 | Some ids \<Rightarrow> int (card {l \<in> {0..<d}. l \<in> set ids}));
                 swa = (case (mtp_local, draft_swa) of (None, Some k) \<Rightarrow> min (max k 0) d | _ \<Rightarrow> 0)
             in (d - swa - swa_full, swa, swa_full)))"

definition hybrid_cell_size :: "hybrid_pool \<Rightarrow> real" where
  "hybrid_cell_size p =
     (if full_layers p = 0 then
        real_of_int (swa_per_token p * swa_layers p + full_per_token p * draft_full_layers p
          + swa_per_token p * draft_swa_layers p + swa_per_token p * draft_swa_full_layers p + draft_cell_size p)
      else
        real_of_int (full_per_token p * (full_layers p + draft_full_layers p)
          + swa_per_token p * draft_swa_full_layers p)
        + swa_ratio p * real_of_int (swa_per_token p) * real_of_int (swa_layers p + draft_swa_layers p)
        + real_of_int (draft_cell_size p))"

definition draft_pool_bytes :: "hybrid_pool \<Rightarrow> int" where
  "draft_pool_bytes p =
     full_per_token p * draft_full_layers p
     + swa_per_token p * (draft_swa_layers p + draft_swa_full_layers p) + draft_cell_size p"

text \<open>The bytes a unified pool of \<open>full_pages\<close> pages allocates, draft span included.\<close>

definition swa_tokens_of :: "hybrid_pool \<Rightarrow> int \<Rightarrow> int \<Rightarrow> int" where
  "swa_tokens_of p full page = floor_align (py_int (real_of_int full * swa_ratio p)) page"

definition allocation_bytes ::
    "(int \<Rightarrow> int \<Rightarrow> int) \<Rightarrow> hybrid_pool \<Rightarrow> int \<Rightarrow> int option \<Rightarrow> int \<Rightarrow> int" where
  "allocation_bytes align p page fixed_swa full_pages =
     (let full = full_pages * page;
          swa = (case fixed_swa of Some s \<Rightarrow> s | None \<Rightarrow> swa_tokens_of p full page);
          tf = full_per_token p * full_layers p;
          target = full * tf + swa * (swa_per_token p * swa_layers p);
          span = max (target div tf - 1) 0
      in target + (align span page + page) * draft_pool_bytes p)"

text \<open>\<open>bisect_right(range(n), x, key=f)\<close> as the library runs it.\<close>

function bisect_loop :: "(int \<Rightarrow> int) \<Rightarrow> int \<Rightarrow> int \<Rightarrow> int \<Rightarrow> int" where
  "bisect_loop f x lo hi =
     (if lo < hi then
        (let mid = (lo + hi) div 2
         in if x < f mid then bisect_loop f x lo mid else bisect_loop f x (mid + 1) hi)
      else lo)"
  by pat_completeness auto
termination
  by (relation "measure (\<lambda>(f, x, lo, hi). nat (hi - lo))") auto

declare bisect_loop.simps [simp del]

definition bisect_right :: "(int \<Rightarrow> int) \<Rightarrow> int \<Rightarrow> int \<Rightarrow> int" where
  "bisect_right f n x = bisect_loop f x 0 (max n 0)"

definition max_unified_full_tokens ::
    "(int \<Rightarrow> int \<Rightarrow> int) \<Rightarrow> hybrid_pool \<Rightarrow> int \<Rightarrow> int \<Rightarrow> int option \<Rightarrow> py_error + int" where
  "max_unified_full_tokens align p avail page fixed_swa =
     (let tf = full_per_token p * full_layers p in
      if tf \<le> 0 then Inl AssertionError
      else (let max_pages = avail div tf div page;
                pages = bisect_right (allocation_bytes align p page fixed_swa) (max_pages + 1) avail - 1
            in Inr (max pages 0 * page)))"

definition solve_pool_sizes :: "hybrid_pool \<Rightarrow> int \<Rightarrow> int \<Rightarrow> py_error + pool_config" where
  "solve_pool_sizes p n page =
     (if full_layers p = 0 then
        (let swa = floor_align n page in make_config (split_config swa 0 swa))
      else
        (let full = floor_align n page; swa = swa_tokens_of p full page in
         case sliding_window p of
           Some w \<Rightarrow> if swa \<le> w + hp_page_size p then Inl (ValueError ''SWA pool'') else make_config (split_config full full swa)
         | None \<Rightarrow> make_config (split_config full full swa)))"

definition hybrid_sizes :: "(int \<Rightarrow> int \<Rightarrow> int) \<Rightarrow> hybrid_pool \<Rightarrow> int \<Rightarrow> int \<Rightarrow> py_error + pool_config" where
  "hybrid_sizes align p avail page =
     (if unified_memory p \<and> 0 < full_layers p \<and> 0 < draft_pool_bytes p then
        (case max_unified_full_tokens align p avail page None of
           Inl e \<Rightarrow> Inl e
         | Inr n \<Rightarrow> solve_pool_sizes p n page)
      else if hybrid_cell_size p = 0 then Inl ZeroDivisionError
      else solve_pool_sizes p \<lfloor>real_of_int avail / hybrid_cell_size p\<rfloor> page)"

definition hybrid_from_tokens :: "hybrid_pool \<Rightarrow> int \<Rightarrow> int \<Rightarrow> py_error + pool_config" where
  "hybrid_from_tokens p n page = solve_pool_sizes p n page"

section \<open>The request cap of the sliding-window pool\<close>

record request_load =
  rl_draft_tokens :: "int option"
  rl_eviction_interval :: int
  rl_speculative :: bool
  rl_overlap_disabled :: bool
  rl_spec_v1_alloc :: int
  rl_alloc_len :: int
  rl_max_running :: int
  rl_decode_node :: bool
  rl_extra_slots :: int
  rl_chunked_prefill :: int

definition swa_request_cap :: "request_load \<Rightarrow> int \<Rightarrow> int \<Rightarrow> int \<Rightarrow> int" where
  "swa_request_cap L page window dp =
     (let draft = (case rl_draft_tokens L of None \<Rightarrow> 1 | Some d \<Rightarrow> if d = 0 then 1 else d);
          interval = max 1 (rl_eviction_interval L);
          trailing = window + interval * draft + page;
          decode_alloc = (if \<not> rl_speculative L then page
                          else if rl_overlap_disabled L then rl_spec_v1_alloc L
                          else 2 * rl_alloc_len L);
          per_request = trailing + decode_alloc;
          num_reqs = rl_max_running L div dp
      in if rl_decode_node L then per_request * num_reqs + (window + page) * rl_extra_slots L
         else per_request * num_reqs + (if rl_overlap_disabled L then 1 else 2) * rl_chunked_prefill L + page)"

text \<open>\<open>SWAChunkCapPoolConfigurator\<close>: the sliding-window pool has a fixed size, the rest is for full
  attention. \<open>cap\<close> is \<open>_swa_cap\<close>.\<close>

definition cap_fixed_swa_bytes :: "hybrid_pool \<Rightarrow> int \<Rightarrow> int" where
  "cap_fixed_swa_bytes p swa = swa * swa_per_token p * (swa_layers p + draft_swa_layers p)"

definition cap_full_cell_size :: "hybrid_pool \<Rightarrow> int" where
  "cap_full_cell_size p =
     full_per_token p * (full_layers p + draft_full_layers p) + swa_per_token p * draft_swa_full_layers p"

definition chunk_cap_sizes ::
    "(int \<Rightarrow> int \<Rightarrow> int) \<Rightarrow> hybrid_pool \<Rightarrow> int \<Rightarrow> int \<Rightarrow> int \<Rightarrow> py_error + pool_config" where
  "chunk_cap_sizes align p cap avail page =
     (let swa = align cap page in
      case (if unified_memory p \<and> 0 < draft_pool_bytes p
            then max_unified_full_tokens align p avail page (Some swa)
            else if cap_full_cell_size p = 0 then Inl ZeroDivisionError
            else Inr (floor_align ((avail - cap_fixed_swa_bytes p swa) div cap_full_cell_size p) page)) of
        Inl e \<Rightarrow> Inl e
      | Inr full \<Rightarrow>
          if full \<le> 0 then Inl (RuntimeError ''SWA pool cap leaves no room'')
          else make_config (split_config full full swa))"

definition chunk_cap_from_tokens ::
    "(int \<Rightarrow> int \<Rightarrow> int) \<Rightarrow> int \<Rightarrow> int \<Rightarrow> int \<Rightarrow> py_error + pool_config" where
  "chunk_cap_from_tokens align cap n page =
     (let full = floor_align n page
      in make_config (split_config full full (min (align cap page) n)))"

definition chunk_cap_applicable :: "int option \<Rightarrow> bool \<Rightarrow> int option \<Rightarrow> int option \<Rightarrow> nat \<Rightarrow> bool" where
  "chunk_cap_applicable max_running radix_disabled chunked window full_ids =
     (if max_running = None then False
      else if \<not> radix_disabled then False
      else if chunked = None then False
      else if window = None then False
      else 0 < full_ids)"

end
