(* ===== verification/PoolConfigFacts.thy ===== *)
theory PoolConfigFacts
  imports PoolConfig
begin

text \<open>
  What the configurators promise: the pools a configuration describes fit into the bytes it was made
  from, capacities are whole pages, and a configuration cut down to a smaller token count stays within
  the same bytes. The contract is a locale; every configurator is an interpretation of it.
\<close>

section \<open>Binary search\<close>

lemma bisect_loop_bounds: "lo \<le> hi \<Longrightarrow> lo \<le> bisect_loop f x lo hi \<and> bisect_loop f x lo hi \<le> hi"
proof (induction f x lo hi rule: bisect_loop.induct)
  case (1 f x lo hi)
  show ?case
  proof (cases "lo < hi")
    case True
    let ?mid = "(lo + hi) div 2"
    have m: "lo \<le> ?mid" "?mid < hi" using True by auto
    show ?thesis
    proof (cases "x < f ?mid")
      case lt: True
      have "lo \<le> bisect_loop f x lo ?mid \<and> bisect_loop f x lo ?mid \<le> ?mid"
        using 1(1) [OF True refl lt] m by simp
      then show ?thesis using True lt m by (subst (1 2) bisect_loop.simps) (simp add: Let_def)
    next
      case ge: False
      have "?mid + 1 \<le> bisect_loop f x (?mid + 1) hi \<and> bisect_loop f x (?mid + 1) hi \<le> hi"
        using 1(2) [OF True refl ge] m by simp
      then show ?thesis using True ge m by (subst (1 2) bisect_loop.simps) (simp add: Let_def)
    qed
  qed (use 1(3) in \<open>simp add: bisect_loop.simps\<close>)
qed

text \<open>Whatever lies left of the result was seen, or is known, not to exceed \<open>x\<close>; on the right it does.\<close>

lemma bisect_loop_split:
  assumes "mono_on {lo0..<hi0} f"
  shows "lo0 \<le> lo \<Longrightarrow> lo \<le> hi \<Longrightarrow> hi \<le> hi0 \<Longrightarrow> (\<forall>i. lo0 \<le> i \<and> i < lo \<longrightarrow> f i \<le> x) \<Longrightarrow>
    (\<forall>i. hi \<le> i \<and> i < hi0 \<longrightarrow> x < f i) \<Longrightarrow>
    (\<forall>i. lo0 \<le> i \<and> i < bisect_loop f x lo hi \<longrightarrow> f i \<le> x) \<and>
    (\<forall>i. bisect_loop f x lo hi \<le> i \<and> i < hi0 \<longrightarrow> x < f i)"
  using assms
proof (induction f x lo hi rule: bisect_loop.induct)
  case (1 f x lo hi)
  note mono = 1(8)
  show ?case
  proof (cases "lo < hi")
    case False
    then show ?thesis using 1(4,6,7) by (simp add: bisect_loop.simps)
  next
    case True
    let ?mid = "(lo + hi) div 2"
    have m: "lo \<le> ?mid" "?mid < hi" using True by auto
    show ?thesis
    proof (cases "x < f ?mid")
      case lt: True
      have "x < f i" if "?mid \<le> i" "i < hi0" for i
      proof -
        have "f ?mid \<le> f i" using that m 1(3,5) by (intro mono_onD [OF mono]) auto
        then show ?thesis using lt by simp
      qed
      then have right: "\<forall>i. ?mid \<le> i \<and> i < hi0 \<longrightarrow> x < f i" by blast
      have "?mid \<le> hi0" using m(2) 1(5) by linarith
      from 1(1) [OF True refl lt 1(3) m(1) this 1(6) right mono]
      have "(\<forall>i. lo0 \<le> i \<and> i < bisect_loop f x lo ?mid \<longrightarrow> f i \<le> x) \<and> (\<forall>i. bisect_loop f x lo ?mid \<le> i \<and> i < hi0 \<longrightarrow> x < f i)" .
      then show ?thesis using True lt by (subst (1 2) bisect_loop.simps) (simp add: Let_def)
    next
      case ge: False
      have "f i \<le> x" if "lo0 \<le> i" "i < ?mid + 1" for i
      proof -
        have "f i \<le> f ?mid" using that m 1(3,5) by (intro mono_onD [OF mono]) auto
        then show ?thesis using ge by simp
      qed
      then have left: "\<forall>i. lo0 \<le> i \<and> i < ?mid + 1 \<longrightarrow> f i \<le> x" by blast
      have b: "lo0 \<le> ?mid + 1" "?mid + 1 \<le> hi" using m 1(3) by linarith+
      from 1(2) [OF True refl ge b 1(5) left 1(7) mono]
      have "(\<forall>i. lo0 \<le> i \<and> i < bisect_loop f x (?mid + 1) hi \<longrightarrow> f i \<le> x) \<and> (\<forall>i. bisect_loop f x (?mid + 1) hi \<le> i \<and> i < hi0 \<longrightarrow> x < f i)" .
      then show ?thesis using True ge by (subst (1 2) bisect_loop.simps) (simp add: Let_def)
    qed
  qed
qed

lemma bisect_right_bounds: "0 \<le> bisect_right f n x \<and> bisect_right f n x \<le> max n 0"
  unfolding bisect_right_def by (rule bisect_loop_bounds) simp

lemma bisect_right_split:
  assumes "mono_on {0..<max n 0} f"
  shows "0 \<le> i \<Longrightarrow> i < bisect_right f n x \<Longrightarrow> f i \<le> x" "bisect_right f n x \<le> i \<Longrightarrow> i < n \<Longrightarrow> x < f i"
proof -
  have "(\<forall>i. 0 \<le> i \<and> i < bisect_right f n x \<longrightarrow> f i \<le> x) \<and> (\<forall>i. bisect_right f n x \<le> i \<and> i < max n 0 \<longrightarrow> x < f i)"
    unfolding bisect_right_def by (rule bisect_loop_split [OF assms]) (auto simp: max_def split: if_splits)
  then show "0 \<le> i \<Longrightarrow> i < bisect_right f n x \<Longrightarrow> f i \<le> x" "bisect_right f n x \<le> i \<Longrightarrow> i < n \<Longrightarrow> x < f i"
    by auto
qed

section \<open>Rounding\<close>

text \<open>The documented behaviour of the library's \<open>ceil_align\<close>.\<close>

definition align_ok :: "(int \<Rightarrow> int \<Rightarrow> int) \<Rightarrow> bool" where
  "align_ok align \<longleftrightarrow> (\<forall>x d. 0 < d \<longrightarrow> d dvd align x d \<and> x \<le> align x d \<and> align x d < x + d)"

lemma align_ok_ceil: "align_ok ceil_align"
  by (simp add: align_ok_def ceil_align_ge ceil_align_less)

lemma align_eq:
  assumes "align_ok align" "0 < d"
  shows "align x d = ceil_align x d"
proof -
  have a: "d dvd align x d" "x \<le> align x d" "align x d < x + d" using assms by (simp_all add: align_ok_def)
  have c: "d dvd ceil_align x d" "x \<le> ceil_align x d" "ceil_align x d < x + d"
    using assms(2) by (simp_all add: ceil_align_ge ceil_align_less)
  have "d dvd align x d - ceil_align x d" using a(1) c(1) by simp
  moreover have "\<bar>align x d - ceil_align x d\<bar> < d" using a c by linarith
  ultimately have "align x d - ceil_align x d = 0" using dvd_imp_le_int [of "align x d - ceil_align x d" d] assms(2) by auto
  then show ?thesis by simp
qed

section \<open>The contract\<close>

text \<open>\<open>cost\<close> is the bytes of the pools a configuration describes.\<close>

locale pool_sizer =
  fixes valid :: "int \<Rightarrow> bool"
    and sizes :: "int \<Rightarrow> int \<Rightarrow> py_error + pool_config"
    and from_tokens :: "int \<Rightarrow> int \<Rightarrow> py_error + pool_config"
    and cost :: "int \<Rightarrow> pool_config \<Rightarrow> real"
  assumes sizes_fit: "valid page \<Longrightarrow> sizes avail page = Inr c \<Longrightarrow>
      0 < max_total_num_tokens c \<and> page dvd max_total_num_tokens c \<and> cost page c \<le> real_of_int avail"
    and from_tokens_fit: "valid page \<Longrightarrow> from_tokens n page = Inr c \<Longrightarrow>
      0 < max_total_num_tokens c \<and> page dvd max_total_num_tokens c \<and> max_total_num_tokens c \<le> n"
    and from_tokens_cheaper: "valid page \<Longrightarrow> sizes avail page = Inr c \<Longrightarrow> n \<le> max_total_num_tokens c \<Longrightarrow>
      from_tokens n page = Inr c' \<Longrightarrow> cost page c' \<le> cost page c"
begin

lemma constrained_fits:
  assumes "valid page" "sizes avail page = Inr c" "n \<le> max_total_num_tokens c" "from_tokens n page = Inr c'"
  shows "cost page c' \<le> real_of_int avail \<and> max_total_num_tokens c' \<le> max_total_num_tokens c"
  using sizes_fit [OF assms(1,2)] from_tokens_fit [OF assms(1,4)] from_tokens_cheaper [OF assms] assms(3) by linarith

text \<open>Every rank profiles its own bytes; the smallest count is handed to all of them.\<close>

lemma ranks_fit:
  assumes "valid page" "list_all2 (\<lambda>avail c. sizes avail page = Inr c) avails cs"
    and "list_all (\<lambda>c. n \<le> max_total_num_tokens c) cs" "from_tokens n page = Inr c'"
  shows "list_all (\<lambda>avail. cost page c' \<le> real_of_int avail) avails"
  using assms(2,3)
proof (induction avails cs rule: list_all2_induct)
  case (Cons a as c cs)
  then show ?case using constrained_fits [OF assms(1) _ _ assms(4), of a c] by simp
qed simp

end

lemma make_config_Inr: "make_config c = Inr c' \<longleftrightarrow> c' = c \<and> 0 < max_total_num_tokens c"
  by (auto simp: make_config_def)

lemma config_fields [simp]:
  "max_total_num_tokens (plain_config n) = n" "max_total_num_tokens (split_config n f s) = n"
  "full_max_total (split_config n f s) = Some f" "swa_max_total (split_config n f s) = Some s"
  by (simp_all add: plain_config_def split_config_def)

section \<open>Standard models\<close>

definition default_cost :: "default_pool \<Rightarrow> int \<Rightarrow> pool_config \<Rightarrow> real" where
  "default_cost p page c = real_of_int (max_total_num_tokens c * dp_cell_size p)"

definition default_valid :: "default_pool \<Rightarrow> int \<Rightarrow> bool" where
  "default_valid p page \<longleftrightarrow> 0 < page \<and> 0 < dp_cell_size p"

lemma floor_div_mult: "0 < d \<Longrightarrow> floor_align (a div d) page * d \<le> a" if "0 < page" for a d page :: int
proof -
  assume d: "0 < d"
  have "floor_align (a div d) page * d \<le> a div d * d"
    using floor_align_le [OF that, of "a div d"] d by (intro mult_right_mono) simp_all
  then show ?thesis using pos_mod_sign [OF d, of a] minus_mod_eq_div_mult [of a d] by linarith
qed

interpretation default_pool: pool_sizer "default_valid p" "default_sizes p" default_from_tokens "default_cost p" for p
proof
  fix page avail n c c'
  assume v: "default_valid p page"
  then have pg: "0 < page" "0 < dp_cell_size p" by (simp_all add: default_valid_def)
  show "0 < max_total_num_tokens c \<and> page dvd max_total_num_tokens c \<and> default_cost p page c \<le> real_of_int avail"
    if "default_sizes p avail page = Inr c"
    using that pg floor_div_mult [OF pg, of avail]
    by (auto simp: default_sizes_def make_config_Inr default_cost_def simp flip: of_int_mult)
  show "0 < max_total_num_tokens c \<and> page dvd max_total_num_tokens c \<and> max_total_num_tokens c \<le> n"
    if "default_from_tokens n page = Inr c"
    using that pg floor_align_le by (auto simp: default_from_tokens_def make_config_Inr)
  show "default_cost p page c' \<le> default_cost p page c"
    if "n \<le> max_total_num_tokens c" "default_from_tokens n page = Inr c'"
  proof -
    have "max_total_num_tokens c' \<le> n"
      using that(2) pg floor_align_le by (auto simp: default_from_tokens_def make_config_Inr)
    then show ?thesis using that(1) pg(2) by (simp add: default_cost_def mult_right_mono)
  qed
qed

section \<open>Sliding-window models\<close>

definition hybrid_ok :: "hybrid_pool \<Rightarrow> bool" where
  "hybrid_ok p \<longleftrightarrow> 0 < full_per_token p \<and> 0 < swa_per_token p \<and> 0 \<le> full_layers p \<and> 0 < swa_layers p
     \<and> 0 \<le> swa_ratio p \<and> 0 \<le> draft_full_layers p \<and> 0 \<le> draft_swa_layers p \<and> 0 \<le> draft_swa_full_layers p
     \<and> 0 \<le> draft_cell_size p"

definition unified_draft :: "hybrid_pool \<Rightarrow> bool" where
  "unified_draft p \<longleftrightarrow> unified_memory p \<and> 0 < full_layers p \<and> 0 < draft_pool_bytes p"

text \<open>Bytes of separate pools of \<open>full\<close> and \<open>swa\<close> tokens with the draft's share of each.\<close>

definition split_bytes :: "hybrid_pool \<Rightarrow> int \<Rightarrow> int \<Rightarrow> int" where
  "split_bytes p full swa =
     full * (cap_full_cell_size p + draft_cell_size p) + cap_fixed_swa_bytes p swa"

definition hybrid_cost :: "(int \<Rightarrow> int \<Rightarrow> int) \<Rightarrow> hybrid_pool \<Rightarrow> int \<Rightarrow> pool_config \<Rightarrow> real" where
  "hybrid_cost align p page c =
     (if full_layers p = 0 then real_of_int (max_total_num_tokens c) * hybrid_cell_size p
      else if unified_draft p then
        real_of_int (allocation_bytes align p page (swa_max_total c) (max_total_num_tokens c div page))
      else real_of_int (split_bytes p (max_total_num_tokens c) (the (swa_max_total c))))"

lemma py_int_mono: "x \<le> y \<Longrightarrow> py_int x \<le> py_int y"
  unfolding py_int_def by (auto intro: floor_mono ceiling_mono) (meson ceiling_le_zero floor_mono not_le order_trans zero_le_floor less_imp_le)

lemma swa_tokens_mono:
  assumes "hybrid_ok p" "0 < page" "a \<le> b"
  shows "swa_tokens_of p a page \<le> swa_tokens_of p b page"
  unfolding swa_tokens_of_def
  using assms by (intro floor_align_mono py_int_mono mult_right_mono) (simp_all add: hybrid_ok_def)

lemma swa_tokens_le:
  assumes "hybrid_ok p" "0 < page" "0 \<le> full"
  shows "0 \<le> swa_tokens_of p full page" "real_of_int (swa_tokens_of p full page) \<le> real_of_int full * swa_ratio p"
proof -
  have r: "0 \<le> real_of_int full * swa_ratio p" using assms by (simp add: hybrid_ok_def)
  then have "0 \<le> py_int (real_of_int full * swa_ratio p)" by (simp add: py_int_def)
  then show "0 \<le> swa_tokens_of p full page" unfolding swa_tokens_of_def by (rule floor_align_nonneg [OF assms(2)])
  have "swa_tokens_of p full page \<le> py_int (real_of_int full * swa_ratio p)"
    unfolding swa_tokens_of_def by (rule floor_align_le [OF assms(2)])
  then show "real_of_int (swa_tokens_of p full page) \<le> real_of_int full * swa_ratio p"
    using py_int_le [OF r] by linarith
qed

lemma draft_bytes_nonneg: "hybrid_ok p \<Longrightarrow> 0 \<le> draft_pool_bytes p"
  by (simp add: hybrid_ok_def draft_pool_bytes_def)

text \<open>More full or sliding-window tokens never allocate less.\<close>

lemma allocation_mono:
  assumes "hybrid_ok p" "align_ok align" "0 < page" "0 < full_layers p" "a \<le> b"
    and "swa_a = (case sa of Some s \<Rightarrow> s | None \<Rightarrow> swa_tokens_of p (a * page) page)"
    and "swa_b = (case sb of Some s \<Rightarrow> s | None \<Rightarrow> swa_tokens_of p (b * page) page)" "swa_a \<le> swa_b"
  shows "allocation_bytes align p page sa a \<le> allocation_bytes align p page sb b"
proof -
  let ?tf = "full_per_token p * full_layers p" and ?ts = "swa_per_token p * swa_layers p"
  let ?ta = "a * page * ?tf + swa_a * ?ts" and ?tb = "b * page * ?tf + swa_b * ?ts"
  have pos: "0 < ?tf" "0 < ?ts" using assms(1,4) by (simp_all add: hybrid_ok_def)
  have t: "?ta \<le> ?tb"
    using assms(3,5,8) pos by (intro add_mono mult_right_mono) (simp_all add: mult_right_mono)
  have "max (?ta div ?tf - 1) 0 \<le> max (?tb div ?tf - 1) 0"
    using zdiv_mono1 [OF t pos(1)] by linarith
  then have "align (max (?ta div ?tf - 1) 0) page \<le> align (max (?tb div ?tf - 1) 0) page"
    unfolding align_eq [OF assms(2,3)] by (rule ceil_align_mono [OF assms(3)])
  then have "(align (max (?ta div ?tf - 1) 0) page + page) * draft_pool_bytes p
      \<le> (align (max (?tb div ?tf - 1) 0) page + page) * draft_pool_bytes p"
    using draft_bytes_nonneg [OF assms(1)] by (intro mult_right_mono) simp_all
  then show ?thesis using t unfolding allocation_bytes_def Let_def assms(6) [symmetric] assms(7) [symmetric] by linarith
qed

lemma allocation_mono_on:
  assumes "hybrid_ok p" "align_ok align" "0 < page" "0 < full_layers p"
  shows "mono_on A (allocation_bytes align p page fixed)"
proof (rule mono_onI)
  fix a b :: int assume "a \<le> b"
  then show "allocation_bytes align p page fixed a \<le> allocation_bytes align p page fixed b"
    using assms swa_tokens_mono [OF assms(1,3), of "a * page" "b * page"]
    by (intro allocation_mono [OF assms \<open>a \<le> b\<close> refl refl]) (auto split: option.split simp: mult_right_mono)
qed

text \<open>The unified search: what it returns fits, and one page more does not.\<close>

lemma unified_search:
  assumes "hybrid_ok p" "align_ok align" "0 < page" "0 < full_layers p"
    and "max_unified_full_tokens align p avail page fixed = Inr n" "0 < n"
  shows "\<exists>pages. n = pages * page \<and> 0 < pages \<and> allocation_bytes align p page fixed pages \<le> avail"
proof -
  let ?tf = "full_per_token p * full_layers p" and ?f = "allocation_bytes align p page fixed"
  define pages where "pages = bisect_right ?f (avail div ?tf div page + 1) avail - 1"
  have tf: "0 < ?tf" using assms(1,4) by (simp add: hybrid_ok_def)
  have n: "n = max pages 0 * page" using assms(5) tf by (simp add: max_unified_full_tokens_def Let_def pages_def)
  then have p: "0 < pages" using assms(3,6) by (simp add: max_def zero_less_mult_iff split: if_splits)
  have "?f pages \<le> avail"
    by (rule bisect_right_split(1) [where n = "avail div ?tf div page + 1", OF allocation_mono_on [OF assms(1-4)]])
      (use p in \<open>simp_all add: pages_def\<close>)
  then show ?thesis using n p by auto
qed

lemma solve_Inr:
  assumes "solve_pool_sizes p n page = Inr c" "full_layers p \<noteq> 0"
  shows "c = split_config (floor_align n page) (floor_align n page) (swa_tokens_of p (floor_align n page) page)
    \<and> 0 < floor_align n page"
  using assms by (auto simp: solve_pool_sizes_def Let_def make_config_Inr split: option.splits if_splits)

lemma solve_Inr_swa:
  assumes "solve_pool_sizes p n page = Inr c" "full_layers p = 0"
  shows "c = split_config (floor_align n page) 0 (floor_align n page) \<and> 0 < floor_align n page"
  using assms by (auto simp: solve_pool_sizes_def Let_def make_config_Inr)

lemma cell_size_pos: "hybrid_ok p \<Longrightarrow> 0 < hybrid_cell_size p"
  unfolding hybrid_cell_size_def hybrid_ok_def
  by (auto intro!: add_pos_nonneg add_nonneg_nonneg simp flip: of_int_mult of_int_add)

text \<open>Separate pools cost at most the cell size times the full tokens.\<close>

lemma split_bytes_le:
  assumes "hybrid_ok p" "0 < page" "full_layers p \<noteq> 0" "0 \<le> full"
  shows "real_of_int (split_bytes p full (swa_tokens_of p full page)) \<le> real_of_int full * hybrid_cell_size p"
proof -
  let ?s = "real_of_int (swa_per_token p) * real_of_int (swa_layers p + draft_swa_layers p)"
  have "0 \<le> ?s" using assms(1) by (simp add: hybrid_ok_def)
  then have "real_of_int (swa_tokens_of p full page) * ?s \<le> real_of_int full * swa_ratio p * ?s"
    using swa_tokens_le(2) [OF assms(1,2,4)] by (rule mult_right_mono [rotated])
  then show ?thesis using assms(3)
    by (simp add: split_bytes_def cap_fixed_swa_bytes_def cap_full_cell_size_def hybrid_cell_size_def algebra_simps)
qed

lemma split_bytes_mono:
  assumes "hybrid_ok p" "full' \<le> full" "swa' \<le> swa"
  shows "split_bytes p full' swa' \<le> split_bytes p full swa"
proof -
  have "0 \<le> cap_full_cell_size p + draft_cell_size p" "0 \<le> swa_per_token p * (swa_layers p + draft_swa_layers p)"
    using assms(1) by (simp_all add: hybrid_ok_def cap_full_cell_size_def)
  then show ?thesis unfolding split_bytes_def cap_fixed_swa_bytes_def mult.assoc
    using assms(2,3) by (intro add_mono mult_right_mono) simp_all
qed

definition hybrid_valid :: "(int \<Rightarrow> int \<Rightarrow> int) \<Rightarrow> hybrid_pool \<Rightarrow> int \<Rightarrow> bool" where
  "hybrid_valid align p page \<longleftrightarrow> hybrid_ok p \<and> align_ok align \<and> 0 < page"

lemma floor_real_mult: "0 < c \<Longrightarrow> real_of_int \<lfloor>a / c\<rfloor> * c \<le> a"
  by (metis of_int_floor_le pos_le_divide_eq)

lemma hybrid_sizes_cost:
  assumes "hybrid_valid align p page" "hybrid_sizes align p avail page = Inr c"
  shows "0 < max_total_num_tokens c \<and> page dvd max_total_num_tokens c \<and> hybrid_cost align p page c \<le> real_of_int avail"
proof -
  have ok: "hybrid_ok p" "align_ok align" "0 < page" using assms(1) by (simp_all add: hybrid_valid_def)
  have cell: "0 < hybrid_cell_size p" by (rule cell_size_pos [OF ok(1)])
  show ?thesis
  proof (cases "unified_draft p")
    case True
    then have fl: "0 < full_layers p" by (simp add: unified_draft_def)
    obtain n where n: "max_unified_full_tokens align p avail page None = Inr n" "solve_pool_sizes p n page = Inr c"
      using assms(2) True by (auto simp: hybrid_sizes_def unified_draft_def split: sum.splits)
    have c: "c = split_config (floor_align n page) (floor_align n page) (swa_tokens_of p (floor_align n page) page)"
      "0 < floor_align n page"
      using solve_Inr [OF n(2)] fl by simp_all
    have "0 < n" using c(2) floor_align_le [OF ok(3), of n] by linarith
    from unified_search [OF ok fl n(1) this] obtain pages where
      p: "n = pages * page" "0 < pages" "allocation_bytes align p page None pages \<le> avail" by blast
    have f: "floor_align n page = n" "n div page = pages" using p(1) ok(3) by simp_all
    have "allocation_bytes align p page (Some (swa_tokens_of p n page)) pages = allocation_bytes align p page None pages"
      using p(1) by (simp add: allocation_bytes_def Let_def)
    then show ?thesis using c p(3) fl True f ok(3) \<open>0 < n\<close> p(1) by (simp add: hybrid_cost_def)
  next
    case False
    then have s: "solve_pool_sizes p \<lfloor>real_of_int avail / hybrid_cell_size p\<rfloor> page = Inr c"
      using assms(2) cell by (auto simp: hybrid_sizes_def unified_draft_def)
    let ?n = "floor_align \<lfloor>real_of_int avail / hybrid_cell_size p\<rfloor> page"
    have "real_of_int ?n * hybrid_cell_size p \<le> real_of_int \<lfloor>real_of_int avail / hybrid_cell_size p\<rfloor> * hybrid_cell_size p"
      using cell floor_align_le [OF ok(3)] by (intro mult_right_mono) simp_all
    then have le: "real_of_int ?n * hybrid_cell_size p \<le> real_of_int avail" using floor_real_mult [OF cell, of "real_of_int avail"] by linarith
    show ?thesis
    proof (cases "full_layers p = 0")
      case True
      then show ?thesis using solve_Inr_swa [OF s True] le ok(3) by (simp add: hybrid_cost_def)
    next
      case nz: False
      then show ?thesis using solve_Inr [OF s nz] split_bytes_le [OF ok(1,3) nz, of ?n] le False ok(3)
        by (simp add: hybrid_cost_def)
    qed
  qed
qed

lemma hybrid_from_fit:
  assumes "hybrid_valid align p page" "hybrid_from_tokens p n page = Inr c"
  shows "0 < max_total_num_tokens c \<and> page dvd max_total_num_tokens c \<and> max_total_num_tokens c \<le> n"
  using assms solve_Inr [of p n page c] solve_Inr_swa [of p n page c] floor_align_le [of page n]
  by (cases "full_layers p = 0") (auto simp: hybrid_from_tokens_def hybrid_valid_def)

text \<open>A configuration of the profiling path is the solution for its own token count.\<close>

lemma hybrid_sizes_shape:
  assumes "hybrid_sizes align p avail page = Inr c"
  shows "\<exists>n. solve_pool_sizes p n page = Inr c"
  using assms by (auto simp: hybrid_sizes_def split: if_splits sum.splits)

lemma hybrid_cheaper:
  assumes "hybrid_valid align p page" "hybrid_sizes align p avail page = Inr c" "n \<le> max_total_num_tokens c"
    and "hybrid_from_tokens p n page = Inr c'"
  shows "hybrid_cost align p page c' \<le> hybrid_cost align p page c"
proof -
  have ok: "hybrid_ok p" "align_ok align" "0 < page" using assms(1) by (simp_all add: hybrid_valid_def)
  obtain m where m: "solve_pool_sizes p m page = Inr c" using hybrid_sizes_shape [OF assms(2)] by blast
  have n: "solve_pool_sizes p n page = Inr c'" using assms(4) by (simp add: hybrid_from_tokens_def)
  have le: "max_total_num_tokens c' \<le> max_total_num_tokens c"
    using hybrid_from_fit [OF assms(1,4)] assms(3) by linarith
  show ?thesis
  proof (cases "full_layers p = 0")
    case True
    then show ?thesis using le cell_size_pos [OF ok(1)] by (simp add: hybrid_cost_def mult_right_mono)
  next
    case False
    have c: "swa_max_total c = Some (swa_tokens_of p (max_total_num_tokens c) page)"
      "swa_max_total c' = Some (swa_tokens_of p (max_total_num_tokens c') page)"
      using solve_Inr [OF m False] solve_Inr [OF n False] by simp_all
    have s: "swa_tokens_of p (max_total_num_tokens c') page \<le> swa_tokens_of p (max_total_num_tokens c) page"
      by (rule swa_tokens_mono [OF ok(1,3) le])
    have fl: "0 < full_layers p" using False ok(1) by (simp add: hybrid_ok_def)
    have "allocation_bytes align p page (swa_max_total c') (max_total_num_tokens c' div page)
        \<le> allocation_bytes align p page (swa_max_total c) (max_total_num_tokens c div page)"
      by (rule allocation_mono [OF ok fl zdiv_mono1 [OF le ok(3)] refl refl]) (use c s in simp)
    then show ?thesis using False c split_bytes_mono [OF ok(1) le s] by (simp add: hybrid_cost_def)
  qed
qed

interpretation hybrid_pool: pool_sizer "hybrid_valid align p" "hybrid_sizes align p" "hybrid_from_tokens p"
  "hybrid_cost align p" for align p
  by unfold_locales (fact hybrid_sizes_cost hybrid_from_fit hybrid_cheaper)+

section \<open>The fixed sliding-window pool\<close>

definition cap_cost :: "(int \<Rightarrow> int \<Rightarrow> int) \<Rightarrow> hybrid_pool \<Rightarrow> int \<Rightarrow> pool_config \<Rightarrow> real" where
  "cap_cost align p page c =
     (if unified_memory p \<and> 0 < draft_pool_bytes p then
        real_of_int (allocation_bytes align p page (swa_max_total c) (max_total_num_tokens c div page))
      else real_of_int (max_total_num_tokens c * cap_full_cell_size p + cap_fixed_swa_bytes p (the (swa_max_total c))))"

definition cap_valid :: "(int \<Rightarrow> int \<Rightarrow> int) \<Rightarrow> hybrid_pool \<Rightarrow> int \<Rightarrow> bool" where
  "cap_valid align p page \<longleftrightarrow> hybrid_valid align p page \<and> 0 < full_layers p"

lemma cap_cell_pos: "hybrid_ok p \<Longrightarrow> 0 < full_layers p \<Longrightarrow> 0 < cap_full_cell_size p"
  by (auto simp: cap_full_cell_size_def hybrid_ok_def intro!: add_pos_nonneg)

lemma chunk_cap_cost:
  assumes "cap_valid align p page" "chunk_cap_sizes align p cap avail page = Inr c"
  shows "0 < max_total_num_tokens c \<and> page dvd max_total_num_tokens c \<and> cap_cost align p page c \<le> real_of_int avail
    \<and> swa_max_total c = Some (align cap page)"
proof -
  have ok: "hybrid_ok p" "align_ok align" "0 < page" "0 < full_layers p"
    using assms(1) by (simp_all add: cap_valid_def hybrid_valid_def)
  have cell: "0 < cap_full_cell_size p" by (rule cap_cell_pos [OF ok(1,4)])
  show ?thesis
  proof (cases "unified_memory p \<and> 0 < draft_pool_bytes p")
    case True
    obtain n where n: "max_unified_full_tokens align p avail page (Some (align cap page)) = Inr n" "0 < n"
      "c = split_config n n (align cap page)"
      using assms(2) True by (auto simp: chunk_cap_sizes_def Let_def make_config_Inr split: sum.splits if_splits)
    from unified_search [OF ok n(1,2)] obtain pages where
      "n = pages * page" "0 < pages" "allocation_bytes align p page (Some (align cap page)) pages \<le> avail" by blast
    then show ?thesis using n True ok(3) by (simp add: cap_cost_def)
  next
    case False
    let ?n = "floor_align ((avail - cap_fixed_swa_bytes p (align cap page)) div cap_full_cell_size p) page"
    have c: "c = split_config ?n ?n (align cap page)" "0 < ?n"
      using assms(2) False cell by (auto simp: chunk_cap_sizes_def Let_def make_config_Inr split: if_splits)
    have "?n * cap_full_cell_size p \<le> avail - cap_fixed_swa_bytes p (align cap page)"
      by (rule floor_div_mult [OF ok(3) cell])
    then show ?thesis using c False ok(3) by (auto simp: cap_cost_def simp del: of_int_add of_int_mult)
  qed
qed

lemma chunk_cap_from_fit:
  assumes "cap_valid align p page" "chunk_cap_from_tokens align cap n page = Inr c"
  shows "0 < max_total_num_tokens c \<and> page dvd max_total_num_tokens c \<and> max_total_num_tokens c \<le> n
    \<and> swa_max_total c = Some (min (align cap page) n)"
  using assms floor_align_le [of page n]
  by (auto simp: chunk_cap_from_tokens_def Let_def make_config_Inr cap_valid_def hybrid_valid_def)

lemma chunk_cap_cheaper:
  assumes "cap_valid align p page" "chunk_cap_sizes align p cap avail page = Inr c" "n \<le> max_total_num_tokens c"
    and "chunk_cap_from_tokens align cap n page = Inr c'"
  shows "cap_cost align p page c' \<le> cap_cost align p page c"
proof -
  have ok: "hybrid_ok p" "align_ok align" "0 < page" "0 < full_layers p"
    using assms(1) by (simp_all add: cap_valid_def hybrid_valid_def)
  have c: "swa_max_total c = Some (align cap page)" using chunk_cap_cost [OF assms(1,2)] by simp
  have c': "max_total_num_tokens c' \<le> n" "swa_max_total c' = Some (min (align cap page) n)"
    using chunk_cap_from_fit [OF assms(1,4)] by simp_all
  have le: "max_total_num_tokens c' \<le> max_total_num_tokens c" using c'(1) assms(3) by simp
  have "allocation_bytes align p page (swa_max_total c') (max_total_num_tokens c' div page)
      \<le> allocation_bytes align p page (swa_max_total c) (max_total_num_tokens c div page)"
    by (rule allocation_mono [OF ok zdiv_mono1 [OF le ok(3)] refl refl]) (use c c' in simp)
  moreover have "max_total_num_tokens c' * cap_full_cell_size p \<le> max_total_num_tokens c * cap_full_cell_size p"
    using le cap_cell_pos [OF ok(1,4)] by (simp add: mult_right_mono)
  moreover have "cap_fixed_swa_bytes p (min (align cap page) n) \<le> cap_fixed_swa_bytes p (align cap page)"
    unfolding cap_fixed_swa_bytes_def using ok(1)
    by (intro mult_right_mono) (simp_all add: hybrid_ok_def)
  ultimately show ?thesis using c c'(2) by (auto simp: cap_cost_def simp del: of_int_add of_int_mult)
qed

interpretation chunk_cap_pool: pool_sizer "cap_valid align p" "chunk_cap_sizes align p cap"
  "chunk_cap_from_tokens align cap" "cap_cost align p" for align p cap
  by unfold_locales (use chunk_cap_cost chunk_cap_from_fit chunk_cap_cheaper in blast)+

end
