(* ===== verification/PoolDsv4.thy ===== *)
theory PoolDsv4
  imports PoolConfigFacts KvLayout
begin

text \<open>
  \<open>DSV4PoolConfigurator\<close> of \<open>sglang-overlay/pool_configurator.py\<close>: the pools of a compressed-attention
  model - full, sliding-window, two compressed pools and their states - out of one budget, and the
  sizes of \<open>sglang-overlay/deepseek_v4_memory_pool.py\<close> it relies on (index bytes, state rings, the
  layout of a compressed cache). \<open>dsv4_env\<close> is what the constructor reads from the model, the
  arguments and the environment; \<open>dsv4\<close> is the object it builds. A model's context length and an
  attention group's size are positive.
\<close>

section \<open>Sizes of the memory pool\<close>

definition indexer_bytes_per_token :: "int \<Rightarrow> bool \<Rightarrow> int" where
  "indexer_bytes_per_token head_dim fp4 =
     (if fp4 then head_dim div 2 + head_dim div 32 else head_dim + head_dim div 128 * 4)"

text \<open>The smallest \<open>k\<close> with \<open>n < 2 ^ k\<close>, Python's \<open>bit_length\<close> of a natural number.\<close>

fun bit_length :: "nat \<Rightarrow> nat" where
  "bit_length n = (if n = 0 then 0 else Suc (bit_length (n div 2)))"

declare bit_length.simps [simp del]

definition compress_state_ring_size :: "bool \<Rightarrow> bool \<Rightarrow> int \<Rightarrow> bool \<Rightarrow> nat \<Rightarrow> py_error + int" where
  "compress_state_ring_size online_c128 experimental_mtp ratio speculative draft =
     (if ratio \<notin> {2, 4, 128} then Inl AssertionError
      else if ratio = 2 then Inr (if \<not> speculative then 2 else 2 ^ bit_length (draft + 1))
      else if ratio = 128 \<and> online_c128 then
        (if speculative \<and> \<not> experimental_mtp then Inl AssertionError else Inr 1)
      else if speculative then Inr (if ratio = 4 then 16 else 256)
      else Inr (if ratio = 4 then 8 else 128))"

definition compress_state_write_pad :: "int \<Rightarrow> int \<Rightarrow> int" where
  "compress_state_write_pad ratio ring =
     (let window = ratio * (if ratio = 4 then 2 else 1) in if window < ring then ring - window + 2 else 0)"

definition resolve_compressed_kv_layout :: "kv_layout \<Rightarrow> int \<Rightarrow> string option \<Rightarrow> py_error + kv_layout" where
  "resolve_compressed_kv_layout main ratio opt =
     (if (case opt of Some s \<Rightarrow> str_lower s \<notin> {''auto'', ''fp8'', ''fp4''} | None \<Rightarrow> False) then Inl AssertionError
      else
        (let option = (case opt of Some s \<Rightarrow> if str_lower s = ''auto'' then None else Some (str_lower s) | None \<Rightarrow> None)
         in if main = V4 then
              (if option = Some ''fp4'' then Inr (if ratio \<in> {1, 2} then V41_FP4 else V4)
               else if option \<noteq> None then Inl AssertionError else Inr V4)
            else if main \<noteq> V41 then Inl AssertionError
            else if option = Some ''fp8'' then Inr V41
            else if option = Some ''fp4'' then Inr V41_FP4
            else Inr (if ratio \<in> {1, 2} then V41_FP4 else V41)))"

text \<open>\<open>is_sm100\<close> and \<open>supported\<close> are what the machine and the installed library say.\<close>

definition select_dsv4_kv_layout :: "bool \<Rightarrow> bool \<Rightarrow> string \<Rightarrow> string \<Rightarrow> py_error + kv_layout \<times> string option" where
  "select_dsv4_kv_layout is_sm100 supported mode0 option0 =
     (let mode = str_lower mode0; option = str_lower option0 in
      if mode = ''fork-v4-fp4'' then Inr (V4, Some ''fp4'')
      else if mode = ''v4'' then Inr (V4, if option = ''auto'' then None else Some option)
      else if mode \<noteq> ''v41'' \<and> mode \<noteq> ''auto'' then Inl AssertionError
      else if mode = ''auto'' then Inr (if is_sm100 \<and> supported then (V41, Some option) else (V4, None))
      else if \<not> is_sm100 then Inl AssertionError
      else Inr (V41, Some option))"

section \<open>What the constructor reads\<close>

record dsv4_env =
  de_nope_dim :: int
  de_rope_dim :: int
  de_index_dim :: int
  de_fp4_indexer :: bool
  de_context_len :: int
  de_ratios :: "int list"
  de_source_ratios :: "int list"
  de_window_size :: int
  de_operator_ratio :: "real option"
  de_sliding_window :: "int option"
  de_page :: int
  de_speculative :: bool
  de_max_draft :: nat
  de_dp_size :: int
  de_max_running :: "int option"
  de_decode_node :: bool
  de_extra_slots :: int
  de_hisparse_ratio :: "int option"
  de_online_compress :: bool
  de_online_c128 :: bool
  de_experimental_mtp :: bool
  de_eagle :: bool
  de_no_spec :: bool
  de_encoder_replay :: bool
  de_dspark :: bool
  de_draft_layers :: int
  de_chunked_prefill :: "int option"
  de_prefix_tails :: "int option"
  de_radix_disabled :: bool
  de_state_dtype :: string
  de_kv_mode :: string
  de_kv_option :: string
  de_sm120 :: bool
  de_load :: request_load

record dsv4 =
  kv_bytes :: int
  attn_head_dim :: int
  index_dim :: int
  index_bytes :: int
  layers_total :: int
  layers_ca4 :: int
  layers_ca128 :: int
  low_ratio_bytes :: real
  ring4 :: int
  ring128 :: int
  swa_page :: int
  ratio :: real
  swa_cap :: "int option"
  window_bytes :: int
  bytes_per_swa :: real
  bytes_per_full :: real
  full_unit :: real
  shrink :: int
  online :: bool
  mtp_draft :: int
  requested :: "int option"
  decode_node :: bool
  extra_slots :: int
  context_len :: int
  state_size :: int

text \<open>Python's \<open>str.strip\<close> on the characters below 256.\<close>

definition is_space :: "char \<Rightarrow> bool" where
  "is_space c = (let n = (of_char c :: nat) in 9 \<le> n \<and> n \<le> 13 \<or> 28 \<le> n \<and> n \<le> 32 \<or> n = 133 \<or> n = 160)"

definition str_strip :: "string \<Rightarrow> string" where
  "str_strip s = rev (dropWhile is_space (rev (dropWhile is_space s)))"

definition state_dtype_size :: "string \<Rightarrow> py_error + int" where
  "state_dtype_size name =
     (let d = str_lower (str_strip name) in
      if d = ''float32'' \<or> d = ''fp32'' then Inr 4
      else if d = ''bfloat16'' \<or> d = ''bf16'' then Inr 2 else Inl (ValueError ''state dtype''))"

text \<open>Bytes of a compressed position of a ratio-1 or ratio-2 layer, and the platform assertion.\<close>

definition fp4_low_ratio :: "string \<Rightarrow> string \<Rightarrow> bool" where
  "fp4_low_ratio mode option =
     (let m = str_lower mode; o' = str_lower option in
      m = ''fork-v4-fp4'' \<and> o' \<in> {''auto'', ''fp4''} \<or> m = ''v41'' \<and> o' = ''fp4'')"

definition low_ratio_kv_bytes :: "dsv4_env \<Rightarrow> int \<Rightarrow> py_error + int" where
  "low_ratio_kv_bytes E kvb =
     (if fp4_low_ratio (de_kv_mode E) (de_kv_option E) then
        (if de_sm120 E then Inr (256 + 32) else Inl AssertionError)
      else Inr kvb)"

definition low_ratio_per_full :: "dsv4_env \<Rightarrow> int \<Rightarrow> real" where
  "low_ratio_per_full E low =
     sum_list (map (\<lambda>r. real_of_int (low + indexer_bytes_per_token (de_index_dim E) True) / real_of_int r)
       (filter (\<lambda>r. r = 1 \<or> r = 2) (de_source_ratios E)))"

text \<open>\<open>_assert_ring_serves_draft_tokens\<close>.\<close>

definition ring_serves :: "dsv4_env \<Rightarrow> int \<Rightarrow> int \<Rightarrow> int \<Rightarrow> int \<Rightarrow> bool" where
  "ring_serves E r4 r128 ca4 ca128 =
     list_all (\<lambda>(cr, ring, layers).
       layers = 0 \<or> cr = 128 \<and> de_online_compress E
       \<or> int (de_max_draft E) \<le> compress_state_write_pad cr ring)
     [(4, r4, ca4), (128, r128, ca128)]"

definition resolve_prefix_tails :: "dsv4_env \<Rightarrow> int option \<Rightarrow> int" where
  "resolve_prefix_tails E req =
     (case de_prefix_tails E of
        Some n \<Rightarrow> n
      | None \<Rightarrow> if de_radix_disabled E then 0 else (case req of Some m \<Rightarrow> 4 * m | None \<Rightarrow> 0))"

definition resolve_swa_cap :: "(int \<Rightarrow> int \<Rightarrow> int) \<Rightarrow> dsv4_env \<Rightarrow> int option \<Rightarrow> int option" where
  "resolve_swa_cap align E req =
     (if de_operator_ratio E \<noteq> None then None
      else case (req, de_sliding_window E) of
        (Some m, Some w) \<Rightarrow>
          if \<not> de_decode_node E \<and> (case de_chunked_prefill E of None \<Rightarrow> True | Some c \<Rightarrow> c \<le> 0) then None
          else Some (align (swa_request_cap (de_load E) (de_page E) w (de_dp_size E)
                       + resolve_prefix_tails E req * (w + de_page E)) (de_page E))
      | _ \<Rightarrow> None)"

text \<open>The fixed ring of the request windows under bounded replay.\<close>

definition request_window_bytes ::
    "(int \<Rightarrow> int \<Rightarrow> int) \<Rightarrow> dsv4_env \<Rightarrow> int \<Rightarrow> int \<Rightarrow> int \<Rightarrow> py_error + int" where
  "request_window_bytes align E kvb adim layers =
     (case (de_max_running E, de_sliding_window E, de_chunked_prefill E) of
        (Some m, Some w, Some chunk) \<Rightarrow>
          (let slots = m div de_dp_size E + 1; draft = int (de_max_draft E);
               capacity = align (w + draft) (de_page E);
               scratch = max chunk (slots * max 128 draft) + slots * 128 + de_page E
           in Inr ((slots * capacity + de_page E) * layers * (kvb + 16) + 4 * scratch * (kvb + 16)
                    + slots * 3 * 16 * adim * 8))
      | _ \<Rightarrow> Inl TypeError)"

text \<open>\<open>_get_bytes_per_swa_token\<close> and the parts of \<open>_get_bytes_per_full_token\<close> that do not depend on the
  sliding-window pool.\<close>

definition swa_token_bytes :: "dsv4_env \<Rightarrow> int \<Rightarrow> int \<Rightarrow> int \<Rightarrow> int \<Rightarrow> int \<Rightarrow> int \<Rightarrow> int \<Rightarrow> real" where
  "swa_token_bytes E kvb adim layers ca4 r4 st paged =
     (if de_encoder_replay E then real_of_int (kvb * paged)
      else real_of_int (kvb * layers)
        + real_of_int r4 / real_of_int (de_window_size E)
          * real_of_int (2 * 2 * adim * st + 2 * 2 * de_index_dim E * st) * real_of_int ca4)"

definition full_token_unit :: "int \<Rightarrow> int \<Rightarrow> real \<Rightarrow> int \<Rightarrow> int \<Rightarrow> int \<Rightarrow> real" where
  "full_token_unit kvb idx low ca4 ca128 shr =
     low + 1 / real_of_int (4 * shr) * real_of_int kvb * real_of_int ca4
     + 1 / 128 * real_of_int kvb * real_of_int ca128 + 1 / 4 * real_of_int idx * real_of_int ca4"

definition full_token_bytes :: "real \<Rightarrow> int option \<Rightarrow> real \<Rightarrow> real \<Rightarrow> real" where
  "full_token_bytes r cap bswa unit = (if cap \<noteq> None then 0 else r) * bswa + unit"

definition new_dsv4 :: "(int \<Rightarrow> int \<Rightarrow> int) \<Rightarrow> dsv4_env \<Rightarrow> py_error + dsv4" where
  "new_dsv4 align E =
     (let adim = de_nope_dim E + de_rope_dim E; kvb = de_nope_dim E + de_rope_dim E * 2 + 8;
          idx = indexer_bytes_per_token (de_index_dim E) (de_fp4_indexer E);
          req = map_option (\<lambda>m. m div de_dp_size E) (de_max_running E);
          shr = (case de_hisparse_ratio E of Some r \<Rightarrow> r | None \<Rightarrow> 1);
          layers = len (de_ratios E);
          ca4 = len (filter (\<lambda>r. r = 4) (de_ratios E)); ca128 = len (filter (\<lambda>r. r = 128) (de_ratios E));
          ring = (\<lambda>r. compress_state_ring_size (de_online_c128 E) (de_experimental_mtp E) r (de_speculative E) 0)
      in if shr < 1 then Inl AssertionError
      else case (ring 4, ring 128, low_ratio_kv_bytes E kvb) of
        (Inr r4, Inr r128, Inr low) \<Rightarrow>
          (let paged = (if de_encoder_replay E \<and> de_dspark E then de_draft_layers E else 0);
               scale = (if de_speculative E \<and> \<not> de_encoder_replay E
                        then real_of_int (layers + 1) / real_of_int layers else 1);
               r = (if de_encoder_replay E \<and> paged = 0 then 0
                    else case de_operator_ratio E of Some x \<Rightarrow> x | None \<Rightarrow> 1 / 10);
               cap = (if de_encoder_replay E \<and> paged = 0 then Some 0 else resolve_swa_cap align E req);
               unit = full_token_unit kvb idx (low_ratio_per_full E low) ca4 ca128 shr
           in if de_speculative E \<and> \<not> ring_serves E r4 r128 ca4 ca128 then Inl AssertionError
              else if de_encoder_replay E \<and> de_dspark E \<and> paged \<le> 0 then Inl AssertionError
              else case (if de_encoder_replay E then request_window_bytes align E kvb adim layers else Inr 0) of
                Inl e \<Rightarrow> Inl e
              | Inr win \<Rightarrow>
                  (case state_dtype_size (de_state_dtype E) of
                     Inl e \<Rightarrow> Inl e
                   | Inr st \<Rightarrow>
                       if \<not> de_encoder_replay E \<and> (de_window_size E = 0 \<or> de_speculative E \<and> layers = 0)
                       then Inl ZeroDivisionError
                       else if de_online_compress E
                         \<and> \<not> (de_no_spec E \<or> de_experimental_mtp E \<and> de_eagle E \<and> 0 < de_max_draft E)
                       then Inl AssertionError
                       else
                         (let bswa = swa_token_bytes E kvb adim layers ca4 r4 st paged
                          in Inr \<lparr>kv_bytes = kvb, attn_head_dim = adim, index_dim = de_index_dim E, index_bytes = idx,
                               layers_total = layers, layers_ca4 = ca4, layers_ca128 = ca128,
                               low_ratio_bytes = low_ratio_per_full E low, ring4 = r4, ring128 = r128,
                               swa_page = de_window_size E, ratio = r, swa_cap = cap, window_bytes = win,
                               bytes_per_swa = bswa * scale,
                               bytes_per_full = full_token_bytes r cap bswa unit * scale, full_unit = unit * scale,
                               shrink = shr, online = de_online_compress E, mtp_draft = int (de_max_draft E),
                               requested = req, decode_node = de_decode_node E, extra_slots = de_extra_slots E,
                               context_len = de_context_len E, state_size = st\<rparr>)))
      | (Inl e, _, _) \<Rightarrow> Inl e
      | (_, Inl e, _) \<Rightarrow> Inl e
      | (_, _, Inl e) \<Rightarrow> Inl e)"

section \<open>Sizing\<close>

definition swa_fixed_bytes :: "dsv4 \<Rightarrow> real" where
  "swa_fixed_bytes p =
     real_of_int (window_bytes p)
     + (case swa_cap p of None \<Rightarrow> 0 | Some k \<Rightarrow> real_of_int k * bytes_per_swa p)"

definition dsv4_swa_tokens :: "dsv4 \<Rightarrow> int \<Rightarrow> int \<Rightarrow> int" where
  "dsv4_swa_tokens p full page =
     (case swa_cap p of None \<Rightarrow> floor_align (py_int (real_of_int full * ratio p)) page | Some k \<Rightarrow> k)"

text \<open>\<open>_compute_dsv4_sizes\<close> and \<open>_to_config\<close>.\<close>

definition dsv4_config :: "dsv4 \<Rightarrow> int \<Rightarrow> int \<Rightarrow> py_error + pool_config" where
  "dsv4_config p full0 page =
     (let full = floor_align full0 page; swa = dsv4_swa_tokens p full page in
      make_config ((split_config full full swa)
        \<lparr>c4_max_total := full div (4 * shrink p), c128_max_total := full div 128,
         c4_state_pool := swa div swa_page p * ring4 p, c128_state_pool := 0\<rparr>))"

definition num_req_slots :: "dsv4 \<Rightarrow> int \<Rightarrow> int" where
  "num_req_slots p m = (if decode_node p then m + extra_slots p + 1 else m + 1)"

text \<open>\<open>cd\<close> is the library's \<open>ceil_div\<close>.\<close>

definition c128_state_rows :: "(int \<Rightarrow> int \<Rightarrow> int) \<Rightarrow> dsv4 \<Rightarrow> int \<Rightarrow> int" where
  "c128_state_rows cd p m =
     (let slots = num_req_slots p m in
      if online p then (slots + ring128 p + 1) * (1 + mtp_draft p)
      else cd (slots * ring128 p + ring128 p + 1) 128 * 128)"

definition c128_row_bytes :: "dsv4 \<Rightarrow> int" where
  "c128_row_bytes p = (if online p then 3 else 2) * attn_head_dim p * state_size p * layers_ca128 p"

definition c128_fixed_bytes :: "(int \<Rightarrow> int \<Rightarrow> int) \<Rightarrow> dsv4 \<Rightarrow> int \<Rightarrow> int" where
  "c128_fixed_bytes cd p m = (if layers_ca128 p = 0 then 0 else c128_state_rows cd p m * c128_row_bytes p)"

definition c128_fixed_for_capacity :: "(int \<Rightarrow> int \<Rightarrow> int) \<Rightarrow> dsv4 \<Rightarrow> int \<Rightarrow> int" where
  "c128_fixed_for_capacity cd p capacity =
     (case requested p of
        Some m \<Rightarrow> c128_fixed_bytes cd p m
      | None \<Rightarrow>
          (let estimated = max (min (py_int (real_of_int capacity / real_of_int (context_len p) * 512)) 4096) 2048
           in c128_fixed_bytes cd p (min estimated (capacity div 2))))"

definition dsv4_sizes :: "(int \<Rightarrow> int \<Rightarrow> int) \<Rightarrow> dsv4 \<Rightarrow> int \<Rightarrow> int \<Rightarrow> py_error + pool_config" where
  "dsv4_sizes cd p avail page =
     (if page mod 128 \<noteq> 0 then Inl AssertionError
      else if bytes_per_full p = 0 then Inl ZeroDivisionError
      else
        (let c128 = (case requested p of
               Some m \<Rightarrow> c128_fixed_bytes cd p m
             | None \<Rightarrow> c128_fixed_for_capacity cd p (py_int (real_of_int avail / bytes_per_full p)));
             fixed = real_of_int c128 + swa_fixed_bytes p;
             full = py_int (max (real_of_int avail - fixed) 0 / bytes_per_full p)
         in if full \<le> 0 \<and> swa_cap p \<noteq> None then Inl (RuntimeError ''DSV4 SWA pool cap'')
            else dsv4_config p full page))"

definition dsv4_from_tokens :: "dsv4 \<Rightarrow> int \<Rightarrow> int \<Rightarrow> py_error + pool_config" where
  "dsv4_from_tokens p n page = (if page mod 128 \<noteq> 0 then Inl AssertionError else dsv4_config p n page)"

definition dsv4_finalize :: "dsv4 \<Rightarrow> pool_config \<Rightarrow> py_error + pool_config" where
  "dsv4_finalize p c =
     (case pc_max_running c of
        None \<Rightarrow> Inl AssertionError
      | Some m \<Rightarrow> Inr (c\<lparr>c128_state_pool :=
          (if online p then num_req_slots p m else num_req_slots p m * ring128 p)\<rparr>))"

text \<open>The factory: which configurator a model gets.\<close>

datatype configurator = DSV4Pool | ChunkCapPool | HybridPool | DefaultPool

definition create_configurator :: "bool \<Rightarrow> bool \<Rightarrow> bool \<Rightarrow> configurator" where
  "create_configurator dsv4_model hybrid cap_applicable =
     (if dsv4_model \<and> hybrid then DSV4Pool
      else if hybrid then (if cap_applicable then ChunkCapPool else HybridPool)
      else DefaultPool)"

end
