(* ===== verification/PoolDsv4Facts.thy ===== *)
theory PoolDsv4Facts
  imports PoolDsv4
begin

text \<open>
  The compressed-attention configurator keeps the contract of \<open>pool_sizer\<close>, its reservation for the
  request-scoped states covers the pool that is built later, and the estimate for the low compression
  ratios never falls below the layout that the pool then picks.
\<close>

section \<open>Well-formed configurators\<close>

definition dsv4_ok :: "dsv4 \<Rightarrow> bool" where
  "dsv4_ok p \<longleftrightarrow> 0 \<le> bytes_per_swa p \<and> 0 < full_unit p \<and> 0 \<le> ratio p
     \<and> bytes_per_full p = (if swa_cap p \<noteq> None then 0 else ratio p) * bytes_per_swa p + full_unit p
     \<and> requested p \<noteq> None"

definition env_ok :: "dsv4_env \<Rightarrow> bool" where
  "env_ok E \<longleftrightarrow> 0 < de_nope_dim E \<and> 0 < de_rope_dim E \<and> 0 < de_index_dim E \<and> 0 < de_window_size E
     \<and> 0 \<le> de_draft_layers E \<and> (case de_operator_ratio E of None \<Rightarrow> True | Some r \<Rightarrow> 0 \<le> r)
     \<and> de_max_running E \<noteq> None \<and> (\<exists>r \<in> set (de_ratios E). r = 4 \<or> r = 128)"

lemma indexer_bytes_nonneg: "0 \<le> d \<Longrightarrow> 0 \<le> indexer_bytes_per_token d f"
  by (simp add: indexer_bytes_per_token_def)

lemma low_ratio_nonneg:
  assumes "0 \<le> low" "0 \<le> de_index_dim E"
  shows "0 \<le> low_ratio_per_full E low"
  unfolding low_ratio_per_full_def
  using assms indexer_bytes_nonneg [of "de_index_dim E" True]
  by (intro sum_list_nonneg) (auto simp: add_nonneg_nonneg)

lemma filter_pos: "0 < length (filter P xs) \<longleftrightarrow> (\<exists>x \<in> set xs. P x)"
  by (auto simp: filter_empty_conv)

lemma full_unit_pos:
  assumes "0 < kvb" "0 \<le> idx" "0 \<le> low" "1 \<le> shr" "0 \<le> c4" "0 \<le> c128" "0 < c4 \<or> 0 < c128"
  shows "0 < full_token_unit kvb idx low c4 c128 shr"
proof -
  have "0 < real_of_int kvb * real_of_int c4 / real_of_int (4 * shr) \<or> 0 < real_of_int kvb * real_of_int c128 / 128"
    using assms by auto
  moreover have "0 \<le> real_of_int kvb * real_of_int c4 / real_of_int (4 * shr)" "0 \<le> real_of_int kvb * real_of_int c128 / 128"
    "0 \<le> real_of_int idx * real_of_int c4 / 4" using assms by simp_all
  ultimately show ?thesis using assms(3) by (auto simp: full_token_unit_def)
qed

lemma ring_nonneg: "compress_state_ring_size oc em r sp d = Inr k \<Longrightarrow> 0 < k"
  by (auto simp: compress_state_ring_size_def split: if_splits)

lemma state_size_pos: "state_dtype_size s = Inr k \<Longrightarrow> 0 < k"
  by (auto simp: state_dtype_size_def Let_def split: if_splits)

lemma swa_bytes_nonneg:
  assumes "env_ok E" "0 \<le> kvb" "0 \<le> adim" "0 \<le> layers" "0 \<le> c4" "0 \<le> r4" "0 \<le> st" "0 \<le> paged"
  shows "0 \<le> swa_token_bytes E kvb adim layers c4 r4 st paged"
proof -
  have "0 \<le> 2 * 2 * adim * st + 2 * 2 * de_index_dim E * st" using assms by (simp add: env_ok_def)
  then show ?thesis using assms
    by (auto simp: swa_token_bytes_def env_ok_def simp del: of_int_add of_int_mult
        intro!: add_nonneg_nonneg mult_nonneg_nonneg divide_nonneg_pos)
qed

lemma low_kv_pos: "low_ratio_kv_bytes E kvb = Inr low \<Longrightarrow> 0 < kvb \<Longrightarrow> 0 < low"
  by (auto simp: low_ratio_kv_bytes_def split: if_splits)

lemma new_dsv4_ok:
  assumes "new_dsv4 align E = Inr p" "env_ok E"
  shows "dsv4_ok p"
proof -
  let ?adim = "de_nope_dim E + de_rope_dim E" and ?kvb = "de_nope_dim E + de_rope_dim E * 2 + 8"
  let ?layers = "len (de_ratios E)" and ?c4 = "len (filter (\<lambda>r. r = 4) (de_ratios E))"
    and ?c128 = "len (filter (\<lambda>r. r = 128) (de_ratios E))"
  define scale where "scale = (if de_speculative E \<and> \<not> de_encoder_replay E then real_of_int (?layers + 1) / real_of_int ?layers else 1)"
  define paged where "paged = (if de_encoder_replay E \<and> de_dspark E then de_draft_layers E else 0)"
  define r where "r = (if de_encoder_replay E \<and> paged = 0 then 0 else case de_operator_ratio E of Some x \<Rightarrow> x | None \<Rightarrow> 1 / 10)"
  obtain shr r4 low st cap where
    f: "1 \<le> shr" "0 < r4" "0 < low" "0 < st"
    and p: "bytes_per_swa p = swa_token_bytes E ?kvb ?adim ?layers ?c4 r4 st paged * scale"
      "full_unit p = full_token_unit ?kvb (indexer_bytes_per_token (de_index_dim E) (de_fp4_indexer E))
         (low_ratio_per_full E low) ?c4 ?c128 shr * scale"
      "swa_cap p = cap" "ratio p = r"
      "bytes_per_full p = full_token_bytes r cap (swa_token_bytes E ?kvb ?adim ?layers ?c4 r4 st paged)
         (full_token_unit ?kvb (indexer_bytes_per_token (de_index_dim E) (de_fp4_indexer E))
           (low_ratio_per_full E low) ?c4 ?c128 shr) * scale"
      "requested p = map_option (\<lambda>m. m div de_dp_size E) (de_max_running E)"
      "de_speculative E \<and> \<not> de_encoder_replay E \<Longrightarrow> ?layers \<noteq> 0"
  proof -
    have kvb: "0 < ?kvb" using assms(2) by (simp add: env_ok_def)
    let ?ring = "\<lambda>r. compress_state_ring_size (de_online_c128 E) (de_experimental_mtp E) r (de_speculative E) 0"
    let ?shr = "case de_hisparse_ratio E of Some r \<Rightarrow> r | None \<Rightarrow> 1"
    note N = assms(1) [unfolded new_dsv4_def Let_def]
    have shr: "\<not> ?shr < 1" using N by (cases "?shr < 1") simp_all
    obtain r4 where r4: "?ring 4 = Inr r4" using N shr by (cases "?ring 4") auto
    obtain r128 where r128: "?ring 128 = Inr r128" using N shr r4 by (cases "?ring 128") auto
    obtain low where low: "low_ratio_kv_bytes E ?kvb = Inr low"
      using N shr r4 r128 by (cases "low_ratio_kv_bytes E ?kvb") auto
    obtain win where win: "(if de_encoder_replay E then request_window_bytes align E ?kvb ?adim ?layers else Inr 0) = Inr win"
      using N shr r4 r128 low
      by (cases "if de_encoder_replay E then request_window_bytes align E ?kvb ?adim ?layers else Inr 0")
        (auto simp del: if_split_asm split: if_splits)
    obtain st where st: "state_dtype_size (de_state_dtype E) = Inr st"
      using N shr r4 r128 low win by (cases "state_dtype_size (de_state_dtype E)") (auto split: if_splits)
    have c: "\<not> (de_speculative E \<and> \<not> ring_serves E r4 r128 ?c4 ?c128)"
      "\<not> (de_encoder_replay E \<and> de_dspark E \<and> paged \<le> 0)"
      "\<not> (\<not> de_encoder_replay E \<and> (de_window_size E = 0 \<or> de_speculative E \<and> ?layers = 0))"
      "\<not> (de_online_compress E \<and> \<not> (de_no_spec E \<or> de_experimental_mtp E \<and> de_eagle E \<and> 0 < de_max_draft E))"
      using N shr r4 r128 low win st unfolding paged_def by (auto split: if_split_asm)
    have f: "1 \<le> ?shr" "0 < r4" "0 < low" "0 < st"
      using shr ring_nonneg [OF r4] low_kv_pos [OF low kvb] state_size_pos [OF st] by simp_all
    note R = N [unfolded r4 r128 low sum.case prod.case if_not_P [OF shr] paged_def [symmetric] if_not_P [OF c(1)]
      if_not_P [OF c(2)] win st if_not_P [OF c(3)] if_not_P [OF c(4)], unfolded sum.inject, symmetric]
    show ?thesis
      by (rule that [of ?shr r4 low st "if de_encoder_replay E \<and> paged = 0 then Some 0
            else resolve_swa_cap align E (map_option (\<lambda>m. m div de_dp_size E) (de_max_running E))", OF f])
        (use c(3) in \<open>simp_all add: R scale_def r_def\<close>)
  qed
  have e: "0 < ?kvb" "0 \<le> ?adim" "0 \<le> paged" "0 \<le> r"
    using assms(2) by (auto simp: env_ok_def paged_def r_def split: option.splits)
  have c: "0 < ?c4 \<or> 0 < ?c128"
    using assms(2) filter_pos [of "\<lambda>r. r = 4" "de_ratios E"] filter_pos [of "\<lambda>r. r = 128" "de_ratios E"]
    by (auto simp: env_ok_def)
  have s: "0 < scale" using p(7) by (auto simp: scale_def)
  have "0 \<le> swa_token_bytes E ?kvb ?adim ?layers ?c4 r4 st paged"
    by (rule swa_bytes_nonneg [OF assms(2)]) (use e f in simp_all)
  moreover have "0 < full_token_unit ?kvb (indexer_bytes_per_token (de_index_dim E) (de_fp4_indexer E)) (low_ratio_per_full E low) ?c4 ?c128 shr"
    by (rule full_unit_pos [OF e(1) _ _ f(1) _ _ c]) (use f(3) assms(2) indexer_bytes_nonneg low_ratio_nonneg in \<open>auto simp: env_ok_def\<close>)
  ultimately show ?thesis using s e(4) assms(2) p(1-6)
    by (auto simp: dsv4_ok_def full_token_bytes_def algebra_simps env_ok_def)
qed

section \<open>The contract\<close>

definition dsv4_valid :: "dsv4 \<Rightarrow> int \<Rightarrow> bool" where
  "dsv4_valid p page \<longleftrightarrow> dsv4_ok p \<and> 0 < page"

text \<open>The bytes of a configuration: request windows and request states at their fixed size, the
  sliding-window slots and the full tokens.\<close>

definition dsv4_cost :: "(int \<Rightarrow> int \<Rightarrow> int) \<Rightarrow> dsv4 \<Rightarrow> int \<Rightarrow> pool_config \<Rightarrow> real" where
  "dsv4_cost cd p page c =
     real_of_int (c128_fixed_bytes cd p (the (requested p))) + real_of_int (window_bytes p)
     + real_of_int (the (swa_max_total c)) * bytes_per_swa p + real_of_int (max_total_num_tokens c) * full_unit p"

lemma dsv4_config_Inr:
  "dsv4_config p n page = Inr c \<Longrightarrow>
     max_total_num_tokens c = floor_align n page \<and> 0 < floor_align n page \<and>
     full_max_total c = Some (floor_align n page) \<and>
     swa_max_total c = Some (dsv4_swa_tokens p (floor_align n page) page)"
  by (auto simp: dsv4_config_def Let_def make_config_Inr split_config_def plain_config_def)

lemma dsv4_swa_mono:
  assumes "dsv4_ok p" "0 < page" "a \<le> b"
  shows "dsv4_swa_tokens p a page \<le> dsv4_swa_tokens p b page"
  using assms
  by (auto simp: dsv4_swa_tokens_def dsv4_ok_def split: option.split
      intro!: floor_align_mono py_int_mono mult_right_mono)

text \<open>The fixed bytes and the marginal bytes of a token are all that a configuration costs.\<close>

lemma dsv4_swa_bytes:
  assumes "dsv4_ok p" "0 < page" "0 \<le> full"
  shows "real_of_int (dsv4_swa_tokens p full page) * bytes_per_swa p + real_of_int full * full_unit p
    \<le> (swa_fixed_bytes p - real_of_int (window_bytes p)) + real_of_int full * bytes_per_full p"
proof (cases "swa_cap p")
  case (Some k)
  then show ?thesis using assms(1) by (simp add: dsv4_swa_tokens_def swa_fixed_bytes_def dsv4_ok_def)
next
  case None
  have r: "0 \<le> real_of_int full * ratio p" using assms by (simp add: dsv4_ok_def)
  have "real_of_int (dsv4_swa_tokens p full page) \<le> real_of_int (py_int (real_of_int full * ratio p))"
    using None floor_align_le [OF assms(2)] by (simp add: dsv4_swa_tokens_def)
  then have "real_of_int (dsv4_swa_tokens p full page) \<le> real_of_int full * ratio p"
    using py_int_le [OF r] by linarith
  then have "real_of_int (dsv4_swa_tokens p full page) * bytes_per_swa p \<le> real_of_int full * ratio p * bytes_per_swa p"
    using assms(1) by (intro mult_right_mono) (simp_all add: dsv4_ok_def)
  then show ?thesis using None assms(1) by (simp add: swa_fixed_bytes_def dsv4_ok_def algebra_simps)
qed

lemma bytes_per_full_pos: "dsv4_ok p \<Longrightarrow> 0 < bytes_per_full p"
  by (auto simp: dsv4_ok_def intro!: add_nonneg_pos)

lemma dsv4_sizes_cost:
  assumes "dsv4_valid p page" "dsv4_sizes cd p avail page = Inr c"
  shows "0 < max_total_num_tokens c \<and> page dvd max_total_num_tokens c \<and> dsv4_cost cd p page c \<le> real_of_int avail"
proof -
  have ok: "dsv4_ok p" "0 < page" using assms(1) by (simp_all add: dsv4_valid_def)
  obtain m where m: "requested p = Some m" using ok(1) by (auto simp: dsv4_ok_def)
  have b: "0 < bytes_per_full p" by (rule bytes_per_full_pos [OF ok(1)])
  define fixed where "fixed = real_of_int (c128_fixed_bytes cd p m) + swa_fixed_bytes p"
  define n where "n = py_int (max (real_of_int avail - fixed) 0 / bytes_per_full p)"
  have c: "dsv4_config p n page = Inr c"
    using assms(2) m by (auto simp: dsv4_sizes_def n_def fixed_def Let_def split: if_splits)
  note C = dsv4_config_Inr [OF c]
  have q: "0 \<le> max (real_of_int avail - fixed) 0 / bytes_per_full p" using b by simp
  have "real_of_int (floor_align n page) \<le> max (real_of_int avail - fixed) 0 / bytes_per_full p"
    using floor_align_le [OF ok(2), of n] py_int_le [OF q] unfolding n_def by linarith
  then have t: "real_of_int (floor_align n page) * bytes_per_full p \<le> max (real_of_int avail - fixed) 0"
    using b by (simp add: pos_le_divide_eq)
  have "0 < real_of_int (floor_align n page) * bytes_per_full p" using C b by simp
  then have "real_of_int (floor_align n page) * bytes_per_full p \<le> real_of_int avail - fixed"
    using t by linarith
  then show ?thesis
    using C dsv4_swa_bytes [OF ok, of "floor_align n page"] m ok(2) by (simp add: dsv4_cost_def fixed_def)
qed

lemma dsv4_from_fit:
  assumes "dsv4_valid p page" "dsv4_from_tokens p n page = Inr c"
  shows "0 < max_total_num_tokens c \<and> page dvd max_total_num_tokens c \<and> max_total_num_tokens c \<le> n"
  using assms dsv4_config_Inr [of p n page c] floor_align_le [of page n]
  by (auto simp: dsv4_from_tokens_def dsv4_valid_def split: if_splits)

lemma dsv4_cheaper:
  assumes "dsv4_valid p page" "dsv4_sizes cd p avail page = Inr c" "n \<le> max_total_num_tokens c"
    and "dsv4_from_tokens p n page = Inr c'"
  shows "dsv4_cost cd p page c' \<le> dsv4_cost cd p page c"
proof -
  have ok: "dsv4_ok p" "0 < page" using assms(1) by (simp_all add: dsv4_valid_def)
  obtain m where m: "dsv4_config p m page = Inr c"
    using assms(2) by (auto simp: dsv4_sizes_def Let_def split: if_splits)
  have n: "dsv4_config p n page = Inr c'" using assms(4) by (simp add: dsv4_from_tokens_def split: if_splits)
  note M = dsv4_config_Inr [OF m] and N = dsv4_config_Inr [OF n]
  have le: "floor_align n page \<le> floor_align m page"
    using assms(3) M floor_align_le [OF ok(2), of n] by linarith
  show ?thesis using M N le dsv4_swa_mono [OF ok le] ok(1)
    by (auto simp: dsv4_cost_def dsv4_ok_def intro!: add_mono mult_right_mono)
qed

interpretation dsv4_pool: pool_sizer "dsv4_valid p" "dsv4_sizes cd p" "dsv4_from_tokens p" "dsv4_cost cd p" for cd p
  by unfold_locales (fact dsv4_sizes_cost dsv4_from_fit dsv4_cheaper)+

end
