(* ===== verification/PoolSizing.thy ===== *)
theory PoolSizing
  imports PoolDsv4Facts
begin

text \<open>
  The properties of the pool configurators: whatever the ranks profile, the sizes they agree on fit into
  every one of them; the unified search is exact; the request states that are fixed late stay within
  their reservation; the estimate of a compressed cache covers the layout that is built.
\<close>

section \<open>Sizes that fit\<close>

text \<open>The pages of the full pool alone.\<close>

lemma allocation_covers_full:
  assumes "hybrid_ok p" "align_ok align" "0 < page" "0 < full_layers p"
    and "case fixed of None \<Rightarrow> True | Some s \<Rightarrow> 0 \<le> s" "0 \<le> j"
  shows "j * page * (full_per_token p * full_layers p) \<le> allocation_bytes align p page fixed j"
proof -
  define swa where "swa = (case fixed of Some s \<Rightarrow> s | None \<Rightarrow> swa_tokens_of p (j * page) page)"
  define span where "span = max ((j * page * (full_per_token p * full_layers p) + swa * (swa_per_token p * swa_layers p))
    div (full_per_token p * full_layers p) - 1) 0"
  have "0 \<le> swa" using assms(3,5,6) swa_tokens_le(1) [OF assms(1,3), of "j * page"]
    by (auto simp: swa_def split: option.splits)
  then have s: "0 \<le> swa * (swa_per_token p * swa_layers p)" using assms(1) by (simp add: hybrid_ok_def)
  have "0 \<le> align span page" unfolding align_eq [OF assms(2,3)]
    by (rule ceil_align_nonneg [OF assms(3)]) (simp add: span_def)
  then have "0 \<le> (align span page + page) * draft_pool_bytes p"
    using assms(3) draft_bytes_nonneg [OF assms(1)] by simp
  then show ?thesis using s unfolding allocation_bytes_def Let_def swa_def [symmetric] span_def [symmetric]
    by linarith
qed


definition sample_load :: request_load where
  "sample_load = \<lparr>rl_draft_tokens = Some 4, rl_eviction_interval = 1, rl_speculative = True, rl_overlap_disabled = False,
     rl_spec_v1_alloc = 8, rl_alloc_len = 8, rl_max_running = 2, rl_decode_node = False, rl_extra_slots = 0,
     rl_chunked_prefill = 256\<rparr>"

definition sample_env :: dsv4_env where
  "sample_env = \<lparr>de_nope_dim = 448, de_rope_dim = 64, de_index_dim = 128, de_fp4_indexer = False,
     de_context_len = 4096, de_ratios = [4, 128, 1], de_source_ratios = [1], de_window_size = 128,
     de_operator_ratio = None, de_sliding_window = Some 128, de_page = 128, de_speculative = True,
     de_max_draft = 4, de_dp_size = 1, de_max_running = Some 2, de_decode_node = False, de_extra_slots = 0,
     de_hisparse_ratio = None, de_online_compress = False, de_online_c128 = False, de_experimental_mtp = False,
     de_eagle = True, de_no_spec = False, de_encoder_replay = False, de_dspark = False, de_draft_layers = 0,
     de_chunked_prefill = Some 256, de_prefix_tails = None, de_radix_disabled = False,
     de_state_dtype = ''fp32'', de_kv_mode = ''fork-v4-fp4'', de_kv_option = ''auto'', de_sm120 = True,
     de_load = sample_load\<rparr>"

definition sample_dsv4 :: dsv4 where
  "sample_dsv4 = \<lparr>kv_bytes = 584, attn_head_dim = 512, index_dim = 128, index_bytes = 132, layers_total = 3,
     layers_ca4 = 1, layers_ca128 = 1, low_ratio_bytes = 356, ring4 = 16, ring128 = 256, swa_page = 128,
     ratio = 1 / 10, swa_cap = Some 3328, window_bytes = 0, bytes_per_swa = 12128 / 3, bytes_per_full = 8633 / 12,
     full_unit = 8633 / 12, shrink = 1, online = False, mtp_draft = 4, requested = Some 2, decode_node = False,
     extra_slots = 0, context_len = 4096, state_size = 4\<rparr>"

lemma sample_dsv4_eq: "new_dsv4 ceil_align sample_env = Inr sample_dsv4"
  by (simp add: sample_dsv4_def new_dsv4_def sample_env_def compress_state_ring_size_def low_ratio_kv_bytes_def
      fp4_low_ratio_def state_dtype_size_def str_strip_def is_space_def str_lower_def lower_char_def ring_serves_def
      compress_state_write_pad_def Let_def resolve_swa_cap_def swa_request_cap_def sample_load_def ceil_align_def
      ceil_div_def resolve_prefix_tails_def indexer_bytes_per_token_def low_ratio_per_full_def swa_token_bytes_def
      full_token_unit_def full_token_bytes_def)

definition sample_config :: "int \<Rightarrow> int \<Rightarrow> int \<Rightarrow> int \<Rightarrow> pool_config" where
  "sample_config n c4 c128 c4s = (split_config n n 3328)\<lparr>c4_max_total := c4, c128_max_total := c128,
     c4_state_pool := c4s, c128_state_pool := 0\<rparr>"




text \<open>The same holds for a sliding-window model whose pools are sized by ratio, unified or separate,
  draft layers included.\<close>

theorem hybrid_pools_fit_every_rank:
  assumes "hybrid_ok p" "align_ok align" "0 < page"
    and "list_all2 (\<lambda>avail c. hybrid_sizes align p avail page = Inr c) avails cs"
    and "list_all (\<lambda>c. n \<le> max_total_num_tokens c) cs" "hybrid_from_tokens p n page = Inr c'"
  shows "list_all2 (\<lambda>avail c. hybrid_cost align p page c \<le> real_of_int avail \<and> page dvd max_total_num_tokens c) avails cs
    \<and> list_all (\<lambda>avail. hybrid_cost align p page c' \<le> real_of_int avail) avails
    \<and> page dvd max_total_num_tokens c' \<and> 0 < max_total_num_tokens c' \<and> max_total_num_tokens c' \<le> n"
proof -
  have v: "hybrid_valid align p page" using assms(1-3) by (simp add: hybrid_valid_def)
  have "list_all2 (\<lambda>avail c. hybrid_cost align p page c \<le> real_of_int avail \<and> page dvd max_total_num_tokens c) avails cs"
    using assms(4) by (rule list_all2_mono) (use hybrid_pool.sizes_fit [OF v] in blast)
  then show ?thesis
    using hybrid_pool.ranks_fit [OF v assms(4-6)] hybrid_pool.from_tokens_fit [OF v assms(6)] by simp
qed

definition sample_hybrid :: hybrid_pool where
  "sample_hybrid = \<lparr>full_layers = 2, swa_layers = 2, full_per_token = 100, swa_per_token = 50, swa_ratio = 1 / 2,
     sliding_window = Some 16, hp_page_size = 16, unified_memory = True, draft_full_layers = 1, draft_swa_layers = 0,
     draft_swa_full_layers = 0, draft_cell_size = 0\<rparr>"

lemmas sample_hybrid_sizing = sample_hybrid_def hybrid_sizes_def hybrid_from_tokens_def solve_pool_sizes_def
  max_unified_full_tokens_def bisect_right_def allocation_bytes_def draft_pool_bytes_def swa_tokens_of_def
  make_config_def ceil_align_def ceil_div_def floor_align_def py_int_def Let_def floor_divide_eq_div_numeral

lemma sample_search: "max_unified_full_tokens ceil_align sample_hybrid 100000 16 None = Inr 256"
  by (simp add: sample_hybrid_sizing) (simp add: bisect_loop.simps sample_hybrid_sizing)

lemma sample_hybrid_sizes:
  "hybrid_sizes ceil_align sample_hybrid 100000 16 = Inr (split_config 256 256 128)"
  "hybrid_from_tokens sample_hybrid 200 16 = Inr (split_config 192 192 96)"
  using sample_search by (simp_all add: sample_hybrid_sizing)

lemma hybrid_pools_fit_every_rank_witness:
  "hybrid_cost ceil_align sample_hybrid 16 (split_config 192 192 96) \<le> 100000"
  using hybrid_pools_fit_every_rank [of sample_hybrid ceil_align 16 "[100000]" "[split_config 256 256 128]" 200
      "split_config 192 192 96"] sample_hybrid_sizes align_ok_ceil
  by (simp add: hybrid_ok_def sample_hybrid_def)

text \<open>When the sliding-window pool has a fixed size, the configuration of every rank and the common
  one fit into each rank's bytes, the pool of a draft with its own geometry apart.\<close>

theorem chunk_cap_pools_fit_every_rank:
  assumes "hybrid_ok p" "align_ok align" "0 < page" "0 < full_layers p"
    and "list_all2 (\<lambda>avail c. chunk_cap_sizes align p cap avail page = Inr c) avails cs"
    and "list_all (\<lambda>c. n \<le> max_total_num_tokens c) cs" "chunk_cap_from_tokens align cap n page = Inr c'"
  shows "list_all2 (\<lambda>avail c. cap_cost align p page c \<le> real_of_int avail \<and> page dvd max_total_num_tokens c) avails cs
    \<and> list_all (\<lambda>avail. cap_cost align p page c' \<le> real_of_int avail) avails
    \<and> page dvd max_total_num_tokens c' \<and> 0 < max_total_num_tokens c' \<and> max_total_num_tokens c' \<le> n"
proof -
  have v: "cap_valid align p page" using assms(1-4) by (simp add: hybrid_valid_def cap_valid_def)
  have "list_all2 (\<lambda>avail c. cap_cost align p page c \<le> real_of_int avail \<and> page dvd max_total_num_tokens c) avails cs"
    using assms(5) by (rule list_all2_mono) (use chunk_cap_pool.sizes_fit [OF v] in blast)
  then show ?thesis
    using chunk_cap_pool.ranks_fit [OF v assms(5-7)] chunk_cap_pool.from_tokens_fit [OF v assms(7)] by simp
qed

definition sample_cap :: hybrid_pool where
  "sample_cap = sample_hybrid\<lparr>unified_memory := False, draft_full_layers := 0\<rparr>"

lemmas sample_cap_sizing = sample_cap_def chunk_cap_sizes_def chunk_cap_from_tokens_def cap_full_cell_size_def
  cap_fixed_swa_bytes_def

lemma sample_cap_sizes:
  "chunk_cap_sizes ceil_align sample_cap 100 100000 16 = Inr (split_config 432 432 112)"
  "chunk_cap_from_tokens ceil_align 100 400 16 = Inr (split_config 400 400 112)"
  by (simp_all add: sample_cap_sizing sample_hybrid_def make_config_def ceil_align_def ceil_div_def floor_align_def Let_def)

lemma chunk_cap_pools_fit_every_rank_witness:
  "cap_cost ceil_align sample_cap 16 (split_config 400 400 112) \<le> 100000"
  using chunk_cap_pools_fit_every_rank [of sample_cap ceil_align 16 100 "[100000]" "[split_config 432 432 112]" 400
      "split_config 400 400 112"] sample_cap_sizes align_ok_ceil
  by (simp add: hybrid_ok_def sample_cap_def sample_hybrid_def)

text \<open>The fixed configurator does not reserve a draft's own bytes: with separate pools it returns the
  same sizes whatever a token of the draft costs, where the ratio configurator charges it.\<close>

theorem chunk_cap_draft_unreserved:
  assumes "\<not> unified_memory p"
  shows "chunk_cap_sizes align (p\<lparr>draft_cell_size := d\<rparr>) cap avail page = chunk_cap_sizes align p cap avail page
    \<and> hybrid_cell_size (p\<lparr>draft_cell_size := d\<rparr>) = hybrid_cell_size p + real_of_int d - real_of_int (draft_cell_size p)"
proof -
  have "cap_full_cell_size (p\<lparr>draft_cell_size := d\<rparr>) = cap_full_cell_size p"
    "cap_fixed_swa_bytes (p\<lparr>draft_cell_size := d\<rparr>) swa = cap_fixed_swa_bytes p swa" for swa
    by (simp_all add: cap_full_cell_size_def cap_fixed_swa_bytes_def)
  then show ?thesis using assms by (simp add: chunk_cap_sizes_def hybrid_cell_size_def Let_def)
qed

lemma chunk_cap_draft_unreserved_witness:
  "chunk_cap_sizes ceil_align (sample_cap\<lparr>draft_cell_size := 100\<rparr>) 100 100000 16 = Inr (split_config 432 432 112)
   \<and> 100000 < split_bytes (sample_cap\<lparr>draft_cell_size := 100\<rparr>) 432 112"
  using chunk_cap_draft_unreserved [of sample_cap ceil_align 100 100 100000 16] sample_cap_sizes
  by (simp add: split_bytes_def sample_cap_sizing sample_hybrid_def)

section \<open>The search\<close>

lemma int_below_mult:
  fixes a d e j :: int
  assumes "0 < d" "0 < e" "a div d div e < j"
  shows "a < j * e * d"
proof -
  have "a div (d * e) < j" using assms by (simp add: zdiv_zmult2_eq)
  then have "d * e * (a div (d * e) + 1) \<le> d * e * j" using assms by (intro mult_left_mono) simp_all
  moreover have "a mod (d * e) < d * e" using assms(1,2) by simp
  then have "a < d * e * (a div (d * e) + 1)"
    using mult_div_mod_eq [of "d * e" a] unfolding distrib_left by linarith
  ultimately show ?thesis by (simp add: algebra_simps)
qed

text \<open>The binary search for the size of a unified pool is exact: what it returns is a whole number of
  pages that fits with the draft's span, and no larger number of pages fits.\<close>

theorem unified_search_exact:
  assumes "hybrid_ok p" "align_ok align" "0 < page" "0 < full_layers p" "0 \<le> avail"
    and "case fixed of None \<Rightarrow> True | Some s \<Rightarrow> 0 \<le> s"
    and "max_unified_full_tokens align p avail page fixed = Inr n"
  shows "\<exists>k\<ge>0. n = k * page \<and> (k = 0 \<or> allocation_bytes align p page fixed k \<le> avail)
    \<and> \<not> (\<exists>j>k. allocation_bytes align p page fixed j \<le> avail)"
proof -
  let ?tf = "full_per_token p * full_layers p" and ?f = "allocation_bytes align p page fixed"
  let ?m = "avail div ?tf div page + 1"
  define k where "k = max (bisect_right ?f ?m avail - 1) 0"
  have tf: "0 < ?tf" using assms(1,4) by (simp add: hybrid_ok_def)
  have n: "n = k * page" using assms(7) tf by (simp add: max_unified_full_tokens_def Let_def k_def)
  note mono = allocation_mono_on [OF assms(1-4)]
  have fit: "k = 0 \<or> ?f k \<le> avail"
    using bisect_right_split(1) [where n = ?m and f = ?f and x = avail, OF mono] by (auto simp: k_def max_def)
  have "\<not> ?f j \<le> avail" if "k < j" for j
  proof (cases "j < ?m")
    case True
    then show ?thesis using bisect_right_split(2) [where n = ?m and f = ?f and x = avail and i = j, OF mono] that
      by (auto simp: k_def)
  next
    case False
    then have j: "0 \<le> j" "avail div ?tf div page < j" using that by (simp_all add: k_def)
    have "avail < j * page * ?tf"
      using int_below_mult [OF tf assms(3) j(2)] by (simp add: mult.assoc)
    then show ?thesis using allocation_covers_full [OF assms(1-4,6) j(1)] by (simp add: not_le)
  qed
  then show ?thesis using n fit by (intro exI [of _ k]) (auto simp: k_def)
qed

lemma unified_search_exact_witness:
  "allocation_bytes ceil_align sample_hybrid 16 None 16 \<le> 100000
   \<and> \<not> (\<exists>j>16. allocation_bytes ceil_align sample_hybrid 16 None j \<le> 100000)"
proof -
  obtain k where "256 = k * (16::int)" "k = 0 \<or> allocation_bytes ceil_align sample_hybrid 16 None k \<le> 100000"
    "\<not> (\<exists>j>k. allocation_bytes ceil_align sample_hybrid 16 None j \<le> 100000)"
    using unified_search_exact [of sample_hybrid ceil_align 16 100000 None 256] sample_search align_ok_ceil
    by (auto simp: hybrid_ok_def sample_hybrid_def)
  moreover have "k = 16" using calculation(1) by simp
  ultimately show ?thesis by simp
qed

section \<open>States that are sized late\<close>

lemma new_dsv4_rings: "new_dsv4 align E = Inr p \<Longrightarrow> 0 < ring128 p \<and> 0 \<le> mtp_draft p \<and> extra_slots p = de_extra_slots E"
  unfolding new_dsv4_def Let_def
  by (auto dest: ring_nonneg split: sum.splits if_split_asm)

text \<open>The states of the ratio-128 layers belong to requests and are sized only when the number of
  running requests is final. For any number up to the requested one, the finished pool with its guard
  ring and guard row stays within the rows reserved when the token pools were sized; no other size
  changes. \<open>cd\<close> is the library's \<open>ceil_div\<close>.\<close>

theorem c128_states_reserved:
  assumes "new_dsv4 align E = Inr p" "\<And>x. x \<le> cd x 128 * 128"
    and "requested p = Some q" "pc_max_running c = Some m" "0 \<le> m" "m \<le> q" "0 \<le> de_extra_slots E"
    and "dsv4_finalize p c = Inr c'"
  shows "(c128_state_pool c' + ring128 p + 1) * (if online p then 1 + mtp_draft p else 1) \<le> c128_state_rows cd p q
    \<and> c' = c\<lparr>c128_state_pool := c128_state_pool c'\<rparr>"
proof -
  have r: "0 < ring128 p" "0 \<le> mtp_draft p" "0 \<le> extra_slots p"
    using new_dsv4_rings [OF assms(1)] assms(7) by simp_all
  have s: "num_req_slots p m \<le> num_req_slots p q" using assms(6) by (simp add: num_req_slots_def)
  have c': "c' = c\<lparr>c128_state_pool := (if online p then num_req_slots p m else num_req_slots p m * ring128 p)\<rparr>"
    using assms(4,8) by (simp add: dsv4_finalize_def)
  show ?thesis
  proof (cases "online p")
    case True
    have "(num_req_slots p m + ring128 p + 1) * (1 + mtp_draft p) \<le> (num_req_slots p q + ring128 p + 1) * (1 + mtp_draft p)"
      using s r by (intro mult_right_mono) simp_all
    then show ?thesis using True c' by (simp add: c128_state_rows_def Let_def)
  next
    case False
    have "num_req_slots p m * ring128 p \<le> num_req_slots p q * ring128 p" using s r by (intro mult_right_mono) simp_all
    then show ?thesis using False c' assms(2) [of "num_req_slots p q * ring128 p + ring128 p + 1"]
      by (simp add: c128_state_rows_def Let_def)
  qed
qed

lemma c128_states_reserved_witness:
  "dsv4_finalize sample_dsv4 ((sample_config 9472 2368 74 416)\<lparr>pc_max_running := Some 2\<rparr>)
     = Inr ((sample_config 9472 2368 74 416)\<lparr>pc_max_running := Some 2, c128_state_pool := 768\<rparr>)
   \<and> 768 + 256 + 1 \<le> c128_state_rows ceil_div sample_dsv4 2"
  using c128_states_reserved [OF sample_dsv4_eq, of ceil_div 2 "(sample_config 9472 2368 74 416)\<lparr>pc_max_running := Some 2\<rparr>" 2
      "(sample_config 9472 2368 74 416)\<lparr>pc_max_running := Some 2, c128_state_pool := 768\<rparr>"]
    ceil_align_ge [of 128]
  by (simp add: dsv4_finalize_def num_req_slots_def sample_dsv4_def sample_env_def ceil_align_def)

section \<open>The estimate of the low compression ratios\<close>

lemma str_lower_idem [simp]: "str_lower (str_lower s) = str_lower s"
proof -
  have "lower_char (lower_char c) = lower_char c" for c
    by (auto simp: lower_char_def)
  then show ?thesis by (simp add: str_lower_def)
qed

lemma str_lower_fp4: "str_lower ''fp4'' = ''fp4''"
  by (simp add: str_lower_def lower_char_def)

text \<open>With the standard head sizes the bytes reserved for a position of a ratio-1 or ratio-2 layer are
  never fewer than the bytes of the layout the pool picks for that layer.\<close>

theorem low_ratio_estimate_covers:
  assumes "low_ratio_kv_bytes E 584 = Inr low"
    and "select_dsv4_kv_layout sm100 supported (de_kv_mode E) (de_kv_option E) = Inr (main, opt)"
    and "r = 1 \<or> r = 2" "resolve_compressed_kv_layout main r opt = Inr l"
  shows "bytes_per_token l \<le> low"
proof -
  have small: "bytes_per_token x \<le> 584" "bytes_per_token V41_FP4 = 288" for x
    by (cases x; simp add: bytes_per_token_def)+
  show ?thesis
  proof (cases "fp4_low_ratio (de_kv_mode E) (de_kv_option E)")
    case True
    then have "low = 288" using assms(1) by (simp add: low_ratio_kv_bytes_def split: if_splits)
    moreover have "l = V41_FP4"
      using True assms(2-4)
      by (auto simp: fp4_low_ratio_def select_dsv4_kv_layout_def resolve_compressed_kv_layout_def Let_def
          str_lower_fp4 split: if_splits)
    ultimately show ?thesis using small(2) by simp
  next
    case False
    then show ?thesis using assms(1) small(1) by (simp add: low_ratio_kv_bytes_def)
  qed
qed

lemma low_ratio_estimate_covers_witness:
  "resolve_compressed_kv_layout V4 1 (Some ''fp4'') = Inr V41_FP4 \<and> bytes_per_token V41_FP4 \<le> 288"
  using low_ratio_estimate_covers [of sample_env 288 False False V4 "Some ''fp4''" 1 V41_FP4]
  by (simp add: low_ratio_kv_bytes_def fp4_low_ratio_def sample_env_def select_dsv4_kv_layout_def
      resolve_compressed_kv_layout_def str_lower_def lower_char_def)

text \<open>The estimate is not the mirror of the layout choice that its comment announces. When the fork
  layout is combined with a compressed option other than \<open>auto\<close> and \<open>fp4\<close>, the pool still stores 288 bytes
  a position and the estimate counts the full latent.\<close>

theorem fork_estimate_exceeds_layout:
  assumes "str_lower (de_kv_mode E) = ''fork-v4-fp4''" "str_lower (de_kv_option E) \<notin> {''auto'', ''fp4''}"
  shows "low_ratio_kv_bytes E 584 = Inr 584
    \<and> select_dsv4_kv_layout sm100 supported (de_kv_mode E) (de_kv_option E) = Inr (V4, Some ''fp4'')
    \<and> resolve_compressed_kv_layout V4 1 (Some ''fp4'') = Inr V41_FP4 \<and> bytes_per_token V41_FP4 = 288"
  using assms
  by (simp add: low_ratio_kv_bytes_def fp4_low_ratio_def select_dsv4_kv_layout_def resolve_compressed_kv_layout_def
      str_lower_fp4 bytes_per_token_def)

lemma fork_estimate_exceeds_layout_witness:
  "low_ratio_kv_bytes (sample_env\<lparr>de_kv_option := ''fp8''\<rparr>) 584 = Inr 584"
  using fork_estimate_exceeds_layout [of "sample_env\<lparr>de_kv_option := ''fp8''\<rparr>"]
  by (simp add: sample_env_def str_lower_def lower_char_def)

text \<open>The layout \<open>v41\<close> with the compressed option \<open>fp4\<close> cannot start on any device: sizing the pools
  asserts one generation of devices and choosing the layout of the pool asserts another.\<close>

theorem v41_fp4_never_starts:
  assumes "str_lower (de_kv_mode E) = ''v41''" "str_lower (de_kv_option E) = ''fp4''" "\<not> (sm100 \<and> de_sm120 E)"
  shows "(\<exists>e. new_dsv4 align E = Inl e)
    \<or> select_dsv4_kv_layout sm100 supported (de_kv_mode E) (de_kv_option E) = Inl AssertionError"
proof (cases sm100)
  case True
  then have low: "low_ratio_kv_bytes E k = Inl AssertionError" for k
    using assms by (simp add: low_ratio_kv_bytes_def fp4_low_ratio_def)
  have "\<exists>e. new_dsv4 align E = Inl e"
    unfolding new_dsv4_def Let_def low by (auto split: sum.splits)
  then show ?thesis ..
next
  case False
  then show ?thesis using assms by (simp add: select_dsv4_kv_layout_def)
qed

lemma v41_fp4_never_starts_witness:
  "select_dsv4_kv_layout False True ''v41'' ''fp4'' = Inl AssertionError"
proof -
  let ?E = "sample_env\<lparr>de_kv_mode := ''v41'', de_kv_option := ''fp4''\<rparr>"
  have "(\<exists>e. new_dsv4 ceil_align ?E = Inl e)
      \<or> select_dsv4_kv_layout False True (de_kv_mode ?E) (de_kv_option ?E) = Inl AssertionError"
    by (rule v41_fp4_never_starts) (simp_all add: sample_env_def str_lower_def lower_char_def)
  then show ?thesis by (simp add: select_dsv4_kv_layout_def str_lower_def lower_char_def)
qed

end
