(* ===== verification/EngramHash.thy ===== *)
theory EngramHash
  imports Tensors "HOL-Library.Signed_Division"
begin

text \<open>
  Hash ids of the engram memory: the kernels of \<open>sglang-overlay/engram_hash.py\<close> and the class
  \<open>EngramHasher\<close> of \<open>sglang-overlay/engram.py\<close> with its torch path. A token is hashed together with
  its predecessors, which come from the batch or from a row of history per request. Row-major
  buffers are lists of rows; a program of a kernel does its loads before its stores, as the block
  semantics of Triton has it; programs run in the order of an argument.
\<close>

unbundle bit_operations_syntax

section \<open>The hasher\<close>

record hasher =
  ngram :: nat
  eh_pad :: int
  token_map :: "int list"
  multipliers :: "int list list"
  hprimes :: "int list list list"
  hoffsets :: "int list list"
  image_token :: "int option"
  ehistory :: "int list list option"
  pad_row :: nat

definition mm_pad_shift :: int where
  "mm_pad_shift = 1000000"

definition init_history :: "nat \<Rightarrow> hasher \<Rightarrow> hasher" where
  "init_history slots h = h\<lparr>ehistory := Some (replicate (slots + 1) (replicate (ngram h - 1) 0)), pad_row := slots\<rparr>"

datatype kmode = MODE_DECODE | MODE_VERIFY | MODE_EXTEND

section \<open>The hash kernel\<close>

record kargs =
  ka_ids :: "int list"
  ka_pos :: "int list"
  ka_row :: "int list"
  ka_starts :: "int list"
  ka_slots :: "int list option"
  ka_map :: "int list"
  ka_mult :: "int list list"
  ka_primes :: "int list list list"
  ka_offsets :: "int list list"
  ka_out_loc :: "int list option"
  ka_write :: bool
  ka_num_tokens :: nat
  ka_num_real :: nat
  ka_pad :: int
  ka_image :: "int option"
  ka_shift :: int
  ka_mode :: kmode
  ka_block :: nat
  ka_n :: nat
  ka_l :: nat
  ka_h :: nat

text \<open>What the kernel writes: the history, the table of predecessors and the hash ids.\<close>

record kmem =
  km_hist :: "int list list"
  km_tokens :: "int list list"
  km_out :: "int list list list"

definition peek2 :: "(int \<Rightarrow> int) \<Rightarrow> int list list \<Rightarrow> int \<Rightarrow> int \<Rightarrow> int" where
  "peek2 oob mem r c = (if 0 \<le> r \<and> r < len mem then peek oob (mem ! nat r) c else oob c)"

text \<open>Lanes: \<open>t\<close> is the token, \<open>s\<close> the shift.\<close>

definition lane_row :: "(int \<Rightarrow> int) \<Rightarrow> kargs \<Rightarrow> nat \<Rightarrow> int" where
  "lane_row oob K t =
     (case ka_mode K of
        MODE_DECODE \<Rightarrow> int t
      | MODE_VERIFY \<Rightarrow> int (t div ka_block K)
      | MODE_EXTEND \<Rightarrow> (if t < ka_num_real K then peek oob (ka_row K) (int t) else 0))"

definition lane_off :: "(int \<Rightarrow> int) \<Rightarrow> kargs \<Rightarrow> nat \<Rightarrow> int" where
  "lane_off oob K t =
     (case ka_mode K of
        MODE_DECODE \<Rightarrow> 0
      | MODE_VERIFY \<Rightarrow> int t - int (t div ka_block K) * int (ka_block K)
      | MODE_EXTEND \<Rightarrow> int t - cast I32 (if t < ka_num_real K then peek oob (ka_starts K) (lane_row oob K t) else 0))"

definition lane_hrow :: "(int \<Rightarrow> int) \<Rightarrow> kargs \<Rightarrow> nat \<Rightarrow> int" where
  "lane_hrow oob K t =
     (case ka_slots K of
        Some slots \<Rightarrow> if t < ka_num_real K then peek oob slots (lane_row oob K t) else 0
      | None \<Rightarrow> lane_row oob K t)"

definition lane_tok :: "(int \<Rightarrow> int) \<Rightarrow> kargs \<Rightarrow> int list list \<Rightarrow> nat \<Rightarrow> nat \<Rightarrow> int" where
  "lane_tok oob K hist t s =
     (let off = lane_off oob K t; n = int (ka_n K);
          from_batch = peek oob (ka_ids K) (max (int t - int s) 0);
          hcol = min (max (n - 2 - (int s - off - 1)) 0) (n - 2);
          from_hist = peek2 oob hist (lane_hrow oob K t) hcol;
          tok = (if t < ka_num_real K then if int s \<le> off then from_batch else from_hist else 0)
      in case ka_image K of None \<Rightarrow> tok | Some im \<Rightarrow> if ka_shift K \<le> tok then im else tok)"

definition lane_blk :: "(int \<Rightarrow> int) \<Rightarrow> kargs \<Rightarrow> int list list \<Rightarrow> nat \<Rightarrow> nat \<Rightarrow> bool" where
  "lane_blk oob K hist t s \<longleftrightarrow>
     cast I32 (peek oob (ka_pos K) (int t)) < int s \<or> \<not> t < ka_num_real K
     \<or> (case ka_image K of None \<Rightarrow> False | Some im \<Rightarrow> lane_tok oob K hist t s = im)"

definition lane_blocked :: "(int \<Rightarrow> int) \<Rightarrow> kargs \<Rightarrow> int list list \<Rightarrow> nat \<Rightarrow> nat \<Rightarrow> bool" where
  "lane_blocked oob K hist t s \<longleftrightarrow>
     0 < sum_list (map (\<lambda>s'. if lane_blk oob K hist t s' then 1 else 0 :: nat) [0..<Suc s])"

definition lane_comp :: "(int \<Rightarrow> int) \<Rightarrow> kargs \<Rightarrow> int list list \<Rightarrow> nat \<Rightarrow> nat \<Rightarrow> int" where
  "lane_comp oob K hist t s =
     (if lane_blocked oob K hist t s then ka_pad K else peek oob (ka_map K) (lane_tok oob K hist t s))"

definition mul64 :: "int \<Rightarrow> int \<Rightarrow> 64 word" where
  "mul64 x y = word_of_int x * word_of_int y"

text \<open>\<open>xor_sum\<close> of the first \<open>i + 1\<close> products, and the ids of a token for one layer.\<close>

definition lane_rolling :: "(int \<Rightarrow> int) \<Rightarrow> kargs \<Rightarrow> int list list \<Rightarrow> nat \<Rightarrow> nat \<Rightarrow> nat \<Rightarrow> 64 word" where
  "lane_rolling oob K hist t l i =
     foldr (XOR) (map (\<lambda>s. if s \<le> i then mul64 (lane_comp oob K hist t s) (ka_mult K ! l ! s) else 0) [0..<ka_n K]) 0"

definition lane_hash :: "(int \<Rightarrow> int) \<Rightarrow> kargs \<Rightarrow> int list list \<Rightarrow> nat \<Rightarrow> nat \<Rightarrow> int list" where
  "lane_hash oob K hist t l =
     concat (map (\<lambda>i. map (\<lambda>h. cast I64 (sint (lane_rolling oob K hist t l i) smod (ka_primes K ! l ! (i - 1) ! h)
         + ka_offsets K ! l ! ((i - 1) * ka_h K + h))) [0..<ka_h K]) [1..<ka_n K])"

definition lane_live :: "(int \<Rightarrow> int) \<Rightarrow> kargs \<Rightarrow> nat \<Rightarrow> bool" where
  "lane_live oob K t \<longleftrightarrow>
     (case ka_out_loc K of None \<Rightarrow> False | Some loc \<Rightarrow> t < ka_num_real K \<and> peek oob loc (int t) \<noteq> 0)"

text \<open>The stores of the lanes of one token: its hash ids, its predecessors when they are asked for and, when
  the kernel commits, the row of its request, which the token and its newest predecessors fill from the right.\<close>

definition store_token :: "(int \<Rightarrow> int) \<Rightarrow> kargs \<Rightarrow> int list list \<Rightarrow> nat \<Rightarrow> kmem \<Rightarrow> kmem" where
  "store_token oob K hist t m =
     (let r = lane_hrow oob K t in
      m\<lparr>km_tokens := (if ka_write K then (km_tokens m)[t := map (\<lambda>s. cast I32 (lane_tok oob K hist t s)) [0..<ka_n K]]
          else km_tokens m),
        km_out := (km_out m)[t := map (lane_hash oob K hist t) [0..<ka_l K]],
        km_hist := (if lane_live oob K t \<and> 0 \<le> r
          then (km_hist m)[nat r := map (\<lambda>c. cast I32 (lane_tok oob K hist t (ka_n K - 2 - c))) [0..<ka_n K - 1]]
          else km_hist m)\<rparr>)"

definition hash_program :: "(int \<Rightarrow> int) \<Rightarrow> kargs \<Rightarrow> nat \<Rightarrow> nat \<Rightarrow> kmem \<Rightarrow> kmem" where
  "hash_program oob K block_t pid m =
     fold (store_token oob K (km_hist m))
       (filter (\<lambda>t. t < ka_num_tokens K) (map (\<lambda>lane. pid * block_t + lane) [0..<block_t])) m"

definition hash_kernel :: "(int \<Rightarrow> int) \<Rightarrow> kargs \<Rightarrow> nat \<Rightarrow> nat list \<Rightarrow> kmem \<Rightarrow> kmem" where
  "hash_kernel oob K block_t order m = fold (hash_program oob K block_t) order m"

text \<open>\<open>_launch_hash_kernel\<close>: the assertions, then the launch; the outputs hold anything before.\<close>

definition pow2 :: "nat \<Rightarrow> bool" where
  "pow2 n \<longleftrightarrow> n AND (n - 1) = 0"

definition shapes_ok :: "kargs \<Rightarrow> int list list \<Rightarrow> bool" where
  "shapes_ok K hist \<longleftrightarrow>
     pow2 (ka_n K) \<and> pow2 (ka_h K)
     \<and> length (ka_primes K) = ka_l K \<and> list_all (\<lambda>p. length p = ka_n K - 1 \<and> list_all (\<lambda>q. length q = ka_h K) p) (ka_primes K)
     \<and> length (ka_offsets K) = ka_l K \<and> list_all (\<lambda>q. length q = (ka_n K - 1) * ka_h K) (ka_offsets K)
     \<and> list_all (\<lambda>r. length r = ka_n K - 1) hist
     \<and> (case ka_out_loc K of None \<Rightarrow> True
        | Some loc \<Rightarrow> ka_mode K = MODE_DECODE \<and> ka_slots K \<noteq> None \<and> length loc = ka_num_tokens K)"

definition launch_hash_kernel ::
    "(int \<Rightarrow> int) \<Rightarrow> kargs \<Rightarrow> nat \<Rightarrow> nat list \<Rightarrow> kmem \<Rightarrow> py_error + kmem" where
  "launch_hash_kernel oob K block_t order m =
     (if \<not> shapes_ok K (km_hist m) then Inl AssertionError
      else if ka_num_tokens K = 0 then Inr m
      else Inr (hash_kernel oob K block_t order m))"

section \<open>The commit kernel\<close>

text \<open>\<open>_engram_commit_history_kernel\<close> for row \<open>row\<close> of the batch: the row of its request moves on by the
  number of committed tokens.\<close>

definition commit_lane :: "(int \<Rightarrow> int) \<Rightarrow> nat \<Rightarrow> int list \<Rightarrow> int list \<Rightarrow> int \<Rightarrow> nat \<Rightarrow> int" where
  "commit_lane oob n1 old verify c col =
     (let src = c + int col in cast I32 (if src < int n1 then peek oob old src else peek oob verify (src - int n1)))"

definition commit_program ::
    "(int \<Rightarrow> int) \<Rightarrow> int list list \<Rightarrow> int list \<Rightarrow> int list \<Rightarrow> nat \<Rightarrow> int list list \<Rightarrow> int list list" where
  "commit_program oob verify slots commits row hist =
     (let s = nat (slots ! row); old = hist ! s
      in hist[s := map (commit_lane oob (length old) old (verify ! row) (commits ! row)) [0..<length old]])"

definition engram_commit_history ::
    "(int \<Rightarrow> int) \<Rightarrow> int list list \<Rightarrow> int list \<Rightarrow> int list \<Rightarrow> nat list \<Rightarrow> int list list \<Rightarrow> int list list" where
  "engram_commit_history oob verify slots commits order hist = fold (commit_program oob verify slots commits) order hist"

section \<open>The torch path\<close>

text \<open>\<open>compute_engram_hash_ids\<close> for one token: its compressed ids are multiplied, folded and bucketed.\<close>

definition torch_compressed :: "hasher \<Rightarrow> int list \<Rightarrow> bool list \<Rightarrow> py_error + int list" where
  "torch_compressed h tokens blocked =
     sequence (map (\<lambda>(tok, b). map_sum id (\<lambda>k. if b then eh_pad h else token_map h ! k)
       (torch_index (length (token_map h)) tok)) (zip tokens blocked))"

definition torch_rolling :: "int list \<Rightarrow> int list \<Rightarrow> nat \<Rightarrow> 64 word" where
  "torch_rolling cids mult i = foldl (\<lambda>acc s. acc XOR mul64 (cids ! s) (mult ! s)) (mul64 (cids ! 0) (mult ! 0)) [1..<Suc i]"

definition torch_hash :: "hasher \<Rightarrow> int list \<Rightarrow> nat \<Rightarrow> int list" where
  "torch_hash h cids l =
     map2 (\<lambda>x o'. cast I64 (x + o'))
       (concat (map (\<lambda>i. map (\<lambda>p. sint (torch_rolling cids (multipliers h ! l) i) mod p) (hprimes h ! l ! (i - 1))) [1..<ngram h]))
       (hoffsets h ! l)"

definition compute_engram_hash_ids :: "hasher \<Rightarrow> int list \<Rightarrow> bool list \<Rightarrow> py_error + int list list" where
  "compute_engram_hash_ids h tokens blocked =
     map_sum id (\<lambda>cids. map (torch_hash h cids) [0..<length (multipliers h)]) (torch_compressed h tokens blocked)"

text \<open>\<open>_torch_hash_ids\<close>: the request and offset of a token, its predecessors, the blocked shifts.\<close>

definition torch_place :: "kmode \<Rightarrow> nat \<Rightarrow> int list \<Rightarrow> int list \<Rightarrow> nat \<Rightarrow> py_error + int \<times> int" where
  "torch_place m block row starts t =
     (case m of
        MODE_EXTEND \<Rightarrow> map_sum id (\<lambda>k. (row ! t, int t - starts ! k)) (torch_index (length starts) (row ! t))
      | _ \<Rightarrow> Inr (int (t div block), int t - int (t div block) * int block))"

definition torch_preds :: "nat \<Rightarrow> int list \<Rightarrow> int list list \<Rightarrow> nat \<Rightarrow> int \<times> int \<Rightarrow> py_error + int list" where
  "torch_preds n ids hist t place =
     (case place of (r, off) \<Rightarrow>
       map_sum id (\<lambda>k. map (\<lambda>s. if int s \<le> off then ids ! nat (max (int t - int s) 0)
           else hist ! k ! nat (min (max (int n - 2 - (int s - off - 1)) 0) (int n - 2))) [0..<n])
         (torch_index (length hist) r))"

definition torch_tokens ::
    "nat \<Rightarrow> int list \<Rightarrow> kmode \<Rightarrow> int list list \<Rightarrow> nat \<Rightarrow> nat \<Rightarrow> int list \<Rightarrow> int list \<Rightarrow> py_error + int list list" where
  "torch_tokens n ids m hist num_real block row starts =
     (if m = MODE_DECODE then
        (if length hist \<noteq> length ids then Inl (RuntimeError ''cat'') else Inr (map2 (\<lambda>x r. x # rev r) ids hist))
      else if length ids < num_real then Inl IndexError
      else sequence (tabulate num_real (\<lambda>t. case torch_place m block row starts t of
             Inl e \<Rightarrow> Inl e | Inr place \<Rightarrow> torch_preds n ids hist t place)))"

definition torch_fill :: "hasher \<Rightarrow> int \<Rightarrow> int" where
  "torch_fill h tok = (case image_token h of None \<Rightarrow> tok | Some im \<Rightarrow> if mm_pad_shift \<le> tok then im else tok)"

definition torch_blocked :: "hasher \<Rightarrow> nat \<Rightarrow> int list \<Rightarrow> nat \<Rightarrow> int list \<Rightarrow> bool list" where
  "torch_blocked h num_real pos t tokens =
     (let b = map (\<lambda>s. num_real \<le> t \<or> pos ! t < int s) [0..<ngram h] in
      case image_token h of
        None \<Rightarrow> b
      | Some im \<Rightarrow> map (\<lambda>s. list_ex (\<lambda>s'. b ! s' \<or> tokens ! s' = im) [0..<Suc s]) [0..<ngram h])"

definition torch_hash_ids ::
    "hasher \<Rightarrow> int list \<Rightarrow> int list \<Rightarrow> kmode \<Rightarrow> int list list \<Rightarrow> nat \<Rightarrow> nat \<Rightarrow> int list \<Rightarrow> int list
     \<Rightarrow> py_error + int list list list \<times> int list list" where
  "torch_hash_ids h ids pos m hist num_real block row starts =
     (case torch_tokens (ngram h) ids m hist num_real block row starts of
        Inl e \<Rightarrow> Inl e
      | Inr reals \<Rightarrow>
          (let tokens = map (map (torch_fill h)) (reals @ replicate (length ids - num_real) (replicate (ngram h) 0)) in
           case sequence (map (\<lambda>t. compute_engram_hash_ids h (tokens ! t) (torch_blocked h num_real pos t (tokens ! t)))
                  [0..<length tokens]) of
             Inl e \<Rightarrow> Inl e
           | Inr out \<Rightarrow> Inr (out, tokens)))"

section \<open>One forward pass\<close>

datatype forward_mode = Decode | TargetVerify nat | Extend | OtherMode

record eng_batch =
  eb_mode :: forward_mode
  eb_slots :: "int list"
  eb_positions :: "int list"
  eb_out_loc :: "int list option"
  eb_lens :: "int list"
  eb_starts :: "int list"
  eb_ngram_history :: "int list list option"

text \<open>What \<open>forward\<close> works out before it branches on the device.\<close>

record plan =
  pl_mode :: kmode
  pl_num_real :: nat
  pl_block :: nat
  pl_row :: "int list"
  pl_starts :: "int list"
  pl_history :: "int list list"
  pl_via_slots :: bool
  pl_commit :: "(int list \<times> int list option) option"

definition repeat_interleave :: "int list \<Rightarrow> int list" where
  "repeat_interleave lens = concat (map (\<lambda>i. replicate (nat (lens ! i)) (int i)) [0..<length lens])"

definition forward_plan :: "hasher \<Rightarrow> int list list \<Rightarrow> nat \<Rightarrow> eng_batch \<Rightarrow> py_error + plan" where
  "forward_plan h hist num_tokens B =
     (let slots = eb_slots B in
      case eb_mode B of
        Decode \<Rightarrow> Inr \<lparr>pl_mode = MODE_DECODE, pl_num_real = num_tokens, pl_block = 1, pl_row = [], pl_starts = [],
            pl_history = hist, pl_via_slots = True, pl_commit = Some (slots, None)\<rparr>
      | TargetVerify block \<Rightarrow>
          if num_tokens \<noteq> length slots * block then Inl AssertionError
          else Inr \<lparr>pl_mode = MODE_VERIFY, pl_num_real = num_tokens, pl_block = block, pl_row = [], pl_starts = [],
            pl_history = hist, pl_via_slots = True, pl_commit = None\<rparr>
      | Extend \<Rightarrow>
          (let row = repeat_interleave (eb_lens B) in
           Inr \<lparr>pl_mode = MODE_EXTEND, pl_num_real = length row, pl_block = 1, pl_row = row, pl_starts = eb_starts B,
             pl_history = (case eb_ngram_history B of Some g \<Rightarrow> g | None \<Rightarrow> hist),
             pl_via_slots = (eb_ngram_history B = None),
             pl_commit = Some (map2 (\<lambda>n r. if 0 < n then r else int (pad_row h)) (eb_lens B) slots,
               Some (map2 (\<lambda>s n. min (max (s + n - 1) 0) (int num_tokens - 1)) (eb_starts B) (eb_lens B)))\<rparr>)
      | OtherMode \<Rightarrow> Inl AssertionError)"

definition kargs_of :: "hasher \<Rightarrow> int list \<Rightarrow> eng_batch \<Rightarrow> plan \<Rightarrow> int list option \<Rightarrow> kargs" where
  "kargs_of h ids B P out_loc =
     \<lparr>ka_ids = ids, ka_pos = eb_positions B, ka_row = pl_row P, ka_starts = pl_starts P,
      ka_slots = (if pl_via_slots P then Some (eb_slots B) else None), ka_map = token_map h, ka_mult = multipliers h,
      ka_primes = hprimes h, ka_offsets = hoffsets h, ka_out_loc = out_loc, ka_write = (out_loc = None), ka_num_tokens = length ids,
      ka_num_real = pl_num_real P, ka_pad = eh_pad h, ka_image = image_token h, ka_shift = mm_pad_shift,
      ka_mode = pl_mode P, ka_block = pl_block P, ka_n = ngram h, ka_l = length (multipliers h),
      ka_h = (case hprimes h of [] \<Rightarrow> 0 | p # _ \<Rightarrow> (case p of [] \<Rightarrow> 0 | q # _ \<Rightarrow> length q))\<rparr>"

text \<open>\<open>engram_hash_ids\<close> and \<open>engram_hash_ids_and_commit\<close>, with the arguments \<open>forward\<close> gives them.
  \<open>order\<close> is the order of the programs, \<open>fresh\<close> what new buffers hold.\<close>

definition engram_hash_ids ::
    "(int \<Rightarrow> int) \<Rightarrow> nat list \<Rightarrow> (int list list \<times> int list list list) \<Rightarrow> hasher \<Rightarrow> int list \<Rightarrow> eng_batch \<Rightarrow> plan \<Rightarrow> py_error + kmem" where
  "engram_hash_ids oob order fresh h ids B P =
     launch_hash_kernel oob (kargs_of h ids B P None) 32 order
       \<lparr>km_hist = pl_history P, km_tokens = fst fresh, km_out = snd fresh\<rparr>"

definition engram_hash_ids_and_commit ::
    "(int \<Rightarrow> int) \<Rightarrow> nat list \<Rightarrow> (int list list \<times> int list list list) \<Rightarrow> hasher \<Rightarrow> int list list \<Rightarrow> int list \<Rightarrow> eng_batch
     \<Rightarrow> plan \<Rightarrow> int list \<Rightarrow> py_error + kmem" where
  "engram_hash_ids_and_commit oob order fresh h hist ids B P loc =
     launch_hash_kernel oob (kargs_of h ids B P (Some loc)) 32 order
       \<lparr>km_hist = hist, km_tokens = fst fresh, km_out = snd fresh\<rparr>"

text \<open>The commit at the end of \<open>forward\<close>: rows whose output location is 0 go to the padding row.\<close>

definition commit_targets :: "hasher \<Rightarrow> int list option \<Rightarrow> int list \<Rightarrow> int list option \<Rightarrow> py_error + int list" where
  "commit_targets h out_loc rows cut_at =
     (case out_loc of
        None \<Rightarrow> Inr rows
      | Some loc \<Rightarrow>
          (case (case cut_at of None \<Rightarrow> Inr loc
                 | Some js \<Rightarrow> sequence (map (\<lambda>j. map_sum id (\<lambda>k. loc ! k) (torch_index (length loc) j)) js)) of
             Inl e \<Rightarrow> Inl e
           | Inr ls \<Rightarrow> Inr (map2 (\<lambda>l r. if l = 0 then int (pad_row h) else r) ls rows)))"

definition commit_rows :: "hasher \<Rightarrow> int list list \<Rightarrow> int list \<Rightarrow> int list list \<Rightarrow> py_error + int list list" where
  "commit_rows h hist targets last_tokens =
     (case sequence (map (torch_index (length hist)) targets) of
        Inl e \<Rightarrow> Inl e
      | Inr ks \<Rightarrow> Inr (fold (\<lambda>(k, toks) hist. hist[k := map (cast I32) (rev (take (ngram h - 1) toks))])
          (zip ks last_tokens) hist))"

definition forward_commit ::
    "hasher \<Rightarrow> int list list \<Rightarrow> eng_batch \<Rightarrow> plan \<Rightarrow> int list list \<Rightarrow> py_error + hasher" where
  "forward_commit h hist B P tokens =
     (case pl_commit P of
        None \<Rightarrow> Inr h
      | Some (rows, cut_at) \<Rightarrow>
          (case (case cut_at of None \<Rightarrow> Inr tokens
                 | Some js \<Rightarrow> sequence (map (\<lambda>j. map_sum id (\<lambda>k. tokens ! k) (torch_index (length tokens) j)) js)) of
             Inl e \<Rightarrow> Inl e
           | Inr last_tokens \<Rightarrow>
               (case commit_targets h (eb_out_loc B) rows cut_at of
                  Inl e \<Rightarrow> Inl e
                | Inr targets \<Rightarrow>
                    (case commit_rows h hist targets last_tokens of
                       Inl e \<Rightarrow> Inl e
                     | Inr hist' \<Rightarrow> Inr (h\<lparr>ehistory := Some hist'\<rparr>)))))"

text \<open>\<open>EngramHasher.forward\<close>: on a device the kernels, elsewhere the torch path.\<close>

definition forward_cuda ::
    "(int \<Rightarrow> int) \<Rightarrow> nat list \<Rightarrow> (int list list \<times> int list list list) \<Rightarrow> hasher \<Rightarrow> int list list \<Rightarrow> int list \<Rightarrow> eng_batch \<Rightarrow> plan
     \<Rightarrow> py_error + int list list list \<times> hasher" where
  "forward_cuda oob order fresh h hist ids B P =
     (if pl_mode P = MODE_DECODE then
        (case eb_out_loc B of
           None \<Rightarrow> Inl AssertionError
         | Some loc \<Rightarrow>
             (case engram_hash_ids_and_commit oob order fresh h hist ids B P loc of
                Inl e \<Rightarrow> Inl e
              | Inr m \<Rightarrow> Inr (km_out m, h\<lparr>ehistory := Some (km_hist m)\<rparr>)))
      else
        (case engram_hash_ids oob order fresh h ids B P of
           Inl e \<Rightarrow> Inl e
         | Inr m \<Rightarrow> map_sum id (\<lambda>h'. (km_out m, h')) (forward_commit h hist B P (km_tokens m))))"

definition forward_torch ::
    "hasher \<Rightarrow> int list list \<Rightarrow> int list \<Rightarrow> eng_batch \<Rightarrow> plan \<Rightarrow> py_error + int list list list \<times> hasher" where
  "forward_torch h hist ids B P =
     (case (if pl_via_slots P
            then sequence (map (\<lambda>r. map_sum id (\<lambda>k. pl_history P ! k) (torch_index (length (pl_history P)) r)) (eb_slots B))
            else Inr (pl_history P)) of
        Inl e \<Rightarrow> Inl e
      | Inr rows \<Rightarrow>
          (case torch_hash_ids h ids (eb_positions B) (pl_mode P) rows (pl_num_real P) (pl_block P) (pl_row P) (pl_starts P) of
             Inl e \<Rightarrow> Inl e
           | Inr (out, tokens) \<Rightarrow> map_sum id (\<lambda>h'. (out, h')) (forward_commit h hist B P tokens)))"

definition engram_forward ::
    "bool \<Rightarrow> (int \<Rightarrow> int) \<Rightarrow> nat list \<Rightarrow> (int list list \<times> int list list list) \<Rightarrow> hasher \<Rightarrow> int list \<Rightarrow> eng_batch
     \<Rightarrow> py_error + int list list list \<times> hasher" where
  "engram_forward cuda oob order fresh h ids B =
     (case ehistory h of
        None \<Rightarrow> Inl AssertionError
      | Some hist \<Rightarrow>
          if ids = [] then Inr ([], h)
          else (case forward_plan h hist (length ids) B of
                  Inl e \<Rightarrow> Inl e
                | Inr P \<Rightarrow> if cuda then forward_cuda oob order fresh h hist ids B P else forward_torch h hist ids B P))"

text \<open>\<open>commit_after_verify\<close>.\<close>

definition commit_after_verify ::
    "bool \<Rightarrow> (int \<Rightarrow> int) \<Rightarrow> nat list \<Rightarrow> hasher \<Rightarrow> int list list \<Rightarrow> int list \<Rightarrow> int list \<Rightarrow> py_error + hasher" where
  "commit_after_verify cuda oob order h verify slots commits =
     (case ehistory h of
        None \<Rightarrow> Inl AssertionError
      | Some hist \<Rightarrow>
          if cuda then Inr (h\<lparr>ehistory := Some (engram_commit_history oob verify slots commits order hist)\<rparr>)
          else
            (case sequence (map (torch_index (length hist)) slots) of
               Inl e \<Rightarrow> Inl e
             | Inr ks \<Rightarrow>
                 (let windows = map2 (\<lambda>k v. hist ! k @ map (cast I32) v) ks verify in
                  if \<not> list_all2 (\<lambda>w c. 0 \<le> c \<and> c + int (ngram h - 1) \<le> len w) windows commits then Inl IndexError
                  else Inr (h\<lparr>ehistory := Some (fold (\<lambda>(k, w, c) hist. hist[k := take (ngram h - 1) (drop (nat c) w)])
                    (zip ks (zip windows commits)) hist)\<rparr>))))"

end
