(* ===== verification/EngramFacts.thy ===== *)
theory EngramFacts
  imports EngramHash
begin

text \<open>
  The hash ids do not depend on the device nor on how a request reached a position. The reference is
  \<open>ngram_ids\<close>: the ids of a position computed from the request's whole sequence. The lemmas go from the
  arithmetic (folding and bucketing on 64-bit words) over one launch, whatever the order of its programs,
  to the passes of a batch.
\<close>

unbundle bit_operations_syntax

section \<open>Folding and bucketing\<close>

lemma foldr_xor: "foldr (XOR) xs a = foldr (XOR) xs 0 XOR (a :: 64 word)"
  by (induction xs) (simp_all add: xor.assoc)

lemma foldr_xor_zeros: "\<forall>x \<in> set xs. x = 0 \<Longrightarrow> foldr (XOR) xs (0 :: 64 word) = 0"
  by (induction xs) simp_all

lemma foldl_as_foldr:
  "foldl (\<lambda>acc s. acc XOR f s) (f 0) [1..<Suc i] = foldr (XOR) (map f [0..<Suc i]) (0 :: 64 word)"
proof (induction i)
  case (Suc i)
  have "foldl (\<lambda>acc s. acc XOR f s) (f 0) [1..<Suc (Suc i)] = foldr (XOR) (map f [0..<Suc i]) 0 XOR f (Suc i)"
    using Suc by simp
  then show ?case by (simp add: foldr_xor [of _ "f (Suc i)"] foldr_xor [of _ "f i XOR f (Suc i)"] foldr_xor [of _ "f i"] xor.assoc)
qed simp

lemma foldr_cut:
  assumes "i < n"
  shows "foldr (XOR) (map (\<lambda>s. if s \<le> i then f s else 0) [0..<n]) (0 :: 64 word) = foldr (XOR) (map f [0..<Suc i]) 0"
proof -
  have s: "[0..<n] = [0..<Suc i] @ [Suc i..<n]" using assms upt_add_eq_append [of 0 "Suc i" "n - Suc i"] by simp
  have "foldr (XOR) (map (\<lambda>s. if s \<le> i then f s else 0) [Suc i..<n]) 0 = 0"
    by (rule foldr_xor_zeros) auto
  moreover have "map (\<lambda>s. if s \<le> i then f s else 0) [0..<Suc i] = map f [0..<Suc i]" by (intro map_cong) auto
  ultimately show ?thesis unfolding s map_append foldr_append by (simp only:)
qed

lemma sint_nonneg_msb: "0 \<le> sint w \<longleftrightarrow> \<not> bit w 63" for w :: "64 word"
  by (simp add: sint_uint bit_uint_iff)

lemma foldr_xor_nonneg: "\<forall>x \<in> set xs. 0 \<le> sint x \<Longrightarrow> 0 \<le> sint (foldr (XOR) xs (0 :: 64 word))"
  by (induction xs) (simp_all add: sint_nonneg_msb bit_xor_iff)

lemma mul64_sint:
  assumes "0 \<le> x * y" "x * y < 2 ^ 63"
  shows "sint (mul64 x y) = x * y"
  using assms by (simp add: mul64_def sint_sbintrunc' signed_take_bit_int_eq_self flip: of_int_mult)

lemma smod_nonneg: "0 \<le> a \<Longrightarrow> 0 < b \<Longrightarrow> a smod b = a mod b" for a b :: int
  by (cases "a = 0") (simp_all add: signed_modulo_int_def)

section \<open>The hasher's tables\<close>

text \<open>Multiplying a compressed id never leaves 63 bits, buckets are not empty, the shapes fit.\<close>

definition hasher_ok :: "hasher \<Rightarrow> bool" where
  "hasher_ok h \<longleftrightarrow>
     2 \<le> ngram h \<and> pow2 (ngram h)
     \<and> list_all (\<lambda>m. length m = ngram h
         \<and> list_all (\<lambda>x. list_all (\<lambda>c. 0 \<le> c * x \<and> c * x < 2 ^ 63) (eh_pad h # token_map h)) m) (multipliers h)
     \<and> (\<exists>heads. pow2 heads \<and> 0 < heads \<and> length (hprimes h) = length (multipliers h)
         \<and> list_all (\<lambda>p. length p = ngram h - 1 \<and> list_all (\<lambda>q. length q = heads \<and> list_all (\<lambda>b. 0 < b) q) p) (hprimes h)
         \<and> length (hoffsets h) = length (multipliers h) \<and> list_all (\<lambda>q. length q = (ngram h - 1) * heads) (hoffsets h))
     \<and> (case image_token h of None \<Rightarrow> True | Some im \<Rightarrow> 0 \<le> im \<and> im < mm_pad_shift \<and> im < len (token_map h))
     \<and> length (token_map h) \<le> 2 ^ 31 \<and> multipliers h \<noteq> []"

text \<open>A token the map knows, images included.\<close>

definition tok_ok :: "hasher \<Rightarrow> int \<Rightarrow> bool" where
  "tok_ok h x \<longleftrightarrow> fits I32 x \<and> 0 \<le> torch_fill h x \<and> torch_fill h x < len (token_map h)"

lemma tok_ok_fits: "tok_ok h x \<Longrightarrow> fits I32 x"
  by (simp add: tok_ok_def)

lemma fill_fits:
  assumes "hasher_ok h" "tok_ok h x"
  shows "fits I32 (torch_fill h x)"
proof -
  have "len (token_map h) \<le> 2 ^ 31" using assms(1) unfolding hasher_ok_def by (metis of_nat_le_iff of_nat_numeral of_nat_power)
  then show ?thesis using assms(2) by (simp add: tok_ok_def fits_I32)
qed

lemma fill_fill [simp]: "hasher_ok h \<Longrightarrow> torch_fill h (torch_fill h x) = torch_fill h x"
  by (auto simp: torch_fill_def hasher_ok_def split: option.splits)

lemma tok_ok_fill: "hasher_ok h \<Longrightarrow> tok_ok h x \<Longrightarrow> tok_ok h (torch_fill h x)"
  by (simp add: tok_ok_def fill_fits)

text \<open>The number of heads is what the shape of the primes says.\<close>

definition heads_of :: "hasher \<Rightarrow> nat" where
  "heads_of h = (case hprimes h of [] \<Rightarrow> 0 | p # _ \<Rightarrow> (case p of [] \<Rightarrow> 0 | q # _ \<Rightarrow> length q))"

lemma hasher_heads:
  assumes "hasher_ok h"
  shows "pow2 (heads_of h)" "0 < heads_of h" "length (hprimes h) = length (multipliers h)"
    "length (hoffsets h) = length (multipliers h)"
    "l < length (multipliers h) \<Longrightarrow> length (hprimes h ! l) = ngram h - 1"
    "l < length (multipliers h) \<Longrightarrow> i < ngram h - 1 \<Longrightarrow> length (hprimes h ! l ! i) = heads_of h"
    "l < length (multipliers h) \<Longrightarrow> i < ngram h - 1 \<Longrightarrow> b < heads_of h \<Longrightarrow> 0 < hprimes h ! l ! i ! b"
    "l < length (multipliers h) \<Longrightarrow> length (hoffsets h ! l) = (ngram h - 1) * heads_of h"
proof -
  obtain heads where H: "pow2 heads" "0 < heads" "length (hprimes h) = length (multipliers h)"
    "list_all (\<lambda>p. length p = ngram h - 1 \<and> list_all (\<lambda>q. length q = heads \<and> list_all (\<lambda>b. 0 < b) q) p) (hprimes h)"
    "length (hoffsets h) = length (multipliers h)" "list_all (\<lambda>q. length q = (ngram h - 1) * heads) (hoffsets h)"
    "multipliers h \<noteq> []" "2 \<le> ngram h"
    using assms by (auto simp: hasher_ok_def)
  have "heads_of h = heads"
  proof -
    obtain p ps where p: "hprimes h = p # ps" using H(3,7) by (cases "hprimes h") auto
    then obtain q qs where "p = q # qs" using H(4,8) by (cases p) auto
    then show ?thesis using p H(4) by (simp add: heads_of_def)
  qed
  then show "pow2 (heads_of h)" "0 < heads_of h" "length (hprimes h) = length (multipliers h)"
    "length (hoffsets h) = length (multipliers h)"
    "l < length (multipliers h) \<Longrightarrow> length (hprimes h ! l) = ngram h - 1"
    "l < length (multipliers h) \<Longrightarrow> i < ngram h - 1 \<Longrightarrow> length (hprimes h ! l ! i) = heads_of h"
    "l < length (multipliers h) \<Longrightarrow> i < ngram h - 1 \<Longrightarrow> b < heads_of h \<Longrightarrow> 0 < hprimes h ! l ! i ! b"
    "l < length (multipliers h) \<Longrightarrow> length (hoffsets h ! l) = (ngram h - 1) * heads_of h"
    using H by (auto simp: list_all_length)
qed

lemma hasher_product:
  assumes "hasher_ok h" "l < length (multipliers h)" "s < ngram h" "c = eh_pad h \<or> c \<in> set (token_map h)"
  shows "0 \<le> sint (mul64 c (multipliers h ! l ! s))"
proof -
  have "0 \<le> c * (multipliers h ! l ! s) \<and> c * (multipliers h ! l ! s) < 2 ^ 63"
  proof -
    have m: "multipliers h ! l \<in> set (multipliers h)" using assms(2) by simp
    have "length (multipliers h ! l) = ngram h" using assms(1) m by (simp add: hasher_ok_def list_all_iff)
    then have x: "multipliers h ! l ! s \<in> set (multipliers h ! l)" using assms(3) by simp
    have c: "c \<in> set (eh_pad h # token_map h)" using assms(4) by auto
    have "list_all (\<lambda>m. length m = ngram h
         \<and> list_all (\<lambda>x. list_all (\<lambda>c. 0 \<le> c * x \<and> c * x < 2 ^ 63) (eh_pad h # token_map h)) m) (multipliers h)"
      using assms(1) unfolding hasher_ok_def by blast
    then show ?thesis using m x c unfolding list_all_iff by blast
  qed
  then show ?thesis using mul64_sint by simp
qed

section \<open>One token\<close>

text \<open>Compressed ids of a token and what both devices make of them.\<close>

definition cids_ok :: "hasher \<Rightarrow> int list \<Rightarrow> bool" where
  "cids_ok h cs \<longleftrightarrow> length cs = ngram h \<and> list_all (\<lambda>c. c = eh_pad h \<or> c \<in> set (token_map h)) cs"

lemma rolling_nonneg:
  assumes "hasher_ok h" "l < length (multipliers h)" "cids_ok h cs" "i < ngram h"
  shows "0 \<le> sint (torch_rolling cs (multipliers h ! l) i)"
proof -
  have "0 \<le> sint (mul64 (cs ! s) (multipliers h ! l ! s))" if "s < ngram h" for s
  proof (rule hasher_product [OF assms(1,2) that])
    show "cs ! s = eh_pad h \<or> cs ! s \<in> set (token_map h)" using assms(3) that by (simp add: cids_ok_def list_all_length)
  qed
  then show ?thesis
    unfolding torch_rolling_def foldl_as_foldr [of "\<lambda>s. mul64 (cs ! s) (multipliers h ! l ! s)"]
    using assms(4) by (intro foldr_xor_nonneg) auto
qed

lemma length_concat_const:
  "(\<And>x. x \<in> set xs \<Longrightarrow> length (f x) = k) \<Longrightarrow> length (concat (map f xs)) = length xs * k"
  by (induction xs) simp_all

lemma concat_blocks:
  assumes "i < n" "j < k" "\<And>i. i < n \<Longrightarrow> length (f i) = k"
  shows "concat (map f [0..<n]) ! (i * k + j) = f i ! j"
  using assms
proof (induction n)
  case (Suc n)
  have l: "length (concat (map f [0..<n])) = n * k"
    using length_concat_const [of "[0..<n]" f k] Suc(4) by simp
  show ?case
  proof (cases "i < n")
    case True
    then have "Suc i * k \<le> n * k" by (intro mult_le_mono1) simp
    then have "i * k + j < n * k" using Suc(3) by simp
    then show ?thesis using Suc True l by (simp add: nth_append)
  next
    case False
    then show ?thesis using Suc(2,3) l by (simp add: nth_append less_Suc_eq)
  qed
qed simp

text \<open>The arguments of the kernel that come from the hasher.\<close>

definition kargs_ok :: "hasher \<Rightarrow> kargs \<Rightarrow> bool" where
  "kargs_ok h K \<longleftrightarrow>
     ka_map K = token_map h \<and> ka_mult K = multipliers h \<and> ka_primes K = hprimes h \<and> ka_offsets K = hoffsets h
     \<and> ka_pad K = eh_pad h \<and> ka_image K = image_token h \<and> ka_shift K = mm_pad_shift \<and> ka_n K = ngram h
     \<and> ka_l K = length (multipliers h) \<and> ka_h K = heads_of h"

lemma kargs_of_ok [simp]: "kargs_ok h (kargs_of h ids B P loc)"
  by (simp add: kargs_ok_def kargs_of_def heads_of_def)

lemma lane_hash_torch:
  assumes "hasher_ok h" "kargs_ok h K" "l < length (multipliers h)"
    and "cs = map (lane_comp oob K hist t) [0..<ngram h]" "cids_ok h cs"
  shows "lane_hash oob K hist t l = torch_hash h cs l"
proof -
  note K = assms(2) [unfolded kargs_ok_def]
  note H = hasher_heads [OF assms(1)]
  have roll: "lane_rolling oob K hist t l i = torch_rolling cs (multipliers h ! l) i" if "i < ngram h" for i
  proof -
    let ?f = "\<lambda>s. mul64 (lane_comp oob K hist t s) (multipliers h ! l ! s)"
    have "lane_rolling oob K hist t l i = foldr (XOR) (map ?f [0..<Suc i]) 0"
      using K foldr_cut [OF that, of ?f] by (simp add: lane_rolling_def cong: if_cong)
    also have "\<dots> = foldr (XOR) (map (\<lambda>s. mul64 (cs ! s) (multipliers h ! l ! s)) [0..<Suc i]) 0"
      using that assms(4) by (intro arg_cong [where f = "\<lambda>xs. foldr (XOR) xs 0"] map_cong) auto
    also have "\<dots> = torch_rolling cs (multipliers h ! l) i"
      unfolding torch_rolling_def foldl_as_foldr [of "\<lambda>s. mul64 (cs ! s) (multipliers h ! l ! s)"] ..
    finally show ?thesis .
  qed
  let ?A = "\<lambda>i. map (\<lambda>p. sint (torch_rolling cs (multipliers h ! l) i) mod p) (hprimes h ! l ! (i - 1))"
  let ?n = "ngram h - 1" and ?k = "heads_of h"
  have shift: "[1..<ngram h] = map Suc [0..<?n]"
    using assms(1) by (simp add: hasher_ok_def map_Suc_upt)
  have lenA: "length (?A (Suc i)) = ?k" if "i < ?n" for i using H(6) [OF assms(3) that] by simp
  have lenC: "length (concat (map ?A [1..<ngram h])) = ?n * ?k"
    unfolding shift map_map using length_concat_const [of "[0..<?n]" "?A \<circ> Suc" ?k] lenA by simp
  have "lane_hash oob K hist t l
      = concat (map (\<lambda>i. map (\<lambda>b. cast I64 (sint (lane_rolling oob K hist t l (Suc i)) smod hprimes h ! l ! i ! b
          + hoffsets h ! l ! (i * ?k + b))) [0..<?k]) [0..<?n])"
    by (simp only: lane_hash_def K shift map_map comp_def diff_Suc_1)
  also have "\<dots> = concat (map (\<lambda>i. map (\<lambda>b. cast I64 (?A (Suc i) ! b + hoffsets h ! l ! (i * ?k + b))) [0..<?k]) [0..<?n])"
  proof (intro arg_cong [where f = concat] map_cong refl)
    fix i b assume "i \<in> set [0..<?n]" "b \<in> set [0..<?k]"
    then have ib: "i < ?n" "b < ?k" "Suc i < ngram h" by auto
    have "sint (lane_rolling oob K hist t l (Suc i)) smod hprimes h ! l ! i ! b = ?A (Suc i) ! b"
      using ib H(6,7) [OF assms(3) ib(1)] rolling_nonneg [OF assms(1,3,5) ib(3)]
      by (simp add: roll [OF ib(3)] smod_nonneg)
    then show "cast I64 (sint (lane_rolling oob K hist t l (Suc i)) smod hprimes h ! l ! i ! b + hoffsets h ! l ! (i * ?k + b))
        = cast I64 (?A (Suc i) ! b + hoffsets h ! l ! (i * ?k + b))" by simp
  qed
  also have "\<dots> = torch_hash h cs l"
  proof (rule nth_equalityI)
    have len: "length (concat (map (\<lambda>i. map (\<lambda>b. cast I64 (?A (Suc i) ! b + hoffsets h ! l ! (i * ?k + b))) [0..<?k]) [0..<?n])) = ?n * ?k"
      by (subst length_concat_const [where k = ?k]) simp_all
    then show "length (concat (map (\<lambda>i. map (\<lambda>b. cast I64 (?A (Suc i) ! b + hoffsets h ! l ! (i * ?k + b))) [0..<?k]) [0..<?n]))
        = length (torch_hash h cs l)" using lenC H(8) [OF assms(3)] by (simp add: torch_hash_def)
    fix j assume "j < length (concat (map (\<lambda>i. map (\<lambda>b. cast I64 (?A (Suc i) ! b + hoffsets h ! l ! (i * ?k + b))) [0..<?k]) [0..<?n]))"
    then have j: "j < ?n * ?k" using len by simp
    define i b where "i = j div ?k" and "b = j mod ?k"
    have ib: "j = i * ?k + b" "i < ?n" "b < ?k"
      using j H(2) by (simp_all add: i_def b_def less_mult_imp_div_less)
    have "concat (map ?A [1..<ngram h]) ! j = ?A (Suc i) ! b"
      unfolding shift map_map ib(1) using concat_blocks [of i ?n b ?k "?A \<circ> Suc"] ib lenA by simp
    then show "concat (map (\<lambda>i. map (\<lambda>b. cast I64 (?A (Suc i) ! b + hoffsets h ! l ! (i * ?k + b))) [0..<?k]) [0..<?n]) ! j
        = torch_hash h cs l ! j"
      using j lenC H(8) [OF assms(3)] ib
        concat_blocks [of i ?n b ?k "\<lambda>i. map (\<lambda>b. cast I64 (?A (Suc i) ! b + hoffsets h ! l ! (i * ?k + b))) [0..<?k]"]
      by (simp add: torch_hash_def)
  qed
  finally show ?thesis .
qed

section \<open>The reference\<close>

text \<open>The compressed ids of position \<open>p\<close> when shift \<open>s\<close> reads token \<open>tv s\<close>: a shift before the start of the
  sequence or at or beyond an image is padding.\<close>

definition cids_of :: "hasher \<Rightarrow> (nat \<Rightarrow> int) \<Rightarrow> nat \<Rightarrow> int list" where
  "cids_of h tv p =
     map (\<lambda>s. if list_ex (\<lambda>s'. p < s' \<or> image_token h = Some (tv s')) [0..<Suc s] then eh_pad h
       else token_map h ! nat (tv s)) [0..<ngram h]"

definition ngram_ids :: "hasher \<Rightarrow> int list \<Rightarrow> nat \<Rightarrow> int list list" where
  "ngram_ids h xs p = map (torch_hash h (cids_of h (\<lambda>s. torch_fill h (xs ! (p - s))) p)) [0..<length (multipliers h)]"

lemma cids_of_cong:
  assumes "\<And>s. s < ngram h \<Longrightarrow> s \<le> p \<Longrightarrow> tv s = tv' s"
  shows "cids_of h tv p = cids_of h tv' p"
  unfolding cids_of_def
proof (rule map_cong [OF refl])
  fix s assume "s \<in> set [0..<ngram h]"
  then have s: "s < ngram h" by simp
  have "list_ex (\<lambda>s'. p < s' \<or> image_token h = Some (tv s')) [0..<Suc s]
      = list_ex (\<lambda>s'. p < s' \<or> image_token h = Some (tv' s')) [0..<Suc s]"
    using s assms by (force simp: list_ex_iff not_less less_Suc_eq_le)
  moreover have "tv s = tv' s" if "\<not> list_ex (\<lambda>s'. p < s' \<or> image_token h = Some (tv s')) [0..<Suc s]"
    using that s assms by (auto simp: list_ex_iff)
  ultimately show "(if list_ex (\<lambda>s'. p < s' \<or> image_token h = Some (tv s')) [0..<Suc s] then eh_pad h else token_map h ! nat (tv s))
      = (if list_ex (\<lambda>s'. p < s' \<or> image_token h = Some (tv' s')) [0..<Suc s] then eh_pad h else token_map h ! nat (tv' s))"
    by simp
qed

lemma cids_of_ok:
  "(\<And>s. s < ngram h \<Longrightarrow> 0 \<le> tv s \<and> tv s < len (token_map h)) \<Longrightarrow> cids_ok h (cids_of h tv p)"
  by (auto simp: cids_ok_def cids_of_def list_all_length nat_less_iff intro!: nth_mem)

text \<open>The ids of a position do not change when the sequence grows.\<close>

lemma ngram_ids_prefix: "p < length xs \<Longrightarrow> ngram_ids h (xs @ ys) p = ngram_ids h xs p"
  unfolding ngram_ids_def by (intro map_cong refl arg_cong2 [where f = "torch_hash h"] cids_of_cong) (auto simp: nth_append)

section \<open>Histories\<close>

definition row_ok :: "hasher \<Rightarrow> int list \<Rightarrow> bool" where
  "row_ok h row \<longleftrightarrow> length row = ngram h - 1 \<and> list_all (tok_ok h) row"

text \<open>A row holds the newest tokens of a sequence, oldest first, up to the filling of images.\<close>

definition holds :: "hasher \<Rightarrow> int list \<Rightarrow> int list \<Rightarrow> bool" where
  "holds h row xs \<longleftrightarrow> row_ok h row
     \<and> (\<forall>k. k < ngram h - 1 \<and> k < length xs \<longrightarrow> torch_fill h (row ! (ngram h - 2 - k)) = torch_fill h (xs ! (length xs - 1 - k)))"

text \<open>What shift \<open>s\<close> reads for the \<open>j\<close>-th token of the run \<open>ys\<close>.\<close>

definition pred_raw :: "nat \<Rightarrow> int list \<Rightarrow> int list \<Rightarrow> nat \<Rightarrow> nat \<Rightarrow> int" where
  "pred_raw n ys row j s = (if s \<le> j then ys ! (j - s) else row ! (n - 1 - (s - j)))"

lemma pred_raw_reads:
  assumes "holds h row xs" "j < length ys" "s < ngram h" "s \<le> length xs + j"
  shows "torch_fill h (pred_raw (ngram h) ys row j s) = torch_fill h ((xs @ ys) ! (length xs + j - s))"
proof (cases "s \<le> j")
  case True
  then have e: "length xs + j - s = length xs + (j - s)" by simp
  show ?thesis unfolding e pred_raw_def nth_append_length_plus using True by (simp only: if_True)
next
  case False
  let ?k = "s - j - 1"
  have k: "?k < ngram h - 1" "?k < length xs" "ngram h - 1 - (s - j) = ngram h - 2 - ?k" "length xs + j - s = length xs - 1 - ?k"
    using assms(3,4) False by auto
  then have "torch_fill h (row ! (ngram h - 2 - ?k)) = torch_fill h (xs ! (length xs - 1 - ?k))"
    using assms(1) unfolding holds_def by blast
  moreover have "(xs @ ys) ! (length xs - 1 - ?k) = xs ! (length xs - 1 - ?k)" using k(2) by (auto simp: nth_append)
  ultimately show ?thesis unfolding k(4) pred_raw_def k(3) using False by (simp only: if_False)
qed

lemma pred_raw_ok:
  assumes "row_ok h row" "list_all (tok_ok h) ys" "j < length ys" "s < ngram h"
  shows "tok_ok h (pred_raw (ngram h) ys row j s)"
  using assms by (auto simp: pred_raw_def row_ok_def list_all_length)

text \<open>The row written after the last token of a run holds the longer sequence.\<close>

lemma holds_after:
  assumes "hasher_ok h" "holds h row xs" "list_all (tok_ok h) ys" "ys \<noteq> []"
    and "row' = map (\<lambda>c. torch_fill h (pred_raw (ngram h) ys row (length ys - 1) (ngram h - 2 - c))) [0..<ngram h - 1]"
  shows "holds h row' (xs @ ys)"
  unfolding holds_def
proof
  have r: "row_ok h row" using assms(2) by (simp add: holds_def)
  have n: "2 \<le> ngram h" using assms(1) by (simp add: hasher_ok_def)
  show "row_ok h row'"
    using assms(3-5) n pred_raw_ok [OF r assms(3), of "length ys - 1"] tok_ok_fill [OF assms(1)]
    by (auto simp: row_ok_def list_all_length)
  show "\<forall>k. k < ngram h - 1 \<and> k < length (xs @ ys) \<longrightarrow>
      torch_fill h (row' ! (ngram h - 2 - k)) = torch_fill h ((xs @ ys) ! (length (xs @ ys) - 1 - k))"
  proof (intro allI impI)
    fix k assume k: "k < ngram h - 1 \<and> k < length (xs @ ys)"
    have i: "ngram h - 2 - k < ngram h - 1" "ngram h - 2 - (ngram h - 2 - k) = k" using k n by auto
    have "row' ! (ngram h - 2 - k) = torch_fill h (pred_raw (ngram h) ys row (length ys - 1) (ngram h - 2 - (ngram h - 2 - k)))"
      unfolding assms(5) using i(1) by (subst nth_map) (simp_all only: length_upt nth_upt diff_zero add_0)
    then have "torch_fill h (row' ! (ngram h - 2 - k)) = torch_fill h (pred_raw (ngram h) ys row (length ys - 1) k)"
      unfolding i(2) using assms(1) by simp
    also have "\<dots> = torch_fill h ((xs @ ys) ! (length xs + (length ys - 1) - k))"
      using k assms(4) by (intro pred_raw_reads [OF assms(2)]) (cases ys; auto)+
    also have "length xs + (length ys - 1) - k = length (xs @ ys) - 1 - k" using assms(4) by (cases ys) auto
    finally show "torch_fill h (row' ! (ngram h - 2 - k)) = torch_fill h ((xs @ ys) ! (length (xs @ ys) - 1 - k))" .
  qed
qed

section \<open>A placed token\<close>

text \<open>Token \<open>t\<close> of the batch is number \<open>j\<close> of the run \<open>ys\<close> of request \<open>r\<close>.\<close>

definition in_run :: "int list \<Rightarrow> int list \<Rightarrow> nat \<Rightarrow> nat \<Rightarrow> bool" where
  "in_run ids ys t j \<longleftrightarrow> j < length ys \<and> t < length ids \<and> j \<le> t \<and> (\<forall>s\<le>j. ids ! (t - s) = ys ! (j - s))"

lemma clamp_col:
  assumes "s < n" "\<not> s \<le> j" "2 \<le> n"
  shows "min (max (int n - 2 - (int s - int j - 1)) 0) (int n - 2) = int (n - 1 - (s - j))"
  using assms by auto

lemma lane_tok_placed:
  assumes "hasher_ok h" "kargs_ok h K" "ka_ids K = ids" "t < ka_num_real K"
    and "lane_off oob K t = int j" "in_run ids ys t j" "s < ngram h"
    and "\<And>c. c < ngram h - 1 \<Longrightarrow> peek2 oob hist (lane_hrow oob K t) (int c) = row ! c"
  shows "lane_tok oob K hist t s = torch_fill h (pred_raw (ngram h) ys row j s)"
proof -
  note K = assms(2) [unfolded kargs_ok_def]
  have n: "2 \<le> ngram h" using assms(1) by (simp add: hasher_ok_def)
  have b: "peek oob ids (max (int t - int s) 0) = ys ! (j - s)" if "s \<le> j"
  proof -
    have "s \<le> t" "t < length ids" "ids ! (t - s) = ys ! (j - s)" using assms(6) that by (auto simp: in_run_def)
    moreover from this have e: "max (int t - int s) 0 = int (t - s)" by simp
    moreover have "t - s < length ids" using calculation(2) by linarith
    ultimately show ?thesis unfolding e by (simp add: peek_def del: of_nat_diff)
  qed
  have c: "peek2 oob hist (lane_hrow oob K t) (min (max (int (ngram h) - 2 - (int s - int j - 1)) 0) (int (ngram h) - 2))
      = row ! (ngram h - 1 - (s - j))" if "\<not> s \<le> j"
    unfolding clamp_col [OF assms(7) that n] using that assms(7) by (intro assms(8)) auto
  show ?thesis using K assms(3-5) b c
    by (simp add: lane_tok_def Let_def pred_raw_def torch_fill_def split: option.split)
qed

lemma sum_list_ex: "0 < sum_list (map (\<lambda>x. if P x then 1 else 0 :: nat) xs) \<longleftrightarrow> list_ex P xs"
  by (induction xs) auto

lemma lane_cids_placed:
  assumes "hasher_ok h" "kargs_ok h K" "t < ka_num_real K" "fits I32 (int p)" "peek oob (ka_pos K) (int t) = int p"
    and "\<And>s. s < ngram h \<Longrightarrow> lane_tok oob K hist t s = tv s \<and> 0 \<le> tv s \<and> tv s < len (token_map h)"
  shows "map (lane_comp oob K hist t) [0..<ngram h] = cids_of h tv p"
  unfolding cids_of_def
proof (rule map_cong [OF refl])
  fix s assume "s \<in> set [0..<ngram h]"
  then have s: "s < ngram h" by simp
  note K = assms(2) [unfolded kargs_ok_def]
  have blk: "lane_blk oob K hist t s' \<longleftrightarrow> p < s' \<or> image_token h = Some (tv s')" if "s' < ngram h" for s'
    using K assms(3-5) assms(6) [OF that] by (auto simp: lane_blk_def split: option.split)
  have "lane_blocked oob K hist t s \<longleftrightarrow> list_ex (lane_blk oob K hist t) [0..<Suc s]"
    unfolding lane_blocked_def by (rule sum_list_ex)
  also have "\<dots> \<longleftrightarrow> list_ex (\<lambda>s'. p < s' \<or> image_token h = Some (tv s')) [0..<Suc s]"
    using blk s by (auto simp: list_ex_iff)
  finally show "lane_comp oob K hist t s = (if list_ex (\<lambda>s'. p < s' \<or> image_token h = Some (tv s')) [0..<Suc s] then eh_pad h else token_map h ! nat (tv s))"
    using K assms(6) [OF s] by (simp add: lane_comp_def peek_def)
qed

text \<open>The torch path at the same place.\<close>

lemma torch_preds_placed:
  assumes "in_run ids ys t j" "r < length rows" "2 \<le> n"
  shows "torch_preds n ids rows t (int r, int j) = Inr (map (pred_raw n ys (rows ! r) j) [0..<n])"
proof -
  have "(if int s \<le> int j then ids ! nat (max (int t - int s) 0)
      else rows ! r ! nat (min (max (int n - 2 - (int s - int j - 1)) 0) (int n - 2))) = pred_raw n ys (rows ! r) j s"
    if "s < n" for s
  proof (cases "s \<le> j")
    case True
    then have "s \<le> t" "ids ! (t - s) = ys ! (j - s)" using assms(1) by (auto simp: in_run_def)
    moreover from this have "nat (max (int t - int s) 0) = t - s" by simp
    ultimately show ?thesis using True by (simp add: pred_raw_def)
  next
    case False
    then show ?thesis unfolding clamp_col [OF that False assms(3)] by (simp add: pred_raw_def)
  qed
  then show ?thesis using assms(2) by (simp add: torch_preds_def torch_index_def)
qed

lemma decode_preds:
  assumes "length row = n - 1" "2 \<le> n"
  shows "x # rev row = map (pred_raw n [x] row 0) [0..<n]"
proof (rule nth_equalityI)
  fix i assume "i < length (x # rev row)"
  then show "(x # rev row) ! i = map (pred_raw n [x] row 0) [0..<n] ! i"
    using assms by (cases i) (auto simp: pred_raw_def rev_nth)
qed (use assms in simp)

lemma torch_compressed_placed:
  assumes "\<And>s. s < ngram h \<Longrightarrow> 0 \<le> tv s \<and> tv s < len (token_map h)" "\<not> num_real \<le> t" "pos ! t = int p"
  shows "torch_compressed h (map tv [0..<ngram h]) (torch_blocked h num_real pos t (map tv [0..<ngram h])) = Inr (cids_of h tv p)"
proof -
  let ?b = "\<lambda>s. list_ex (\<lambda>s'. p < s' \<or> image_token h = Some (tv s')) [0..<Suc s]"
  have "torch_blocked h num_real pos t (map tv [0..<ngram h]) = map ?b [0..<ngram h]"
  proof (cases "image_token h")
    case None
    then show ?thesis using assms(2,3) by (auto simp: torch_blocked_def list_ex_iff Let_def)
  next
    case (Some im)
    then show ?thesis using assms(2,3) by (auto simp: torch_blocked_def list_ex_iff Let_def intro!: bex_cong)
  qed
  then have "zip (map tv [0..<ngram h]) (torch_blocked h num_real pos t (map tv [0..<ngram h]))
      = map (\<lambda>s. (tv s, ?b s)) [0..<ngram h]" by (simp add: zip_map_map zip_same_conv_map)
  then have "map (\<lambda>(tok, b). map_sum id (\<lambda>k. if b then eh_pad h else token_map h ! k) (torch_index (length (token_map h)) tok))
      (zip (map tv [0..<ngram h]) (torch_blocked h num_real pos t (map tv [0..<ngram h])))
      = map Inr (cids_of h tv p)"
    using assms(1) by (simp add: cids_of_def torch_index_def)
  then show ?thesis by (simp add: torch_compressed_def)
qed

end
