(* ===== verification/EngramLaunch.thy ===== *)
theory EngramLaunch
  imports EngramFacts
begin

text \<open>
  One launch of the hash kernel, whatever the order of its programs. A token that is \<open>good\<close> has its row
  of the history to itself: no other token of the launch writes it. For good tokens the outputs are those
  computed from the history before the launch, the rows of committing tokens hold what their tokens
  wrote, and all other rows are untouched.
\<close>

section \<open>Stores\<close>

definition tokens_val :: "(int \<Rightarrow> int) \<Rightarrow> kargs \<Rightarrow> int list list \<Rightarrow> nat \<Rightarrow> int list" where
  "tokens_val oob K hist t = map (\<lambda>s. cast I32 (lane_tok oob K hist t s)) [0..<ka_n K]"

definition out_val :: "(int \<Rightarrow> int) \<Rightarrow> kargs \<Rightarrow> int list list \<Rightarrow> nat \<Rightarrow> int list list" where
  "out_val oob K hist t = map (lane_hash oob K hist t) [0..<ka_l K]"

definition row_val :: "(int \<Rightarrow> int) \<Rightarrow> kargs \<Rightarrow> int list list \<Rightarrow> nat \<Rightarrow> int list" where
  "row_val oob K hist t = map (\<lambda>c. cast I32 (lane_tok oob K hist t (ka_n K - 2 - c))) [0..<ka_n K - 1]"

text \<open>The token stores into the history.\<close>

definition writes :: "(int \<Rightarrow> int) \<Rightarrow> kargs \<Rightarrow> nat \<Rightarrow> bool" where
  "writes oob K t \<longleftrightarrow> lane_live oob K t \<and> 0 \<le> lane_hrow oob K t"

lemma store_token_val:
  "store_token oob K hist t m = m\<lparr>km_tokens := (if ka_write K then (km_tokens m)[t := tokens_val oob K hist t] else km_tokens m),
     km_out := (km_out m)[t := out_val oob K hist t],
     km_hist := (if writes oob K t then (km_hist m)[nat (lane_hrow oob K t) := row_val oob K hist t] else km_hist m)\<rparr>"
  by (simp add: store_token_def tokens_val_def out_val_def row_val_def writes_def Let_def)

text \<open>A token reads one row of the history only.\<close>

lemma lane_tok_row:
  assumes "\<And>c. peek2 oob hist (lane_hrow oob K t) c = peek2 oob hist' (lane_hrow oob K t) c"
  shows "lane_tok oob K hist t = lane_tok oob K hist' t"
  by (rule ext) (simp add: lane_tok_def Let_def assms)

lemma vals_row:
  assumes "\<And>c. peek2 oob hist (lane_hrow oob K t) c = peek2 oob hist' (lane_hrow oob K t) c"
  shows "tokens_val oob K hist t = tokens_val oob K hist' t" "out_val oob K hist t = out_val oob K hist' t"
    "row_val oob K hist t = row_val oob K hist' t"
proof -
  note tok = lane_tok_row [OF assms]
  have blk: "lane_blk oob K hist t = lane_blk oob K hist' t" by (rule ext) (simp add: lane_blk_def tok cong: option.case_cong)
  have cmp: "lane_comp oob K hist t = lane_comp oob K hist' t"
    by (rule ext) (simp only: lane_comp_def lane_blocked_def blk tok)
  have roll: "lane_rolling oob K hist t = lane_rolling oob K hist' t"
    by (intro ext) (simp only: lane_rolling_def cmp)
  have "lane_hash oob K hist t = lane_hash oob K hist' t"
    by (rule ext) (simp only: lane_hash_def roll)
  then show "tokens_val oob K hist t = tokens_val oob K hist' t" "out_val oob K hist t = out_val oob K hist' t"
    "row_val oob K hist t = row_val oob K hist' t"
    by (simp_all add: tokens_val_def out_val_def row_val_def tok)
qed

section \<open>The invariant of a launch\<close>

text \<open>The memory after the tokens in \<open>D\<close> were stored.\<close>

definition agree ::
    "(int \<Rightarrow> int) \<Rightarrow> kargs \<Rightarrow> (nat \<Rightarrow> bool) \<Rightarrow> int list list \<Rightarrow> nat \<Rightarrow> nat set \<Rightarrow> kmem \<Rightarrow> bool" where
  "agree oob K good hist N D m \<longleftrightarrow>
     length (km_tokens m) = N \<and> length (km_out m) = N \<and> length (km_hist m) = length hist
     \<and> (\<forall>t \<in> D. good t \<longrightarrow> (ka_write K \<longrightarrow> km_tokens m ! t = tokens_val oob K hist t) \<and> km_out m ! t = out_val oob K hist t)
     \<and> (\<forall>t \<in> D. writes oob K t \<longrightarrow> nat (lane_hrow oob K t) < length hist \<longrightarrow> km_hist m ! nat (lane_hrow oob K t) = row_val oob K hist t)
     \<and> (\<forall>k < length hist. (\<forall>t \<in> D. writes oob K t \<longrightarrow> nat (lane_hrow oob K t) \<noteq> k) \<longrightarrow> km_hist m ! k = hist ! k)"

text \<open>Tokens that write are good, and a good token shares its row with no token that writes.\<close>

definition race_free :: "(int \<Rightarrow> int) \<Rightarrow> kargs \<Rightarrow> (nat \<Rightarrow> bool) \<Rightarrow> nat \<Rightarrow> bool" where
  "race_free oob K good N \<longleftrightarrow>
     (\<forall>t < N. writes oob K t \<longrightarrow> good t)
     \<and> (\<forall>t < N. \<forall>t' < N. good t \<and> writes oob K t' \<and> t \<noteq> t' \<longrightarrow> nat (lane_hrow oob K t) \<noteq> nat (lane_hrow oob K t'))"

lemma agree_store:
  assumes "agree oob K good hist N D m" "race_free oob K good N" "t < N" "t \<notin> D" "\<forall>t \<in> D. t < N"
    and "good t \<Longrightarrow> tokens_val oob K hc t = tokens_val oob K hist t \<and> out_val oob K hc t = out_val oob K hist t
      \<and> row_val oob K hc t = row_val oob K hist t"
  shows "agree oob K good hist N (insert t D) (store_token oob K hc t m)"
proof -
  have g: "writes oob K t \<Longrightarrow> good t" using assms(2,3) by (simp add: race_free_def)
  have d: "nat (lane_hrow oob K t') \<noteq> nat (lane_hrow oob K t)" if "t' \<in> D" "writes oob K t'" "writes oob K t" for t'
    using assms(2,3,4,5) that unfolding race_free_def by metis
  then have d': "nat (lane_hrow oob K t) \<noteq> nat (lane_hrow oob K t')" if "t' \<in> D" "writes oob K t'" "writes oob K t" for t'
    using that by metis
  have ne: "t' \<noteq> t" if "t' \<in> D" for t' using that assms(4) by blast
  show ?thesis using assms(1,3,6) g d d' ne
    unfolding agree_def store_token_val by (auto simp: nth_list_update)
qed

lemma agree_stores:
  assumes "agree oob K good hist N D m" "race_free oob K good N" "\<forall>t \<in> D. t < N" "set ts \<subseteq> {..<N}" "distinct ts" "set ts \<inter> D = {}"
    and "\<And>t. t \<in> set ts \<Longrightarrow> good t \<Longrightarrow> tokens_val oob K hc t = tokens_val oob K hist t \<and> out_val oob K hc t = out_val oob K hist t
      \<and> row_val oob K hc t = row_val oob K hist t"
  shows "agree oob K good hist N (D \<union> set ts) (fold (store_token oob K hc) ts m)"
  using assms
proof (induction ts arbitrary: D m)
  case (Cons t ts)
  have "agree oob K good hist N (insert t D) (store_token oob K hc t m)"
    by (rule agree_store [OF Cons.prems(1,2)]) (use Cons.prems in auto)
  then have "agree oob K good hist N (insert t D \<union> set ts) (fold (store_token oob K hc) ts (store_token oob K hc t m))"
    by (rule Cons.IH) (use Cons.prems in auto)
  then show ?case by simp
qed simp

text \<open>The tokens of a program.\<close>

definition tokens_of :: "kargs \<Rightarrow> nat \<Rightarrow> nat \<Rightarrow> nat list" where
  "tokens_of K bt pid = filter (\<lambda>t. t < ka_num_tokens K) (map (\<lambda>lane. pid * bt + lane) [0..<bt])"

lemma set_tokens_of:
  assumes "0 < bt"
  shows "set (tokens_of K bt pid) = {t. t < ka_num_tokens K \<and> t div bt = pid}"
proof (intro set_eqI iffI)
  fix t assume "t \<in> set (tokens_of K bt pid)"
  then show "t \<in> {t. t < ka_num_tokens K \<and> t div bt = pid}"
    by (auto simp: tokens_of_def mult.commute [of bt] intro!: div_nat_eqI)
next
  fix t assume "t \<in> {t. t < ka_num_tokens K \<and> t div bt = pid}"
  then show "t \<in> set (tokens_of K bt pid)"
    using dividend_less_div_times [OF assms, of t] by (auto simp: tokens_of_def)
qed

lemma distinct_tokens_of: "distinct (tokens_of K bt pid)"
  by (auto simp: tokens_of_def distinct_map inj_on_def)

lemma agree_program:
  assumes "agree oob K good hist N D m" "race_free oob K good N" "N = ka_num_tokens K" "0 < bt"
    and "D = {t. t < N \<and> t div bt \<in> P}" "pid \<notin> P"
  shows "agree oob K good hist N (D \<union> {t. t < N \<and> t div bt = pid}) (hash_program oob K bt pid m)"
proof -
  have "tokens_val oob K (km_hist m) t = tokens_val oob K hist t \<and> out_val oob K (km_hist m) t = out_val oob K hist t
      \<and> row_val oob K (km_hist m) t = row_val oob K hist t" if t: "t < N" "t \<notin> D" "good t" for t
  proof -
    have "peek2 oob (km_hist m) (lane_hrow oob K t) c = peek2 oob hist (lane_hrow oob K t) c" for c
    proof (cases "0 \<le> lane_hrow oob K t \<and> lane_hrow oob K t < len hist")
      case True
      have "nat (lane_hrow oob K t') \<noteq> nat (lane_hrow oob K t)" if "t' \<in> D" "writes oob K t'" for t'
        using that t assms(2,5) unfolding race_free_def by (metis (mono_tags, lifting) mem_Collect_eq)
      then have "km_hist m ! nat (lane_hrow oob K t) = hist ! nat (lane_hrow oob K t)"
        using assms(1) True unfolding agree_def by (simp add: nat_less_iff)
      then show ?thesis using assms(1) by (simp add: peek2_def agree_def)
    next
      case False
      then show ?thesis using assms(1) by (auto simp: peek2_def agree_def)
    qed
    from vals_row [OF this] show ?thesis by blast
  qed
  then have "agree oob K good hist N (D \<union> set (tokens_of K bt pid)) (fold (store_token oob K (km_hist m)) (tokens_of K bt pid) m)"
    by (intro agree_stores [OF assms(1,2)])
      (use assms(3-6) in \<open>auto simp: set_tokens_of distinct_tokens_of\<close>)
  then show ?thesis using assms(3,4) by (simp add: set_tokens_of hash_program_def flip: tokens_of_def)
qed

lemma agree_programs:
  assumes "race_free oob K good N" "N = ka_num_tokens K" "0 < bt" "distinct order" "set order \<inter> P = {}"
    and "agree oob K good hist N {t. t < N \<and> t div bt \<in> P} m"
  shows "agree oob K good hist N {t. t < N \<and> t div bt \<in> P \<union> set order} (fold (hash_program oob K bt) order m)"
  using assms(4-6)
proof (induction order arbitrary: P m)
  case (Cons pid order)
  have "agree oob K good hist N ({t. t < N \<and> t div bt \<in> P} \<union> {t. t < N \<and> t div bt = pid}) (hash_program oob K bt pid m)"
    by (rule agree_program [OF Cons.prems(3) assms(1-3) refl]) (use Cons.prems(2) in auto)
  also have "{t. t < N \<and> t div bt \<in> P} \<union> {t. t < N \<and> t div bt = pid} = {t. t < N \<and> t div bt \<in> insert pid P}" by auto
  finally have "agree oob K good hist N {t. t < N \<and> t div bt \<in> insert pid P \<union> set order}
      (fold (hash_program oob K bt) order (hash_program oob K bt pid m))"
    by (rule Cons.IH [rotated 2]) (use Cons.prems in auto)
  then show ?case by simp
qed simp

end
