(* ===== verification/EngramBatch.thy ===== *)
theory EngramBatch
  imports EngramLaunch
begin

text \<open>
  A batch as the requests see it: one run of new tokens per request, each after the tokens the request
  has had before. \<open>serves\<close> says that a batch is such a list of runs, \<open>served\<close> what a pass makes of it.
  Both devices are shown to do that.
\<close>

section \<open>Runs\<close>

record run =
  run_slot :: nat
  run_before :: "int list"
  run_new :: "int list"
  run_live :: bool

definition flat :: "run list \<Rightarrow> int list" where
  "flat rs = concat (map run_new rs)"

definition start :: "run list \<Rightarrow> nat \<Rightarrow> nat" where
  "start rs r = length (flat (take r rs))"

text \<open>The run and the offset of a token.\<close>

fun place :: "run list \<Rightarrow> nat \<Rightarrow> nat \<times> nat" where
  "place [] t = (0, t)"
| "place (x # rs) t =
     (if t < length (run_new x) then (0, t) else (case place rs (t - length (run_new x)) of (r, j) \<Rightarrow> (Suc r, j)))"

lemma start_0 [simp]: "start rs 0 = 0"
  by (simp add: start_def flat_def)

lemma start_Suc [simp]: "start (x # rs) (Suc r) = length (run_new x) + start rs r"
  by (simp add: start_def flat_def)

lemma place_start:
  "r < length rs \<Longrightarrow> j < length (run_new (rs ! r)) \<Longrightarrow> place rs (start rs r + j) = (r, j)"
proof (induction rs arbitrary: r)
  case (Cons x rs)
  then show ?case by (cases r) auto
qed simp

lemma place_inverse:
  assumes "t < length (flat rs)"
  obtains r j where "place rs t = (r, j)" "r < length rs" "j < length (run_new (rs ! r))" "t = start rs r + j"
  using assms
proof (induction rs arbitrary: t thesis)
  case (Cons x rs)
  show ?case
  proof (cases "t < length (run_new x)")
    case True
    then show ?thesis by (intro Cons.prems(1) [of 0 t]) auto
  next
    case False
    then have "t - length (run_new x) < length (flat rs)" using Cons.prems(2) by (auto simp: flat_def)
    then obtain r j where rj: "place rs (t - length (run_new x)) = (r, j)" "r < length rs" "j < length (run_new (rs ! r))"
      "t - length (run_new x) = start rs r + j" by (rule Cons.IH [rotated])
    show ?thesis by (rule Cons.prems(1) [of "Suc r" j]) (use rj False in auto)
  qed
qed (simp add: flat_def)

lemma flat_start:
  assumes "r < length rs"
  shows "flat rs = flat (take r rs) @ run_new (rs ! r) @ flat (drop (Suc r) rs)"
  using arg_cong [OF id_take_nth_drop [OF assms], of flat] by (simp add: flat_def)

lemma start_less:
  assumes "r < length rs" "j < length (run_new (rs ! r))"
  shows "start rs r + j < length (flat rs)"
  unfolding flat_start [OF assms(1)] using assms(2) by (simp add: start_def)

lemma flat_nth:
  assumes "r < length rs" "j < length (run_new (rs ! r))"
  shows "flat rs ! (start rs r + j) = run_new (rs ! r) ! j"
  unfolding flat_start [OF assms(1)] start_def nth_append_length_plus using assms(2) by (simp add: nth_append)

lemma in_run_start:
  assumes "take (length (flat rs)) ids = flat rs" "r < length rs" "j < length (run_new (rs ! r))"
  shows "in_run ids (run_new (rs ! r)) (start rs r + j) j"
proof -
  have l: "length (flat rs) \<le> length ids" using arg_cong [OF assms(1), of length] by simp
  have "ids ! (start rs r + j - s) = run_new (rs ! r) ! (j - s)" if "s \<le> j" for s
  proof -
    have b: "start rs r + (j - s) < length (flat rs)" "j - s < length (run_new (rs ! r))"
      using start_less [OF assms(2)] assms(3) by (simp_all add: less_imp_diff_less)
    have "ids ! (start rs r + (j - s)) = take (length (flat rs)) ids ! (start rs r + (j - s))" using b by simp
    then show ?thesis using that b flat_nth [OF assms(2) b(2)] assms(1) by simp
  qed
  then show ?thesis using assms(3) l start_less [OF assms(2,3)] by (simp add: in_run_def)
qed

lemma start_block:
  assumes "list_all (\<lambda>x. length (run_new x) = b) rs" "r \<le> length rs"
  shows "start rs r = r * b" "length (flat rs) = length rs * b"
proof -
  have "length (flat xs) = length xs * b" if "list_all (\<lambda>x. length (run_new x) = b) xs" for xs
    using that by (induction xs) (simp_all add: flat_def)
  note flat = this
  have "list_all (\<lambda>x. length (run_new x) = b) (take r rs)"
    using assms(1) by (auto simp: list_all_iff dest: in_set_takeD)
  from flat [OF this] show "start rs r = r * b" using assms(2) by (simp add: start_def)
  show "length (flat rs) = length rs * b" by (rule flat [OF assms(1)])
qed

lemma repeat_interleave_runs:
  assumes "lens = map (\<lambda>x. len (run_new x)) rs"
  shows "length (repeat_interleave lens) = length (flat rs)"
    and "r < length rs \<Longrightarrow> j < length (run_new (rs ! r)) \<Longrightarrow> repeat_interleave lens ! (start rs r + j) = int r"
proof -
  have gen: "length (concat (map (\<lambda>i. replicate (length (run_new (rs ! i))) (int (k + i))) [0..<length rs])) = length (flat rs)
      \<and> (\<forall>r j. r < length rs \<and> j < length (run_new (rs ! r)) \<longrightarrow>
          concat (map (\<lambda>i. replicate (length (run_new (rs ! i))) (int (k + i))) [0..<length rs]) ! (start rs r + j) = int (k + r))" for k rs
  proof (induction rs arbitrary: k)
    case (Cons x rs)
    have e: "map (\<lambda>i. replicate (length (run_new ((x # rs) ! i))) (int (k + i))) [0..<length (x # rs)]
        = replicate (length (run_new x)) (int k) # map (\<lambda>i. replicate (length (run_new (rs ! i))) (int (Suc k + i))) [0..<length rs]"
      by (simp add: upt_conv_Cons map_Suc_upt [symmetric] comp_def del: upt_Suc)
    show ?case unfolding e using Cons [of "Suc k"]
      by (auto simp: flat_def nth_append less_Suc_eq_0_disj)
  qed (simp add: flat_def)
  have "repeat_interleave lens = concat (map (\<lambda>i. replicate (length (run_new (rs ! i))) (int (0 + i))) [0..<length rs])"
    unfolding repeat_interleave_def assms by (intro arg_cong [where f = concat] map_cong) auto
  then show "length (repeat_interleave lens) = length (flat rs)"
    "r < length rs \<Longrightarrow> j < length (run_new (rs ! r)) \<Longrightarrow> repeat_interleave lens ! (start rs r + j) = int r"
    using gen [where k = 0 and rs = rs] by simp_all
qed

section \<open>Batches\<close>

text \<open>The history a run reads: its own row, or the row the scheduler sends with an extend.\<close>

definition source_row :: "int list list \<Rightarrow> eng_batch \<Rightarrow> run list \<Rightarrow> nat \<Rightarrow> int list" where
  "source_row hist B rs r =
     (case (eb_mode B, eb_ngram_history B) of (Extend, Some g) \<Rightarrow> g ! r | _ \<Rightarrow> hist ! run_slot (rs ! r))"

text \<open>Whether the pass advances the history of a run.\<close>

definition commits :: "eng_batch \<Rightarrow> run \<Rightarrow> bool" where
  "commits B x \<longleftrightarrow> run_live x \<and> run_new x \<noteq> [] \<and> (case eb_mode B of TargetVerify b \<Rightarrow> False | _ \<Rightarrow> True)"

definition mode_ok :: "hasher \<Rightarrow> run list \<Rightarrow> int list \<Rightarrow> eng_batch \<Rightarrow> bool" where
  "mode_ok h rs ids B \<longleftrightarrow>
     (case eb_mode B of
        Decode \<Rightarrow> list_all (\<lambda>x. length (run_new x) = 1) rs \<and> length ids = length rs
          \<and> (\<exists>loc. eb_out_loc B = Some loc \<and> length loc = length rs \<and> (\<forall>r < length rs. run_live (rs ! r) \<longleftrightarrow> loc ! r \<noteq> 0))
      | TargetVerify b \<Rightarrow> list_all (\<lambda>x. length (run_new x) = b) rs \<and> length ids = length rs * b
      | Extend \<Rightarrow> eb_lens B = map (\<lambda>x. len (run_new x)) rs \<and> eb_starts B = map (\<lambda>r. int (start rs r)) [0..<length rs]
          \<and> (case eb_out_loc B of
               None \<Rightarrow> list_all run_live rs
             | Some loc \<Rightarrow> length loc = length ids
                 \<and> (\<forall>r < length rs. run_new (rs ! r) \<noteq> [] \<longrightarrow>
                      run_live (rs ! r) = (loc ! (start rs r + (length (run_new (rs ! r)) - 1)) \<noteq> 0)))
          \<and> (case eb_ngram_history B of None \<Rightarrow> True | Some g \<Rightarrow> length g = length rs \<and> list_all (row_ok h) g)
      | OtherMode \<Rightarrow> False)"

definition serves :: "hasher \<Rightarrow> int list list \<Rightarrow> run list \<Rightarrow> int list \<Rightarrow> eng_batch \<Rightarrow> bool" where
  "serves h hist rs ids B \<longleftrightarrow>
     mode_ok h rs ids B
     \<and> take (length (flat rs)) ids = flat rs \<and> list_all (tok_ok h) ids \<and> fits I32 (len ids)
     \<and> length hist = pad_row h + 1 \<and> list_all (row_ok h) hist
     \<and> eb_slots B = map (\<lambda>x. int (run_slot x)) rs \<and> list_all (\<lambda>x. run_slot x \<le> pad_row h) rs
     \<and> list_all (\<lambda>x. run_slot x < pad_row h) (filter run_live rs) \<and> distinct (map run_slot (filter run_live rs))
     \<and> length (eb_positions B) = length ids
     \<and> (\<forall>r < length rs. run_live (rs ! r) \<longrightarrow>
          holds h (source_row hist B rs r) (run_before (rs ! r))
          \<and> fits I32 (len (run_before (rs ! r) @ run_new (rs ! r)))
          \<and> (\<forall>j < length (run_new (rs ! r)). eb_positions B ! (start rs r + j) = len (run_before (rs ! r)) + int j))"

text \<open>The ids of every live run are those of its whole sequence; its row then holds that sequence; no
  other request's row has changed.\<close>

definition ids_served :: "hasher \<Rightarrow> run list \<Rightarrow> int list list list \<Rightarrow> bool" where
  "ids_served h rs out \<longleftrightarrow>
     (\<forall>r < length rs. run_live (rs ! r) \<longrightarrow> (\<forall>j < length (run_new (rs ! r)).
        out ! (start rs r + j) = ngram_ids h (run_before (rs ! r) @ run_new (rs ! r)) (length (run_before (rs ! r)) + j)))"

definition rows_served :: "hasher \<Rightarrow> int list list \<Rightarrow> run list \<Rightarrow> eng_batch \<Rightarrow> int list list \<Rightarrow> bool" where
  "rows_served h hist rs B hist' \<longleftrightarrow>
     length hist' = length hist \<and> list_all (row_ok h) hist'
     \<and> (\<forall>x \<in> set rs. commits B x \<longrightarrow> holds h (hist' ! run_slot x) (run_before x @ run_new x))
     \<and> (\<forall>k < pad_row h. (\<forall>x \<in> set rs. commits B x \<longrightarrow> run_slot x \<noteq> k) \<longrightarrow> hist' ! k = hist ! k)"

text \<open>The filled predecessors of a token.\<close>

definition preds_at :: "hasher \<Rightarrow> int list list \<Rightarrow> eng_batch \<Rightarrow> run list \<Rightarrow> nat \<Rightarrow> nat \<Rightarrow> int list" where
  "preds_at h hist B rs r j =
     map (\<lambda>s. torch_fill h (pred_raw (ngram h) (run_new (rs ! r)) (source_row hist B rs r) j s)) [0..<ngram h]"

lemma serves_length:
  assumes "serves h hist rs ids B"
  shows "length (flat rs) \<le> length ids"
proof -
  have "take (length (flat rs)) ids = flat rs" using assms by (simp add: serves_def)
  from arg_cong [OF this, of length] show ?thesis by simp
qed

lemma serves_source:
  assumes "serves h hist rs ids B" "r < length rs"
  shows "row_ok h (source_row hist B rs r)"
proof -
  have "run_slot (rs ! r) < length hist" "list_all (row_ok h) hist"
    using assms by (simp_all add: serves_def list_all_length less_Suc_eq_le)
  then have "row_ok h (hist ! run_slot (rs ! r))" by (simp add: list_all_length)
  moreover have "row_ok h (g ! r)" if "eb_mode B = Extend" "eb_ngram_history B = Some g" for g
    using assms that by (simp add: serves_def mode_ok_def list_all_length)
  ultimately show ?thesis by (auto simp: source_row_def split: forward_mode.split option.split)
qed

lemma serves_new_ok:
  assumes "serves h hist rs ids B" "r < length rs"
  shows "list_all (tok_ok h) (run_new (rs ! r))"
proof -
  have "set (run_new (rs ! r)) \<subseteq> set (flat rs)" using nth_mem [OF assms(2)] by (auto simp: flat_def)
  also have "\<dots> \<subseteq> set ids" using assms(1) set_take_subset unfolding serves_def by metis
  finally show ?thesis using assms(1) by (auto simp: serves_def list_all_iff)
qed

lemma preds_ok:
  assumes "hasher_ok h" "serves h hist rs ids B" "r < length rs" "j < length (run_new (rs ! r))" "s < ngram h"
  shows "tok_ok h (torch_fill h (pred_raw (ngram h) (run_new (rs ! r)) (source_row hist B rs r) j s))"
    "0 \<le> torch_fill h (pred_raw (ngram h) (run_new (rs ! r)) (source_row hist B rs r) j s)"
    "torch_fill h (pred_raw (ngram h) (run_new (rs ! r)) (source_row hist B rs r) j s) < len (token_map h)"
proof -
  have "tok_ok h (pred_raw (ngram h) (run_new (rs ! r)) (source_row hist B rs r) j s)"
    by (rule pred_raw_ok [OF serves_source [OF assms(2,3)] serves_new_ok [OF assms(2,3)] assms(4,5)])
  then show "tok_ok h (torch_fill h (pred_raw (ngram h) (run_new (rs ! r)) (source_row hist B rs r) j s))"
    "0 \<le> torch_fill h (pred_raw (ngram h) (run_new (rs ! r)) (source_row hist B rs r) j s)"
    "torch_fill h (pred_raw (ngram h) (run_new (rs ! r)) (source_row hist B rs r) j s) < len (token_map h)"
    using tok_ok_fill [OF assms(1)] by (simp_all add: tok_ok_def)
qed

text \<open>What a live run reads is its sequence.\<close>

lemma live_cids:
  assumes "serves h hist rs ids B" "r < length rs" "run_live (rs ! r)" "j < length (run_new (rs ! r))"
  shows "cids_of h (\<lambda>s. torch_fill h (pred_raw (ngram h) (run_new (rs ! r)) (source_row hist B rs r) j s)) (length (run_before (rs ! r)) + j)
    = cids_of h (\<lambda>s. torch_fill h ((run_before (rs ! r) @ run_new (rs ! r)) ! (length (run_before (rs ! r)) + j - s)))
        (length (run_before (rs ! r)) + j)"
proof (rule cids_of_cong)
  have "holds h (source_row hist B rs r) (run_before (rs ! r))" using assms(1-3) by (simp add: serves_def)
  then show "torch_fill h (pred_raw (ngram h) (run_new (rs ! r)) (source_row hist B rs r) j s)
      = torch_fill h ((run_before (rs ! r) @ run_new (rs ! r)) ! (length (run_before (rs ! r)) + j - s))"
    if "s < ngram h" "s \<le> length (run_before (rs ! r)) + j" for s
    using pred_raw_reads [OF _ assms(4) that] by blast
qed

section \<open>Writing rows\<close>

lemma list_all_update: "list_all Q xs \<Longrightarrow> Q y \<Longrightarrow> list_all Q (xs[k := y])"
  using set_update_subset_insert [of xs k y] by (auto simp: list_all_iff)

text \<open>A sequence of row updates: the row of a key that occurs with one value only, and the others.\<close>

lemma fold_rows:
  assumes "\<forall>(k, x) \<in> set kxs. k < length hist"
  shows "length (fold (\<lambda>(k, x) hist. hist[k := f x]) kxs hist) = length hist"
    and "k \<notin> fst ` set kxs \<Longrightarrow> fold (\<lambda>(k, x) hist. hist[k := f x]) kxs hist ! k = hist ! k"
    and "(k, x) \<in> set kxs \<Longrightarrow> (\<forall>y. (k, y) \<in> set kxs \<longrightarrow> y = x) \<Longrightarrow> fold (\<lambda>(k, x) hist. hist[k := f x]) kxs hist ! k = f x"
    and "P \<Longrightarrow> list_all Q hist \<Longrightarrow> (\<And>k x. (k, x) \<in> set kxs \<Longrightarrow> Q (f x)) \<Longrightarrow>
      list_all Q (fold (\<lambda>(k, x) hist. hist[k := f x]) kxs hist)"
proof -
  show "length (fold (\<lambda>(k, x) hist. hist[k := f x]) kxs hist) = length hist" for kxs
    by (induction kxs arbitrary: hist) auto
  show other: "k \<notin> fst ` set kxs \<Longrightarrow> fold (\<lambda>(k, x) hist. hist[k := f x]) kxs hist ! k = hist ! k" for kxs hist
    by (induction kxs arbitrary: hist) auto
  show "(k, x) \<in> set kxs \<Longrightarrow> (\<forall>y. (k, y) \<in> set kxs \<longrightarrow> y = x) \<Longrightarrow> fold (\<lambda>(k, x) hist. hist[k := f x]) kxs hist ! k = f x"
    using assms
  proof (induction kxs arbitrary: hist)
    case (Cons a kxs)
    obtain k' x' where a: "a = (k', x')" by (cases a)
    show ?case
    proof (cases "(k, x) \<in> set kxs")
      case True
      have "fold (\<lambda>(k, x) hist. hist[k := f x]) kxs (hist[k' := f x']) ! k = f x"
        by (rule Cons.IH [OF True]) (use Cons.prems in auto)
      then show ?thesis by (simp add: a)
    next
      case False
      then have "k \<notin> fst ` set kxs" "k' = k" "x' = x" "k < length hist" using Cons.prems a by auto
      then show ?thesis by (simp add: a other)
    qed
  qed simp
  show "list_all Q hist \<Longrightarrow> (\<And>k x. (k, x) \<in> set kxs \<Longrightarrow> Q (f x)) \<Longrightarrow>
      list_all Q (fold (\<lambda>(k, x) hist. hist[k := f x]) kxs hist)"
  proof (induction kxs arbitrary: hist)
    case (Cons a kxs)
    obtain k x where a: "a = (k, x)" by (cases a)
    have "Q (f x)" by (rule Cons.prems(2) [of k]) (simp add: a)
    then have "list_all Q (hist[k := f x])" using Cons.prems(1) by (rule list_all_update [rotated])
    then have "list_all Q (fold (\<lambda>(k, x) hist. hist[k := f x]) kxs (hist[k := f x]))"
      by (rule Cons.IH) (meson Cons.prems(2) list.set_intros(2))
    then show ?case by (simp add: a)
  qed simp
qed

lemma last_tokens_row:
  assumes "2 \<le> n" "\<And>s. s < n \<Longrightarrow> fits I32 (f s)"
  shows "map (cast I32) (rev (take (n - 1) (map f [0..<n]))) = map (\<lambda>c. f (n - 2 - c)) [0..<n - 1]"
proof (rule nth_equalityI)
  fix i assume "i < length (map (cast I32) (rev (take (n - 1) (map f [0..<n]))))"
  then have i: "i < n - 1" using assms(1) by simp
  then have "n - 2 - i < n" "n - 1 - Suc i = n - 2 - i" by auto
  then show "map (cast I32) (rev (take (n - 1) (map f [0..<n]))) ! i = map (\<lambda>c. f (n - 2 - c)) [0..<n - 1] ! i"
    using i assms by (simp add: rev_nth)
qed (use assms in simp)

lemma sequence_map_Inr:
  "(\<And>x. x \<in> set xs \<Longrightarrow> f x = Inr (g x)) \<Longrightarrow> sequence (map f xs) = Inr (map g xs)"
  using sequence_Inr [of "map g xs"] by (simp cong: map_cong)

lemma distinct_filter_nth:
  assumes "distinct (map f (filter P xs))" "i < length xs" "j < length xs" "P (xs ! i)" "P (xs ! j)" "f (xs ! i) = f (xs ! j)"
  shows "i = j"
  using assms
proof (induction xs arbitrary: i j)
  case (Cons x xs)
  have first: "\<not> (P x \<and> k < length xs \<and> P (xs ! k) \<and> f x = f (xs ! k))" for k
  proof
    assume k: "P x \<and> k < length xs \<and> P (xs ! k) \<and> f x = f (xs ! k)"
    then have "xs ! k \<in> set (filter P xs)" by simp
    then have "f (xs ! k) \<in> f ` set (filter P xs)" by (rule imageI)
    then show False using Cons.prems(1) k by simp
  qed
  have rest: "distinct (map f (filter P xs))" using Cons.prems(1) by (cases "P x") simp_all
  show ?case
  proof (cases i)
    case 0
    then show ?thesis using Cons.prems first by (cases j) auto
  next
    case (Suc i')
    then show ?thesis
    proof (cases j)
      case 0
      then show ?thesis using Cons.prems first [of i'] Suc by simp
    next
      case (Suc j')
      then show ?thesis using Cons.IH [OF rest, of i' j'] Cons.prems \<open>i = Suc i'\<close> by simp
    qed
  qed
qed simp

text \<open>What \<open>forward\<close> commits: for a committing run the predecessors of its last token, for the others
  some tokens, to the padding row.\<close>

lemma commit_rows_served:
  assumes "hasher_ok h" "serves h hist rs ids B"
    and "length targets = length rs" "length toks = length rs"
    and "\<And>r. r < length rs \<Longrightarrow> targets ! r = (if commits B (rs ! r) then int (run_slot (rs ! r)) else int (pad_row h))"
    and "\<And>r. r < length rs \<Longrightarrow> commits B (rs ! r) \<Longrightarrow> toks ! r = preds_at h hist B rs r (length (run_new (rs ! r)) - 1)"
    and "\<And>r. r < length rs \<Longrightarrow> length (toks ! r) = ngram h \<and> list_all (tok_ok h) (toks ! r)"
  shows "\<exists>hist'. commit_rows h hist targets toks = Inr hist' \<and> rows_served h hist rs B hist'"
proof -
  let ?k = "\<lambda>r. if commits B (rs ! r) then run_slot (rs ! r) else pad_row h"
  let ?ks = "map ?k [0..<length rs]"
  let ?f = "\<lambda>toks. map (cast I32) (rev (take (ngram h - 1) toks))"
  have n: "2 \<le> ngram h" using assms(1) by (simp add: hasher_ok_def)
  have len: "length hist = pad_row h + 1" using assms(2) by (simp add: serves_def)
  have slot: "run_slot (rs ! r) \<le> pad_row h" if "r < length rs" for r using assms(2) that by (simp add: serves_def list_all_length)
  have live_slot: "run_slot (rs ! r) < pad_row h" if "r < length rs" "commits B (rs ! r)" for r
    using assms(2) that nth_mem [OF that(1)] by (auto simp: serves_def list_all_iff commits_def)
  have inj: "r = r'" if "r < length rs" "r' < length rs" "commits B (rs ! r)" "commits B (rs ! r')" "run_slot (rs ! r) = run_slot (rs ! r')" for r r'
    using assms(2) distinct_filter_nth [of run_slot run_live rs r r'] that by (simp add: serves_def commits_def)
  have "targets = map int ?ks" using assms(3,5) by (intro nth_equalityI) auto
  moreover have "\<forall>k \<in> set ?ks. k < length hist" using slot len by (auto simp: less_Suc_eq_le)
  ultimately have seq: "sequence (map (torch_index (length hist)) targets) = Inr ?ks"
    using sequence_map_Inr [of ?ks "\<lambda>k. torch_index (length hist) (int k)" id] by (simp add: torch_index_def comp_def)
  define kxs where "kxs = zip ?ks toks"
  have mem: "(k, x) \<in> set kxs \<longleftrightarrow> (\<exists>r < length rs. k = ?k r \<and> x = toks ! r)" for k x
  proof -
    have "kxs = map (\<lambda>r. (?k r, toks ! r)) [0..<length rs]" using assms(4) by (intro nth_equalityI) (simp_all add: kxs_def)
    then show ?thesis
      by (simp only: set_map image_iff set_upt atLeastLessThan_iff prod.inject Bex_def) simp
  qed
  have bnd: "\<forall>(k, x) \<in> set kxs. k < length hist" using slot len by (auto simp: mem less_Suc_eq_le)
  define hist' where "hist' = fold (\<lambda>(k, x) hist. hist[k := ?f x]) kxs hist"
  have res: "commit_rows h hist targets toks = Inr hist'" by (simp add: commit_rows_def seq hist'_def kxs_def)
  have good: "row_ok h (?f x)" if kx: "(k, x) \<in> set kxs" for k x
  proof -
    obtain r where "r < length rs" "x = toks ! r" using kx unfolding mem by blast
    then have "length x = ngram h" "list_all (tok_ok h) x" using assms(7) by simp_all
    then show ?thesis using n by (auto simp: row_ok_def list_all_iff tok_ok_fits dest!: in_set_takeD)
  qed
  have "holds h (hist' ! run_slot (rs ! r)) (run_before (rs ! r) @ run_new (rs ! r))" if r: "r < length rs" "commits B (rs ! r)" for r
  proof -
    let ?j = "length (run_new (rs ! r)) - 1"
    let ?p = "\<lambda>s. torch_fill h (pred_raw (ngram h) (run_new (rs ! r)) (source_row hist B rs r) ?j s)"
    have j: "?j < length (run_new (rs ! r))" using r(2) by (simp add: commits_def)
    have uniq: "y = toks ! r" if y: "(run_slot (rs ! r), y) \<in> set kxs" for y
    proof -
      obtain r' where r': "r' < length rs" "run_slot (rs ! r) = ?k r'" "y = toks ! r'" using y unfolding mem by blast
      then have c: "commits B (rs ! r')" using live_slot [OF r] by (auto split: if_splits)
      then have "r = r'" using inj [OF r(1) r'(1) r(2) c] r'(2) by simp
      then show ?thesis using r'(3) by simp
    qed
    have "(run_slot (rs ! r), toks ! r) \<in> set kxs" unfolding mem using r by auto
    then have "hist' ! run_slot (rs ! r) = ?f (toks ! r)"
      unfolding hist'_def by (rule fold_rows(3) [OF bnd]) (use uniq in blast)
    also have "\<dots> = map (\<lambda>c. ?p (ngram h - 2 - c)) [0..<ngram h - 1]"
      unfolding assms(6) [OF r] preds_at_def
      by (rule last_tokens_row [OF n]) (use preds_ok(1) [OF assms(1,2) r(1) j] tok_ok_fits in blast)
    finally show ?thesis
      using r(2) assms(2) r(1) serves_new_ok [OF assms(2) r(1)]
      by (intro holds_after [OF assms(1)]) (auto simp: commits_def serves_def)
  qed
  moreover have "hist' ! k = hist ! k" if "k < pad_row h" "\<forall>x \<in> set rs. commits B x \<longrightarrow> run_slot x \<noteq> k" for k
  proof -
    have "k \<notin> fst ` set kxs"
    proof
      assume "k \<in> fst ` set kxs"
      then obtain y where "(k, y) \<in> set kxs" by auto
      then obtain r where "r < length rs" "k = ?k r" unfolding mem by blast
      then show False using that nth_mem [of r rs] by (auto split: if_splits)
    qed
    then show ?thesis unfolding hist'_def by (rule fold_rows(2) [OF bnd])
  qed
  moreover have "length hist' = length hist" unfolding hist'_def by (rule fold_rows(1) [OF bnd])
  moreover have "list_all (row_ok h) hist'"
    unfolding hist'_def by (rule fold_rows(4) [OF bnd TrueI]) (use assms(2) good in \<open>auto simp: serves_def\<close>)
  ultimately show ?thesis using res by (auto simp: rows_served_def in_set_conv_nth)
qed

section \<open>The plan of a pass\<close>

lemma plan_exists: "serves h hist rs ids B \<Longrightarrow> \<exists>P. forward_plan h hist (length ids) B = Inr P"
  by (auto simp: serves_def mode_ok_def forward_plan_def Let_def split: forward_mode.splits)

lemma plan_places:
  assumes "serves h hist rs ids B" "forward_plan h hist (length ids) B = Inr P"
  shows "pl_num_real P = length (flat rs)"
    and "r < length rs \<Longrightarrow> j < length (run_new (rs ! r)) \<Longrightarrow>
      torch_place (pl_mode P) (pl_block P) (pl_row P) (pl_starts P) (start rs r + j) = Inr (int r, int j)"
proof -
  have m: "mode_ok h rs ids B" and slots: "length (eb_slots B) = length rs" using assms(1) by (simp_all add: serves_def)
  have "pl_num_real P = length (flat rs) \<and> (r < length rs \<longrightarrow> j < length (run_new (rs ! r)) \<longrightarrow>
      torch_place (pl_mode P) (pl_block P) (pl_row P) (pl_starts P) (start rs r + j) = Inr (int r, int j))"
  proof (cases "eb_mode B")
    case Decode
    then have b: "list_all (\<lambda>x. length (run_new x) = 1) rs" "length ids = length rs" using m by (simp_all add: mode_ok_def)
    have P: "pl_mode P = MODE_DECODE" "pl_num_real P = length ids" "pl_block P = 1"
      using assms(2) Decode by (auto simp: forward_plan_def)
    show ?thesis using P b start_block(1) [OF b(1)] start_block(2) [OF b(1) order_refl] by (auto simp: torch_place_def list_all_length)
  next
    case (TargetVerify b)
    then have b: "list_all (\<lambda>x. length (run_new x) = b) rs" "length ids = length rs * b" using m by (simp_all add: mode_ok_def)
    have P: "pl_mode P = MODE_VERIFY" "pl_num_real P = length ids" "pl_block P = b"
      using assms(2) TargetVerify by (auto simp: forward_plan_def split: if_splits)
    show ?thesis using P b start_block(1) [OF b(1)] start_block(2) [OF b(1) order_refl] by (auto simp: torch_place_def list_all_length)
  next
    case Extend
    then have e: "eb_lens B = map (\<lambda>x. len (run_new x)) rs" "eb_starts B = map (\<lambda>r. int (start rs r)) [0..<length rs]"
      using m by (simp_all add: mode_ok_def)
    have P: "pl_mode P = MODE_EXTEND" "pl_row P = repeat_interleave (eb_lens B)" "pl_num_real P = length (pl_row P)" "pl_starts P = eb_starts B"
      using assms(2) Extend by (auto simp: forward_plan_def Let_def)
    show ?thesis using P e repeat_interleave_runs [OF e(1)] by (auto simp: torch_place_def torch_index_def)
  next
    case OtherMode
    then show ?thesis using m by (simp add: mode_ok_def)
  qed
  then show "pl_num_real P = length (flat rs)"
    "r < length rs \<Longrightarrow> j < length (run_new (rs ! r)) \<Longrightarrow>
      torch_place (pl_mode P) (pl_block P) (pl_row P) (pl_starts P) (start rs r + j) = Inr (int r, int j)" by blast+
qed

lemma plan_history:
  assumes "serves h hist rs ids B" "forward_plan h hist (length ids) B = Inr P" "r < length rs"
  shows "(if pl_via_slots P then pl_history P ! run_slot (rs ! r) else pl_history P ! r) = source_row hist B rs r"
    and "pl_via_slots P \<Longrightarrow> pl_history P = hist" and "\<not> pl_via_slots P \<Longrightarrow> length (pl_history P) = length rs"
    and "list_all (row_ok h) (pl_history P)"
  using assms
  by (auto simp: forward_plan_def source_row_def Let_def serves_def mode_ok_def split: forward_mode.splits if_splits option.splits)

lemma kargs_of_fields:
  "ka_ids (kargs_of h ids B P loc) = ids" "ka_pos (kargs_of h ids B P loc) = eb_positions B"
  "ka_slots (kargs_of h ids B P loc) = (if pl_via_slots P then Some (eb_slots B) else None)"
  "ka_num_real (kargs_of h ids B P loc) = pl_num_real P" "ka_num_tokens (kargs_of h ids B P loc) = length ids"
  "ka_out_loc (kargs_of h ids B P loc) = loc" "ka_n (kargs_of h ids B P loc) = ngram h"
  "ka_l (kargs_of h ids B P loc) = length (multipliers h)"
  by (simp_all add: kargs_of_def)

lemma lane_place:
  assumes "serves h hist rs ids B" "forward_plan h hist (length ids) B = Inr P" "r < length rs" "j < length (run_new (rs ! r))"
  shows "lane_row oob (kargs_of h ids B P loc) (start rs r + j) = int r"
    and "lane_off oob (kargs_of h ids B P loc) (start rs r + j) = int j"
    and "lane_hrow oob (kargs_of h ids B P loc) (start rs r + j) = (if pl_via_slots P then int (run_slot (rs ! r)) else int r)"
    and "start rs r + j < ka_num_real (kargs_of h ids B P loc)"
proof -
  let ?K = "kargs_of h ids B P loc" and ?t = "start rs r + j"
  have m: "mode_ok h rs ids B" and slots: "eb_slots B = map (\<lambda>x. int (run_slot x)) rs" and fit: "fits I32 (len ids)"
    using assms(1) by (simp_all add: serves_def)
  note l = serves_length [OF assms(1)]
  have t: "?t < pl_num_real P" using plan_places(1) [OF assms(1,2)] start_less [OF assms(3,4)] by simp
  then show "?t < ka_num_real ?K" by (simp add: kargs_of_def)
  have "lane_row oob ?K ?t = int r \<and> lane_off oob ?K ?t = int j"
  proof (cases "eb_mode B")
    case Decode
    then have b: "list_all (\<lambda>x. length (run_new x) = 1) rs" using m by (simp add: mode_ok_def)
    have P: "pl_mode P = MODE_DECODE" using assms(2) Decode by (auto simp: forward_plan_def)
    show ?thesis using P b start_block [OF b] assms(3,4)
      by (auto simp: lane_row_def lane_off_def kargs_of_def list_all_length)
  next
    case (TargetVerify b)
    then have b: "list_all (\<lambda>x. length (run_new x) = b) rs" using m by (simp add: mode_ok_def)
    have P: "pl_mode P = MODE_VERIFY" "pl_block P = b"
      using assms(2) TargetVerify by (auto simp: forward_plan_def split: if_splits)
    show ?thesis using P b start_block [OF b] assms(3,4)
      by (auto simp: lane_row_def lane_off_def kargs_of_def list_all_length)
  next
    case Extend
    then have e: "eb_lens B = map (\<lambda>x. len (run_new x)) rs" "eb_starts B = map (\<lambda>r. int (start rs r)) [0..<length rs]"
      using m by (simp_all add: mode_ok_def)
    have P: "pl_mode P = MODE_EXTEND" "pl_row P = repeat_interleave (eb_lens B)" "pl_num_real P = length (pl_row P)" "pl_starts P = eb_starts B"
      using assms(2) Extend by (auto simp: forward_plan_def Let_def)
    have row: "lane_row oob ?K ?t = int r"
      using P t repeat_interleave_runs(2) [OF e(1) assms(3,4)]
      by (simp add: lane_row_def kargs_of_def peek_def del: of_nat_add)
    have "fits I32 (int (start rs r))"
      using fit start_less [OF assms(3,4)] l by (simp add: fits_I32)
    then show ?thesis using row P t e(2) assms(3) by (simp add: lane_off_def kargs_of_def peek_def)
  next
    case OtherMode
    then show ?thesis using m by (simp add: mode_ok_def)
  qed
  then show row: "lane_row oob ?K ?t = int r" "lane_off oob ?K ?t = int j" by simp_all
  show "lane_hrow oob ?K ?t = (if pl_via_slots P then int (run_slot (rs ! r)) else int r)"
    using row(1) t slots assms(3) unfolding lane_hrow_def kargs_of_fields by (simp add: peek_def)
qed

end
