(* ===== verification/EngramServe.thy ===== *)
theory EngramServe
  imports EngramBatch
begin

text \<open>
  A pass over a batch of runs on either device: the torch path, the kernels, and the commit that both
  share. The results are the ones of \<open>ids_served\<close> and \<open>rows_served\<close>, for any order of the programs and
  whatever fresh buffers hold.
\<close>

section \<open>The shared commit\<close>

lemma sequence_each:
  assumes "\<And>i. i < n \<Longrightarrow> \<exists>y. f i = Inr y"
  shows "\<exists>ys. sequence (map f [0..<n]) = Inr ys \<and> length ys = n \<and> (\<forall>i < n. f i = Inr (ys ! i))"
proof -
  obtain g where g: "\<And>i. i < n \<Longrightarrow> f i = Inr (g i)" using assms by metis
  have "sequence (map f [0..<n]) = Inr (map g [0..<n])" by (rule sequence_map_Inr) (use g in simp)
  then show ?thesis using g by (intro exI [of _ "map g [0..<n]"]) simp
qed

lemma torch_index_nat: "k < n \<Longrightarrow> torch_index n (int k) = Inr k"
  by (simp add: torch_index_def)

text \<open>The table of predecessors: exact for the tokens of runs, harmless for padding.\<close>

definition table_ok :: "hasher \<Rightarrow> int list list \<Rightarrow> eng_batch \<Rightarrow> run list \<Rightarrow> nat \<Rightarrow> int list list \<Rightarrow> bool" where
  "table_ok h hist B rs T tokens \<longleftrightarrow>
     length tokens = T
     \<and> (\<forall>t < T. length (tokens ! t) = ngram h \<and> list_all (tok_ok h) (tokens ! t))
     \<and> (\<forall>r < length rs. \<forall>j < length (run_new (rs ! r)). tokens ! (start rs r + j) = preds_at h hist B rs r j)"

lemma table_pads:
  assumes "hasher_ok h" "serves h hist rs ids B" "length tokens = T"
    and "\<forall>t < T. length (flat rs) \<le> t \<longrightarrow> length (tokens ! t) = ngram h \<and> list_all (tok_ok h) (tokens ! t)"
    and "\<forall>r < length rs. \<forall>j < length (run_new (rs ! r)). tokens ! (start rs r + j) = preds_at h hist B rs r j"
  shows "table_ok h hist B rs T tokens"
proof -
  have "length (tokens ! t) = ngram h \<and> list_all (tok_ok h) (tokens ! t)" if t: "t < length (flat rs)" for t
  proof -
    obtain r j where rj: "place rs t = (r, j)" "r < length rs" "j < length (run_new (rs ! r))" "t = start rs r + j"
      by (rule place_inverse [OF t])
    then have "tokens ! t = preds_at h hist B rs r j" using assms(5) by blast
    then show ?thesis using preds_ok(1) [OF assms(1,2) rj(2,3)] by (simp add: preds_at_def list_all_length)
  qed
  then show ?thesis using assms(3-5) unfolding table_ok_def by (meson not_le)
qed

lemma forward_commit_served:
  assumes "hasher_ok h" "ehistory h = Some hist" "serves h hist rs ids B" "forward_plan h hist (length ids) B = Inr P" "ids \<noteq> []"
    and "table_ok h hist B rs (length ids) tokens"
  shows "\<exists>hist'. forward_commit h hist B P tokens = Inr (h\<lparr>ehistory := Some hist'\<rparr>) \<and> rows_served h hist rs B hist'"
proof -
  have m: "mode_ok h rs ids B" and slots: "eb_slots B = map (\<lambda>x. int (run_slot x)) rs" using assms(3) by (simp_all add: serves_def)
  have hist: "list_all (row_ok h) hist" using assms(3) by (simp add: serves_def)
  have tab: "length tokens = length ids" "\<And>t. t < length ids \<Longrightarrow> length (tokens ! t) = ngram h \<and> list_all (tok_ok h) (tokens ! t)"
    "\<And>r j. r < length rs \<Longrightarrow> j < length (run_new (rs ! r)) \<Longrightarrow> tokens ! (start rs r + j) = preds_at h hist B rs r j"
    using assms(6) by (simp_all add: table_ok_def)
  show ?thesis
  proof (cases "eb_mode B")
    case Decode
    then have b: "list_all (\<lambda>x. length (run_new x) = 1) rs" "length ids = length rs" using m by (simp_all add: mode_ok_def)
    obtain loc where loc: "eb_out_loc B = Some loc" "length loc = length rs" "\<And>r. r < length rs \<Longrightarrow> run_live (rs ! r) \<longleftrightarrow> loc ! r \<noteq> 0"
      using m Decode by (auto simp: mode_ok_def)
    have one: "length (run_new (rs ! r)) = 1" if "r < length rs" for r using b(1) that by (simp add: list_all_length)
    have com: "commits B (rs ! r) \<longleftrightarrow> run_live (rs ! r)" if "r < length rs" for r
      using one [OF that] Decode by (auto simp: commits_def)
    let ?tg = "map2 (\<lambda>l r. if l = 0 then int (pad_row h) else r) loc (eb_slots B)"
    have "\<exists>hist'. commit_rows h hist ?tg tokens = Inr hist' \<and> rows_served h hist rs B hist'"
    proof (rule commit_rows_served [OF assms(1,3)])
      fix r assume r: "r < length rs"
      show "?tg ! r = (if commits B (rs ! r) then int (run_slot (rs ! r)) else int (pad_row h))"
        using r loc slots com by simp
      show "length (tokens ! r) = ngram h \<and> list_all (tok_ok h) (tokens ! r)" using tab(2) r b(2) by simp
      show "tokens ! r = preds_at h hist B rs r (length (run_new (rs ! r)) - 1)" if "commits B (rs ! r)"
        using tab(3) [OF r, of 0] one [OF r] start_block(1) [OF b(1), of r] r by simp
    qed (use b loc slots tab(1) in simp_all)
    moreover have "pl_commit P = Some (eb_slots B, None)" using assms(4) Decode by (auto simp: forward_plan_def)
    ultimately show ?thesis using loc(1) by (auto simp: forward_commit_def commit_targets_def)
  next
    case (TargetVerify b)
    then have "pl_commit P = None" using assms(4) by (auto simp: forward_plan_def split: if_splits)
    moreover have "rows_served h hist rs B hist" using TargetVerify hist by (simp add: rows_served_def commits_def)
    moreover have "h = h\<lparr>ehistory := Some hist\<rparr>" using assms(2) by simp
    ultimately show ?thesis by (intro exI [of _ hist]) (simp add: forward_commit_def)
  next
    case Extend
    then have e: "eb_lens B = map (\<lambda>x. len (run_new x)) rs" "eb_starts B = map (\<lambda>r. int (start rs r)) [0..<length rs]"
      using m by (simp_all add: mode_ok_def)
    let ?rows = "map2 (\<lambda>n r. if 0 < n then r else int (pad_row h)) (eb_lens B) (eb_slots B)"
    let ?js = "map2 (\<lambda>s n. min (max (s + n - 1) 0) (int (length ids) - 1)) (eb_starts B) (eb_lens B)"
    define j where "j r = nat (min (max (int (start rs r) + len (run_new (rs ! r)) - 1) 0) (int (length ids) - 1))" for r
    have P: "pl_commit P = Some (?rows, Some ?js)" using assms(4) Extend by (auto simp: forward_plan_def Let_def)
    have jr: "j r < length ids" for r using assms(5) by (simp add: j_def nat_less_iff)
    have js: "?js = map (\<lambda>r. int (j r)) [0..<length rs]"
      using e assms(5) by (intro nth_equalityI) (simp_all add: j_def)
    have jlast: "j r = start rs r + (length (run_new (rs ! r)) - 1)" if "r < length rs" "run_new (rs ! r) \<noteq> []" for r
      using start_less [OF that(1), of "length (run_new (rs ! r)) - 1"] that serves_length [OF assms(3)] by (cases "run_new (rs ! r)") (auto simp: j_def)
    have toks: "sequence (map (\<lambda>j. map_sum id (\<lambda>k. tokens ! k) (torch_index (length tokens) j)) ?js)
        = Inr (map (\<lambda>r. tokens ! j r) [0..<length rs])"
      unfolding js map_map by (intro sequence_map_Inr) (simp add: torch_index_nat tab(1) jr)
    have live: "commits B (rs ! r) \<longleftrightarrow> run_live (rs ! r) \<and> run_new (rs ! r) \<noteq> []" for r
      using Extend by (auto simp: commits_def)
    have "\<exists>targets. commit_targets h (eb_out_loc B) ?rows (Some ?js) = Inr targets \<and> length targets = length rs
        \<and> (\<forall>r < length rs. targets ! r = (if commits B (rs ! r) then int (run_slot (rs ! r)) else int (pad_row h)))"
    proof (cases "eb_out_loc B")
      case None
      then have "list_all run_live rs" using m Extend by (simp add: mode_ok_def)
      then show ?thesis using None e slots live by (auto simp: commit_targets_def list_all_length)
    next
      case (Some loc)
      then have loc: "length loc = length ids" "\<And>r. r < length rs \<Longrightarrow> run_new (rs ! r) \<noteq> [] \<Longrightarrow>
          run_live (rs ! r) = (loc ! (start rs r + (length (run_new (rs ! r)) - 1)) \<noteq> 0)"
        using m Extend by (simp_all add: mode_ok_def)
      have ls: "sequence (map (\<lambda>j. map_sum id (\<lambda>k. loc ! k) (torch_index (length loc) j)) ?js)
          = Inr (map (\<lambda>r. loc ! j r) [0..<length rs])"
        unfolding js map_map by (intro sequence_map_Inr) (simp add: torch_index_nat loc(1) jr)
      let ?tg = "map2 (\<lambda>l r. if l = 0 then int (pad_row h) else r) (map (\<lambda>r. loc ! j r) [0..<length rs]) ?rows"
      have "?tg ! r = (if commits B (rs ! r) then int (run_slot (rs ! r)) else int (pad_row h))" if "r < length rs" for r
      proof (cases "run_new (rs ! r) = []")
        case False
        then show ?thesis using that e slots loc(2) [OF that False] jlast [OF that False] by (simp add: live)
      qed (use that e slots live in simp)
      then show ?thesis using Some ls e slots by (simp add: commit_targets_def)
    qed
    then obtain targets where tg: "commit_targets h (eb_out_loc B) ?rows (Some ?js) = Inr targets" "length targets = length rs"
      "\<And>r. r < length rs \<Longrightarrow> targets ! r = (if commits B (rs ! r) then int (run_slot (rs ! r)) else int (pad_row h))" by blast
    have "\<exists>hist'. commit_rows h hist targets (map (\<lambda>r. tokens ! j r) [0..<length rs]) = Inr hist' \<and> rows_served h hist rs B hist'"
    proof (rule commit_rows_served [OF assms(1,3) tg(2) _ tg(3)])
      fix r assume r: "r < length rs"
      show "length (map (\<lambda>r. tokens ! j r) [0..<length rs] ! r) = ngram h \<and> list_all (tok_ok h) (map (\<lambda>r. tokens ! j r) [0..<length rs] ! r)"
        using tab(2) [OF jr] r by simp
      show "map (\<lambda>r. tokens ! j r) [0..<length rs] ! r = preds_at h hist B rs r (length (run_new (rs ! r)) - 1)" if "commits B (rs ! r)"
      proof -
        have ne: "run_new (rs ! r) \<noteq> []" using that live by simp
        have "tokens ! (start rs r + (length (run_new (rs ! r)) - 1)) = preds_at h hist B rs r (length (run_new (rs ! r)) - 1)"
          by (rule tab(3) [OF r]) (use ne in simp)
        then show ?thesis using r by (simp only: nth_map length_upt nth_upt diff_zero add_0 jlast [OF r ne])
      qed
    qed simp
    then show ?thesis using P toks tg(1) by (auto simp: forward_commit_def)
  next
    case OtherMode
    then show ?thesis using m by (simp add: mode_ok_def)
  qed
qed

section \<open>The torch path\<close>

lemma history_rows:
  assumes "serves h hist rs ids B" "forward_plan h hist (length ids) B = Inr P" "\<not> pl_via_slots P"
  shows "length (pl_history P) = length rs"
  using assms by (auto simp: forward_plan_def Let_def serves_def mode_ok_def split: forward_mode.splits if_splits option.splits)

lemma torch_rows:
  assumes "serves h hist rs ids B" "forward_plan h hist (length ids) B = Inr P"
  shows "\<exists>rows. (if pl_via_slots P
      then sequence (map (\<lambda>r. map_sum id (\<lambda>k. pl_history P ! k) (torch_index (length (pl_history P)) r)) (eb_slots B))
      else Inr (pl_history P)) = Inr rows
    \<and> length rows = length rs \<and> (\<forall>r < length rs. rows ! r = source_row hist B rs r)"
proof (cases "pl_via_slots P")
  case True
  have hist: "pl_history P = hist" using assms True
    by (auto simp: forward_plan_def Let_def split: forward_mode.splits if_splits option.splits)
  have slot: "run_slot x < length hist" if "x \<in> set rs" for x
    using assms(1) that by (auto simp: serves_def list_all_iff less_Suc_eq_le)
  have "sequence (map (\<lambda>x. map_sum id (\<lambda>k. hist ! k) (torch_index (length hist) (int (run_slot x)))) rs)
      = Inr (map (\<lambda>x. hist ! run_slot x) rs)"
    by (intro sequence_map_Inr) (simp add: torch_index_nat slot)
  moreover have "eb_slots B = map (\<lambda>x. int (run_slot x)) rs" using assms(1) by (simp add: serves_def)
  moreover have "hist ! run_slot (rs ! r) = source_row hist B rs r" if "r < length rs" for r
    using plan_history(1) [OF assms that] True hist by simp
  ultimately show ?thesis using True hist by (auto simp: comp_def)
next
  case False
  then show ?thesis using plan_history(1) [OF assms] history_rows [OF assms] by auto
qed

lemma torch_tokens_placed:
  assumes "hasher_ok h" "serves h hist rs ids B" "forward_plan h hist (length ids) B = Inr P"
    and "length rows = length rs" "\<And>r. r < length rs \<Longrightarrow> rows ! r = source_row hist B rs r"
  shows "\<exists>reals. torch_tokens (ngram h) ids (pl_mode P) rows (pl_num_real P) (pl_block P) (pl_row P) (pl_starts P) = Inr reals
    \<and> length reals = length (flat rs)
    \<and> (\<forall>r < length rs. \<forall>j < length (run_new (rs ! r)).
        reals ! (start rs r + j) = map (pred_raw (ngram h) (run_new (rs ! r)) (source_row hist B rs r) j) [0..<ngram h])"
proof -
  have n: "2 \<le> ngram h" using assms(1) by (simp add: hasher_ok_def)
  have flat: "take (length (flat rs)) ids = flat rs" using assms(2) by (simp add: serves_def)
  note real = plan_places(1) [OF assms(2,3)] and l = serves_length [OF assms(2)]
  show ?thesis
  proof (cases "pl_mode P = MODE_DECODE")
    case True
    then have "eb_mode B = Decode" using assms(3) by (auto simp: forward_plan_def Let_def split: forward_mode.splits if_splits)
    then have b: "list_all (\<lambda>x. length (run_new x) = 1) rs" "length ids = length rs"
      using assms(2) by (simp_all add: serves_def mode_ok_def)
    have one: "length (run_new (rs ! r)) = 1" if "r < length rs" for r using b(1) that by (simp add: list_all_length)
    have "ids ! r # rev (rows ! r) = map (pred_raw (ngram h) (run_new (rs ! r)) (source_row hist B rs r) 0) [0..<ngram h]"
      if r: "r < length rs" for r
    proof -
      have "start rs r = r" using start_block(1) [OF b(1)] r by simp
      then have "ids ! r = run_new (rs ! r) ! 0"
        using in_run_start [OF flat r, of 0] one [OF r] by (simp add: in_run_def)
      then have "run_new (rs ! r) = [ids ! r]" using one [OF r] by (cases "run_new (rs ! r)") auto
      moreover have "length (source_row hist B rs r) = ngram h - 1" using serves_source [OF assms(2) r] by (simp add: row_ok_def)
      ultimately show ?thesis using decode_preds [OF _ n] assms(5) [OF r] by simp
    qed
    then show ?thesis
      using True b one start_block(1) [OF b(1)] start_block(2) [OF b(1) order_refl] assms(4) by (auto simp: torch_tokens_def)
  next
    case False
    define f where "f t = (case torch_place (pl_mode P) (pl_block P) (pl_row P) (pl_starts P) t of
        Inl e \<Rightarrow> Inl e | Inr p \<Rightarrow> torch_preds (ngram h) ids rows t p)" for t
    have f: "f (start rs r + j) = Inr (map (pred_raw (ngram h) (run_new (rs ! r)) (source_row hist B rs r) j) [0..<ngram h])"
      if rj: "r < length rs" "j < length (run_new (rs ! r))" for r j
      using plan_places(2) [OF assms(2,3) rj] torch_preds_placed [OF in_run_start [OF flat rj], of r rows "ngram h"] n rj(1) assms(4,5)
      by (simp add: f_def)
    have "\<exists>y. f t = Inr y" if t: "t < length (flat rs)" for t
    proof -
      obtain r j where "place rs t = (r, j)" "r < length rs" "j < length (run_new (rs ! r))" "t = start rs r + j"
        by (rule place_inverse [OF t])
      then show ?thesis using f by blast
    qed
    from sequence_each [of "length (flat rs)" f, OF this]
    obtain ys where ys: "sequence (map f [0..<length (flat rs)]) = Inr ys" "length ys = length (flat rs)"
      "\<forall>i < length (flat rs). f i = Inr (ys ! i)" by blast
    have "torch_tokens (ngram h) ids (pl_mode P) rows (pl_num_real P) (pl_block P) (pl_row P) (pl_starts P) = Inr ys"
      using False ys(1) l by (simp add: torch_tokens_def real tabulate_def f_def [abs_def])
    moreover have "ys ! (start rs r + j) = map (pred_raw (ngram h) (run_new (rs ! r)) (source_row hist B rs r) j) [0..<ngram h]"
      if "r < length rs" "j < length (run_new (rs ! r))" for r j
      using f [OF that] ys(3) start_less [OF that] by auto
    ultimately show ?thesis using ys(2) by blast
  qed
qed

lemma torch_compressed_total:
  assumes "list_all (\<lambda>x. 0 \<le> x \<and> x < len (token_map h)) tokens"
  shows "\<exists>cids. torch_compressed h tokens blocked = Inr cids"
proof -
  let ?g = "\<lambda>(tok, b). if b then eh_pad h else token_map h ! nat tok"
  have "sequence (map (\<lambda>(tok, b). map_sum id (\<lambda>k. if b then eh_pad h else token_map h ! k) (torch_index (length (token_map h)) tok))
      (zip tokens blocked)) = Inr (map ?g (zip tokens blocked))"
    by (intro sequence_map_Inr) (use assms in \<open>auto simp: list_all_iff torch_index_def dest!: set_zip_leftD\<close>)
  then show ?thesis by (auto simp: torch_compressed_def)
qed

lemma ids_computed:
  assumes "hasher_ok h" "serves h hist rs ids B" "\<And>t. t < length ids \<Longrightarrow> f t = out ! t"
    and "\<And>r j. r < length rs \<Longrightarrow> run_live (rs ! r) \<Longrightarrow> j < length (run_new (rs ! r)) \<Longrightarrow>
      f (start rs r + j) = map (torch_hash h (cids_of h (\<lambda>s. torch_fill h (pred_raw (ngram h) (run_new (rs ! r)) (source_row hist B rs r) j s))
        (length (run_before (rs ! r)) + j))) [0..<length (multipliers h)]"
  shows "ids_served h rs out"
  unfolding ids_served_def
proof (intro allI impI)
  fix r j assume rj: "r < length rs" "run_live (rs ! r)" "j < length (run_new (rs ! r))"
  have "start rs r + j < length ids" using start_less [OF rj(1,3)] serves_length [OF assms(2)] by simp
  then have "out ! (start rs r + j) = f (start rs r + j)" using assms(3) by simp
  then show "out ! (start rs r + j) = ngram_ids h (run_before (rs ! r) @ run_new (rs ! r)) (length (run_before (rs ! r)) + j)"
    unfolding ngram_ids_def assms(4) [OF rj] live_cids [OF assms(2) rj] .
qed

lemma torch_out:
  assumes "hasher_ok h" "serves h hist rs ids B" "pl_num_real P = length (flat rs)" "length tokens = length ids"
    and "\<forall>t < length ids. list_all (\<lambda>x. 0 \<le> x \<and> x < len (token_map h)) (tokens ! t)"
    and "\<forall>r < length rs. \<forall>j < length (run_new (rs ! r)). tokens ! (start rs r + j) = preds_at h hist B rs r j"
  shows "\<exists>out. sequence (map (\<lambda>t. compute_engram_hash_ids h (tokens ! t) (torch_blocked h (pl_num_real P) (eb_positions B) t (tokens ! t)))
      [0..<length tokens]) = Inr out \<and> length out = length ids \<and> ids_served h rs out"
proof -
  let ?f = "\<lambda>t. compute_engram_hash_ids h (tokens ! t) (torch_blocked h (pl_num_real P) (eb_positions B) t (tokens ! t))"
  have "\<exists>y. ?f t = Inr y" if "t < length tokens" for t
  proof -
    have "list_all (\<lambda>x. 0 \<le> x \<and> x < len (token_map h)) (tokens ! t)" using assms(4,5) that by simp
    then obtain cids where "torch_compressed h (tokens ! t) (torch_blocked h (pl_num_real P) (eb_positions B) t (tokens ! t)) = Inr cids"
      using torch_compressed_total by blast
    then show ?thesis by (simp add: compute_engram_hash_ids_def)
  qed
  from sequence_each [of "length tokens" ?f, OF this]
  obtain out where out: "sequence (map ?f [0..<length tokens]) = Inr out" "length out = length tokens"
    "\<forall>t < length tokens. ?f t = Inr (out ! t)" by blast
  have "ids_served h rs out"
  proof (rule ids_computed [OF assms(1,2), of "\<lambda>t. projr (?f t)"])
    show "projr (?f t) = out ! t" if "t < length ids" for t using out(3) that assms(4) by simp
    fix r j assume rj: "r < length rs" "run_live (rs ! r)" "j < length (run_new (rs ! r))"
    let ?p = "\<lambda>s. torch_fill h (pred_raw (ngram h) (run_new (rs ! r)) (source_row hist B rs r) j s)"
    have tok: "tokens ! (start rs r + j) = map ?p [0..<ngram h]" using assms(6) rj by (simp add: preds_at_def)
    have pos: "eb_positions B ! (start rs r + j) = int (length (run_before (rs ! r)) + j)"
      using assms(2) rj by (simp add: serves_def)
    have "torch_compressed h (map ?p [0..<ngram h]) (torch_blocked h (pl_num_real P) (eb_positions B) (start rs r + j) (map ?p [0..<ngram h]))
        = Inr (cids_of h ?p (length (run_before (rs ! r)) + j))"
      using preds_ok(2,3) [OF assms(1,2) rj(1,3)] start_less [OF rj(1,3)] assms(3) pos
      by (intro torch_compressed_placed) auto
    then show "projr (?f (start rs r + j)) = map (torch_hash h (cids_of h ?p (length (run_before (rs ! r)) + j))) [0..<length (multipliers h)]"
      unfolding tok by (simp add: compute_engram_hash_ids_def)
  qed
  then show ?thesis using out assms(4) by auto
qed

lemma tok_ok_0:
  assumes "serves h hist rs ids B" "ids \<noteq> []"
  shows "tok_ok h 0" "torch_fill h 0 = 0"
proof -
  have "tok_ok h (ids ! 0)" using assms by (simp add: serves_def list_all_length)
  moreover show "torch_fill h 0 = 0" by (simp add: torch_fill_def mm_pad_shift_def split: option.split)
  ultimately show "tok_ok h 0" by (cases "token_map h") (auto simp: tok_ok_def fits_I32)
qed

lemma torch_forward_served:
  assumes "hasher_ok h" "ehistory h = Some hist" "serves h hist rs ids B" "forward_plan h hist (length ids) B = Inr P" "ids \<noteq> []"
  shows "\<exists>out hist'. forward_torch h hist ids B P = Inr (out, h\<lparr>ehistory := Some hist'\<rparr>)
    \<and> length out = length ids \<and> ids_served h rs out \<and> rows_served h hist rs B hist'"
proof -
  let ?T = "length ids" and ?N = "length (flat rs)"
  note real = plan_places(1) [OF assms(3,4)] and l = serves_length [OF assms(3)]
  obtain rows where rows: "(if pl_via_slots P
      then sequence (map (\<lambda>r. map_sum id (\<lambda>k. pl_history P ! k) (torch_index (length (pl_history P)) r)) (eb_slots B))
      else Inr (pl_history P)) = Inr rows" "length rows = length rs" "\<And>r. r < length rs \<Longrightarrow> rows ! r = source_row hist B rs r"
    using torch_rows [OF assms(3,4)] by blast
  obtain reals where reals:
    "torch_tokens (ngram h) ids (pl_mode P) rows (pl_num_real P) (pl_block P) (pl_row P) (pl_starts P) = Inr reals" "length reals = ?N"
    "\<And>r j. r < length rs \<Longrightarrow> j < length (run_new (rs ! r)) \<Longrightarrow>
      reals ! (start rs r + j) = map (pred_raw (ngram h) (run_new (rs ! r)) (source_row hist B rs r) j) [0..<ngram h]"
    using torch_tokens_placed [OF assms(1,3,4) rows(2,3)] by blast
  define tokens where "tokens = map (map (torch_fill h)) (reals @ replicate (?T - ?N) (replicate (ngram h) 0))"
  have len: "length tokens = ?T" using reals(2) l by (simp add: tokens_def)
  have run: "tokens ! (start rs r + j) = preds_at h hist B rs r j" if "r < length rs" "j < length (run_new (rs ! r))" for r j
    using reals(2) reals(3) [OF that] start_less [OF that] by (simp add: tokens_def nth_append preds_at_def)
  have z: "tok_ok h 0" "torch_fill h 0 = 0"
    using tok_ok_0 [OF assms(3,5)] by simp_all
  have pad: "tokens ! t = replicate (ngram h) 0" if "t < ?T" "?N \<le> t" for t
    using that reals(2) z(2) by (simp add: tokens_def nth_append)
  have tab: "table_ok h hist B rs ?T tokens"
    by (rule table_pads [OF assms(1,3) len]) (use pad z run in \<open>auto simp: list_all_iff\<close>)
  have "list_all (\<lambda>x. 0 \<le> x \<and> x < len (token_map h)) (tokens ! t)" if t: "t < ?T" for t
  proof (cases "?N \<le> t")
    case True
    then show ?thesis using pad [OF t] z by (auto simp: tok_ok_def list_all_iff)
  next
    case False
    then have "t < ?N" by simp
    then obtain r j where rj: "place rs t = (r, j)" "r < length rs" "j < length (run_new (rs ! r))" "t = start rs r + j"
      by (rule place_inverse)
    then show ?thesis using run preds_ok(2,3) [OF assms(1,3) rj(2,3)] by (simp add: preds_at_def list_all_length)
  qed
  then obtain out where out: "sequence (map (\<lambda>t. compute_engram_hash_ids h (tokens ! t)
      (torch_blocked h (pl_num_real P) (eb_positions B) t (tokens ! t))) [0..<length tokens]) = Inr out" "length out = ?T" "ids_served h rs out"
    using torch_out [where P = P and tokens = tokens, OF assms(1,3) real len] run by blast
  obtain hist' where com: "forward_commit h hist B P tokens = Inr (h\<lparr>ehistory := Some hist'\<rparr>)" "rows_served h hist rs B hist'"
    using forward_commit_served [OF assms tab] by blast
  have "torch_hash_ids h ids (eb_positions B) (pl_mode P) rows (pl_num_real P) (pl_block P) (pl_row P) (pl_starts P) = Inr (out, tokens)"
    using reals(1) out(1) real by (simp add: torch_hash_ids_def Let_def tokens_def)
  then have "forward_torch h hist ids B P = Inr (out, h\<lparr>ehistory := Some hist'\<rparr>)"
    using rows(1) com(1) by (simp add: forward_torch_def)
  then show ?thesis using out com by blast
qed

end
