(* ===== verification/EngramDevice.thy ===== *)
theory EngramDevice
  imports EngramServe
begin

text \<open>
  The kernels on a batch of runs: what the lanes of a placed token compute, that the launch of a decode is
  free of races between live requests, and that a pass on the device serves the batch as the torch path
  does, in whatever order the programs run and whatever new buffers hold.
\<close>

section \<open>The arguments of a launch\<close>

lemma launch_shapes:
  assumes "hasher_ok h" "serves h hist rs ids B" "forward_plan h hist (length ids) B = Inr P"
    and "loc = None \<or> (\<exists>l. loc = Some l \<and> pl_mode P = MODE_DECODE \<and> pl_via_slots P \<and> length l = length ids)"
  shows "shapes_ok (kargs_of h ids B P loc) (pl_history P)"
proof -
  have rows: "list_all (row_ok h) (pl_history P)"
    using assms(2,3)
    by (auto simp: forward_plan_def Let_def serves_def mode_ok_def split: forward_mode.splits if_splits option.splits)
  have "list_all (\<lambda>p. length p = ngram h - 1 \<and> list_all (\<lambda>q. length q = heads_of h) p) (hprimes h)"
    "list_all (\<lambda>q. length q = (ngram h - 1) * heads_of h) (hoffsets h)"
    using hasher_heads [OF assms(1)] by (auto simp: list_all_length)
  then show ?thesis
    using hasher_heads(1-4) [OF assms(1)] rows assms(1,4)
    by (auto simp: shapes_ok_def kargs_of_def heads_of_def hasher_ok_def row_ok_def list_all_iff)
qed

text \<open>The programs of a launch: each one once, in any order.\<close>

definition all_programs :: "nat list \<Rightarrow> nat \<Rightarrow> bool" where
  "all_programs order T \<longleftrightarrow> distinct order \<and> set order = {..<(T + 31) div 32}"

lemma program_of_token: "t < T \<Longrightarrow> t div 32 < (T + 31) div (32 :: nat)"
  by (simp add: div_less_iff_less_mult less_eq_div_iff_mult_less_eq flip: Suc_le_eq)

lemma launch_agree:
  assumes "race_free oob K good (ka_num_tokens K)" "all_programs order (ka_num_tokens K)" "0 < ka_num_tokens K"
    and "shapes_ok K hist" "length (fst fresh) = ka_num_tokens K" "length (snd fresh) = ka_num_tokens K"
  shows "\<exists>m. launch_hash_kernel oob K 32 order \<lparr>km_hist = hist, km_tokens = fst fresh, km_out = snd fresh\<rparr> = Inr m
    \<and> agree oob K good hist (ka_num_tokens K) {..<ka_num_tokens K} m"
proof -
  let ?m = "\<lparr>km_hist = hist, km_tokens = fst fresh, km_out = snd fresh\<rparr>"
  have "agree oob K good hist (ka_num_tokens K) {t. t < ka_num_tokens K \<and> t div 32 \<in> {}} ?m"
    using assms(5,6) by (simp add: agree_def)
  then have "agree oob K good hist (ka_num_tokens K) {t. t < ka_num_tokens K \<and> t div 32 \<in> {} \<union> set order}
      (fold (hash_program oob K 32) order ?m)"
    by (rule agree_programs [OF assms(1) refl, rotated 3]) (use assms(2) in \<open>simp_all add: all_programs_def\<close>)
  moreover have "{t. t < ka_num_tokens K \<and> t div 32 \<in> {} \<union> set order} = {..<ka_num_tokens K}"
    using assms(2) program_of_token by (auto simp: all_programs_def)
  ultimately show ?thesis using assms(3,4) by (simp add: launch_hash_kernel_def hash_kernel_def)
qed

section \<open>The lanes of a placed token\<close>

lemma lane_history:
  assumes "serves h hist rs ids B" "forward_plan h hist (length ids) B = Inr P" "r < length rs" "j < length (run_new (rs ! r))"
    and "c < ngram h - 1"
  shows "peek2 oob (pl_history P) (lane_hrow oob (kargs_of h ids B P loc) (start rs r + j)) (int c) = source_row hist B rs r ! c"
proof -
  have c: "c < length (source_row hist B rs r)" using serves_source [OF assms(1,3)] assms(5) by (simp add: row_ok_def)
  have slot: "run_slot (rs ! r) < length hist" using assms(1,3) by (simp add: serves_def list_all_length less_Suc_eq_le)
  have h: "pl_via_slots P \<Longrightarrow> pl_history P = hist" "\<not> pl_via_slots P \<Longrightarrow> length (pl_history P) = length rs"
    using plan_history(2) [OF assms(1-3)] history_rows [OF assms(1,2)] by simp_all
  show ?thesis
    unfolding lane_place(3) [OF assms(1-4)]
    using plan_history(1) [OF assms(1-3)] c slot h assms(3) by (auto simp: peek2_def peek_def)
qed

lemma lane_tok_run:
  assumes "hasher_ok h" "serves h hist rs ids B" "forward_plan h hist (length ids) B = Inr P"
    and "r < length rs" "j < length (run_new (rs ! r))" "s < ngram h"
  shows "lane_tok oob (kargs_of h ids B P loc) (pl_history P) (start rs r + j) s
    = torch_fill h (pred_raw (ngram h) (run_new (rs ! r)) (source_row hist B rs r) j s)"
proof (rule lane_tok_placed [OF assms(1) kargs_of_ok kargs_of_fields(1)])
  show "in_run ids (run_new (rs ! r)) (start rs r + j) j"
    using assms(2) in_run_start [OF _ assms(4,5)] by (simp add: serves_def)
qed (use lane_place [OF assms(2-5)] lane_history [OF assms(2-5)] assms(6) in simp_all)

lemma tokens_val_run:
  assumes "hasher_ok h" "serves h hist rs ids B" "forward_plan h hist (length ids) B = Inr P"
    and "r < length rs" "j < length (run_new (rs ! r))"
  shows "tokens_val oob (kargs_of h ids B P loc) (pl_history P) (start rs r + j) = preds_at h hist B rs r j"
  unfolding tokens_val_def preds_at_def kargs_of_fields
proof (intro map_cong refl)
  fix s assume "s \<in> set [0..<ngram h]"
  then have s: "s < ngram h" by simp
  show "cast I32 (lane_tok oob (kargs_of h ids B P loc) (pl_history P) (start rs r + j) s)
      = torch_fill h (pred_raw (ngram h) (run_new (rs ! r)) (source_row hist B rs r) j s)"
    unfolding lane_tok_run [OF assms s] using tok_ok_fits [OF preds_ok(1) [OF assms(1,2,4,5) s]] by simp
qed

lemma out_val_run:
  assumes "hasher_ok h" "serves h hist rs ids B" "forward_plan h hist (length ids) B = Inr P"
    and "r < length rs" "run_live (rs ! r)" "j < length (run_new (rs ! r))"
  shows "out_val oob (kargs_of h ids B P loc) (pl_history P) (start rs r + j)
    = map (torch_hash h (cids_of h (\<lambda>s. torch_fill h (pred_raw (ngram h) (run_new (rs ! r)) (source_row hist B rs r) j s))
        (length (run_before (rs ! r)) + j))) [0..<length (multipliers h)]"
proof -
  let ?K = "kargs_of h ids B P loc" and ?t = "start rs r + j" and ?p = "length (run_before (rs ! r)) + j"
  let ?tv = "\<lambda>s. torch_fill h (pred_raw (ngram h) (run_new (rs ! r)) (source_row hist B rs r) j s)"
  have t: "?t < length ids" using start_less [OF assms(4,6)] serves_length [OF assms(2)] by simp
  have pos: "peek oob (ka_pos ?K) (int ?t) = int ?p" "fits I32 (int ?p)"
    using assms(2,4-6) t unfolding kargs_of_fields by (auto simp: serves_def peek_def fits_I32 simp del: of_nat_add)
  have tv: "0 \<le> ?tv s \<and> ?tv s < len (token_map h)" if "s < ngram h" for s
    using preds_ok(2,3) [OF assms(1,2,4,6) that] by simp
  have "map (lane_comp oob ?K (pl_history P) ?t) [0..<ngram h] = cids_of h ?tv ?p"
    by (rule lane_cids_placed [OF assms(1) kargs_of_ok lane_place(4) [OF assms(2-4,6)] pos(2,1)])
      (use lane_tok_run [OF assms(1-4,6)] tv in simp)
  note cids = this [symmetric]
  have "lane_hash oob ?K (pl_history P) ?t l = torch_hash h (cids_of h ?tv ?p) l" if "l < length (multipliers h)" for l
    by (rule lane_hash_torch [OF assms(1) kargs_of_ok that cids cids_of_ok]) (rule tv)
  then show ?thesis by (simp add: out_val_def kargs_of_fields)
qed

section \<open>A pass without stores into the history\<close>

lemma quiet_launch:
  assumes "hasher_ok h" "serves h hist rs ids B" "forward_plan h hist (length ids) B = Inr P" "ids \<noteq> []"
    and "all_programs order (length ids)" "length (fst fresh) = length ids" "length (snd fresh) = length ids"
  shows "\<exists>m. launch_hash_kernel oob (kargs_of h ids B P None) 32 order
      \<lparr>km_hist = pl_history P, km_tokens = fst fresh, km_out = snd fresh\<rparr> = Inr m
    \<and> table_ok h hist B rs (length ids) (km_tokens m) \<and> length (km_out m) = length ids \<and> ids_served h rs (km_out m)"
proof -
  let ?K = "kargs_of h ids B P None"
  have quiet: "\<not> writes oob ?K t" for t by (simp add: writes_def lane_live_def kargs_of_fields)
  have "race_free oob ?K (\<lambda>t. True) (ka_num_tokens ?K)" using quiet by (simp add: race_free_def)
  then obtain m where m: "launch_hash_kernel oob ?K 32 order \<lparr>km_hist = pl_history P, km_tokens = fst fresh, km_out = snd fresh\<rparr> = Inr m"
    "agree oob ?K (\<lambda>t. True) (pl_history P) (length ids) {..<length ids} m"
    using launch_agree [of oob ?K "\<lambda>t. True" order "pl_history P" fresh] assms(4-7) launch_shapes [OF assms(1-3), of None]
    by (auto simp: kargs_of_fields)
  have tok: "km_tokens m ! t = tokens_val oob ?K (pl_history P) t" "km_out m ! t = out_val oob ?K (pl_history P) t" if "t < length ids" for t
    using m(2) that by (simp_all add: agree_def) (simp add: kargs_of_def)
  have lens: "length (km_tokens m) = length ids" "length (km_out m) = length ids" using m(2) by (simp_all add: agree_def)
  have z: "tok_ok h 0" "torch_fill h 0 = 0" using tok_ok_0 [OF assms(2,4)] by simp_all
  have pad: "tokens_val oob ?K (pl_history P) t = replicate (ngram h) 0" if "length (flat rs) \<le> t" for t
  proof -
    have "lane_tok oob ?K (pl_history P) t s = 0" for s
      using that z(2) plan_places(1) [OF assms(2,3)]
      by (simp add: lane_tok_def Let_def kargs_of_def torch_fill_def mm_pad_shift_def split: option.splits)
    then show ?thesis by (simp add: tokens_val_def kargs_of_fields map_replicate_const cast_fits fits_I32)
  qed
  have below: "start rs r + j < length ids" if "r < length rs" "j < length (run_new (rs ! r))" for r j
    using start_less [OF that] serves_length [OF assms(2)] by simp
  have "table_ok h hist B rs (length ids) (km_tokens m)"
    by (rule table_pads [OF assms(1,2) lens(1)])
      (use pad z tok(1) tokens_val_run [OF assms(1-3)] below in \<open>auto simp: list_all_iff\<close>)
  moreover have "ids_served h rs (km_out m)"
    by (rule ids_computed [OF assms(1,2) tok(2) [symmetric]]) (use out_val_run [OF assms(1-3)] in auto)
  ultimately show ?thesis using m(1) lens(2) by blast
qed

section \<open>A decode\<close>

lemma decode_plan:
  assumes "serves h hist rs ids B" "forward_plan h hist (length ids) B = Inr P" "pl_mode P = MODE_DECODE"
  obtains loc where "eb_mode B = Decode" "pl_via_slots P" "pl_history P = hist" "eb_out_loc B = Some loc" "length loc = length rs"
    "length ids = length rs" "pl_num_real P = length rs"
    "\<And>r. r < length rs \<Longrightarrow> run_live (rs ! r) \<longleftrightarrow> loc ! r \<noteq> 0" "\<And>r. r < length rs \<Longrightarrow> length (run_new (rs ! r)) = 1"
    "\<And>r. r < length rs \<Longrightarrow> start rs r = r"
proof -
  have d: "eb_mode B = Decode" using assms(2,3) by (auto simp: forward_plan_def Let_def split: forward_mode.splits if_splits)
  then have b: "list_all (\<lambda>x. length (run_new x) = 1) rs" "length ids = length rs"
    using assms(1) by (simp_all add: serves_def mode_ok_def)
  obtain loc where "eb_out_loc B = Some loc" "length loc = length rs" "\<forall>r < length rs. run_live (rs ! r) \<longleftrightarrow> loc ! r \<noteq> 0"
    using assms(1) d by (auto simp: serves_def mode_ok_def)
  then show thesis
    using d b assms(2) start_block(1) [OF b(1)] by (intro that [of loc]) (auto simp: forward_plan_def list_all_length)
qed

lemma decode_launch:
  assumes "hasher_ok h" "serves h hist rs ids B" "forward_plan h hist (length ids) B = Inr P" "ids \<noteq> []"
    and "all_programs order (length ids)" "length (fst fresh) = length ids" "length (snd fresh) = length ids"
    and "pl_mode P = MODE_DECODE" "eb_out_loc B = Some loc"
  shows "\<exists>m. launch_hash_kernel oob (kargs_of h ids B P (Some loc)) 32 order
      \<lparr>km_hist = hist, km_tokens = fst fresh, km_out = snd fresh\<rparr> = Inr m
    \<and> length (km_out m) = length ids \<and> ids_served h rs (km_out m) \<and> rows_served h hist rs B (km_hist m)"
proof -
  let ?K = "kargs_of h ids B P (Some loc)" and ?good = "\<lambda>t. run_live (rs ! t)"
  obtain loc' where D: "eb_mode B = Decode" "pl_via_slots P" "pl_history P = hist" "eb_out_loc B = Some loc'" "length loc' = length rs"
    "length ids = length rs" "pl_num_real P = length rs"
    "\<And>r. r < length rs \<Longrightarrow> run_live (rs ! r) \<longleftrightarrow> loc' ! r \<noteq> 0" "\<And>r. r < length rs \<Longrightarrow> length (run_new (rs ! r)) = 1"
    "\<And>r. r < length rs \<Longrightarrow> start rs r = r"
    using decode_plan [OF assms(2,3,8)] by blast
  have loc: "loc' = loc" using D(4) assms(9) by simp
  have hrow: "lane_hrow oob ?K r = int (run_slot (rs ! r))" if "r < length rs" for r
    using lane_place(3) [OF assms(2,3) that, of 0] D that by simp
  have ne: "rs \<noteq> []" using assms(4) D(6) by auto
  have w: "writes oob ?K r \<longleftrightarrow> run_live (rs ! r)" if "r < length rs" for r
    using D loc that hrow by (simp add: writes_def lane_live_def kargs_of_fields peek_def)
  have slots: "r = r'" if "r < length rs" "r' < length rs" "run_live (rs ! r)" "run_live (rs ! r')" "run_slot (rs ! r) = run_slot (rs ! r')" for r r'
    using assms(2) distinct_filter_nth [of run_slot run_live rs r r'] that by (simp add: serves_def)
  have slot_lt: "run_slot (rs ! r) < length hist" if "r < length rs" for r
    using assms(2) that by (simp add: serves_def list_all_length less_Suc_eq_le)
  have "race_free oob ?K ?good (ka_num_tokens ?K)"
    using D(6) w hrow slots by (auto simp: race_free_def kargs_of_fields)
  then obtain m where m: "launch_hash_kernel oob ?K 32 order \<lparr>km_hist = hist, km_tokens = fst fresh, km_out = snd fresh\<rparr> = Inr m"
    "agree oob ?K ?good hist (length ids) {..<length ids} m"
    using launch_agree [of oob ?K ?good order hist fresh] assms(4-8) D launch_shapes [OF assms(1-3), of "Some loc"] loc ne
    by (auto simp: kargs_of_fields)
  let ?row = "\<lambda>r. map (\<lambda>c. torch_fill h (pred_raw (ngram h) (run_new (rs ! r)) (source_row hist B rs r) 0 (ngram h - 2 - c))) [0..<ngram h - 1]"
  have n: "2 \<le> ngram h" using assms(1) by (simp add: hasher_ok_def)
  have row: "row_val oob ?K hist r = ?row r" if r: "r < length rs" for r
    unfolding row_val_def kargs_of_fields
  proof (intro map_cong refl)
    fix c assume "c \<in> set [0..<ngram h - 1]"
    then have s: "ngram h - 2 - c < ngram h" using n by simp
    have j: "0 < length (run_new (rs ! r))" using D(9) [OF r] by simp
    show "cast I32 (lane_tok oob ?K hist r (ngram h - 2 - c))
        = torch_fill h (pred_raw (ngram h) (run_new (rs ! r)) (source_row hist B rs r) 0 (ngram h - 2 - c))"
      using lane_tok_run [OF assms(1-3) r j s, of oob "Some loc"] tok_ok_fits [OF preds_ok(1) [OF assms(1,2) r j s]] D(3,10) r by simp
  qed
  have out: "km_out m ! r = out_val oob ?K hist r" if "r < length rs" "run_live (rs ! r)" for r
    using m(2) that D(6) by (simp add: agree_def)
  have new: "km_hist m ! run_slot (rs ! r) = ?row r" if "r < length rs" "run_live (rs ! r)" for r
    using m(2) that D(6) w [OF that(1)] hrow [OF that(1)] slot_lt [OF that(1)] row [OF that(1)] by (auto simp: agree_def)
  have old: "km_hist m ! k = hist ! k" if "k < length hist" "\<forall>x \<in> set rs. run_live x \<longrightarrow> run_slot x \<noteq> k" for k
    using m(2) that D(6) w hrow unfolding agree_def by (metis lessThan_iff nat_int nth_mem)
  have com: "commits B (rs ! r) \<longleftrightarrow> run_live (rs ! r)" if "r < length rs" for r
    using D(1) D(9) [OF that] by (auto simp: commits_def)
  have held: "holds h (km_hist m ! run_slot (rs ! r)) (run_before (rs ! r) @ run_new (rs ! r))" if r: "r < length rs" "run_live (rs ! r)" for r
    unfolding new [OF r]
    using assms(2) r D(9) [OF r(1)] serves_new_ok [OF assms(2) r(1)]
    by (intro holds_after [OF assms(1)]) (auto simp: serves_def)
  have lenh: "length (km_hist m) = length hist" using m(2) by (simp add: agree_def)
  have "row_ok h (km_hist m ! k)" if k: "k < length hist" for k
  proof (cases "\<exists>x \<in> set rs. run_live x \<and> run_slot x = k")
    case True
    then obtain r where "r < length rs" "run_live (rs ! r)" "run_slot (rs ! r) = k" by (metis in_set_conv_nth)
    then show ?thesis using held by (auto simp: holds_def)
  next
    case False
    then show ?thesis using old [OF k] assms(2) k by (auto simp: serves_def list_all_length)
  qed
  then have ok: "list_all (row_ok h) (km_hist m)" using lenh by (simp add: list_all_length)
  have com': "commits B x \<longleftrightarrow> run_live x" if "x \<in> set rs" for x using com that by (metis in_set_conv_nth)
  have "\<forall>x \<in> set rs. commits B x \<longrightarrow> holds h (km_hist m ! run_slot x) (run_before x @ run_new x)"
    using held com' by (metis in_set_conv_nth)
  moreover have "k < length hist" if "k < pad_row h" for k using assms(2) that by (simp add: serves_def)
  ultimately have "rows_served h hist rs B (km_hist m)"
    using lenh ok old com' unfolding rows_served_def by blast
  moreover have "ids_served h rs (km_out m)"
    unfolding ids_served_def
  proof (intro allI impI)
    fix r j assume r: "r < length rs" "run_live (rs ! r)" "j < length (run_new (rs ! r))"
    then show "km_out m ! (start rs r + j) = ngram_ids h (run_before (rs ! r) @ run_new (rs ! r)) (length (run_before (rs ! r)) + j)"
      using out out_val_run [OF assms(1-3) r, of oob "Some loc"] live_cids [OF assms(2) r] D(3) D(9) [OF r(1)] D(10) [OF r(1)]
      by (simp add: ngram_ids_def)
  qed
  ultimately show ?thesis using m by (auto simp: agree_def)
qed

section \<open>A pass\<close>

lemma cuda_forward_served:
  assumes "hasher_ok h" "ehistory h = Some hist" "serves h hist rs ids B" "forward_plan h hist (length ids) B = Inr P" "ids \<noteq> []"
    and "all_programs order (length ids)" "length (fst fresh) = length ids" "length (snd fresh) = length ids"
  shows "\<exists>out hist'. forward_cuda oob order fresh h hist ids B P = Inr (out, h\<lparr>ehistory := Some hist'\<rparr>)
    \<and> length out = length ids \<and> ids_served h rs out \<and> rows_served h hist rs B hist'"
proof (cases "pl_mode P = MODE_DECODE")
  case True
  then obtain loc where loc: "eb_out_loc B = Some loc" using decode_plan [OF assms(3,4)] by blast
  show ?thesis
    using decode_launch [OF assms(1,3-8) True loc, of oob] True loc by (auto simp: forward_cuda_def engram_hash_ids_and_commit_def)
next
  case False
  obtain m where m: "launch_hash_kernel oob (kargs_of h ids B P None) 32 order
      \<lparr>km_hist = pl_history P, km_tokens = fst fresh, km_out = snd fresh\<rparr> = Inr m"
    "table_ok h hist B rs (length ids) (km_tokens m)" "length (km_out m) = length ids" "ids_served h rs (km_out m)"
    using quiet_launch [OF assms(1,3-8)] by blast
  show ?thesis
    using forward_commit_served [OF assms(1-5) m(2)] m False by (auto simp: forward_cuda_def engram_hash_ids_def)
qed

end
