(* ===== verification/EngramCommit.thy ===== *)
theory EngramCommit
  imports EngramDevice
begin

text \<open>
  The commit of accepted drafts: after a verification the row of a request moves on by the tokens that
  were accepted, in the kernel as in torch, whatever the order of the programs.
\<close>

text \<open>The new row: the newest \<open>n - 1\<close> tokens of the old row followed by the accepted ones.\<close>

definition moved_row :: "int list \<Rightarrow> int list \<Rightarrow> nat \<Rightarrow> int list" where
  "moved_row old v c = take (length old) (drop c (old @ v))"

lemma moved_row_nth:
  assumes "c \<le> length v" "i < length old"
  shows "length (moved_row old v c) = length old" "moved_row old v c ! i = (old @ v) ! (c + i)"
  using assms by (simp_all add: moved_row_def del: drop_append take_append)

lemma moved_row_holds:
  assumes "holds h old xs" "2 \<le> ngram h" "list_all (tok_ok h) v" "c \<le> length v"
  shows "holds h (moved_row old v c) (xs @ take c v)"
proof -
  have r: "length old = ngram h - 1" "list_all (tok_ok h) old" using assms(1) by (simp_all add: holds_def row_ok_def)
  have len: "length (moved_row old v c) = length old" using assms(4) by (simp add: moved_row_def)
  have "torch_fill h (moved_row old v c ! (ngram h - 2 - k)) = torch_fill h ((xs @ take c v) ! (length (xs @ take c v) - 1 - k))"
    if k: "k < ngram h - 1" "k < length (xs @ take c v)" for k
  proof -
    have i: "ngram h - 2 - k < length old" using k(1) r(1) by simp
    have new: "moved_row old v c ! (ngram h - 2 - k) = (old @ v) ! (c + (ngram h - 2 - k))"
      by (rule moved_row_nth(2) [OF assms(4) i])
    show ?thesis
    proof (cases "k < c")
      case True
      then have e: "c + (ngram h - 2 - k) = length old + (c - 1 - k)" "length (xs @ take c v) - 1 - k = length xs + (c - 1 - k)"
        using k(1) r(1) assms(2,4) by auto
      show ?thesis unfolding new e nth_append_length_plus using True by simp
    next
      case False
      then have e: "c + (ngram h - 2 - k) = ngram h - 2 - (k - c)" "length (xs @ take c v) - 1 - k = length xs - 1 - (k - c)"
        "k - c < ngram h - 1" "k - c < length xs" "length xs - 1 - (k - c) < length xs" "ngram h - 2 - (k - c) < length old"
        using k r(1) assms(2,4) by auto
      then have "torch_fill h (old ! (ngram h - 2 - (k - c))) = torch_fill h (xs ! (length xs - 1 - (k - c)))"
        using assms(1) unfolding holds_def by blast
      then show ?thesis unfolding new e(1,2) using e(5,6) by (simp add: nth_append)
    qed
  qed
  moreover have "x \<in> set old \<union> set v" if "x \<in> set (moved_row old v c)" for x
    using in_set_dropD [OF in_set_takeD [OF that [unfolded moved_row_def]]] by simp
  ultimately show ?thesis using r len assms(3) by (fastforce simp: holds_def row_ok_def list_all_iff)
qed

section \<open>The kernel\<close>

lemma commit_lanes:
  assumes "c \<le> length v" "list_all (fits I32) old" "list_all (fits I32) v"
  shows "map (commit_lane oob (length old) old v (int c)) [0..<length old] = moved_row old v c"
proof (rule nth_equalityI)
  show "length (map (commit_lane oob (length old) old v (int c)) [0..<length old]) = length (moved_row old v c)"
    using assms(1) by (simp add: moved_row_def)
  fix i assume "i < length (map (commit_lane oob (length old) old v (int c)) [0..<length old])"
  then have i: "i < length old" by simp
  show "map (commit_lane oob (length old) old v (int c)) [0..<length old] ! i = moved_row old v c ! i"
  proof (cases "c + i < length old")
    case True
    then show ?thesis using i assms moved_row_nth(2) [OF assms(1) i]
      by (simp add: commit_lane_def peek_def nth_append list_all_length Let_def flip: of_nat_add)
  next
    case False
    have e: "int c + int i - int (length old) = int (c + i - length old)" "c + i - length old < length v"
      using False i assms(1) by auto
    show ?thesis using False i assms moved_row_nth(2) [OF assms(1) i] e(2)
      by (simp add: commit_lane_def Let_def e(1) peek_def nth_append list_all_length del: of_nat_diff)
  qed
qed

text \<open>The rows after the programs in \<open>D\<close> ran.\<close>

definition rows_moved :: "int list list \<Rightarrow> int list list \<Rightarrow> nat list \<Rightarrow> nat list \<Rightarrow> nat set \<Rightarrow> int list list \<Rightarrow> bool" where
  "rows_moved hist verify ks cs D hist' \<longleftrightarrow>
     length hist' = length hist
     \<and> (\<forall>i \<in> D. hist' ! (ks ! i) = moved_row (hist ! (ks ! i)) (verify ! i) (cs ! i))
     \<and> (\<forall>k. (\<forall>i \<in> D. ks ! i \<noteq> k) \<longrightarrow> hist' ! k = hist ! k)"

definition commit_ok :: "hasher \<Rightarrow> int list list \<Rightarrow> int list list \<Rightarrow> nat list \<Rightarrow> nat list \<Rightarrow> bool" where
  "commit_ok h hist verify ks cs \<longleftrightarrow>
     list_all (row_ok h) hist \<and> length verify = length ks \<and> length cs = length ks
     \<and> distinct ks \<and> list_all (\<lambda>k. k < length hist) ks
     \<and> list_all2 (\<lambda>v c. list_all (tok_ok h) v \<and> c \<le> length v) verify cs"

lemma commit_okD:
  assumes "commit_ok h hist verify ks cs" "i < length ks"
  shows "row_ok h (hist ! (ks ! i))" "list_all (tok_ok h) (verify ! i)" "cs ! i \<le> length (verify ! i)" "ks ! i < length hist"
proof -
  show "ks ! i < length hist" using assms by (simp add: commit_ok_def list_all_length)
  then show "row_ok h (hist ! (ks ! i))" using assms(1) by (simp add: commit_ok_def list_all_length)
  show "list_all (tok_ok h) (verify ! i)" "cs ! i \<le> length (verify ! i)"
    using assms by (auto simp: commit_ok_def list_all2_conv_all_nth)
qed

lemma ok_fits: "list_all (tok_ok h) xs \<Longrightarrow> list_all (fits I32) xs"
  by (auto simp: list_all_iff dest: tok_ok_fits)

lemma commit_programs:
  assumes "commit_ok h hist verify ks cs" "distinct order" "set order \<subseteq> {..<length ks}" "set order \<inter> D = {}" "D \<subseteq> {..<length ks}"
    and "rows_moved hist verify ks cs D hist'"
  shows "rows_moved hist verify ks cs (D \<union> set order) (fold (commit_program oob verify (map int ks) (map int cs)) order hist')"
  using assms(2-6)
proof (induction order arbitrary: D hist')
  case (Cons i order)
  have i: "i < length ks" "i \<notin> D" using Cons.prems by auto
  note ok = commit_okD [OF assms(1) i(1)]
  have lens: "length cs = length ks" "distinct ks" using assms(1) by (simp_all add: commit_ok_def)
  have ne: "ks ! i \<noteq> ks ! j" if "j \<in> D" for j
    using that i Cons.prems(4) lens(2) by (auto simp: nth_eq_iff_index_eq)
  have old: "hist' ! (ks ! i) = hist ! (ks ! i)" using Cons.prems(5) ne unfolding rows_moved_def by metis
  have "commit_program oob verify (map int ks) (map int cs) i hist' = hist'[ks ! i := moved_row (hist ! (ks ! i)) (verify ! i) (cs ! i)]"
    using commit_lanes [where old = "hist ! (ks ! i)" and oob = oob, OF ok(3) _ ok_fits [OF ok(2)]]
      ok_fits [of h "hist ! (ks ! i)"] ok(1) i(1) lens(1)
    by (simp add: commit_program_def Let_def old row_ok_def)
  then have "rows_moved hist verify ks cs (insert i D) (commit_program oob verify (map int ks) (map int cs) i hist')"
    using Cons.prems(5) ok(4) ne by (auto simp: rows_moved_def nth_list_update)
  then have "rows_moved hist verify ks cs (insert i D \<union> set order)
      (fold (commit_program oob verify (map int ks) (map int cs)) order (commit_program oob verify (map int ks) (map int cs) i hist'))"
    by (rule Cons.IH [rotated 4]) (use Cons.prems i in auto)
  then show ?case by simp
qed simp

lemma rows_moved_0: "rows_moved hist verify ks cs {} hist"
  by (simp add: rows_moved_def)

section \<open>Torch\<close>

lemma torch_commit:
  assumes "commit_ok h hist verify ks cs" "ehistory h = Some hist" "2 \<le> ngram h"
  shows "\<exists>hist'. commit_after_verify False oob order h verify (map int ks) (map int cs) = Inr (h\<lparr>ehistory := Some hist'\<rparr>)
    \<and> rows_moved hist verify ks cs {..<length ks} hist'"
proof -
  have lens: "length verify = length ks" "length cs = length ks" "distinct ks" using assms(1) by (simp_all add: commit_ok_def)
  let ?w = "map2 (\<lambda>k v. hist ! k @ map (cast I32) v) ks verify"
  have w: "?w ! i = hist ! (ks ! i) @ verify ! i" if "i < length ks" for i
    using that lens ok_fits [OF commit_okD(2) [OF assms(1) that]] by (auto simp: list_all_iff intro!: map_idI)
  have rowlen: "length (hist ! (ks ! i)) = ngram h - 1" if "i < length ks" for i
    using commit_okD(1) [OF assms(1) that] by (simp add: row_ok_def)
  have ks: "sequence (map (torch_index (length hist)) (map int ks)) = Inr ks"
  proof -
    have "\<forall>k \<in> set ks. k < length hist" using assms(1) by (simp add: commit_ok_def list_all_iff)
    then show ?thesis
      using sequence_map_Inr [of ks "\<lambda>k. torch_index (length hist) (int k)" id] by (simp add: torch_index_nat comp_def)
  qed
  have chk: "list_all2 (\<lambda>w c. 0 \<le> c \<and> c + int (ngram h - 1) \<le> len w) ?w (map int cs)"
    using lens w rowlen commit_okD(3) [OF assms(1)] by (simp add: list_all2_conv_all_nth)
  let ?kxs = "zip ks (zip ?w (map int cs))"
  let ?f = "\<lambda>(w, c). take (ngram h - 1) (drop (nat c) w)"
  have form: "fold (\<lambda>(k, w, c) hist. hist[k := take (ngram h - 1) (drop (nat c) w)]) ?kxs hist
      = fold (\<lambda>(k, x) hist. hist[k := ?f x]) ?kxs hist"
    by (intro fold_cong refl) (auto split: prod.splits)
  have mem: "(k, x) \<in> set ?kxs \<longleftrightarrow> (\<exists>i < length ks. k = ks ! i \<and> x = (?w ! i, int (cs ! i)))" for k x
    using lens by (auto simp: set_zip)
  have bnd: "\<forall>(k, x) \<in> set ?kxs. k < length hist" using mem commit_okD(4) [OF assms(1)] by auto
  let ?hist' = "fold (\<lambda>(k, x) hist. hist[k := ?f x]) ?kxs hist"
  have "?hist' ! (ks ! i) = moved_row (hist ! (ks ! i)) (verify ! i) (cs ! i)" if i: "i < length ks" for i
  proof -
    have "(ks ! i, (?w ! i, int (cs ! i))) \<in> set ?kxs" unfolding mem using i by blast
    then have "?hist' ! (ks ! i) = ?f (?w ! i, int (cs ! i))"
      by (rule fold_rows(3) [OF bnd]) (use mem lens(3) i in \<open>auto simp: nth_eq_iff_index_eq\<close>)
    then show ?thesis using w [OF i] rowlen [OF i] by (simp add: moved_row_def)
  qed
  moreover have "?hist' ! k = hist ! k" if "\<forall>i \<in> {..<length ks}. ks ! i \<noteq> k" for k
  proof (rule fold_rows(2) [OF bnd])
    show "k \<notin> fst ` set ?kxs"
    proof
      assume "k \<in> fst ` set ?kxs"
      then obtain x where "(k, x) \<in> set ?kxs" by auto
      then show False using that unfolding mem by auto
    qed
  qed
  ultimately have "rows_moved hist verify ks cs {..<length ks} ?hist'"
    using fold_rows(1) [OF bnd] by (simp add: rows_moved_def)
  then show ?thesis using assms(2) ks chk form by (auto simp: commit_after_verify_def Let_def)
qed

end
