(* ===== verification/EngramLayout.thy ===== *)
theory EngramLayout
  imports EngramFacts
begin

text \<open>
  How the hasher comes about: the prime sizes of the buckets (\<open>EngramLayout.build\<close>), the multipliers,
  the compressed vocabulary and \<open>EngramHasher.__init__\<close> of \<open>sglang-overlay/engram.py\<close>. The primality test,
  the random generator, the tokenizer and its normalizer are arguments.
\<close>

section \<open>Definitions\<close>

text \<open>\<open>_find_next_prime\<close>: \<open>None\<close> is a search that does not end.\<close>

partial_function (option) next_candidate :: "(int \<Rightarrow> bool) \<Rightarrow> int set \<Rightarrow> int \<Rightarrow> int option" where
  [code]: "next_candidate isprime seen candidate =
     (if \<not> isprime candidate \<or> candidate \<in> seen then next_candidate isprime seen (candidate + 1) else Some candidate)"

definition find_next_prime :: "(int \<Rightarrow> bool) \<Rightarrow> int \<Rightarrow> int set \<Rightarrow> int option" where
  "find_next_prime isprime start seen = next_candidate isprime seen (start + 1)"

record layout =
  lay_ngram :: nat
  lay_layers :: "int list"
  lay_num_embeddings :: "int list"
  lay_primes :: "int list list list"
  lay_heads :: nat
  lay_head_dim :: nat

text \<open>The three loops of \<open>build\<close>: heads, n-gram sizes, layers; \<open>seen\<close> runs through all of them.\<close>

fun head_primes :: "(int \<Rightarrow> bool) \<Rightarrow> nat \<Rightarrow> int \<Rightarrow> int set \<Rightarrow> (int list \<times> int set) option" where
  "head_primes isprime 0 current seen = Some ([], seen)"
| "head_primes isprime (Suc k) current seen =
     (case find_next_prime isprime current seen of
        None \<Rightarrow> None
      | Some p \<Rightarrow> map_option (\<lambda>(ps, seen'). (p # ps, seen')) (head_primes isprime k p (insert p seen)))"

fun size_primes :: "(int \<Rightarrow> bool) \<Rightarrow> nat \<Rightarrow> int \<Rightarrow> nat \<Rightarrow> int set \<Rightarrow> (int list list \<times> int set) option" where
  "size_primes isprime heads vocab 0 seen = Some ([], seen)"
| "size_primes isprime heads vocab (Suc k) seen =
     (case head_primes isprime heads (vocab - 1) seen of
        None \<Rightarrow> None
      | Some (ps, seen') \<Rightarrow> map_option (\<lambda>(pss, seen''). (ps # pss, seen'')) (size_primes isprime heads vocab k seen'))"

fun layer_primes :: "(int \<Rightarrow> bool) \<Rightarrow> nat \<Rightarrow> int \<Rightarrow> nat \<Rightarrow> nat \<Rightarrow> int set \<Rightarrow> (int list list list \<times> int set) option" where
  "layer_primes isprime heads vocab sizes 0 seen = Some ([], seen)"
| "layer_primes isprime heads vocab sizes (Suc k) seen =
     (case size_primes isprime heads vocab sizes seen of
        None \<Rightarrow> None
      | Some (pss, seen') \<Rightarrow> map_option (\<lambda>(psss, seen''). (pss # psss, seen'')) (layer_primes isprime heads vocab sizes k seen'))"

definition layout_build :: "(int \<Rightarrow> bool) \<Rightarrow> int list \<Rightarrow> int list \<Rightarrow> nat \<Rightarrow> nat \<Rightarrow> nat \<Rightarrow> int \<Rightarrow> layout option" where
  "layout_build isprime layer_ids num_embeddings n heads head_dim vocab =
     map_option (\<lambda>(primes, seen).
       \<lparr>lay_ngram = n, lay_layers = layer_ids, lay_num_embeddings = num_embeddings, lay_primes = primes,
        lay_heads = heads, lay_head_dim = head_dim\<rparr>)
       (layer_primes isprime heads vocab (n - 1) (length layer_ids) {})"

text \<open>\<open>compute_hash_multipliers\<close>: \<open>rng seed high i\<close> is the \<open>i\<close>-th value of a generator below \<open>high\<close>.\<close>

definition hash_multipliers ::
    "(int \<Rightarrow> int \<Rightarrow> nat \<Rightarrow> int) \<Rightarrow> int list \<Rightarrow> nat \<Rightarrow> int \<Rightarrow> py_error + int list list" where
  "hash_multipliers rng layer_ids n vocab =
     (if vocab = 0 then Inl ZeroDivisionError
      else if layer_ids = [] then Inl (RuntimeError ''stack'')
      else (let bound = max 1 ((2 ^ 63 - 1) div vocab div 2) in
        Inr (map (\<lambda>l. map (\<lambda>i. cast I64 (rng (10007 * l) bound i * 2 + 1)) [0..<n]) layer_ids)))"

text \<open>The tokenizer: a text is the list of its code points. \<open>token_key\<close> is the key under which
  \<open>build_compressed_token_map\<close> files a token, its dictionary an association list in insertion order.\<close>

record tokenizer =
  tz_len :: nat
  tz_decode :: "nat \<Rightarrow> nat list"
  tz_token :: "nat \<Rightarrow> nat list option"
  tz_normalize :: "nat list \<Rightarrow> nat list"

definition token_key :: "tokenizer \<Rightarrow> nat \<Rightarrow> nat list option" where
  "token_key z i =
     (let text = tz_decode z i in
      if 65533 \<in> set text then tz_token z i
      else (let normalized = tz_normalize z text in Some (if normalized \<noteq> [] then normalized else text)))"

definition file_token :: "tokenizer \<Rightarrow> nat \<Rightarrow> (nat list option \<times> int) list \<times> int list \<Rightarrow> (nat list option \<times> int) list \<times> int list" where
  "file_token z i st =
     (case st of (key_to_new, lookup) \<Rightarrow>
       (case map_of key_to_new (token_key z i) of
          None \<Rightarrow> (key_to_new @ [(token_key z i, len key_to_new)], lookup[i := len key_to_new])
        | Some new_id \<Rightarrow> (key_to_new, lookup[i := new_id])))"

definition compressed_token_map :: "tokenizer \<Rightarrow> int list \<times> int" where
  "compressed_token_map z =
     (case fold (file_token z) [0..<tz_len z] ([], replicate (tz_len z) 0) of
        (key_to_new, lookup) \<Rightarrow> (lookup, len key_to_new))"

text \<open>\<open>EngramHasher.__init__\<close>, and the image token \<open>from_config\<close> sets afterwards.\<close>

fun np_cumsum :: "int \<Rightarrow> int list \<Rightarrow> int list" where
  "np_cumsum acc [] = []"
| "np_cumsum acc (x # xs) = (let a = cast I64 (acc + x) in a # np_cumsum a xs)"

definition bucket_offsets :: "int list list \<Rightarrow> int list" where
  "bucket_offsets layer = np_cumsum 0 (0 # butlast (concat layer))"

definition py_nth :: "'a list \<Rightarrow> int \<Rightarrow> py_error + 'a" where
  "py_nth xs i = map_sum id (\<lambda>k. xs ! k) (torch_index (length xs) i)"

definition new_hasher ::
    "(int \<Rightarrow> int \<Rightarrow> nat \<Rightarrow> int) \<Rightarrow> tokenizer \<Rightarrow> layout \<Rightarrow> int \<Rightarrow> int \<Rightarrow> py_error + hasher" where
  "new_hasher rng z lay pad_id compressed_vocab =
     (case compressed_token_map z of (tmap, vocab) \<Rightarrow>
        if vocab \<noteq> compressed_vocab then Inl AssertionError
        else (case py_nth tmap pad_id of
            Inl e \<Rightarrow> Inl e
          | Inr pad \<Rightarrow>
              map_sum id (\<lambda>mult.
                \<lparr>ngram = lay_ngram lay, eh_pad = pad, token_map = tmap, multipliers = mult, hprimes = lay_primes lay,
                 hoffsets = map bucket_offsets (lay_primes lay), image_token = None, ehistory = None, pad_row = 0\<rparr>)
                (hash_multipliers rng (lay_layers lay) (lay_ngram lay) vocab)))"

definition hasher_from_config ::
    "(int \<Rightarrow> int \<Rightarrow> nat \<Rightarrow> int) \<Rightarrow> tokenizer \<Rightarrow> layout \<Rightarrow> int \<Rightarrow> int \<Rightarrow> bool \<Rightarrow> int \<Rightarrow> int \<Rightarrow> py_error + hasher" where
  "hasher_from_config rng z lay pad_id compressed_vocab v41 vision_layers image_id =
     map_sum id (\<lambda>h. h\<lparr>image_token := (if v41 \<and> 0 < vision_layers then Some image_id else None)\<rparr>)
       (new_hasher rng z lay pad_id compressed_vocab)"

section \<open>Primes\<close>

definition prime_int :: "int \<Rightarrow> bool" where
  "prime_int p \<longleftrightarrow> 1 < p \<and> (\<forall>d. 0 < d \<longrightarrow> d dvd p \<longrightarrow> d = 1 \<or> d = p)"

lemma prime_divisor:
  assumes "1 < n"
  shows "\<exists>p. prime_int p \<and> p dvd n"
  using assms
proof (induction "nat n" arbitrary: n rule: less_induct)
  case less
  show ?case
  proof (cases "prime_int n")
    case False
    then obtain d where d: "0 < d" "d dvd n" "d \<noteq> 1" "d \<noteq> n" using less.prems by (auto simp: prime_int_def)
    then have "d < n" using zdvd_imp_le [of d n] less.prems by simp
    then obtain p where "prime_int p" "p dvd d" using less.hyps [of d] d by auto
    then show ?thesis using d(2) dvd_trans by blast
  qed auto
qed

text \<open>There is a prime above any number: a prime divisor of \<open>n! + 1\<close>.\<close>

lemma prime_above: "\<exists>p. prime_int p \<and> m < p"
proof -
  let ?n = "nat (max m 1)"
  have "1 < (fact ?n :: int) + 1" by (simp add: fact_gt_zero)
  then obtain p where p: "prime_int p" "p dvd fact ?n + 1" using prime_divisor by blast
  have "m < p"
  proof (rule ccontr)
    assume "\<not> m < p"
    then have "nat p \<le> ?n" "1 \<le> nat p" using p(1) by (auto simp: prime_int_def)
    then have "int (nat p) dvd int (fact ?n)" by (simp only: of_nat_dvd_iff dvd_fact)
    then have "p dvd fact ?n" using p(1) by (simp add: prime_int_def)
    then have "p dvd 1" using p(2) dvd_add_right_iff by blast
    then show False using p(1) by (simp add: prime_int_def)
  qed
  then show ?thesis using p(1) by blast
qed

lemma next_candidate_first:
  assumes "c \<le> p" "isprime p" "p \<notin> seen" "\<And>x. c \<le> x \<Longrightarrow> x < p \<Longrightarrow> \<not> isprime x \<or> x \<in> seen"
  shows "next_candidate isprime seen c = Some p"
  using assms
proof (induction "nat (p - c)" arbitrary: c)
  case 0
  then have "c = p" by simp
  then show ?case using 0 by (simp add: next_candidate.simps [of _ _ p])
next
  case (Suc k)
  then have "c < p" by simp
  then have "next_candidate isprime seen c = next_candidate isprime seen (c + 1)"
    using Suc.prems(4) [of c] by (subst next_candidate.simps) simp
  also have "\<dots> = Some p" by (rule Suc.hyps(1)) (use Suc.hyps(2) Suc.prems \<open>c < p\<close> in auto)
  finally show ?case .
qed

text \<open>The primes up to \<open>m\<close> that a search from \<open>v\<close> on has passed.\<close>

definition primes_upto :: "int \<Rightarrow> int \<Rightarrow> int set" where
  "primes_upto v m = {p. prime_int p \<and> v \<le> p \<and> p \<le> m}"

text \<open>A list of consecutive primes above \<open>m\<close>.\<close>

definition prime_run :: "int \<Rightarrow> int list \<Rightarrow> bool" where
  "prime_run m ps \<longleftrightarrow> sorted_wrt (<) ps \<and> set ps = {p. prime_int p \<and> m < p \<and> p \<le> last (m # ps)}"

lemma find_next:
  assumes "v - 1 \<le> cur" "cur \<le> m"
  shows "\<exists>p. find_next_prime prime_int cur (primes_upto v m) = Some p \<and> m < p \<and> primes_upto v p = insert p (primes_upto v m)
    \<and> prime_int p \<and> (\<forall>q. prime_int q \<longrightarrow> m < q \<longrightarrow> p \<le> q)"
proof -
  define p where "p = m + 1 + int (LEAST k. prime_int (m + 1 + int k))"
  obtain q where q: "prime_int q" "m < q" using prime_above by blast
  then have "prime_int (m + 1 + int (nat (q - m - 1)))" by simp
  then have p: "prime_int p" unfolding p_def by (rule LeastI)
  have least: "p \<le> q" if "prime_int q" "m < q" for q
    using Least_le [of "\<lambda>k. prime_int (m + 1 + int k)" "nat (q - m - 1)"] that by (simp add: p_def)
  have m: "m < p" by (simp add: p_def)
  have "next_candidate prime_int (primes_upto v m) (cur + 1) = Some p"
    by (rule next_candidate_first) (use assms p m least in \<open>force simp: primes_upto_def\<close>)+
  moreover have "primes_upto v p = insert p (primes_upto v m)"
    using assms p m least by (force simp: primes_upto_def)
  ultimately show ?thesis using p m least by (auto simp: find_next_prime_def)
qed

lemma prime_run_last:
  assumes "prime_run m ps"
  shows "m \<le> last (m # ps)"
proof (cases "ps = []")
  case False
  have "set ps = {q. prime_int q \<and> m < q \<and> q \<le> last (m # ps)}" using assms unfolding prime_run_def by blast
  moreover have "last ps \<in> set ps" using False by simp
  ultimately have "m < last ps" by blast
  then show ?thesis using False by simp
qed simp

lemma prime_run_Cons:
  assumes "m < p" "prime_int p" "\<And>q. prime_int q \<Longrightarrow> m < q \<Longrightarrow> p \<le> q" "prime_run p ps"
  shows "prime_run m (p # ps)"
proof -
  have s: "sorted_wrt (<) ps" "set ps = {q. prime_int q \<and> p < q \<and> q \<le> last (p # ps)}"
    using assms(4) by (simp_all add: prime_run_def)
  have l: "last (m # p # ps) = last (p # ps)" by simp
  have "{q. prime_int q \<and> m < q \<and> q \<le> last (p # ps)} = insert p (set ps)"
    unfolding s(2)
  proof (intro set_eqI iffI)
    fix q assume q: "q \<in> {q. prime_int q \<and> m < q \<and> q \<le> last (p # ps)}"
    then have "p \<le> q" using assms(3) by blast
    then show "q \<in> insert p {q. prime_int q \<and> p < q \<and> q \<le> last (p # ps)}" using q by (cases "q = p") auto
  next
    fix q assume "q \<in> insert p {q. prime_int q \<and> p < q \<and> q \<le> last (p # ps)}"
    then show "q \<in> {q. prime_int q \<and> m < q \<and> q \<le> last (p # ps)}"
      using assms(1,2) prime_run_last [OF assms(4)] by auto
  qed
  moreover have "sorted_wrt (<) (p # ps)" using s by simp
  ultimately show ?thesis unfolding prime_run_def l by simp
qed

lemma prime_run_append:
  assumes "prime_run m ps" "prime_run (last (m # ps)) qs"
  shows "prime_run m (ps @ qs)"
proof -
  let ?m = "last (m # ps)"
  have l: "last (m # ps @ qs) = last (?m # qs)" by (cases qs) auto
  note b = prime_run_last [OF assms(1)] prime_run_last [OF assms(2)]
  have s: "sorted_wrt (<) ps" "set ps = {q. prime_int q \<and> m < q \<and> q \<le> ?m}"
    "sorted_wrt (<) qs" "set qs = {q. prime_int q \<and> ?m < q \<and> q \<le> last (?m # qs)}"
    using assms unfolding prime_run_def by blast+
  have "\<forall>x \<in> set ps. \<forall>y \<in> set qs. x < y" unfolding s(2,4) by fastforce
  then have "sorted_wrt (<) (ps @ qs)" using s(1,3) by (simp only: sorted_wrt_append)
  moreover have "set (ps @ qs) = {q. prime_int q \<and> m < q \<and> q \<le> last (?m # qs)}"
    unfolding set_append s(2,4)
  proof (intro set_eqI iffI)
    fix q assume "q \<in> {q. prime_int q \<and> m < q \<and> q \<le> last (?m # qs)}"
    then show "q \<in> {q. prime_int q \<and> m < q \<and> q \<le> ?m} \<union> {q. prime_int q \<and> ?m < q \<and> q \<le> last (?m # qs)}"
      by (cases "q \<le> ?m") auto
  next
    fix q assume "q \<in> {q. prime_int q \<and> m < q \<and> q \<le> ?m} \<union> {q. prime_int q \<and> ?m < q \<and> q \<le> last (?m # qs)}"
    then have "prime_int q" "m < q" "q \<le> last (?m # qs)" using b le_less_trans order_trans by blast+
    then show "q \<in> {q. prime_int q \<and> m < q \<and> q \<le> last (?m # qs)}" by blast
  qed
  ultimately show ?thesis unfolding prime_run_def l by simp
qed

text \<open>The loops continue the run: \<open>seen\<close> is what the run has passed.\<close>

lemma head_primes_run:
  assumes "v - 1 \<le> cur" "cur \<le> m"
  shows "\<exists>ps. head_primes prime_int k cur (primes_upto v m) = Some (ps, primes_upto v (last (m # ps)))
    \<and> length ps = k \<and> prime_run m ps"
  using assms
proof (induction k arbitrary: cur m)
  case 0
  show ?case by (simp add: prime_run_def)
next
  case (Suc k)
  obtain p where p: "find_next_prime prime_int cur (primes_upto v m) = Some p" "m < p"
    "primes_upto v p = insert p (primes_upto v m)" "prime_int p" "\<And>q. prime_int q \<Longrightarrow> m < q \<Longrightarrow> p \<le> q"
    using find_next [OF Suc.prems] by blast
  have "v - 1 \<le> p" using p(2) Suc.prems by simp
  then obtain ps where ps: "head_primes prime_int k p (primes_upto v p) = Some (ps, primes_upto v (last (p # ps)))"
    "length ps = k" "prime_run p ps" using Suc.IH [of p p] by blast
  have "prime_run m (p # ps)" by (rule prime_run_Cons) (use p ps in blast)+
  then show ?case using p(1,3) ps by simp
qed

lemma last_append: "last (m # ps @ qs) = last (last (m # ps) # qs)"
  by (cases qs) auto

lemma size_primes_run:
  assumes "v - 1 \<le> m"
  shows "\<exists>pss. size_primes prime_int heads v k (primes_upto v m) = Some (pss, primes_upto v (last (m # concat pss)))
    \<and> length pss = k \<and> list_all (\<lambda>ps. length ps = heads) pss \<and> prime_run m (concat pss)"
  using assms
proof (induction k arbitrary: m)
  case 0
  show ?case by (simp add: prime_run_def)
next
  case (Suc k)
  obtain ps where ps: "head_primes prime_int heads (v - 1) (primes_upto v m) = Some (ps, primes_upto v (last (m # ps)))"
    "length ps = heads" "prime_run m ps" using head_primes_run [OF order_refl Suc.prems] by blast
  have "v - 1 \<le> last (m # ps)" using prime_run_last [OF ps(3)] Suc.prems by simp
  then obtain pss where pss: "size_primes prime_int heads v k (primes_upto v (last (m # ps)))
      = Some (pss, primes_upto v (last (last (m # ps) # concat pss)))"
    "length pss = k" "list_all (\<lambda>ps. length ps = heads) pss" "prime_run (last (m # ps)) (concat pss)"
    using Suc.IH by blast
  show ?case using ps pss prime_run_append [OF ps(3) pss(4)]
    by (intro exI [of _ "ps # pss"]) (simp del: last.simps add: last_append)
qed

lemma layer_primes_run:
  assumes "v - 1 \<le> m"
  shows "\<exists>psss. layer_primes prime_int heads v sizes k (primes_upto v m) = Some (psss, primes_upto v (last (m # concat (concat psss))))
    \<and> length psss = k \<and> list_all (\<lambda>pss. length pss = sizes \<and> list_all (\<lambda>ps. length ps = heads) pss) psss
    \<and> prime_run m (concat (concat psss))"
  using assms
proof (induction k arbitrary: m)
  case 0
  show ?case by (simp add: prime_run_def)
next
  case (Suc k)
  obtain pss where pss: "size_primes prime_int heads v sizes (primes_upto v m) = Some (pss, primes_upto v (last (m # concat pss)))"
    "length pss = sizes" "list_all (\<lambda>ps. length ps = heads) pss" "prime_run m (concat pss)"
    using size_primes_run [OF Suc.prems] by blast
  have "v - 1 \<le> last (m # concat pss)" using prime_run_last [OF pss(4)] Suc.prems by simp
  then obtain psss where psss: "layer_primes prime_int heads v sizes k (primes_upto v (last (m # concat pss)))
      = Some (psss, primes_upto v (last (last (m # concat pss) # concat (concat psss))))"
    "length psss = k" "list_all (\<lambda>pss. length pss = sizes \<and> list_all (\<lambda>ps. length ps = heads) pss) psss"
    "prime_run (last (m # concat pss)) (concat (concat psss))"
    using Suc.IH by blast
  show ?case using pss psss prime_run_append [OF pss(4) psss(4)]
    by (intro exI [of _ "pss # psss"]) (simp del: last.simps add: last_append)
qed

lemma layout_built:
  "\<exists>psss. layout_build prime_int layer_ids num_embeddings n heads head_dim v
      = Some \<lparr>lay_ngram = n, lay_layers = layer_ids, lay_num_embeddings = num_embeddings, lay_primes = psss,
          lay_heads = heads, lay_head_dim = head_dim\<rparr>
    \<and> length psss = length layer_ids \<and> list_all (\<lambda>pss. length pss = n - 1 \<and> list_all (\<lambda>ps. length ps = heads) pss) psss
    \<and> prime_run (v - 1) (concat (concat psss))"
proof -
  have "primes_upto v (v - 1) = {}" by (simp add: primes_upto_def)
  then show ?thesis using layer_primes_run [of v "v - 1" heads "n - 1" "length layer_ids"]
    by (auto simp: layout_build_def)
qed

text \<open>A test that decides primality is the one of the lemmas.\<close>

lemma decides_prime: "(\<And>p. isprime p \<longleftrightarrow> prime_int p) \<Longrightarrow> isprime = prime_int"
  by blast

end
