(* ===== verification/EngramBuild.thy ===== *)
theory EngramBuild
  imports EngramLayout
begin

text \<open>
  A hasher built from a layout and a tokenizer meets what the passes assume of it: compressed ids number
  the keys of the tokens, no product leaves 63 bits, the shapes fit, and the buckets of a layer lie one
  after the other.
\<close>

section \<open>The compressed vocabulary\<close>

text \<open>The dictionary and the table after the first \<open>k\<close> tokens.\<close>

definition filed :: "tokenizer \<Rightarrow> nat \<Rightarrow> (nat list option \<times> int) list \<times> int list \<Rightarrow> bool" where
  "filed z k st \<longleftrightarrow>
     (case st of (d, lookup) \<Rightarrow>
        distinct (map fst d) \<and> map snd d = map int [0..<length d] \<and> fst ` set d = token_key z ` {..<k}
        \<and> length lookup = tz_len z \<and> (\<forall>i < k. map_of d (token_key z i) = Some (lookup ! i)))"

lemma filed_step:
  assumes "filed z k st" "k < tz_len z"
  shows "filed z (Suc k) (file_token z k st)"
proof -
  obtain d lookup where st: "st = (d, lookup)" by (cases st)
  have D: "distinct (map fst d)" "map snd d = map int [0..<length d]" "fst ` set d = token_key z ` {..<k}"
    "length lookup = tz_len z" "\<forall>i < k. map_of d (token_key z i) = Some (lookup ! i)"
    using assms(1) by (simp_all add: filed_def st)
  show ?thesis
  proof (cases "map_of d (token_key z k)")
    case None
    then have new: "token_key z k \<notin> fst ` set d" by (simp add: map_of_eq_None_iff)
    have "token_key z i \<noteq> token_key z k" if "i < k" for i
    proof
      assume "token_key z i = token_key z k"
      then have "token_key z k \<in> token_key z ` {..<k}" using that by (metis imageI lessThan_iff)
      then show False using new D(3) by simp
    qed
    then have "\<forall>i < Suc k. map_of (d @ [(token_key z k, len d)]) (token_key z i) = Some (lookup[k := len d] ! i)"
      using D(4,5) None assms(2) by (simp add: less_Suc_eq map_add_def all_conj_distrib)
    then show ?thesis using D(1-4) new None
      by (auto simp: filed_def file_token_def st lessThan_Suc)
  next
    case (Some v)
    then have "token_key z k \<in> fst ` set d" by (metis domI dom_map_of_conv_image_fst)
    then show ?thesis using D Some assms(2) by (auto simp: filed_def file_token_def st lessThan_Suc less_Suc_eq)
  qed
qed

lemma filed_all: "k \<le> tz_len z \<Longrightarrow> filed z k (fold (file_token z) [0..<k] ([], replicate (tz_len z) 0))"
proof (induction k)
  case 0
  show ?case by (simp add: filed_def)
next
  case (Suc k)
  then show ?case using filed_step [of z k] by simp
qed

lemma compressed_map:
  assumes "compressed_token_map z = (tmap, vocab)"
  shows "length tmap = tz_len z" "set tmap = {0..<vocab}" "vocab = int (card (token_key z ` {..<tz_len z}))"
    "i < tz_len z \<Longrightarrow> j < tz_len z \<Longrightarrow> tmap ! i = tmap ! j \<longleftrightarrow> token_key z i = token_key z j"
proof -
  obtain d where d: "fold (file_token z) [0..<tz_len z] ([], replicate (tz_len z) 0) = (d, tmap)" "vocab = len d"
    using assms by (auto simp: compressed_token_map_def split: prod.splits)
  have F: "distinct (map fst d)" "map snd d = map int [0..<length d]" "fst ` set d = token_key z ` {..<tz_len z}"
    "length tmap = tz_len z" "\<And>i. i < tz_len z \<Longrightarrow> map_of d (token_key z i) = Some (tmap ! i)"
    using filed_all [of "tz_len z" z] by (simp_all add: d(1) filed_def)
  show "length tmap = tz_len z" by (rule F(4))
  have "card (fst ` set d) = length d" using distinct_card [OF F(1)] by simp
  then show "vocab = int (card (token_key z ` {..<tz_len z}))" using F(3) d(2) by simp
  have snd: "snd ` set d = {0..<len d}"
  proof -
    have "snd ` set d = set (map snd d)" by simp
    also have "\<dots> = int ` {0..<length d}" by (simp add: F(2))
    finally show ?thesis by (simp add: image_int_atLeastLessThan)
  qed
  have inj: "k = k'" if "(k, v) \<in> set d" "(k', v) \<in> set d" for k k' v
  proof -
    have "distinct (map snd d)" by (simp add: F(2) distinct_map)
    then show ?thesis using that by (metis inj_onD distinct_map prod.inject snd_conv)
  qed
  have mem: "(token_key z i, tmap ! i) \<in> set d" if "i < tz_len z" for i using map_of_SomeD [OF F(5) [OF that]] .
  show "i < tz_len z \<Longrightarrow> j < tz_len z \<Longrightarrow> tmap ! i = tmap ! j \<longleftrightarrow> token_key z i = token_key z j"
    using mem inj F(5) by (metis option.inject)
  show "set tmap = {0..<vocab}"
  proof (intro set_eqI iffI)
    fix v assume "v \<in> set tmap"
    then obtain i where "i < tz_len z" "v = tmap ! i" using F(4) by (auto simp: in_set_conv_nth)
    then show "v \<in> {0..<vocab}" using mem snd d(2) by force
  next
    fix v assume "v \<in> {0..<vocab}"
    then obtain k where k: "(k, v) \<in> set d" using snd d(2) by (metis (no_types, lifting) imageE prod.collapse)
    then have "k \<in> token_key z ` {..<tz_len z}" using F(3) by force
    then obtain i where i: "i < tz_len z" "k = token_key z i" by blast
    then have "tmap ! i = v" using F(1) F(5) [OF i(1)] k by (metis map_of_eq_Some_iff option.inject)
    then show "v \<in> set tmap" using i(1) F(4) by auto
  qed
qed

section \<open>Multipliers\<close>

text \<open>What \<open>numpy\<close> documents of \<open>integers(0, high)\<close>.\<close>

definition rng_ok :: "(int \<Rightarrow> int \<Rightarrow> nat \<Rightarrow> int) \<Rightarrow> bool" where
  "rng_ok rng \<longleftrightarrow> (\<forall>seed high i. 0 < high \<longrightarrow> 0 \<le> rng seed high i \<and> rng seed high i < high)"

lemma multiplier_bounds:
  fixes vocab s :: int and i :: nat
  assumes "rng_ok rng" "0 < vocab" "vocab \<le> 2 ^ 63 - 1" "bound = max 1 ((2 ^ 63 - 1) div vocab div 2)" "0 \<le> c" "c < vocab"
  defines "x \<equiv> rng s bound i * 2 + 1"
  shows "cast I64 x = x" "1 \<le> x" "0 \<le> c * x" "c * x < 2 ^ 63"
proof -
  have b: "1 \<le> bound" using assms(4) by simp
  then have r: "0 \<le> rng s bound i" "rng s bound i < bound" using assms(1) by (simp_all add: rng_ok_def)
  then show x1: "1 \<le> x" by (simp add: x_def)
  have xv: "vocab * x \<le> 2 ^ 63 - 1"
  proof (cases "bound = 1")
    case True
    then have "rng s bound i = 0" using r by simp
    then show ?thesis using assms(3) by (simp add: x_def)
  next
    case False
    then have "bound = (2 ^ 63 - 1) div vocab div 2" using assms(4) by (auto simp: max_def split: if_splits)
    then have "x \<le> (2 ^ 63 - 1) div vocab" using r by (simp add: x_def)
    then have "vocab * x \<le> vocab * ((2 ^ 63 - 1) div vocab)" using assms(2) by simp
    also have "\<dots> \<le> 2 ^ 63 - 1" using mult_div_mod_eq [of vocab "2 ^ 63 - 1"] assms(2) pos_mod_sign [of vocab "2 ^ 63 - 1"] by linarith
    finally show ?thesis .
  qed
  have "1 * x \<le> vocab * x" using assms(2) x1 by (intro mult_right_mono) auto
  then have "x < 2 ^ 63" using xv by simp
  then show "cast I64 x = x" using x1 by (intro cast_id) (simp add: fits_def)
  show "0 \<le> c * x" using assms(5) x1 by simp
  have "c * x \<le> vocab * x" using assms(6) x1 by (intro mult_right_mono) auto
  then show "c * x < 2 ^ 63" using xv by simp
qed

section \<open>Buckets\<close>

lemma cumsum_nth:
  assumes "\<forall>x \<in> set xs. 0 \<le> x" "0 \<le> acc" "acc + sum_list xs < 2 ^ 63" "i < length xs"
  shows "length (np_cumsum acc xs) = length xs" "np_cumsum acc xs ! i = acc + sum_list (take (Suc i) xs)"
proof -
  show "length (np_cumsum acc xs) = length xs" for acc by (induction xs arbitrary: acc) (simp_all add: Let_def)
  show "np_cumsum acc xs ! i = acc + sum_list (take (Suc i) xs)"
    using assms
  proof (induction xs arbitrary: acc i)
    case (Cons x xs)
    have "0 \<le> sum_list xs" using Cons.prems(1) by (simp add: sum_list_nonneg)
    then have "cast I64 (acc + x) = acc + x" using Cons.prems(1-3) by (intro cast_id) (simp add: fits_def)
    then show ?case using Cons by (cases i) (simp_all add: Let_def)
  qed simp
qed

lemma length_cumsum [simp]: "length (np_cumsum acc xs) = length xs"
  by (induction xs arbitrary: acc) (simp_all add: Let_def)

lemma length_buckets: "0 < length (concat layer) \<Longrightarrow> length (bucket_offsets layer) = length (concat layer)"
  unfolding bucket_offsets_def length_cumsum by simp

text \<open>The offset of a column is the size of the columns before it.\<close>

lemma bucket_offset:
  assumes "\<forall>x \<in> set (concat layer). 0 < x" "sum_list (concat layer) < 2 ^ 63" "j < length (concat layer)"
  shows "bucket_offsets layer ! j = sum_list (take j (concat layer))"
proof -
  let ?xs = "concat layer"
  have ne: "?xs \<noteq> []" using assms(3) by (metis length_0_conv not_less0)
  then have split: "?xs = butlast ?xs @ [last ?xs]" by simp
  have b: "\<forall>x \<in> set (butlast ?xs). 0 < x" using assms(1) in_set_butlastD by metis
  have "0 < last ?xs" using assms(1) ne by (meson last_in_set)
  moreover have "sum_list ?xs = sum_list (butlast ?xs) + last ?xs" by (subst split) simp
  ultimately have s: "0 + sum_list (0 # butlast ?xs) < 2 ^ 63" using assms(2) by simp
  have "bucket_offsets layer ! j = 0 + sum_list (take (Suc j) (0 # butlast ?xs))"
    unfolding bucket_offsets_def by (rule cumsum_nth(2) [OF _ _ s]) (use b assms(3) in \<open>auto simp: less_imp_le\<close>)
  also have "take j (butlast ?xs) = take j ?xs" using assms(3) by (simp add: butlast_conv_take)
  then have "0 + sum_list (take (Suc j) (0 # butlast ?xs)) = sum_list (take j ?xs)" by simp
  finally show ?thesis .
qed

section \<open>The hasher\<close>

lemma py_nth_mem: "py_nth xs i = Inr x \<Longrightarrow> x \<in> set xs"
  by (auto simp: py_nth_def torch_index_def split: if_splits)

lemma new_hasher_fields:
  assumes "new_hasher rng z lay pad_id cv = Inr h"
  obtains tmap pad mult where "compressed_token_map z = (tmap, cv)" "pad \<in> set tmap"
    "hash_multipliers rng (lay_layers lay) (lay_ngram lay) cv = Inr mult"
    "h = \<lparr>ngram = lay_ngram lay, eh_pad = pad, token_map = tmap, multipliers = mult, hprimes = lay_primes lay,
       hoffsets = map bucket_offsets (lay_primes lay), image_token = None, ehistory = None, pad_row = 0\<rparr>"
proof -
  obtain tmap vocab where t: "compressed_token_map z = (tmap, vocab)" by (cases "compressed_token_map z")
  have v: "vocab = cv" using assms t by (auto simp: new_hasher_def split: if_splits)
  obtain pad where p: "py_nth tmap pad_id = Inr pad" using assms t v by (auto simp: new_hasher_def split: sum.splits)
  obtain mult where m: "hash_multipliers rng (lay_layers lay) (lay_ngram lay) cv = Inr mult"
    using assms t v p by (cases "hash_multipliers rng (lay_layers lay) (lay_ngram lay) cv") (auto simp: new_hasher_def)
  show thesis
    by (rule that [OF t [unfolded v] py_nth_mem [OF p] m]) (use assms t v p m in \<open>simp add: new_hasher_def\<close>)
qed

lemma built_multipliers:
  assumes "hash_multipliers rng layers n cv = Inr mult" "rng_ok rng" "0 < cv" "cv \<le> 2 ^ 63 - 1"
  shows "length mult = length layers" "layers \<noteq> []" "m \<in> set mult \<Longrightarrow> length m = n"
    "m \<in> set mult \<Longrightarrow> x \<in> set m \<Longrightarrow> 0 \<le> c \<Longrightarrow> c < cv \<Longrightarrow> 0 \<le> c * x \<and> c * x < 2 ^ 63"
proof -
  let ?b = "max 1 ((2 ^ 63 - 1) div cv div 2)"
  have m: "mult = map (\<lambda>l. map (\<lambda>i. cast I64 (rng (10007 * l) ?b i * 2 + 1)) [0..<n]) layers" "layers \<noteq> []"
    using assms(1,3) by (auto simp: hash_multipliers_def Let_def split: if_splits)
  then show "length mult = length layers" "layers \<noteq> []" "m \<in> set mult \<Longrightarrow> length m = n" by auto
  assume "m \<in> set mult" "x \<in> set m" and c: "0 \<le> c" "c < cv"
  then obtain l i where "x = cast I64 (rng (10007 * l) ?b i * 2 + 1)" using m(1) by auto
  then show "0 \<le> c * x \<and> c * x < 2 ^ 63" using multiplier_bounds [OF assms(2-4) refl c] by simp
qed

lemma built_hasher:
  assumes "layout_build prime_int layer_ids emb n heads hdim v = Some lay" "new_hasher rng z lay pad_id cv = Inr h"
    and "rng_ok rng" "2 \<le> n" "pow2 n" "pow2 heads" "0 < heads" "tz_len z \<le> 2 ^ 31"
    and "case im of None \<Rightarrow> True | Some i \<Rightarrow> 0 \<le> i \<and> i < mm_pad_shift \<and> i < int (tz_len z)"
  shows "hasher_ok (h\<lparr>image_token := im\<rparr>)"
proof -
  obtain psss where L: "lay = \<lparr>lay_ngram = n, lay_layers = layer_ids, lay_num_embeddings = emb, lay_primes = psss,
      lay_heads = heads, lay_head_dim = hdim\<rparr>"
    "length psss = length layer_ids" "list_all (\<lambda>pss. length pss = n - 1 \<and> list_all (\<lambda>ps. length ps = heads) pss) psss"
    "prime_run (v - 1) (concat (concat psss))"
    using layout_built [of layer_ids emb n heads hdim v] assms(1) by auto
  obtain tmap pad mult where H: "compressed_token_map z = (tmap, cv)" "pad \<in> set tmap"
    "hash_multipliers rng layer_ids n cv = Inr mult"
    "h = \<lparr>ngram = n, eh_pad = pad, token_map = tmap, multipliers = mult, hprimes = psss,
       hoffsets = map bucket_offsets psss, image_token = None, ehistory = None, pad_row = 0\<rparr>"
    using new_hasher_fields [OF assms(2)] L(1) by auto
  note M = compressed_map [OF H(1)]
  have cv: "0 < cv" using H(2) M(2) by auto
  have "card (token_key z ` {..<tz_len z}) \<le> tz_len z" using card_image_le [of "{..<tz_len z}"] by simp
  then have "cv \<le> int (2 ^ 31)" using M(3) assms(8) by linarith
  then have cv2: "cv \<le> 2 ^ 63 - 1" by simp
  note B = built_multipliers [OF H(3) assms(3) cv cv2]
  have mem: "c \<in> set (pad # tmap) \<Longrightarrow> 0 \<le> c \<and> c < cv" for c using H(2) M(2) by auto
  have pos: "0 < p" if "pss \<in> set psss" "ps \<in> set pss" "p \<in> set ps" for pss ps p
  proof -
    have "p \<in> set (concat (concat psss))" using that by auto
    then have "prime_int p" using L(4) unfolding prime_run_def by blast
    then show ?thesis by (simp add: prime_int_def)
  qed
  have shape: "list_all (\<lambda>p. length p = n - 1 \<and> list_all (\<lambda>q. length q = heads \<and> list_all (\<lambda>b. 0 < b) q) p) psss"
    using L(3) pos by (simp add: list_all_iff)
  have offs: "length (bucket_offsets pss) = (n - 1) * heads" if pss: "pss \<in> set psss" for pss
  proof -
    have s: "length pss = n - 1" "\<forall>ps \<in> set pss. length ps = heads" using L(3) pss by (simp_all add: list_all_iff)
    have "length (concat pss) = (n - 1) * heads" using length_concat_const [of pss id heads] s by simp
    moreover have "0 < (n - 1) * heads" using assms(4,7) by simp
    ultimately show ?thesis by (simp add: length_buckets)
  qed
  have prods: "list_all (\<lambda>m. length m = n \<and> list_all (\<lambda>x. list_all (\<lambda>c. 0 \<le> c * x \<and> c * x < 2 ^ 63) (pad # tmap)) m) mult"
    unfolding list_all_iff using B(3,4) mem by blast
  have offs': "list_all (\<lambda>q. length q = (n - 1) * heads) (map bucket_offsets psss)" using offs by (simp add: list_all_iff)
  have "mult \<noteq> []" using B(1,2) by auto
  then show ?thesis
    using assms(4-9) shape prods offs' L(2) B(1) M(1) by (auto simp: hasher_ok_def H(4) split: option.split)
qed

text \<open>The column of an id: the columns of a layer lie one after the other.\<close>

lemma column_bounds:
  assumes "\<forall>x \<in> set (concat (hprimes h ! l)). 0 < x" "sum_list (concat (hprimes h ! l)) < 2 ^ 63"
    and "hoffsets h ! l = bucket_offsets (hprimes h ! l)" "length (hprimes h ! l) = ngram h - 1" "j < length (concat (hprimes h ! l))"
  shows "sum_list (take j (concat (hprimes h ! l))) \<le> torch_hash h cids l ! j
    \<and> torch_hash h cids l ! j < sum_list (take (Suc j) (concat (hprimes h ! l)))"
proof -
  let ?xs = "concat (hprimes h ! l)"
  let ?hs = "concat (map (\<lambda>i. map (\<lambda>p. sint (torch_rolling cids (multipliers h ! l) i) mod p) (hprimes h ! l ! (i - 1))) [1..<ngram h])"
  have hs: "length ?hs = length ?xs \<and> (\<forall>j < length ?xs. 0 \<le> ?hs ! j \<and> ?hs ! j < ?xs ! j)"
  proof -
    have gen: "length (concat (map2 (\<lambda>w ps. map (\<lambda>p. w mod p) ps) ws pss)) = length (concat pss)
        \<and> (\<forall>j < length (concat pss). 0 \<le> concat (map2 (\<lambda>w ps. map (\<lambda>p. w mod p) ps) ws pss) ! j
            \<and> concat (map2 (\<lambda>w ps. map (\<lambda>p. w mod p) ps) ws pss) ! j < concat pss ! j)"
      if "length ws = length pss" "\<forall>x \<in> set (concat pss). 0 < x" for ws :: "int list" and pss
      using that
    proof (induction ws pss rule: list_induct2)
      case (Cons w ws ps pss)
      then show ?case by (auto simp: nth_append)
    qed simp
    let ?ws = "map (\<lambda>i. sint (torch_rolling cids (multipliers h ! l) i)) [1..<ngram h]"
    have "map (\<lambda>i. map (\<lambda>p. sint (torch_rolling cids (multipliers h ! l) i) mod p) (hprimes h ! l ! (i - 1))) [1..<ngram h]
        = map2 (\<lambda>w ps. map (\<lambda>p. w mod p) ps) ?ws (hprimes h ! l)"
      using assms(4) by (intro nth_equalityI) auto
    then show ?thesis using gen [of ?ws "hprimes h ! l"] assms(1,4) by simp
  qed
  have "length (bucket_offsets (hprimes h ! l)) = length ?xs"
    by (rule length_buckets) (use assms(5) in linarith)
  then have t: "torch_hash h cids l ! j = cast I64 (?hs ! j + sum_list (take j ?xs))"
    using hs assms(5) bucket_offset [OF assms(1,2,5)] by (simp add: torch_hash_def assms(3))
  have nn: "0 \<le> sum_list (take k ?xs)" for k using assms(1) by (intro sum_list_nonneg) (auto dest!: in_set_takeD simp: less_imp_le)
  have step: "sum_list (take (Suc j) ?xs) = sum_list (take j ?xs) + ?xs ! j" using assms(5) by (simp add: take_Suc_conv_app_nth)
  have "sum_list ?xs = sum_list (take (Suc j) ?xs) + sum_list (drop (Suc j) ?xs)" by (metis append_take_drop_id sum_list_append)
  moreover have "0 \<le> sum_list (drop (Suc j) ?xs)" using assms(1) by (intro sum_list_nonneg) (auto dest!: in_set_dropD simp: less_imp_le)
  ultimately have "sum_list (take (Suc j) ?xs) < 2 ^ 63" using assms(2) by simp
  then have "cast I64 (?hs ! j + sum_list (take j ?xs)) = ?hs ! j + sum_list (take j ?xs)"
    using hs assms(5) nn [of j] step by (intro cast_id) (auto simp: fits_def add_nonneg_nonneg intro: order_trans [of _ 0])
  then show ?thesis unfolding t step using hs assms(5) by auto
qed

end
