(* ===== verification/EngramClaims.thy ===== *)
theory EngramClaims
  imports EngramCommit EngramBuild
begin

text \<open>The properties of the engram hash, each at a concrete input as well.\<close>

section \<open>Passes\<close>

text \<open>C3: A pass over a batch, on a device or in torch, ends without an error. Every token of a live request
  gets the ids of its position in the request's whole sequence, whichever part of it came with this batch;
  the row of every request that commits then holds that sequence and the rows of the other requests are
  unchanged. This holds for any order of the programs and any content of the new buffers.\<close>

theorem engram_pass_serves:
  assumes "hasher_ok h" "ehistory h = Some hist" "serves h hist rs ids B"
    and "cuda \<longrightarrow> all_programs order (length ids) \<and> length (fst fresh) = length ids \<and> length (snd fresh) = length ids"
  shows "\<exists>out hist'. engram_forward cuda oob order fresh h ids B = Inr (out, h\<lparr>ehistory := Some hist'\<rparr>)
    \<and> ids_served h rs out \<and> rows_served h hist rs B hist'"
proof (cases "ids = []")
  case True
  then have "run_new x = []" if "x \<in> set rs" for x
    using serves_length [OF assms(3)] that by (auto simp: flat_def)
  then have "ids_served h rs []" "rows_served h hist rs B hist"
    using assms(3) by (auto simp: ids_served_def rows_served_def commits_def serves_def)
  moreover have "h = h\<lparr>ehistory := Some hist\<rparr>" using assms(2) by simp
  moreover have "engram_forward cuda oob order fresh h ids B = Inr ([], h)"
    using True assms(2) by (simp add: engram_forward_def)
  ultimately show ?thesis by metis
next
  case False
  obtain P where P: "forward_plan h hist (length ids) B = Inr P" using plan_exists [OF assms(3)] by blast
  show ?thesis
    using False P assms(2,4) torch_forward_served [OF assms(1-3) P False] cuda_forward_served [OF assms(1-3) P False, of order fresh oob]
    by (cases cuda) (auto simp: engram_forward_def)
qed

definition wit_hasher :: hasher where
  "wit_hasher = \<lparr>ngram = 2, eh_pad = 0, token_map = [0, 1, 2, 3], multipliers = [[3, 5]], hprimes = [[[7]]],
     hoffsets = [[0]], image_token = None, ehistory = Some [[1], [0], [0]], pad_row = 2\<rparr>"

definition wit_runs :: "run list" where
  "wit_runs = [\<lparr>run_slot = 0, run_before = [1], run_new = [2, 3], run_live = True\<rparr>,
     \<lparr>run_slot = 1, run_before = [], run_new = [1], run_live = True\<rparr>]"

definition wit_batch :: eng_batch where
  "wit_batch = \<lparr>eb_mode = Extend, eb_slots = [0, 1], eb_positions = [1, 2, 0], eb_out_loc = None, eb_lens = [2, 1],
     eb_starts = [0, 2], eb_ngram_history = None\<rparr>"

lemma wit_hasher_ok: "hasher_ok wit_hasher"
proof -
  have p: "pow2 2" "pow2 1" by (simp_all add: pow2_def)
  then show ?thesis
    unfolding hasher_ok_def wit_hasher_def by (simp only: hasher.simps) (auto intro!: exI [of _ 1])
qed

lemma wit_serves: "serves wit_hasher [[1], [0], [0]] wit_runs [2, 3, 1] wit_batch"
proof -
  have tok: "tok_ok wit_hasher x" if "x \<in> {0, 1, 2, 3}" for x
    using that by (auto simp: tok_ok_def wit_hasher_def torch_fill_def fits_I32)
  then have rows: "row_ok wit_hasher [1]" "row_ok wit_hasher [0]"
    by (simp_all add: row_ok_def) (simp_all add: wit_hasher_def)
  then have "holds wit_hasher [1] [1]" "holds wit_hasher [0] []" by (simp_all add: holds_def) (simp add: wit_hasher_def)
  then show ?thesis
    using rows tok
    by (simp add: serves_def wit_runs_def wit_batch_def mode_ok_def flat_def source_row_def fits_I32 less_Suc_eq all_conj_distrib
        numeral_2_eq_2 start_def upt_rec) (simp add: wit_hasher_def numeral_2_eq_2)
qed

lemma engram_pass_serves_witness:
  "\<exists>out hist'. engram_forward True (\<lambda>_. 0) [0] ([[], [], []], [[], [], []]) wit_hasher [2, 3, 1] wit_batch
      = Inr (out, wit_hasher\<lparr>ehistory := Some hist'\<rparr>)
    \<and> ids_served wit_hasher wit_runs out \<and> rows_served wit_hasher [[1], [0], [0]] wit_runs wit_batch hist'"
  by (rule engram_pass_serves [OF wit_hasher_ok _ wit_serves]) (auto simp: wit_hasher_def all_programs_def)

section \<open>Commits after a verification\<close>

text \<open>C11: After a verification the row of every request moves on by its accepted tokens: a row that held a
  sequence holds it extended by them. Other rows are unchanged, and both devices agree, whatever the order
  of the programs.\<close>

theorem verify_commit_moves_history:
  assumes "hasher_ok h" "ehistory h = Some hist" "commit_ok h hist verify ks cs"
    and "cuda \<longrightarrow> distinct order \<and> set order = {..<length ks}"
  shows "\<exists>hist'. commit_after_verify cuda oob order h verify (map int ks) (map int cs) = Inr (h\<lparr>ehistory := Some hist'\<rparr>)
    \<and> (\<forall>i < length ks. \<forall>xs. holds h (hist ! (ks ! i)) xs \<longrightarrow> holds h (hist' ! (ks ! i)) (xs @ take (cs ! i) (verify ! i)))
    \<and> (\<forall>k. k \<notin> set ks \<longrightarrow> hist' ! k = hist ! k)"
proof -
  have n: "2 \<le> ngram h" using assms(1) by (simp add: hasher_ok_def)
  obtain hist' where com: "commit_after_verify cuda oob order h verify (map int ks) (map int cs) = Inr (h\<lparr>ehistory := Some hist'\<rparr>)"
    and moved: "rows_moved hist verify ks cs {..<length ks} hist'"
  proof (cases cuda)
    case True
    then have "rows_moved hist verify ks cs ({} \<union> set order) (engram_commit_history oob verify (map int ks) (map int cs) order hist)"
      unfolding engram_commit_history_def using assms(4) by (intro commit_programs [OF assms(3) _ _ _ _ rows_moved_0]) auto
    then show thesis using that True assms(2,4) by (simp add: commit_after_verify_def)
  next
    case False
    obtain hist' where "commit_after_verify False oob order h verify (map int ks) (map int cs) = Inr (h\<lparr>ehistory := Some hist'\<rparr>)"
      "rows_moved hist verify ks cs {..<length ks} hist'"
      using torch_commit [OF assms(3,2) n] by blast
    then show thesis using that False by simp
  qed
  have "holds h (hist' ! (ks ! i)) (xs @ take (cs ! i) (verify ! i))" if "i < length ks" "holds h (hist ! (ks ! i)) xs" for i xs
    using moved that moved_row_holds [OF that(2) n commit_okD(2,3) [OF assms(3) that(1)]] by (simp add: rows_moved_def)
  moreover have "hist' ! k = hist ! k" if "k \<notin> set ks" for k
    using moved that unfolding rows_moved_def by (metis lessThan_iff nth_mem)
  ultimately show ?thesis using com by blast
qed

lemma verify_commit_moves_history_witness:
  "\<exists>hist'. commit_after_verify True (\<lambda>_. 0) [1, 0] wit_hasher [[2, 3], [1, 1]] [0, 1] [1, 2] = Inr (wit_hasher\<lparr>ehistory := Some hist'\<rparr>)
    \<and> holds wit_hasher (hist' ! 0) [1, 2] \<and> hist' ! 2 = [0]"
proof -
  have tok: "tok_ok wit_hasher x" if "x \<in> {0, 1, 2, 3}" for x
    using that by (auto simp: tok_ok_def wit_hasher_def torch_fill_def fits_I32)
  then have rows: "row_ok wit_hasher [1]" "row_ok wit_hasher [0]"
    by (simp_all add: row_ok_def) (simp_all add: wit_hasher_def)
  then have one: "holds wit_hasher [1] [1]" by (simp add: holds_def) (simp add: wit_hasher_def)
  have ok: "commit_ok wit_hasher [[1], [0], [0]] [[2, 3], [1, 1]] [0, 1] [1, 2]"
    using rows tok by (simp add: commit_ok_def)
  have hist: "ehistory wit_hasher = Some [[1], [0], [0]]" by (simp add: wit_hasher_def)
  have "True \<longrightarrow> distinct [1, 0 :: nat] \<and> set [1, 0 :: nat] = {..<length [0, 1 :: nat]}" by auto
  from verify_commit_moves_history [OF wit_hasher_ok hist ok this, of "\<lambda>_. 0"]
  obtain hist' where "commit_after_verify True (\<lambda>_. 0) [1, 0] wit_hasher [[2, 3], [1, 1]] (map int [0, 1]) (map int [1, 2])
      = Inr (wit_hasher\<lparr>ehistory := Some hist'\<rparr>)"
    "\<And>i xs. i < 2 \<Longrightarrow> holds wit_hasher ([[1], [0], [0]] ! ([0, 1] ! i)) xs \<Longrightarrow>
      holds wit_hasher (hist' ! ([0, 1] ! i)) (xs @ take ([1, 2] ! i) ([[2, 3], [1, 1]] ! i))"
    "\<And>k. k \<notin> {0, 1} \<Longrightarrow> hist' ! k = [[1], [0], [0]] ! k" by auto
  from this(1) this(2) [of 0 "[1]"] this(3) [of 2] one show ?thesis by (intro exI [of _ hist']) simp
qed

section \<open>Construction\<close>

text \<open>C12: The search for bucket sizes ends: \<open>build\<close> returns for any number of layers, sizes and heads, and in
  the order of layer, n-gram size and head the sizes are the consecutive primes from the vocabulary size on,
  none skipped and none used twice.\<close>

theorem layout_build_returns:
  assumes "\<And>p. isprime p \<longleftrightarrow> prime_int p"
  shows "\<exists>lay. layout_build isprime layer_ids emb n heads hdim v = Some lay
    \<and> sorted_wrt (<) (concat (concat (lay_primes lay)))
    \<and> set (concat (concat (lay_primes lay))) = {p. prime_int p \<and> v \<le> p \<and> p \<le> last ((v - 1) # concat (concat (lay_primes lay)))}
    \<and> length (lay_primes lay) = length layer_ids
    \<and> list_all (\<lambda>sizes. length sizes = n - 1 \<and> list_all (\<lambda>ps. length ps = heads) sizes) (lay_primes lay)"
proof -
  obtain psss where L: "layout_build prime_int layer_ids emb n heads hdim v = Some \<lparr>lay_ngram = n, lay_layers = layer_ids,
      lay_num_embeddings = emb, lay_primes = psss, lay_heads = heads, lay_head_dim = hdim\<rparr>" (is "_ = Some ?lay")
    "length psss = length layer_ids" "list_all (\<lambda>pss. length pss = n - 1 \<and> list_all (\<lambda>ps. length ps = heads) pss) psss"
    "prime_run (v - 1) (concat (concat psss))"
    using layout_built by blast
  have e: "v - 1 < p \<longleftrightarrow> v \<le> p" for p by auto
  note run = L(4) [unfolded prime_run_def e]
  show ?thesis
    unfolding decides_prime [OF assms] by (intro exI [of _ ?lay] conjI L(1)) (simp_all only: layout.simps L(2,3) conjunct1 [OF run] conjunct2 [OF run])
qed

definition trial_division :: "int \<Rightarrow> bool" where
  "trial_division p \<longleftrightarrow> 1 < p \<and> list_all (\<lambda>d. \<not> d dvd p) [2..p - 1]"

lemma trial_division_decides: "trial_division p \<longleftrightarrow> prime_int p"
proof
  assume t: "trial_division p"
  have "d = 1 \<or> d = p" if d: "0 < d" "d dvd p" for d
  proof (rule ccontr)
    assume "\<not> (d = 1 \<or> d = p)"
    then have "d \<in> set [2..p - 1]" using d t zdvd_imp_le [OF d(2)] by (auto simp: trial_division_def)
    then show False using t d(2) by (auto simp: trial_division_def list_all_iff)
  qed
  then show "prime_int p" using t by (simp add: prime_int_def trial_division_def)
next
  assume p: "prime_int p"
  have "\<not> d dvd p" if "d \<in> set [2..p - 1]" for d
  proof
    assume "d dvd p"
    moreover have "0 < d" "d \<noteq> 1" "d \<noteq> p" using that by auto
    ultimately show False using p unfolding prime_int_def by blast
  qed
  then show "trial_division p" using p by (auto simp: trial_division_def list_all_iff prime_int_def)
qed

lemma layout_build_returns_witness:
  "\<exists>lay. layout_build trial_division [1, 4] [100, 100] 2 2 8 5 = Some lay \<and> sorted_wrt (<) (concat (concat (lay_primes lay)))"
  using layout_build_returns [OF trial_division_decides, of "[1, 4]" "[100, 100]" 2 2 8 5] by blast

text \<open>Two tokens share a compressed id exactly when the normalizer gives them one key; the ids are the
  numbers below the size of the compressed vocabulary, which is the number of keys, and all of them are used.\<close>

theorem compressed_ids_number_keys:
  assumes "compressed_token_map z = (tmap, vocab)"
  shows "length tmap = tz_len z \<and> set tmap = {0..<vocab} \<and> vocab = int (card (token_key z ` {..<tz_len z}))
    \<and> (\<forall>i < tz_len z. \<forall>j < tz_len z. tmap ! i = tmap ! j \<longleftrightarrow> token_key z i = token_key z j)"
  using compressed_map [OF assms] by blast

definition wit_tokenizer :: tokenizer where
  "wit_tokenizer = \<lparr>tz_len = 4, tz_decode = (\<lambda>i. if i = 3 then [65533] else [65 + 32 * (i mod 2)]),
     tz_token = (\<lambda>i. Some [1, 2]), tz_normalize = map (\<lambda>c. if c < 97 then c + 32 else c)\<rparr>"

lemma wit_tokens: "compressed_token_map wit_tokenizer = ([0, 0, 0, 1], 2)"
proof -
  have "[0..<4] = [0, 1, 2, 3]" "replicate 4 (0 :: int) = [0, 0, 0, 0]" by (simp_all add: upt_rec numeral_eq_Suc)
  then show ?thesis
    by (simp add: compressed_token_map_def wit_tokenizer_def file_token_def token_key_def)
qed

lemma compressed_ids_number_keys_witness: "set [0, 0, 0, 1 :: int] = {0..<2}"
  by (rule conjunct1 [OF conjunct2 [OF compressed_ids_number_keys [OF wit_tokens]]])

text \<open>C27: A hasher built from a layout and a tokenizer is one the passes can rely on: the shapes fit, buckets
  are not empty, and no compressed id times a multiplier leaves 63 bits, whatever the generator draws.\<close>

theorem built_hasher_ok:
  assumes "\<And>p. isprime p \<longleftrightarrow> prime_int p" "rng_ok rng"
    and "layout_build isprime layer_ids emb n heads hdim v = Some lay"
    and "hasher_from_config rng z lay pad_id cv v41 vision_layers image_id = Inr h"
    and "2 \<le> n" "pow2 n" "0 < heads" "pow2 heads" "tz_len z \<le> 2 ^ 31"
    and "0 \<le> image_id" "image_id < mm_pad_shift" "image_id < int (tz_len z)"
  shows "hasher_ok h"
proof -
  obtain h0 where h0: "new_hasher rng z lay pad_id cv = Inr h0"
    "h = h0\<lparr>image_token := (if v41 \<and> 0 < vision_layers then Some image_id else None)\<rparr>"
    using assms(4) by (cases "new_hasher rng z lay pad_id cv") (auto simp: hasher_from_config_def)
  have lay: "layout_build prime_int layer_ids emb n heads hdim v = Some lay"
    using assms(3) unfolding decides_prime [OF assms(1)] .
  show ?thesis
    unfolding h0(2) by (rule built_hasher [OF lay h0(1) assms(2,5,6,8,7,9)]) (use assms(10-12) in auto)
qed

definition wit_layout :: layout where
  "wit_layout = \<lparr>lay_ngram = 2, lay_layers = [1], lay_num_embeddings = [100], lay_primes = [[[5, 7]]], lay_heads = 2, lay_head_dim = 8\<rparr>"

lemma wit_layout_built: "layout_build trial_division [1] [100] 2 2 8 5 = Some wit_layout"
  by (simp add: layout_build_def wit_layout_def numeral_2_eq_2 find_next_prime_def next_candidate.simps trial_division_def
      upto_rec1)

lemma built_hasher_ok_witness:
  "hasher_ok (projr (hasher_from_config (\<lambda>_ _ _. 0) wit_tokenizer wit_layout 3 2 True 1 0))"
proof -
  have "\<exists>h. hasher_from_config (\<lambda>_ _ _. 0) wit_tokenizer wit_layout 3 2 True 1 0 = Inr h"
    by (simp add: hasher_from_config_def new_hasher_def wit_tokens py_nth_def torch_index_def hash_multipliers_def wit_layout_def Let_def)
  then obtain h where h: "hasher_from_config (\<lambda>_ _ _. 0) wit_tokenizer wit_layout 3 2 True 1 0 = Inr h" by blast
  have "hasher_ok h"
    by (rule built_hasher_ok [OF trial_division_decides _ wit_layout_built h])
      (simp_all add: rng_ok_def pow2_def wit_tokenizer_def mm_pad_shift_def)
  then show ?thesis by (simp add: h)
qed

text \<open>The columns of a layer use disjoint parts of its table, one after the other: an id of a column lies
  behind the sizes of the columns before it and before those after it, so below the sum of the sizes.\<close>

theorem hash_columns_disjoint:
  assumes "\<And>p. isprime p \<longleftrightarrow> prime_int p"
    and "layout_build isprime layer_ids emb n heads hdim v = Some lay" "new_hasher rng z lay pad_id cv = Inr h" "1 \<le> n"
    and "sum_list (concat (hprimes h ! l)) < 2 ^ 63" "compute_engram_hash_ids h tokens blocked = Inr ids"
    and "l < length ids" "l < length layer_ids" "j < length (concat (hprimes h ! l))"
  shows "sum_list (take j (concat (hprimes h ! l))) \<le> ids ! l ! j
    \<and> ids ! l ! j < sum_list (take (Suc j) (concat (hprimes h ! l)))"
proof -
  obtain psss where L: "lay = \<lparr>lay_ngram = n, lay_layers = layer_ids, lay_num_embeddings = emb, lay_primes = psss,
      lay_heads = heads, lay_head_dim = hdim\<rparr>"
    "length psss = length layer_ids" "list_all (\<lambda>pss. length pss = n - 1 \<and> list_all (\<lambda>ps. length ps = heads) pss) psss"
    "prime_run (v - 1) (concat (concat psss))"
    using layout_built [of layer_ids emb n heads hdim v] assms(2) unfolding decides_prime [OF assms(1)] by auto
  have H: "hprimes h = psss" "hoffsets h = map bucket_offsets psss" "ngram h = n"
    by (rule new_hasher_fields [OF assms(3)]; simp add: L(1))+
  have l: "l < length psss" using assms(8) L(2) by simp
  have "0 < p" if p: "p \<in> set (concat (psss ! l))" for p
  proof -
    have "p \<in> set (concat (concat psss))" using p nth_mem [OF l] by auto
    then have "prime_int p" using L(4) unfolding prime_run_def by blast
    then show ?thesis by (simp add: prime_int_def)
  qed
  moreover have "length (psss ! l) = n - 1" using L(3) l by (simp add: list_all_length)
  moreover obtain cids where "ids = map (torch_hash h cids) [0..<length (multipliers h)]"
    using assms(6) by (cases "torch_compressed h tokens blocked") (auto simp: compute_engram_hash_ids_def)
  ultimately show ?thesis
    using column_bounds [of h l j cids] assms(5,7,9) l by (simp add: H)
qed

lemma hash_columns_disjoint_witness:
  "\<exists>ids. compute_engram_hash_ids (projr (new_hasher (\<lambda>_ _ _. 0) wit_tokenizer wit_layout 3 2)) [3, 1] [False, False] = Inr ids
    \<and> 5 \<le> ids ! 0 ! 1 \<and> ids ! 0 ! 1 < 12"
proof -
  obtain h where h: "new_hasher (\<lambda>_ _ _. 0) wit_tokenizer wit_layout 3 2 = Inr h" "hprimes h = [[[5, 7]]]" "length (multipliers h) = 1"
    "token_map h = [0, 0, 0, 1]"
    by (simp add: new_hasher_def wit_tokens py_nth_def torch_index_def hash_multipliers_def wit_layout_def Let_def)
  obtain ids where ids: "compute_engram_hash_ids h [3, 1] [False, False] = Inr ids" "length ids = 1"
    using h(3) by (simp add: compute_engram_hash_ids_def torch_compressed_def torch_index_def h(4))
  show ?thesis
    using hash_columns_disjoint [OF trial_division_decides wit_layout_built h(1) _ _ ids(1), of 0 1] h(2) ids by (simp add: h(1))
qed

end
