(* ===== verification/FinishState.thy ===== *)
theory FinishState
  imports Texts
begin

text \<open>
  When a request ends: \<open>Req.update_finish_state\<close> of \<open>sglang-overlay/schedule_batch.py\<close> and what it calls, on
  the fields the decode loop reads and writes. The tokenizer is a field, the search of a regular
  expression an argument (\<open>Inl\<close> is a raised \<open>re.error\<close> or \<open>RecursionError\<close>), the grammar a state of any type.
\<close>

section \<open>State\<close>

datatype abort_cause = Aborted | InvalidStopRegex ustr | PoolFull | BeamPoolFull | HostPoolExhausted | GrammarRejected

datatype finish_reason =
    FINISH_MATCHED_TOKEN int
  | FINISH_MATCHED_STR ustr
  | FINISHED_MATCHED_REGEX ustr
  | FINISH_LENGTH int
  | FINISH_ABORT abort_cause

record stop_params =
  stop_strs :: "ustr list"
  stop_regex_strs :: "ustr list"
  stop_str_max_len :: int
  stop_regex_max_len :: int
  stop_token_ids :: "int list"
  sp_ignore_eos :: bool
  sp_max_new_tokens :: int

record detok =
  tk_decode :: "int list \<Rightarrow> ustr"
  tk_eos_token_id :: "int option"
  tk_additional_stop :: "int list"

record 'g gen_req =
  g_origin_input_ids :: "int list"
  g_output_ids :: "int list"
  g_params :: stop_params
  g_eos_token_ids :: "int list"
  g_vocab_size :: "int option"
  g_tokenizer :: "detok option"
  g_decoded_text :: ustr
  g_finished_reason :: "finish_reason option"
  g_finished_len :: "int option"
  g_to_finish :: "finish_reason option"
  g_grammar :: "'g option"
  g_grammar_finished :: bool
  g_is_retracted :: bool
  g_kv_committed_len :: int
  g_spec_verify_ct :: int
  g_spec_num_correct_drafts :: int
  g_spec_histogram :: "int list"
  g_spec_num_block_accept :: int
  g_spec_num_cap :: int
  g_spec_cap_histogram :: "int list"
  g_inflight_middle_chunks :: int
  g_kv_allocated_len :: int
  g_priority :: "int option"
  g_beam :: bool
  g_input_embeds :: bool

definition finished :: "'g gen_req \<Rightarrow> bool" where
  "finished r \<longleftrightarrow> g_finished_reason r \<noteq> None"

definition seqlen :: "'g gen_req \<Rightarrow> int" where
  "seqlen r = len (g_origin_input_ids r) + len (g_output_ids r)"

text \<open>\<open>output_ids_through_stop\<close>: what is emitted.\<close>

definition output_ids_through_stop :: "'g gen_req \<Rightarrow> int list" where
  "output_ids_through_stop r =
     (case g_finished_len r of
        Some n \<Rightarrow> take (nat (if n < 0 then len (g_output_ids r) + n else n)) (g_output_ids r)
      | None \<Rightarrow> g_output_ids r)"

section \<open>Tokens\<close>

fun first_index :: "('a \<Rightarrow> bool) \<Rightarrow> 'a list \<Rightarrow> nat option" where
  "first_index P [] = None"
| "first_index P (x # xs) = (if P x then Some 0 else map_option Suc (first_index P xs))"

text \<open>The first element a set yields: sets are lists in the order they yield their elements.\<close>

definition outside_vocab :: "'g gen_req \<Rightarrow> int \<Rightarrow> bool" where
  "outside_vocab r x \<longleftrightarrow> x < 0 \<or> (case g_vocab_size r of None \<Rightarrow> False | Some v \<Rightarrow> v \<le> x)"

definition check_vocab_boundary_finish :: "'g gen_req \<Rightarrow> int list \<Rightarrow> bool \<times> 'g gen_req" where
  "check_vocab_boundary_finish r new =
     (case first_index (outside_vocab r) new of
        None \<Rightarrow> (False, r)
      | Some i \<Rightarrow>
          (let offset = length (g_output_ids r) - length new + i;
               outs = (case stop_token_ids (g_params r) of [] \<Rightarrow> g_output_ids r | x # _ \<Rightarrow> (g_output_ids r)[offset := x]);
               outs' = (case g_eos_token_ids r of [] \<Rightarrow> outs | x # _ \<Rightarrow> outs[offset := x])
           in (True, r\<lparr>g_output_ids := outs', g_finished_reason := Some (FINISH_MATCHED_STR (codes ''NaN happened'')),
                 g_finished_len := Some (int offset + 1)\<rparr>)))"

definition stop_token :: "'g gen_req \<Rightarrow> int \<Rightarrow> bool" where
  "stop_token r x \<longleftrightarrow>
     x \<in> set (stop_token_ids (g_params r)) \<or> x \<in> set (g_eos_token_ids r)
     \<or> (case g_tokenizer r of None \<Rightarrow> False | Some t \<Rightarrow> tk_eos_token_id t = Some x \<or> x \<in> set (tk_additional_stop t))"

definition check_token_based_finish :: "'g gen_req \<Rightarrow> int list \<Rightarrow> bool \<times> 'g gen_req" where
  "check_token_based_finish r new =
     (if sp_ignore_eos (g_params r) then (False, r)
      else (case first_index (stop_token r) new of
        None \<Rightarrow> (False, r)
      | Some i \<Rightarrow> (True, r\<lparr>g_finished_reason := Some (FINISH_MATCHED_TOKEN (new ! i)),
          g_finished_len := Some (len (g_output_ids r) - len new + int i + 1)\<rparr>)))"

section \<open>Texts\<close>

definition stop_match_tail_len :: "'g gen_req \<Rightarrow> int \<Rightarrow> int" where
  "stop_match_tail_len r n =
     (let p = g_params r; max_len_tail_str = max (stop_str_max_len p + 1) (stop_regex_max_len p + 1)
      in min (max_len_tail_str + max (n - 1) 0) (len (g_output_ids r)))"

definition decode :: "'g gen_req \<Rightarrow> int list \<Rightarrow> py_error + ustr" where
  "decode r ids = (case g_tokenizer r of None \<Rightarrow> Inl AttributeError | Some t \<Rightarrow> Inr (tk_decode t ids))"

definition tail_str :: "'g gen_req \<Rightarrow> int \<Rightarrow> py_error + ustr" where
  "tail_str r n =
     (if stop_strs (g_params r) = [] \<and> stop_regex_strs (g_params r) = [] then Inr []
      else decode r (slice_from (g_output_ids r) (- stop_match_tail_len r n)))"

text \<open>\<open>check_match_stop_str_prefix\<close>: whether the output may be in the middle of a stop string.\<close>

definition check_match_stop_str_prefix :: "'g gen_req \<Rightarrow> py_error + bool" where
  "check_match_stop_str_prefix r =
     (if stop_strs (g_params r) = [] then Inr False
      else (case tail_str r 1 of
          Inl e \<Rightarrow> Inl e
        | Inr tail \<Rightarrow>
            Inr (tail \<noteq> [] \<and> list_ex (\<lambda>s. s \<noteq> [] \<and> (contains_sub s tail
              \<or> list_ex (\<lambda>i. drop (length tail - i) tail = take i s) [1..<Suc (min (length tail) (length s))])) (stop_strs (g_params r)))))"

text \<open>\<open>_locate_str_stop_finished_len\<close>; \<open>matched\<close> is the inner function.\<close>

fun first_count :: "(int \<Rightarrow> py_error + bool) \<Rightarrow> int list \<Rightarrow> py_error + int option" where
  "first_count f [] = Inr None"
| "first_count f (k # ks) =
     (case f k of Inl e \<Rightarrow> Inl e | Inr b \<Rightarrow> if b then Inr (Some k) else first_count f ks)"

definition locate_str_stop_finished_len :: "(ustr \<Rightarrow> py_error + bool) \<Rightarrow> 'g gen_req \<Rightarrow> int \<Rightarrow> py_error + int" where
  "locate_str_stop_finished_len matched r n =
     (let tail_len = stop_match_tail_len r n; start = len (g_output_ids r) - tail_len;
          token_window = slice_from (g_output_ids r) start
      in case first_count (\<lambda>k. case decode r (take (nat k) token_window) of Inl e \<Rightarrow> Inl e | Inr text \<Rightarrow> matched text)
             [max 1 (len token_window - n + 1)..len token_window - 1] of
           Inl e \<Rightarrow> Inl e
         | Inr None \<Rightarrow> Inr (len (g_output_ids r))
         | Inr (Some k) \<Rightarrow> Inr (start + k))"

datatype regex_outcome = NoRegex | BadRegex ustr | RegexMatch ustr

fun regex_loop :: "(ustr \<Rightarrow> ustr \<Rightarrow> py_error + bool) \<Rightarrow> ustr \<Rightarrow> ustr list \<Rightarrow> regex_outcome" where
  "regex_loop search tail [] = NoRegex"
| "regex_loop search tail (s # ss) =
     (case search s tail of Inl e \<Rightarrow> BadRegex s | Inr b \<Rightarrow> if b then RegexMatch s else regex_loop search tail ss)"

definition check_str_based_finish ::
    "(ustr \<Rightarrow> ustr \<Rightarrow> py_error + bool) \<Rightarrow> 'g gen_req \<Rightarrow> int \<Rightarrow> py_error + bool \<times> 'g gen_req" where
  "check_str_based_finish search r n =
     (if stop_strs (g_params r) = [] \<and> stop_regex_strs (g_params r) = [] then Inr (False, r)
      else (case tail_str r n of
          Inl e \<Rightarrow> Inl e
        | Inr tail \<Rightarrow>
            (case find (\<lambda>s. contains_sub s tail \<or> contains_sub s (g_decoded_text r)) (stop_strs (g_params r)) of
               Some s \<Rightarrow>
                 (let r' = r\<lparr>g_finished_reason := Some (FINISH_MATCHED_STR s)\<rparr> in
                  if contains_sub s tail
                  then map_sum id (\<lambda>k. (True, r'\<lparr>g_finished_len := Some k\<rparr>))
                         (locate_str_stop_finished_len (\<lambda>text. Inr (contains_sub s text)) r n)
                  else Inr (True, r'))
             | None \<Rightarrow>
                 (case regex_loop search tail (stop_regex_strs (g_params r)) of
                    NoRegex \<Rightarrow> Inr (False, r)
                  | BadRegex s \<Rightarrow> Inr (False, r\<lparr>g_finished_reason := Some (FINISH_ABORT (InvalidStopRegex s))\<rparr>)
                  | RegexMatch s \<Rightarrow>
                      map_sum id (\<lambda>k. (True, r\<lparr>g_finished_reason := Some (FINISHED_MATCHED_REGEX s), g_finished_len := Some k\<rparr>))
                        (locate_str_stop_finished_len (search s) r n)))))"

section \<open>The finish state\<close>

definition cap_finished_len_at_max_new_tokens :: "'g gen_req \<Rightarrow> 'g gen_req" where
  "cap_finished_len_at_max_new_tokens r =
     (let m = sp_max_new_tokens (g_params r) in
      case g_finished_len r of
        None \<Rightarrow> r
      | Some n \<Rightarrow> if m < n then r\<lparr>g_finished_reason := Some (FINISH_LENGTH m), g_finished_len := Some m\<rparr> else r)"

definition update_finish_state ::
    "(ustr \<Rightarrow> ustr \<Rightarrow> py_error + bool) \<Rightarrow> ('g \<Rightarrow> bool) \<Rightarrow> int \<Rightarrow> 'g gen_req \<Rightarrow> py_error + 'g gen_req" where
  "update_finish_state search is_terminated n r =
     (if finished r then Inr r
      else if g_to_finish r \<noteq> None then Inr (r\<lparr>g_finished_reason := g_to_finish r, g_to_finish := None\<rparr>)
      else
        (let new = slice_from (g_output_ids r) (- n) in
         case check_vocab_boundary_finish r new of
           (True, r) \<Rightarrow> Inr (cap_finished_len_at_max_new_tokens r)
         | (False, r) \<Rightarrow>
             (case check_str_based_finish search r n of
                Inl e \<Rightarrow> Inl e
              | Inr (True, r) \<Rightarrow> Inr (cap_finished_len_at_max_new_tokens r)
              | Inr (False, r) \<Rightarrow>
                  (case check_token_based_finish r new of
                     (True, r) \<Rightarrow> Inr (cap_finished_len_at_max_new_tokens r)
                   | (False, r) \<Rightarrow>
                       (let m = sp_max_new_tokens (g_params r) in
                        if m \<le> len (g_output_ids r)
                        then Inr (r\<lparr>g_finished_reason := Some (FINISH_LENGTH m), g_finished_len := Some m\<rparr>)
                        else (case g_grammar r of
                            Some g \<Rightarrow> if is_terminated g then
                                (if g_output_ids r = [] then Inl IndexError
                                 else Inr (r\<lparr>g_finished_reason := Some (FINISH_MATCHED_TOKEN (List.last (g_output_ids r)))\<rparr>))
                              else Inr r
                          | None \<Rightarrow> Inr r))))))"

end
