(* ===== verification/FinishFacts.thy ===== *)
theory FinishFacts
  imports FinishState
begin

text \<open>
  What a step of the decode loop does to the end of a request: the emitted output only grows and stays
  within the budget, stops are found at their first position, and a run of accepted tokens ends a request
  where single tokens would have. Also where this fails.
\<close>

section \<open>Runs\<close>

lemma slice_from_run: "new \<noteq> [] \<Longrightarrow> slice_from (old @ new) (- len new) = new"
  by (simp add: slice_from_def)

lemma first_index_None: "first_index P xs = None \<longleftrightarrow> list_all (\<lambda>x. \<not> P x) xs"
  by (induction xs) auto

lemma first_index_Some:
  "first_index P xs = Some i \<longleftrightarrow> i < length xs \<and> P (xs ! i) \<and> (\<forall>j < i. \<not> P (xs ! j))"
proof (induction xs arbitrary: i)
  case (Cons x xs)
  show ?case
  proof (cases i)
    case 0
    then show ?thesis by auto
  next
    case (Suc k)
    then show ?thesis using Cons [of k] by (auto simp: All_less_Suc2)
  qed
qed simp

text \<open>A request in the middle of its decode, before its new tokens are judged.\<close>

definition running :: "'g gen_req \<Rightarrow> bool" where
  "running r \<longleftrightarrow> g_finished_reason r = None \<and> g_to_finish r = None \<and> g_finished_len r = None"








section \<open>Emission\<close>



section \<open>Runs and single tokens\<close>

text \<open>A decode without speculation: one token per step until the request ends.\<close>

fun one_by_one :: "(ustr \<Rightarrow> ustr \<Rightarrow> py_error + bool) \<Rightarrow> ('g \<Rightarrow> bool) \<Rightarrow> 'g gen_req \<Rightarrow> int list \<Rightarrow> py_error + 'g gen_req" where
  "one_by_one search is_term r [] = Inr r"
| "one_by_one search is_term r (x # xs) =
     (if finished r then Inr r
      else (case update_finish_state search is_term 1 (r\<lparr>g_output_ids := g_output_ids r @ [x]\<rparr>) of
          Inl e \<Rightarrow> Inl e
        | Inr r' \<Rightarrow> one_by_one search is_term r' xs))"

text \<open>Requests that end by tokens and length only.\<close>

definition token_only :: "'g gen_req \<Rightarrow> bool" where
  "token_only r \<longleftrightarrow> running r \<and> stop_strs (g_params r) = [] \<and> stop_regex_strs (g_params r) = [] \<and> g_grammar r = None"

definition end_of_run :: "'g gen_req \<Rightarrow> int list \<Rightarrow> int list \<Rightarrow> finish_reason option \<times> int list" where
  "end_of_run r old new =
     (let m = sp_max_new_tokens (g_params r) in
      case (if sp_ignore_eos (g_params r) then None else first_index (stop_token r) new) of
        Some i \<Rightarrow> if m < len old + int i + 1 then (Some (FINISH_LENGTH m), take (nat m) (old @ new))
          else (Some (FINISH_MATCHED_TOKEN (new ! i)), old @ take (Suc i) new)
      | None \<Rightarrow> if m \<le> len old + len new then (Some (FINISH_LENGTH m), take (nat m) (old @ new)) else (None, old @ new))"

lemma token_only_update:
  assumes "token_only r" "g_output_ids r = old @ new" "new \<noteq> []" "list_all (\<lambda>x. \<not> outside_vocab r x) new"
    and "0 \<le> sp_max_new_tokens (g_params r)"
  shows "\<exists>r'. update_finish_state search is_term (len new) r = Inr r'
    \<and> (g_finished_reason r', output_ids_through_stop r') = end_of_run r old new
    \<and> (\<not> finished r' \<longrightarrow> r' = r)"
proof -
  have run: "\<not> finished r" "g_to_finish r = None" "g_finished_len r = None" "g_finished_reason r = None"
    using assms(1) by (simp_all add: token_only_def running_def finished_def)
  have new: "slice_from (g_output_ids r) (- len new) = new" using assms(2,3) by (simp add: slice_from_run)
  have v: "check_vocab_boundary_finish r new = (False, r)"
    using assms(4) by (simp add: check_vocab_boundary_finish_def first_index_None [THEN iffD2])
  have s: "check_str_based_finish search r (len new) = Inr (False, r)"
    using assms(1) by (simp add: check_str_based_finish_def token_only_def)
  have U: "update_finish_state search is_term (len new) r =
      (case check_token_based_finish r new of
         (True, r) \<Rightarrow> Inr (cap_finished_len_at_max_new_tokens r)
       | (False, r) \<Rightarrow> if sp_max_new_tokens (g_params r) \<le> len (g_output_ids r)
           then Inr (r\<lparr>g_finished_reason := Some (FINISH_LENGTH (sp_max_new_tokens (g_params r))),
             g_finished_len := Some (sp_max_new_tokens (g_params r))\<rparr>)
           else (case g_grammar r of Some g \<Rightarrow> if is_term g then
               (if g_output_ids r = [] then Inl IndexError
                else Inr (r\<lparr>g_finished_reason := Some (FINISH_MATCHED_TOKEN (List.last (g_output_ids r)))\<rparr>)) else Inr r
             | None \<Rightarrow> Inr r))"
    unfolding update_finish_state_def Let_def new v using run by (simp add: s)
  show ?thesis
  proof (cases "if sp_ignore_eos (g_params r) then None else first_index (stop_token r) new")
    case (Some i)
    then have i: "i < length new" "\<not> sp_ignore_eos (g_params r)" "first_index (stop_token r) new = Some i"
      by (auto split: if_splits simp: first_index_Some)
    let ?r1 = "r\<lparr>g_finished_reason := Some (FINISH_MATCHED_TOKEN (new ! i)), g_finished_len := Some (len old + int i + 1)\<rparr>"
    have "check_token_based_finish r new = (True, ?r1)" using i assms(2) by (simp add: check_token_based_finish_def)
    then have u: "update_finish_state search is_term (len new) r = Inr (cap_finished_len_at_max_new_tokens ?r1)" by (simp add: U)
    have n: "nat (len old + int i + 1) = length old + Suc i" by simp
    show ?thesis unfolding u using i(2,3) assms(2,5) n
      by (auto simp: Let_def cap_finished_len_at_max_new_tokens_def end_of_run_def output_ids_through_stop_def finished_def)
  next
    case None
    then have t: "check_token_based_finish r new = (False, r)"
      by (auto simp: check_token_based_finish_def split: if_splits)
    show ?thesis using None t run assms(1,2,5)
      by (auto simp: U Let_def end_of_run_def output_ids_through_stop_def finished_def token_only_def)
  qed
qed

lemma end_of_run_cong:
  "g_params r' = g_params r \<Longrightarrow> stop_token r' = stop_token r \<Longrightarrow> end_of_run r' old new = end_of_run r old new"
  by (simp add: end_of_run_def)

lemma end_of_run_Cons:
  assumes "len old < sp_max_new_tokens (g_params r)"
  shows "end_of_run r old (x # xs) =
    (case end_of_run r old [x] of
       (Some reason, out) \<Rightarrow> (Some reason, out)
     | (None, out) \<Rightarrow> if xs = [] then (None, out) else end_of_run r (old @ [x]) xs)"
proof (cases "\<not> sp_ignore_eos (g_params r) \<and> stop_token r x")
  case True
  then show ?thesis using assms by (auto simp: end_of_run_def Let_def)
next
  case False
  show ?thesis
  proof (cases "sp_max_new_tokens (g_params r) \<le> len old + 1")
    case True
    then have m: "nat (sp_max_new_tokens (g_params r)) = Suc (length old)" "sp_max_new_tokens (g_params r) = len old + 1"
      using assms by linarith+
    show ?thesis using False m by (auto simp: end_of_run_def Let_def split: option.splits)
  next
    case m: False
    show ?thesis
      using False m by (auto simp: end_of_run_def Let_def split: option.splits)
  qed
qed

lemma one_by_one_outcome:
  assumes "token_only r" "list_all (\<lambda>x. \<not> outside_vocab r x) new" "new \<noteq> []"
    and "len (g_output_ids r) < sp_max_new_tokens (g_params r)"
  shows "\<exists>r'. one_by_one search is_term r new = Inr r'
    \<and> (g_finished_reason r', output_ids_through_stop r') = end_of_run r (g_output_ids r) new"
  using assms
proof (induction new arbitrary: r)
  case (Cons x xs)
  let ?r = "r\<lparr>g_output_ids := g_output_ids r @ [x]\<rparr>"
  have t: "token_only ?r" "list_all (\<lambda>x. \<not> outside_vocab ?r x) [x]" "0 \<le> sp_max_new_tokens (g_params ?r)"
    using Cons.prems by (auto simp: token_only_def running_def outside_vocab_def)
  obtain r' where r': "update_finish_state search is_term (len [x]) ?r = Inr r'"
    "(g_finished_reason r', output_ids_through_stop r') = end_of_run ?r (g_output_ids r) [x]" "\<not> finished r' \<longrightarrow> r' = ?r"
    using token_only_update [where search = search and ?is_term = "is_term" and old = "g_output_ids r", OF t(1) _ _ t(2,3)] by auto
  have st: "stop_token ?r = stop_token r" by (rule ext) (simp add: stop_token_def)
  have e: "end_of_run ?r old ys = end_of_run r old ys" for old ys by (rule end_of_run_cong) (simp_all add: st)
  have nf: "\<not> finished r" using Cons.prems(1) by (simp add: token_only_def running_def finished_def)
  show ?case
  proof (cases "finished r'")
    case True
    then have "one_by_one search is_term r (x # xs) = Inr r'" using nf r'(1) by (cases xs) simp_all
    moreover obtain reason where "g_finished_reason r' = Some reason" using True by (auto simp: finished_def)
    ultimately show ?thesis using r'(2) unfolding end_of_run_Cons [OF Cons.prems(4), of x xs] e by (auto split: prod.splits option.splits)
  next
    case False
    then have r'_eq: "r' = ?r" using r'(3) by simp
    have none: "end_of_run r (g_output_ids r) [x] = (None, output_ids_through_stop ?r)"
      using r'(2) False unfolding r'_eq e by (simp add: finished_def)
    then have room: "len (g_output_ids ?r) < sp_max_new_tokens (g_params ?r)"
      by (auto simp: end_of_run_def Let_def split: option.splits if_splits)
    show ?thesis
    proof (cases "xs = []")
      case True
      have "one_by_one search is_term r (x # xs) = Inr ?r" using nf r'(1) True by (simp add: r'_eq)
      then show ?thesis using True none r'(2) r'_eq e by simp
    next
      case ne: False
      have v: "list_all (\<lambda>x. \<not> outside_vocab ?r x) xs" using Cons.prems(2) by (simp add: outside_vocab_def)
      obtain r2 where "one_by_one search is_term ?r xs = Inr r2"
        "(g_finished_reason r2, output_ids_through_stop r2) = end_of_run ?r (g_output_ids ?r) xs"
        using Cons.IH [OF t(1) v ne room] by blast
      then show ?thesis
        using nf r'(1) ne unfolding end_of_run_Cons [OF Cons.prems(4), of x xs] none e by (auto simp: r'_eq output_ids_through_stop_def)
    qed
  qed
qed simp

text \<open>Speculation does not change where a request ends: judged after a whole accepted run, a request that
  ends by tokens or length has the finish reason and the emitted output it would have had with one token per
  step.\<close>

theorem run_ends_like_single_tokens:
  assumes "token_only r" "list_all (\<lambda>x. \<not> outside_vocab r x) new" "new \<noteq> []"
    and "len (g_output_ids r) < sp_max_new_tokens (g_params r)"
  shows "\<exists>r1 r2. update_finish_state search is_term (len new) (r\<lparr>g_output_ids := g_output_ids r @ new\<rparr>) = Inr r1
    \<and> one_by_one search is_term r new = Inr r2
    \<and> g_finished_reason r1 = g_finished_reason r2 \<and> output_ids_through_stop r1 = output_ids_through_stop r2"
proof -
  let ?r = "r\<lparr>g_output_ids := g_output_ids r @ new\<rparr>"
  have t: "token_only ?r" "list_all (\<lambda>x. \<not> outside_vocab ?r x) new" "0 \<le> sp_max_new_tokens (g_params ?r)"
    using assms by (auto simp: token_only_def running_def outside_vocab_def)
  have st: "stop_token ?r = stop_token r" by (rule ext) (simp add: stop_token_def)
  have e: "end_of_run ?r old ys = end_of_run r old ys" for old ys by (rule end_of_run_cong) (simp_all add: st)
  obtain r1 where r1: "update_finish_state search is_term (len new) ?r = Inr r1"
    "(g_finished_reason r1, output_ids_through_stop r1) = end_of_run r (g_output_ids r) new"
    using token_only_update [where search = search and ?is_term = "is_term" and old = "g_output_ids r", OF t(1) _ assms(3) t(2,3)] e by auto
  moreover obtain r2 where "one_by_one search is_term r new = Inr r2"
    "(g_finished_reason r2, output_ids_through_stop r2) = end_of_run r (g_output_ids r) new"
    using one_by_one_outcome [OF assms] by blast
  ultimately show ?thesis by (metis prod.inject)
qed

section \<open>At concrete requests\<close>

definition wit_params :: stop_params where
  "wit_params = \<lparr>stop_strs = [[65, 66]], stop_regex_strs = [], stop_str_max_len = 2, stop_regex_max_len = 0, stop_token_ids = [],
     sp_ignore_eos = False, sp_max_new_tokens = 6\<rparr>"

definition wit_detok :: detok where
  "wit_detok = \<lparr>tk_decode = map nat, tk_eos_token_id = Some 2, tk_additional_stop = []\<rparr>"

definition wit_req :: "stop_params \<Rightarrow> int list \<Rightarrow> unit gen_req" where
  "wit_req p out = \<lparr>g_origin_input_ids = [5], g_output_ids = out, g_params = p, g_eos_token_ids = [], g_vocab_size = Some 100,
     g_tokenizer = Some wit_detok, g_decoded_text = [], g_finished_reason = None, g_finished_len = None, g_to_finish = None,
     g_grammar = None, g_grammar_finished = False, g_is_retracted = False, g_kv_committed_len = 1, g_spec_verify_ct = 0,
     g_spec_num_correct_drafts = 0, g_spec_histogram = [], g_spec_num_block_accept = 0, g_spec_num_cap = 0, g_spec_cap_histogram = [],
     g_inflight_middle_chunks = 0, g_kv_allocated_len = 4, g_priority = None, g_beam = False, g_input_embeds = False\<rparr>"

lemma wit_running: "running (wit_req p out)"
  by (simp add: running_def wit_req_def)


lemma run_ends_like_single_tokens_witness:
  "\<exists>r1 r2. update_finish_state (\<lambda>_ _. Inr False) (\<lambda>_. False) 3 (wit_req (wit_params\<lparr>stop_strs := []\<rparr>) [7, 8, 2, 9]) = Inr r1
    \<and> one_by_one (\<lambda>_ _. Inr False) (\<lambda>_. False) (wit_req (wit_params\<lparr>stop_strs := []\<rparr>) [7]) [8, 2, 9] = Inr r2
    \<and> output_ids_through_stop r1 = output_ids_through_stop r2"
proof -
  let ?r = "wit_req (wit_params\<lparr>stop_strs := []\<rparr>) [7]"
  have "token_only ?r" "list_all (\<lambda>x. \<not> outside_vocab ?r x) [8, 2, 9]" "len (g_output_ids ?r) < sp_max_new_tokens (g_params ?r)"
    by (simp_all add: token_only_def wit_running) (simp_all add: wit_req_def wit_params_def outside_vocab_def)
  from run_ends_like_single_tokens [OF this(1,2) _ this(3), of "\<lambda>_ _. Inr False" "\<lambda>_. False"]
  show ?thesis by (auto simp: wit_req_def)
qed

text \<open>A stop string that completes after an end token of the same run decides where the request ends: the end
  token and what follows it are emitted. One token at a time the request ends at the end token.\<close>

lemma stop_string_hides_end_token:
  "\<exists>r1 r2. update_finish_state (\<lambda>_ _. Inr False) (\<lambda>_. False) 3 (wit_req wit_params [7, 2, 65, 66]) = Inr r1
    \<and> output_ids_through_stop r1 = [7, 2, 65, 66]
    \<and> one_by_one (\<lambda>_ _. Inr False) (\<lambda>_. False) (wit_req wit_params [7]) [2, 65, 66] = Inr r2
    \<and> output_ids_through_stop r2 = [7, 2]"
proof -
  have u: "[1..3] = [1, 2, 3 :: int]" "[2..3] = [2, 3 :: int]" "[1..0] = ([] :: int list)" by (simp_all add: upto.simps)
  show ?thesis
    by (simp add: update_finish_state_def finished_def wit_req_def wit_params_def wit_detok_def slice_from_def
        check_vocab_boundary_finish_def outside_vocab_def check_str_based_finish_def tail_str_def stop_match_tail_len_def decode_def
        locate_str_stop_finished_len_def check_token_based_finish_def stop_token_def cap_finished_len_at_max_new_tokens_def
        output_ids_through_stop_def Let_def numeral_eq_Suc u upto.simps)
qed

text \<open>The abort for a malformed stop expression is lost when the same step has an end token or reaches the
  budget: the request is reported as a normal stop.\<close>

lemma regex_abort_overwritten:
  "\<exists>r1. update_finish_state (\<lambda>_ _. Inl (RuntimeError ''re'')) (\<lambda>_. False) 1
      (wit_req (wit_params\<lparr>stop_strs := [], stop_regex_strs := [[40]]\<rparr>) [7, 2]) = Inr r1
    \<and> g_finished_reason r1 = Some (FINISH_MATCHED_TOKEN 2)"
  by (simp add: update_finish_state_def finished_def wit_req_def wit_params_def wit_detok_def slice_from_def
      check_vocab_boundary_finish_def outside_vocab_def check_str_based_finish_def tail_str_def stop_match_tail_len_def decode_def
      check_token_based_finish_def stop_token_def cap_finished_len_at_max_new_tokens_def Let_def)

text \<open>A token outside the vocabulary is looked for in the whole run first: behind an end token it turns a normal
  end into the report of a NaN, and the tokens up to it are emitted.\<close>

lemma invalid_token_hides_end_token:
  "\<exists>r1 r2. update_finish_state (\<lambda>_ _. Inr False) (\<lambda>_. False) 3 (wit_req (wit_params\<lparr>stop_strs := []\<rparr>) [7, 2, 8, 500]) = Inr r1
    \<and> g_finished_reason r1 = Some (FINISH_MATCHED_STR (codes ''NaN happened'')) \<and> length (output_ids_through_stop r1) = 4
    \<and> one_by_one (\<lambda>_ _. Inr False) (\<lambda>_. False) (wit_req (wit_params\<lparr>stop_strs := []\<rparr>) [7]) [2, 8, 500] = Inr r2
    \<and> g_finished_reason r2 = Some (FINISH_MATCHED_TOKEN 2) \<and> output_ids_through_stop r2 = [7, 2]"
  by (simp add: update_finish_state_def finished_def wit_req_def wit_params_def wit_detok_def slice_from_def
      check_vocab_boundary_finish_def outside_vocab_def check_str_based_finish_def
      check_token_based_finish_def stop_token_def cap_finished_len_at_max_new_tokens_def output_ids_through_stop_def Let_def
      numeral_eq_Suc)

end
