(* ===== verification/DecodeResult.thy ===== *)
theory DecodeResult
  imports FinishFacts Tensors
begin

text \<open>
  What the scheduler does with the result of a decode step: \<open>SchedulerBatchResultProcessor\<close> of
  \<open>sglang-overlay/roce_batch_result_processor.py\<close>, from the padded tokens of a verification to the requests'
  outputs, grammars, committed lengths and ends. The grammar is any automaton: \<open>accept_token\<close> yields
  \<open>None\<close> for a raised \<open>ValueError\<close>. Beam groups, hidden states, log probabilities and the mamba state are not
  part of it.
\<close>

section \<open>Data\<close>

record gen_result =
  gr_next_token_ids :: "int list"
  gr_accept_lens :: "int list option"
  gr_output_stride :: "int option"
  gr_num_draft_tokens :: "int option"
  gr_num_non_draft :: int
  gr_block_accept_lens :: "int list option"
  gr_cap_lens :: "int list option"
  gr_grammar_advanced :: bool
  gr_grammar_retained :: "int list option list"
  gr_num_correct_drafts :: "int list"

record 'g gen_batch =
  gb_reqs :: "'g gen_req list"
  gb_has_grammar :: bool
  gb_is_decode :: bool
  gb_is_extend :: bool
  gb_spec :: bool

definition speculative_output_stride :: "gen_result \<Rightarrow> py_error + int" where
  "speculative_output_stride res =
     (case (case gr_output_stride res of Some s \<Rightarrow> Some s | None \<Rightarrow> gr_num_draft_tokens res) of
        None \<Rightarrow> Inl (RuntimeError ''stride'')
      | Some s \<Rightarrow> if s < 1 then Inl (RuntimeError ''stride'') else Inr s)"

text \<open>The run of request \<open>i\<close> in the padded output.\<close>

definition accepted_run :: "int list \<Rightarrow> int \<Rightarrow> int list \<Rightarrow> nat \<Rightarrow> int list" where
  "accepted_run ids stride lens i = py_slice ids (int i * stride) (int i * stride + lens ! i)"

section \<open>Grammars\<close>

text \<open>The automaton over a run: it stops behind the token that ends it, or before one it rejects.\<close>

fun grammar_run :: "('g \<Rightarrow> int \<Rightarrow> 'g option) \<Rightarrow> ('g \<Rightarrow> bool) \<Rightarrow> 'g \<Rightarrow> int list \<Rightarrow> 'g \<times> int list \<times> bool" where
  "grammar_run accept is_term g [] = (g, [], False)"
| "grammar_run accept is_term g (t # ts) =
     (case accept g t of
        None \<Rightarrow> (g, [], True)
      | Some g' \<Rightarrow> if is_term g' then (g', [t], False)
          else (case grammar_run accept is_term g' ts of (g'', retained, failed) \<Rightarrow> (g'', t # retained, failed)))"

definition accept_grammar_tokens ::
    "('g \<Rightarrow> int \<Rightarrow> 'g option) \<Rightarrow> ('g \<Rightarrow> bool) \<Rightarrow> int list \<Rightarrow> 'g gen_req \<Rightarrow> py_error + int list \<times> 'g gen_req" where
  "accept_grammar_tokens accept is_term tokens r =
     (case g_grammar r of
        None \<Rightarrow> Inl AttributeError
      | Some g \<Rightarrow>
          (case grammar_run accept is_term g tokens of
             (g', retained, failed) \<Rightarrow>
               Inr (retained, r\<lparr>g_grammar := Some g',
                 g_to_finish := (if failed then Some (FINISH_ABORT Aborted) else g_to_finish r)\<rparr>)))"

definition grammar_active :: "'g gen_req \<Rightarrow> bool" where
  "grammar_active r \<longleftrightarrow> g_grammar r \<noteq> None \<and> \<not> g_is_retracted r \<and> \<not> finished r"

text \<open>Requests are independent: a loop over the batch is a \<open>map\<close> that stops at the first error.\<close>

definition for_reqs :: "(nat \<Rightarrow> 'a \<Rightarrow> py_error + 'b) \<Rightarrow> 'a list \<Rightarrow> py_error + 'b list" where
  "for_reqs f rs = sequence (map (\<lambda>i. f i (rs ! i)) [0..<length rs])"

definition advance_grammar_fsm ::
    "('g \<Rightarrow> int \<Rightarrow> 'g option) \<Rightarrow> ('g \<Rightarrow> bool) \<Rightarrow> gen_result \<Rightarrow> 'g gen_batch \<Rightarrow> py_error + gen_result \<times> 'g gen_batch" where
  "advance_grammar_fsm accept is_term res B =
     (if gr_grammar_advanced res \<or> \<not> gb_has_grammar B then Inr (res, B)
      else if \<not> gb_is_decode B \<and> \<not> gb_is_extend B then Inr (res, B)
      else if \<not> gb_is_decode B then
        (case for_reqs (\<lambda>i r. if \<not> grammar_active r \<or> 0 < g_inflight_middle_chunks r then Inr r
              else if length (gr_next_token_ids res) \<le> i then Inl IndexError
              else map_sum id snd (accept_grammar_tokens accept is_term [gr_next_token_ids res ! i] r)) (gb_reqs B) of
           Inl e \<Rightarrow> Inl e
         | Inr rs \<Rightarrow> Inr (res\<lparr>gr_grammar_advanced := True\<rparr>, B\<lparr>gb_reqs := rs\<rparr>))
      else
        (case gr_accept_lens res of
           None \<Rightarrow> Inr (res, B)
         | Some lens \<Rightarrow>
             (case speculative_output_stride res of
                Inl e \<Rightarrow> Inl e
              | Inr stride \<Rightarrow>
                  (case for_reqs (\<lambda>i r. if \<not> grammar_active r then Inr (None, r)
                        else if length lens \<le> i then Inl IndexError
                        else map_sum id (\<lambda>(retained, r). (Some retained, r))
                          (accept_grammar_tokens accept is_term (accepted_run (gr_next_token_ids res) stride lens i) r)) (gb_reqs B) of
                     Inl e \<Rightarrow> Inl e
                   | Inr xs \<Rightarrow> Inr (res\<lparr>gr_grammar_retained := map fst xs, gr_grammar_advanced := True\<rparr>, B\<lparr>gb_reqs := map snd xs\<rparr>)))))"

section \<open>Accepted runs\<close>

text \<open>\<open>update_spec_correct_drafts_histogram\<close> and its twin for the caps.\<close>

definition bump :: "int \<Rightarrow> int list \<Rightarrow> py_error + int list" where
  "bump n hist =
     (let hist = (if len hist \<le> n then hist @ replicate (nat (n - len hist + 1)) 0 else hist)
      in map_sum id (\<lambda>k. hist[k := hist ! k + 1]) (torch_index (length hist) n))"

text \<open>The commit of one request in \<open>_resolve_spec_v2_tokens\<close>.\<close>

definition commit_run :: "gen_result \<Rightarrow> int \<Rightarrow> int list \<Rightarrow> nat \<Rightarrow> 'g gen_req \<Rightarrow> py_error + int list \<times> 'g gen_req" where
  "commit_run res stride lens i r =
     (if length lens \<le> i then Inl IndexError
      else
        (let run = accepted_run (gr_next_token_ids res) stride lens i; drafts = lens ! i - gr_num_non_draft res in
         if g_is_retracted r \<or> finished r then Inr (run, r)
         else
           (case (if g_grammar r \<noteq> None
                  then (if length (gr_grammar_retained res) \<le> i then Inl TypeError
                        else case gr_grammar_retained res ! i of None \<Rightarrow> Inl TypeError | Some kept \<Rightarrow> Inr kept)
                  else Inr run) of
              Inl e \<Rightarrow> Inl e
            | Inr kept \<Rightarrow>
                (case bump drafts (g_spec_histogram r) of
                   Inl e \<Rightarrow> Inl e
                 | Inr hist \<Rightarrow>
                     (case (case gr_cap_lens res of
                              None \<Rightarrow> Inr (g_spec_num_cap r, g_spec_cap_histogram r)
                            | Some caps \<Rightarrow> if length caps \<le> i then Inl IndexError
                                else map_sum id (\<lambda>h. (g_spec_num_cap r + caps ! i, h)) (bump (caps ! i) (g_spec_cap_histogram r))) of
                        Inl e \<Rightarrow> Inl e
                      | Inr (caps, cap_hist) \<Rightarrow>
                          (case (case gr_block_accept_lens res of
                                   None \<Rightarrow> Inr (g_spec_num_block_accept r)
                                 | Some bl \<Rightarrow> if length bl \<le> i then Inl IndexError else Inr (g_spec_num_block_accept r + bl ! i)) of
                             Inl e \<Rightarrow> Inl e
                           | Inr block \<Rightarrow>
                               Inr (kept, r\<lparr>g_kv_committed_len := g_kv_committed_len r + len kept,
                                 g_spec_verify_ct := g_spec_verify_ct r + 1,
                                 g_spec_num_correct_drafts := g_spec_num_correct_drafts r + drafts,
                                 g_spec_histogram := hist, g_spec_num_block_accept := block,
                                 g_spec_num_cap := caps, g_spec_cap_histogram := cap_hist\<rparr>)))))))"

definition resolve_spec_v2_tokens ::
    "('g \<Rightarrow> int \<Rightarrow> 'g option) \<Rightarrow> ('g \<Rightarrow> bool) \<Rightarrow> gen_result \<Rightarrow> 'g gen_batch
     \<Rightarrow> py_error + int list list \<times> gen_result \<times> 'g gen_batch" where
  "resolve_spec_v2_tokens accept is_term res B =
     (case gr_accept_lens res of
        None \<Rightarrow> Inl AttributeError
      | Some lens \<Rightarrow>
          (case speculative_output_stride res of
             Inl e \<Rightarrow> Inl e
           | Inr stride \<Rightarrow>
               (case advance_grammar_fsm accept is_term (res\<lparr>gr_num_correct_drafts := map (\<lambda>n. n - gr_num_non_draft res) lens\<rparr>) B of
                  Inl e \<Rightarrow> Inl e
                | Inr (res, B) \<Rightarrow>
                    (case for_reqs (commit_run res stride lens) (gb_reqs B) of
                       Inl e \<Rightarrow> Inl e
                     | Inr xs \<Rightarrow> Inr (map fst xs, res, B\<lparr>gb_reqs := map snd xs\<rparr>)))))"

text \<open>\<open>_normalize_decode_outputs\<close>: one list of tokens per request.\<close>

definition normalize_decode_outputs ::
    "('g \<Rightarrow> int \<Rightarrow> 'g option) \<Rightarrow> ('g \<Rightarrow> bool) \<Rightarrow> gen_result \<Rightarrow> 'g gen_batch
     \<Rightarrow> py_error + int list list \<times> gen_result \<times> 'g gen_batch" where
  "normalize_decode_outputs accept is_term res B =
     (if gb_spec B then resolve_spec_v2_tokens accept is_term res B
      else Inr (map (\<lambda>t. [t]) (gr_next_token_ids res), res, B))"

section \<open>The decode loop\<close>

text \<open>The body of the loop for one request: its new state and whether its cache is released. \<open>sync_grammar\<close>
  is the end of the body.\<close>

definition sync_grammar :: "('g \<Rightarrow> int \<Rightarrow> 'g option) \<Rightarrow> ('g \<Rightarrow> bool) \<Rightarrow> bool \<Rightarrow> int list \<Rightarrow> 'g gen_req \<Rightarrow> py_error + 'g gen_req" where
  "sync_grammar accept is_term spec tokens r =
     (if g_grammar r = None then Inr r
      else map_sum id (\<lambda>r. r\<lparr>g_grammar_finished := finished r\<rparr>)
        (if spec then Inr r else map_sum id snd (accept_grammar_tokens accept is_term tokens r)))"

definition decode_req ::
    "(ustr \<Rightarrow> ustr \<Rightarrow> py_error + bool) \<Rightarrow> ('g \<Rightarrow> int \<Rightarrow> 'g option) \<Rightarrow> ('g \<Rightarrow> bool) \<Rightarrow> bool \<Rightarrow> bool \<Rightarrow> int list list \<Rightarrow> nat \<Rightarrow> 'g gen_req
     \<Rightarrow> py_error + bool \<times> 'g gen_req" where
  "decode_req search accept is_term overlap spec tokens i r =
     (if overlap \<and> (finished r \<or> g_is_retracted r) then Inr (False, r)
      else if length tokens \<le> i then Inl IndexError
      else
        (case update_finish_state search is_term (len (tokens ! i)) (r\<lparr>g_output_ids := g_output_ids r @ tokens ! i\<rparr>) of
           Inl e \<Rightarrow> Inl e
         | Inr r' \<Rightarrow> map_sum id (\<lambda>r''. (finished r', r'')) (sync_grammar accept is_term spec (tokens ! i) r')))"

definition process_batch_result_decode ::
    "(ustr \<Rightarrow> ustr \<Rightarrow> py_error + bool) \<Rightarrow> ('g \<Rightarrow> int \<Rightarrow> 'g option) \<Rightarrow> ('g \<Rightarrow> bool) \<Rightarrow> bool \<Rightarrow> gen_result \<Rightarrow> 'g gen_batch
     \<Rightarrow> py_error + bool list \<times> 'g gen_batch" where
  "process_batch_result_decode search accept is_term overlap res B =
     (case normalize_decode_outputs accept is_term res B of
        Inl e \<Rightarrow> Inl e
      | Inr (tokens, res, B) \<Rightarrow>
          (case for_reqs (decode_req search accept is_term overlap (gb_spec B) tokens) (gb_reqs B) of
             Inl e \<Rightarrow> Inl e
           | Inr xs \<Rightarrow> Inr (map fst xs, B\<lparr>gb_reqs := map snd xs\<rparr>)))"

end
