(* ===== verification/DecodeFacts.thy ===== *)
theory DecodeFacts
  imports DecodeResult
begin

text \<open>
  A decode step with speculation: committed lengths follow the outputs, requests that ended or were
  retracted are left alone, the statistics add up, and what is emitted is what single tokens would have
  given.
\<close>

section \<open>Loops over the batch\<close>

lemma sequence_InrD:
  "sequence xs = Inr ys \<Longrightarrow> length ys = length xs \<and> (\<forall>i < length xs. xs ! i = Inr (ys ! i))"
proof (induction xs arbitrary: ys rule: sequence.induct)
  case (3 x xs)
  then obtain zs where zs: "sequence xs = Inr zs" "ys = x # zs" by (auto split: sum.splits)
  have "length zs = length xs \<and> (\<forall>i < length xs. xs ! i = Inr (zs ! i))" by (rule 3(1) [OF zs(1)])
  then show ?case unfolding zs(2) by (auto simp: nth_Cons split: nat.splits)
qed auto

lemma for_reqs_nth:
  assumes "for_reqs f rs = Inr ys"
  shows "length ys = length rs" "i < length rs \<Longrightarrow> f i (rs ! i) = Inr (ys ! i)"
  using sequence_InrD [OF assms [unfolded for_reqs_def]] by auto

text \<open>Advancing the grammars changes nothing but the grammars, and only of requests that are active.\<close>

definition grammar_frame :: "'g gen_req \<Rightarrow> 'g gen_req \<Rightarrow> bool" where
  "grammar_frame r r' \<longleftrightarrow>
     (\<exists>g t. r' = r\<lparr>g_grammar := g, g_to_finish := t\<rparr>) \<and> (g_grammar r' = None \<longleftrightarrow> g_grammar r = None)
     \<and> (\<not> grammar_active r \<longrightarrow> r' = r)"

lemma grammar_frame_refl [simp]: "grammar_frame r r"
proof -
  have "r = r\<lparr>g_grammar := g_grammar r, g_to_finish := g_to_finish r\<rparr>" by simp
  then show ?thesis unfolding grammar_frame_def by metis
qed

lemma accept_frame:
  assumes "accept_grammar_tokens accept is_term tokens r = Inr (kept, r')" "grammar_active r"
  shows "grammar_frame r r'"
  using assms by (auto simp: accept_grammar_tokens_def grammar_frame_def split: option.splits prod.splits)

lemma advance_frame:
  assumes "advance_grammar_fsm accept is_term res B = Inr (res', B')"
  shows "length (gb_reqs B') = length (gb_reqs B)" "i < length (gb_reqs B) \<Longrightarrow> grammar_frame (gb_reqs B ! i) (gb_reqs B' ! i)"
    "gb_spec B' = gb_spec B"
proof -
  have "length (gb_reqs B') = length (gb_reqs B) \<and> (i < length (gb_reqs B) \<longrightarrow> grammar_frame (gb_reqs B ! i) (gb_reqs B' ! i))
      \<and> gb_spec B' = gb_spec B" for i
  proof (cases "gr_grammar_advanced res \<or> \<not> gb_has_grammar B \<or> \<not> gb_is_decode B \<and> \<not> gb_is_extend B")
    case True
    then have "advance_grammar_fsm accept is_term res B = Inr (res, B)" unfolding advance_grammar_fsm_def by argo
    then show ?thesis using assms by simp
  next
    case go: False
    show ?thesis
    proof (cases "gb_is_decode B")
      case False
      then obtain rs where rs: "for_reqs (\<lambda>i r. if \<not> grammar_active r \<or> 0 < g_inflight_middle_chunks r then Inr r
              else if length (gr_next_token_ids res) \<le> i then Inl IndexError
              else map_sum id snd (accept_grammar_tokens accept is_term [gr_next_token_ids res ! i] r)) (gb_reqs B) = Inr rs"
        "B' = B\<lparr>gb_reqs := rs\<rparr>"
        using assms go by (auto simp: advance_grammar_fsm_def split: sum.splits)
      have "grammar_frame (gb_reqs B ! i) (rs ! i)" if "i < length (gb_reqs B)" for i
        using for_reqs_nth(2) [OF rs(1) that]
        by (cases "accept_grammar_tokens accept is_term [gr_next_token_ids res ! i] (gb_reqs B ! i)")
          (auto split: if_splits dest: accept_frame)
      then show ?thesis using for_reqs_nth(1) [OF rs(1)] rs(2) by simp
    next
      case True
      show ?thesis
      proof (cases "gr_accept_lens res")
        case None
        then show ?thesis using assms go True by (auto simp: advance_grammar_fsm_def)
      next
        case (Some lens)
        then obtain stride xs where xs: "for_reqs (\<lambda>i r. if \<not> grammar_active r then Inr (None, r)
                        else if length lens \<le> i then Inl IndexError
                        else map_sum id (\<lambda>(retained, r). (Some retained, r))
                          (accept_grammar_tokens accept is_term (accepted_run (gr_next_token_ids res) stride lens i) r)) (gb_reqs B) = Inr xs"
          "B' = B\<lparr>gb_reqs := map snd xs\<rparr>"
          using assms go True by (auto simp: advance_grammar_fsm_def split: sum.splits)
        have "grammar_frame (gb_reqs B ! i) (snd (xs ! i))" if "i < length (gb_reqs B)" for i
          using for_reqs_nth(2) [OF xs(1) that]
          by (cases "xs ! i"; cases "accept_grammar_tokens accept is_term (accepted_run (gr_next_token_ids res) stride lens i) (gb_reqs B ! i)")
            (auto split: if_splits dest: accept_frame)
        then show ?thesis using for_reqs_nth(1) [OF xs(1)] xs(2) by simp
      qed
    qed
  qed
  then show "length (gb_reqs B') = length (gb_reqs B)" "i < length (gb_reqs B) \<Longrightarrow> grammar_frame (gb_reqs B ! i) (gb_reqs B' ! i)"
    "gb_spec B' = gb_spec B" by blast+
qed

section \<open>One request\<close>

text \<open>What a commit does to a request that is neither finished nor retracted.\<close>

lemma commit_run_active:
  assumes "commit_run res stride lens i r = Inr (kept, r')" "\<not> finished r" "\<not> g_is_retracted r"
  shows "g_kv_committed_len r' = g_kv_committed_len r + len kept" "g_spec_verify_ct r' = g_spec_verify_ct r + 1"
    "g_spec_num_correct_drafts r' = g_spec_num_correct_drafts r + (lens ! i - gr_num_non_draft res)"
    "bump (lens ! i - gr_num_non_draft res) (g_spec_histogram r) = Inr (g_spec_histogram r')"
    "g_origin_input_ids r' = g_origin_input_ids r" "g_output_ids r' = g_output_ids r" "g_params r' = g_params r"
    "g_eos_token_ids r' = g_eos_token_ids r" "g_vocab_size r' = g_vocab_size r" "g_tokenizer r' = g_tokenizer r"
    "g_decoded_text r' = g_decoded_text r" "g_finished_reason r' = g_finished_reason r" "g_finished_len r' = g_finished_len r"
    "g_to_finish r' = g_to_finish r" "g_grammar r' = g_grammar r" "g_is_retracted r' = g_is_retracted r"
    "g_grammar r = None \<Longrightarrow> kept = accepted_run (gr_next_token_ids res) stride lens i"
  using assms by (auto simp: commit_run_def Let_def split: if_splits sum.splits option.splits)

lemma commit_run_idle:
  assumes "commit_run res stride lens i r = Inr (kept, r')" "finished r \<or> g_is_retracted r"
  shows "r' = r"
  using assms by (auto simp: commit_run_def Let_def split: if_splits)

text \<open>The judgement of the end leaves all but the end of a request alone.\<close>

lemma cap_frame:
  "g_kv_committed_len (cap_finished_len_at_max_new_tokens r) = g_kv_committed_len r"
  "g_origin_input_ids (cap_finished_len_at_max_new_tokens r) = g_origin_input_ids r"
  "g_output_ids (cap_finished_len_at_max_new_tokens r) = g_output_ids r"
  "g_spec_verify_ct (cap_finished_len_at_max_new_tokens r) = g_spec_verify_ct r"
  "g_spec_num_correct_drafts (cap_finished_len_at_max_new_tokens r) = g_spec_num_correct_drafts r"
  "g_spec_histogram (cap_finished_len_at_max_new_tokens r) = g_spec_histogram r"
  "g_grammar (cap_finished_len_at_max_new_tokens r) = g_grammar r"
  by (simp_all add: cap_finished_len_at_max_new_tokens_def Let_def split: option.split)

definition end_frame :: "'g gen_req \<Rightarrow> 'g gen_req \<Rightarrow> bool" where
  "end_frame r r' \<longleftrightarrow>
     g_kv_committed_len r' = g_kv_committed_len r \<and> g_origin_input_ids r' = g_origin_input_ids r
     \<and> length (g_output_ids r') = length (g_output_ids r) \<and> g_spec_verify_ct r' = g_spec_verify_ct r
     \<and> g_spec_num_correct_drafts r' = g_spec_num_correct_drafts r \<and> g_spec_histogram r' = g_spec_histogram r"

lemma vocab_frame: "check_vocab_boundary_finish r new = (b, r') \<Longrightarrow> end_frame r r'"
  by (auto simp: check_vocab_boundary_finish_def Let_def end_frame_def split: option.splits list.splits)

lemma str_frame: "check_str_based_finish search r n = Inr (b, r') \<Longrightarrow> end_frame r r'"
  by (auto simp: check_str_based_finish_def Let_def end_frame_def map_sum_def
      split: if_splits sum.splits option.splits regex_outcome.splits)

lemma token_frame: "check_token_based_finish r new = (b, r') \<Longrightarrow> end_frame r r'"
  by (auto simp: check_token_based_finish_def end_frame_def split: if_splits option.splits)

lemma end_frame_trans: "end_frame r r' \<Longrightarrow> end_frame r' r'' \<Longrightarrow> end_frame r r''"
  by (simp add: end_frame_def)

lemma cap_end_frame: "end_frame r (cap_finished_len_at_max_new_tokens r)"
  by (simp add: end_frame_def cap_frame)

lemma update_frame:
  assumes "update_finish_state search is_term n r = Inr r'"
  shows "end_frame r r'"
proof (cases "finished r \<or> g_to_finish r \<noteq> None")
  case True
  then have "update_finish_state search is_term n r = (if finished r then Inr r else Inr (r\<lparr>g_finished_reason := g_to_finish r, g_to_finish := None\<rparr>))"
    unfolding update_finish_state_def by argo
  then show ?thesis using assms by (auto simp: end_frame_def split: if_splits)
next
  case go: False
  let ?new = "slice_from (g_output_ids r) (- n)"
  obtain b1 r1 where v: "check_vocab_boundary_finish r ?new = (b1, r1)" by (cases "check_vocab_boundary_finish r ?new")
  show ?thesis
  proof (cases b1)
    case True
    then have "r' = cap_finished_len_at_max_new_tokens r1" using assms go v by (auto simp: update_finish_state_def Let_def)
    then show ?thesis using vocab_frame [OF v] cap_end_frame end_frame_trans by blast
  next
    case b1: False
    obtain b2 r2 where s: "check_str_based_finish search r1 n = Inr (b2, r2)"
      using assms go v b1 by (auto simp: update_finish_state_def Let_def split: sum.splits)
    have f2: "end_frame r r2" using vocab_frame [OF v] str_frame [OF s] end_frame_trans by blast
    show ?thesis
    proof (cases b2)
      case True
      then have "r' = cap_finished_len_at_max_new_tokens r2" using assms go v b1 s by (auto simp: update_finish_state_def Let_def)
      then show ?thesis using f2 cap_end_frame end_frame_trans by blast
    next
      case b2: False
      obtain b3 r3 where t: "check_token_based_finish r2 ?new = (b3, r3)" by (cases "check_token_based_finish r2 ?new")
      have f3: "end_frame r r3" using f2 token_frame [OF t] end_frame_trans by blast
      show ?thesis
      proof (cases b3)
        case True
        then have "r' = cap_finished_len_at_max_new_tokens r3" using assms go v b1 s b2 t by (auto simp: update_finish_state_def Let_def)
        then show ?thesis using f3 cap_end_frame end_frame_trans by blast
      next
        case False
        then have "end_frame r3 r'" using assms go v b1 s b2 t
          by (auto simp: update_finish_state_def Let_def end_frame_def split: if_splits option.splits)
        then show ?thesis using f3 end_frame_trans by blast
      qed
    qed
  qed
qed

lemma sync_frame:
  assumes "sync_grammar accept is_term spec tokens r = Inr r'"
  shows "end_frame r r' \<and> finished r' = finished r \<and> output_ids_through_stop r' = output_ids_through_stop r
    \<and> g_finished_reason r' = g_finished_reason r"
  using assms
  by (auto simp: sync_grammar_def accept_grammar_tokens_def end_frame_def finished_def output_ids_through_stop_def map_sum_def
      split: if_splits sum.splits option.splits prod.splits)

section \<open>The step\<close>

text \<open>The parts of a speculative step for request \<open>i\<close>: the grammar advances, the run is committed, the request is judged.\<close>

lemma decode_parts:
  assumes "process_batch_result_decode search accept is_term overlap res B = Inr (released, B')" "gb_spec B"
  obtains lens stride res1 B1 rs2 tokens where "gr_accept_lens res = Some lens" "speculative_output_stride res = Inr stride"
    "advance_grammar_fsm accept is_term (res\<lparr>gr_num_correct_drafts := map (\<lambda>n. n - gr_num_non_draft res) lens\<rparr>) B = Inr (res1, B1)"
    "length (gb_reqs B1) = length (gb_reqs B)" "length (rs2) = length (gb_reqs B)" "length tokens = length (gb_reqs B)"
    "length released = length (gb_reqs B)" "length (gb_reqs B') = length (gb_reqs B)"
    "\<forall>i < length (gb_reqs B). commit_run res1 stride lens i (gb_reqs B1 ! i) = Inr (tokens ! i, rs2 ! i)"
    "\<forall>i < length (gb_reqs B). decode_req search accept is_term overlap True tokens i (rs2 ! i) = Inr (released ! i, gb_reqs B' ! i)"
proof -
  obtain tokens res2 B2 where n: "resolve_spec_v2_tokens accept is_term res B = Inr (tokens, res2, B2)"
    using assms by (cases "resolve_spec_v2_tokens accept is_term res B")
      (auto simp: process_batch_result_decode_def normalize_decode_outputs_def)
  obtain lens where l: "gr_accept_lens res = Some lens" using n by (auto simp: resolve_spec_v2_tokens_def split: option.splits)
  obtain stride where st: "speculative_output_stride res = Inr stride"
    using n l by (cases "speculative_output_stride res") (auto simp: resolve_spec_v2_tokens_def)
  let ?res = "res\<lparr>gr_num_correct_drafts := map (\<lambda>n. n - gr_num_non_draft res) lens\<rparr>"
  obtain B1 where a: "advance_grammar_fsm accept is_term ?res B = Inr (res2, B1)"
    using n l st by (cases "advance_grammar_fsm accept is_term ?res B") (auto simp: resolve_spec_v2_tokens_def split: sum.splits)
  obtain xs where xs: "for_reqs (commit_run res2 stride lens) (gb_reqs B1) = Inr xs" "tokens = map fst xs" "B2 = B1\<lparr>gb_reqs := map snd xs\<rparr>"
    using n l st a by (cases "for_reqs (commit_run res2 stride lens) (gb_reqs B1)") (auto simp: resolve_spec_v2_tokens_def)
  have sp: "gb_spec B2" using advance_frame(3) [OF a] xs(3) assms(2) by simp
  obtain ys where ys: "for_reqs (decode_req search accept is_term overlap True tokens) (gb_reqs B2) = Inr ys"
    "released = map fst ys" "B' = B2\<lparr>gb_reqs := map snd ys\<rparr>"
    using assms n sp by (cases "for_reqs (decode_req search accept is_term overlap True tokens) (gb_reqs B2)")
      (auto simp: process_batch_result_decode_def normalize_decode_outputs_def)
  note X = for_reqs_nth [OF xs(1)] and Y = for_reqs_nth [OF ys(1)] and A = advance_frame(1) [OF a]
  have len: "length (gb_reqs B2) = length (gb_reqs B)" using X(1) A xs(3) by simp
  show thesis
  proof (rule that [OF l st a A, where ?rs2.0 = "gb_reqs B2" and tokens = tokens])
    show "length (gb_reqs B2) = length (gb_reqs B)" by (rule len)
    show "length tokens = length (gb_reqs B)" using X(1) A xs(2) by simp
    show "length released = length (gb_reqs B)" "length (gb_reqs B') = length (gb_reqs B)" using Y(1) ys len by simp_all
    show "\<forall>i < length (gb_reqs B). commit_run res2 stride lens i (gb_reqs B1 ! i) = Inr (tokens ! i, gb_reqs B2 ! i)"
      using X A xs by simp
    show "\<forall>i < length (gb_reqs B). decode_req search accept is_term overlap True tokens i (gb_reqs B2 ! i) = Inr (released ! i, gb_reqs B' ! i)"
      using Y len ys by simp
  qed
qed

lemma decode_req_active:
  assumes "decode_req search accept is_term overlap spec tokens i r = Inr (b, r')" "\<not> finished r" "\<not> g_is_retracted r"
  shows "\<exists>r3. i < length tokens
    \<and> update_finish_state search is_term (len (tokens ! i)) (r\<lparr>g_output_ids := g_output_ids r @ tokens ! i\<rparr>) = Inr r3
    \<and> sync_grammar accept is_term spec (tokens ! i) r3 = Inr r' \<and> b = finished r3"
  using assms by (auto simp: decode_req_def split: if_splits sum.splits) (auto simp: map_sum_def split: sum.splits)

lemma advance_result:
  assumes "advance_grammar_fsm accept is_term res B = Inr (res', B')"
  shows "gr_next_token_ids res' = gr_next_token_ids res \<and> gr_num_non_draft res' = gr_num_non_draft res"
  using assms by (auto simp: advance_grammar_fsm_def split: if_splits sum.splits option.splits)

text \<open>C6: A speculative step keeps the books of every request: the committed length grows by exactly what the
  output grows by, one verification is counted, and the cache is released exactly when the request ends;
  a request that had ended or was retracted before is untouched and not released again.\<close>

theorem decode_step_accounting:
  assumes "process_batch_result_decode search accept is_term True res B = Inr (released, B')" "gb_spec B" "i < length (gb_reqs B)"
  defines "r \<equiv> gb_reqs B ! i" and "r' \<equiv> gb_reqs B' ! i"
  shows "(if finished r \<or> g_is_retracted r then r' = r \<and> \<not> released ! i
    else g_kv_committed_len r' - g_kv_committed_len r = seqlen r' - seqlen r
      \<and> len (g_output_ids r) \<le> len (g_output_ids r') \<and> g_spec_verify_ct r' = g_spec_verify_ct r + 1
      \<and> released ! i = finished r')"
proof -
  obtain lens stride res1 B1 rs2 tokens where p: "gr_accept_lens res = Some lens" "speculative_output_stride res = Inr stride"
    "advance_grammar_fsm accept is_term (res\<lparr>gr_num_correct_drafts := map (\<lambda>n. n - gr_num_non_draft res) lens\<rparr>) B = Inr (res1, B1)"
    "length (gb_reqs B1) = length (gb_reqs B)" "length (rs2) = length (gb_reqs B)" "length tokens = length (gb_reqs B)"
    "length released = length (gb_reqs B)" "length (gb_reqs B') = length (gb_reqs B)"
    "\<forall>i < length (gb_reqs B). commit_run res1 stride lens i (gb_reqs B1 ! i) = Inr (tokens ! i, rs2 ! i)"
    "\<forall>i < length (gb_reqs B). decode_req search accept is_term True True tokens i (rs2 ! i) = Inr (released ! i, gb_reqs B' ! i)"
    using decode_parts [OF assms(1,2)] by blast
  let ?r1 = "gb_reqs B1 ! i" and ?r2 = "rs2 ! i"
  have fr: "grammar_frame r ?r1" unfolding r_def by (rule advance_frame(2) [OF p(3) assms(3)])
  note c = p(9) [rule_format, OF assms(3)] and d = p(10) [rule_format, OF assms(3), folded r'_def]
  show ?thesis
  proof (cases "finished r \<or> g_is_retracted r")
    case True
    then have r1: "?r1 = r" using fr by (auto simp: grammar_frame_def grammar_active_def)
    have "?r2 = r" using commit_run_idle [OF c] True unfolding r1 by blast
    then show ?thesis using d True by (auto simp: decode_req_def)
  next
    case False
    have r1: "\<not> finished ?r1" "\<not> g_is_retracted ?r1" "g_kv_committed_len ?r1 = g_kv_committed_len r"
      "g_origin_input_ids ?r1 = g_origin_input_ids r" "g_output_ids ?r1 = g_output_ids r" "g_spec_verify_ct ?r1 = g_spec_verify_ct r"
      using fr False by (auto simp: grammar_frame_def finished_def)
    note C = commit_run_active [OF c r1(1,2)]
    have r2: "\<not> finished ?r2" "\<not> g_is_retracted ?r2" using r1 C by (simp_all add: finished_def)
    obtain r3 where r3: "update_finish_state search is_term (len (tokens ! i)) (?r2\<lparr>g_output_ids := g_output_ids ?r2 @ tokens ! i\<rparr>) = Inr r3"
      "sync_grammar accept is_term True (tokens ! i) r3 = Inr r'" "released ! i = finished r3"
      using decode_req_active [OF d r2] by blast
    note U = update_frame [OF r3(1)] and S = sync_frame [OF r3(2)]
    show ?thesis using False U S C(1,2,5,6) r1 r3(3) by (auto simp: end_frame_def seqlen_def)
  qed
qed

section \<open>Statistics\<close>

definition weighted :: "int list \<Rightarrow> int" where
  "weighted xs = sum_list (map (\<lambda>i. int i * xs ! i) [0..<length xs])"

text \<open>The histogram counts every verification once, under the number of its correct drafts.\<close>

definition histogram_ok :: "'g gen_req \<Rightarrow> bool" where
  "histogram_ok r \<longleftrightarrow>
     sum_list (g_spec_histogram r) = g_spec_verify_ct r \<and> weighted (g_spec_histogram r) = g_spec_num_correct_drafts r"

lemma weighted_snoc: "weighted (xs @ [x]) = weighted xs + int (length xs) * x"
proof -
  have e: "map (\<lambda>i. int i * (xs @ [x]) ! i) [0..<length xs] = map (\<lambda>i. int i * xs ! i) [0..<length xs]"
    by (intro map_cong) (simp_all add: nth_append)
  show ?thesis by (simp add: weighted_def e)
qed

lemma weighted_zeros: "weighted (xs @ replicate k 0) = weighted xs"
proof (induction k)
  case (Suc k)
  have e: "xs @ replicate (Suc k) 0 = (xs @ replicate k 0) @ [0]" by (simp add: replicate_append_same)
  show ?case unfolding e weighted_snoc using Suc by simp
qed simp

lemma sum_list_bump: "k < length xs \<Longrightarrow> sum_list (xs[k := xs ! k + d]) = sum_list xs + (d :: int)"
proof (induction xs arbitrary: k)
  case (Cons x xs)
  then show ?case by (cases k) auto
qed simp

lemma weighted_bump:
  assumes "k < length xs"
  shows "weighted (xs[k := xs ! k + 1]) = weighted xs + int k"
proof -
  have e: "map (\<lambda>i. int i * xs[k := xs ! k + 1] ! i) [0..<length xs]
      = (map (\<lambda>i. int i * xs ! i) [0..<length xs])[k := map (\<lambda>i. int i * xs ! i) [0..<length xs] ! k + int k]"
    using assms by (intro nth_equalityI) (auto simp: nth_list_update algebra_simps)
  show ?thesis unfolding weighted_def length_list_update e by (rule sum_list_bump) (use assms in simp)
qed

lemma bump_ok:
  assumes "bump n hist = Inr hist'" "0 \<le> n"
  shows "sum_list hist' = sum_list hist + 1" "weighted hist' = weighted hist + n"
proof -
  obtain hist0 where h: "hist0 = (if len hist \<le> n then hist @ replicate (nat (n - len hist + 1)) 0 else hist)" by blast
  have n: "nat n < length hist0" using assms(2) by (auto simp: h)
  then have h': "hist' = hist0[nat n := hist0 ! nat n + 1]"
    using assms by (auto simp: bump_def Let_def torch_index_def h split: if_splits)
  have "sum_list hist0 = sum_list hist" "weighted hist0 = weighted hist" by (simp_all add: h weighted_zeros sum_list_replicate)
  then show "sum_list hist' = sum_list hist + 1" "weighted hist' = weighted hist + n"
    unfolding h' sum_list_bump [OF n] weighted_bump [OF n] using assms(2) by simp_all
qed

text \<open>The statistics of speculation add up: if the histogram of a request counted every verification once under
  its number of correct drafts, it still does after the step.\<close>

theorem decode_histogram_exact:
  assumes "process_batch_result_decode search accept is_term True res B = Inr (released, B')" "gb_spec B" "i < length (gb_reqs B)"
    and "gr_accept_lens res = Some lens" "gr_num_non_draft res \<le> lens ! i" "histogram_ok (gb_reqs B ! i)"
  shows "histogram_ok (gb_reqs B' ! i)"
proof -
  let ?r = "gb_reqs B ! i"
  obtain lens' stride res1 B1 rs2 tokens where p: "gr_accept_lens res = Some lens'" "speculative_output_stride res = Inr stride"
    "advance_grammar_fsm accept is_term (res\<lparr>gr_num_correct_drafts := map (\<lambda>n. n - gr_num_non_draft res) lens'\<rparr>) B = Inr (res1, B1)"
    "length (gb_reqs B1) = length (gb_reqs B)" "length rs2 = length (gb_reqs B)" "length tokens = length (gb_reqs B)"
    "length released = length (gb_reqs B)" "length (gb_reqs B') = length (gb_reqs B)"
    "\<forall>i < length (gb_reqs B). commit_run res1 stride lens' i (gb_reqs B1 ! i) = Inr (tokens ! i, rs2 ! i)"
    "\<forall>i < length (gb_reqs B). decode_req search accept is_term True True tokens i (rs2 ! i) = Inr (released ! i, gb_reqs B' ! i)"
    using decode_parts [OF assms(1,2)] by blast
  have lens: "lens' = lens" using p(1) assms(4) by simp
  have fr: "grammar_frame ?r (gb_reqs B1 ! i)" by (rule advance_frame(2) [OF p(3) assms(3)])
  have nd: "gr_num_non_draft res1 = gr_num_non_draft res" using advance_result [OF p(3)] by simp
  note c = p(9) [rule_format, OF assms(3)] and d = p(10) [rule_format, OF assms(3)]
  show ?thesis
  proof (cases "finished ?r \<or> g_is_retracted ?r")
    case True
    then have r1: "gb_reqs B1 ! i = ?r" using fr by (auto simp: grammar_frame_def grammar_active_def)
    have "rs2 ! i = ?r" using commit_run_idle [OF c] True unfolding r1 by blast
    then show ?thesis using d True assms(6) by (auto simp: decode_req_def)
  next
    case False
    let ?r1 = "gb_reqs B1 ! i"
    have r1: "\<not> finished ?r1" "\<not> g_is_retracted ?r1" "g_spec_histogram ?r1 = g_spec_histogram ?r"
      "g_spec_verify_ct ?r1 = g_spec_verify_ct ?r" "g_spec_num_correct_drafts ?r1 = g_spec_num_correct_drafts ?r"
      using fr False by (auto simp: grammar_frame_def finished_def)
    note C = commit_run_active [OF c r1(1,2)]
    have ok: "histogram_ok (rs2 ! i)"
      using assms(5,6) bump_ok [OF C(4)] C(2,3) r1 by (simp add: histogram_ok_def lens nd)
    have r2: "\<not> finished (rs2 ! i)" "\<not> g_is_retracted (rs2 ! i)" using r1 C by (simp_all add: finished_def)
    obtain r3 where r3: "update_finish_state search is_term (len (tokens ! i)) ((rs2 ! i)\<lparr>g_output_ids := g_output_ids (rs2 ! i) @ tokens ! i\<rparr>) = Inr r3"
      "sync_grammar accept is_term True (tokens ! i) r3 = Inr (gb_reqs B' ! i)"
      using decode_req_active [OF d r2] assms(3) p(6) by auto
    show ?thesis using update_frame [OF r3(1)] sync_frame [OF r3(2)] ok by (simp add: end_frame_def histogram_ok_def)
  qed
qed

section \<open>Single tokens\<close>

text \<open>C5: For a request that ends by tokens or length, a speculative step emits what decoding its accepted run one
  token per step would have emitted, ends it for the same reason, and releases its cache exactly then.\<close>

theorem decode_step_like_single_tokens:
  assumes "process_batch_result_decode search accept is_term True res B = Inr (released, B')" "gb_spec B" "i < length (gb_reqs B)"
    and "gr_accept_lens res = Some lens" "speculative_output_stride res = Inr stride"
    and "new = accepted_run (gr_next_token_ids res) stride lens i" "new \<noteq> []"
    and "token_only (gb_reqs B ! i)" "\<not> g_is_retracted (gb_reqs B ! i)" "list_all (\<lambda>x. \<not> outside_vocab (gb_reqs B ! i) x) new"
    and "len (g_output_ids (gb_reqs B ! i)) < sp_max_new_tokens (g_params (gb_reqs B ! i))"
  shows "\<exists>r2. one_by_one search is_term (gb_reqs B ! i) new = Inr r2
    \<and> g_finished_reason (gb_reqs B' ! i) = g_finished_reason r2
    \<and> output_ids_through_stop (gb_reqs B' ! i) = output_ids_through_stop r2
    \<and> released ! i = finished r2"
proof -
  let ?r = "gb_reqs B ! i" and ?r' = "gb_reqs B' ! i"
  obtain lens' stride' res1 B1 rs2 tokens where p: "gr_accept_lens res = Some lens'" "speculative_output_stride res = Inr stride'"
    "advance_grammar_fsm accept is_term (res\<lparr>gr_num_correct_drafts := map (\<lambda>n. n - gr_num_non_draft res) lens'\<rparr>) B = Inr (res1, B1)"
    "length (gb_reqs B1) = length (gb_reqs B)" "length rs2 = length (gb_reqs B)" "length tokens = length (gb_reqs B)"
    "length released = length (gb_reqs B)" "length (gb_reqs B') = length (gb_reqs B)"
    "\<forall>i < length (gb_reqs B). commit_run res1 stride' lens' i (gb_reqs B1 ! i) = Inr (tokens ! i, rs2 ! i)"
    "\<forall>i < length (gb_reqs B). decode_req search accept is_term True True tokens i (rs2 ! i) = Inr (released ! i, gb_reqs B' ! i)"
    using decode_parts [OF assms(1,2)] by blast
  have lens: "lens' = lens" "stride' = stride" using p(1,2) assms(4,5) by simp_all
  have ids: "gr_next_token_ids res1 = gr_next_token_ids res" using advance_result [OF p(3)] by simp
  have nf: "\<not> finished ?r" and g: "g_grammar ?r = None" using assms(8) by (simp_all add: token_only_def running_def finished_def)
  have r1: "gb_reqs B1 ! i = ?r"
    using advance_frame(2) [OF p(3) assms(3)] g by (simp add: grammar_frame_def grammar_active_def)
  note C = commit_run_active [OF p(9) [rule_format, OF assms(3), unfolded r1] nf assms(9)]
  have new: "tokens ! i = new" using C(17) g assms(6) lens ids by simp
  let ?u = "(rs2 ! i)\<lparr>g_output_ids := g_output_ids (rs2 ! i) @ new\<rparr>"
  have u: "token_only ?u" "g_output_ids ?u = g_output_ids ?r @ new" "g_params ?u = g_params ?r"
    using assms(8) C by (simp_all add: token_only_def running_def)
  have st: "stop_token ?u = stop_token ?r" by (rule ext) (simp add: stop_token_def C)
  have ov: "list_all (\<lambda>x. \<not> outside_vocab ?u x) new" using assms(10) C by (simp add: outside_vocab_def)
  have m: "0 \<le> sp_max_new_tokens (g_params ?u)" using assms(11) u(3) by simp
  obtain r3 where r3: "update_finish_state search is_term (len new) ?u = Inr r3"
    "(g_finished_reason r3, output_ids_through_stop r3) = end_of_run ?r (g_output_ids ?r) new"
    using token_only_update [where search = search and ?is_term = "is_term", OF u(1,2) assms(7) ov m] end_of_run_cong [OF u(3) st] by auto
  have r2: "\<not> finished (rs2 ! i)" "\<not> g_is_retracted (rs2 ! i)" using nf assms(9) C by (simp_all add: finished_def)
  have s: "sync_grammar accept is_term True new r3 = Inr ?r'" "released ! i = finished r3"
    using decode_req_active [OF p(10) [rule_format, OF assms(3)] r2] assms(3) p(6) r3(1) new by auto
  obtain r4 where "one_by_one search is_term ?r new = Inr r4"
    "(g_finished_reason r4, output_ids_through_stop r4) = end_of_run ?r (g_output_ids ?r) new"
    using one_by_one_outcome [OF assms(8,10,7,11)] by blast
  moreover from this(2) r3(2) have "g_finished_reason r3 = g_finished_reason r4" "output_ids_through_stop r3 = output_ids_through_stop r4"
    by (metis prod.inject)+
  ultimately show ?thesis using sync_frame [OF s(1)] s(2) by (auto simp: finished_def)
qed

section \<open>At a concrete batch\<close>

text \<open>Two requests, the second already finished; the first accepts one draft and the end token.\<close>

definition wit_result :: gen_result where
  "wit_result = \<lparr>gr_next_token_ids = [8, 2, 0, 9, 9, 9], gr_accept_lens = Some [2, 1], gr_output_stride = Some 3, gr_num_draft_tokens = None,
     gr_num_non_draft = 1, gr_block_accept_lens = None, gr_cap_lens = None, gr_grammar_advanced = False, gr_grammar_retained = [],
     gr_num_correct_drafts = []\<rparr>"

definition wit_reqs :: "unit gen_req list" where
  "wit_reqs = [(wit_req (wit_params\<lparr>stop_strs := []\<rparr>) [7])\<lparr>g_spec_histogram := [1], g_spec_verify_ct := 1\<rparr>,
     (wit_req wit_params [2])\<lparr>g_finished_reason := Some (FINISH_MATCHED_TOKEN 2)\<rparr>]"

definition wit_decode_batch :: "unit gen_batch" where
  "wit_decode_batch = \<lparr>gb_reqs = wit_reqs, gb_has_grammar = False, gb_is_decode = True, gb_is_extend = False, gb_spec = True\<rparr>"

lemma wit_runs: "accepted_run [8, 2, 0, 9, 9, 9] 3 [2, 1] 0 = [8, 2]" "accepted_run [8, 2, 0, 9, 9, 9] 3 [2, 1] 1 = [9]"
  by (simp_all add: accepted_run_def py_slice_def Let_def eval_nat_numeral)

lemma wit_first:
  "gr_accept_lens wit_result = Some [2, 1]" "speculative_output_stride wit_result = Inr 3" "gb_spec wit_decode_batch"
  "length (gb_reqs wit_decode_batch) = 2" "gr_num_non_draft wit_result = 1" "gr_next_token_ids wit_result = [8, 2, 0, 9, 9, 9]"
  "gb_reqs wit_decode_batch ! 0 = (wit_req (wit_params\<lparr>stop_strs := []\<rparr>) [7])\<lparr>g_spec_histogram := [1], g_spec_verify_ct := 1\<rparr>"
  by (simp_all add: wit_result_def speculative_output_stride_def wit_decode_batch_def wit_reqs_def)

lemma wit_decoded:
  "\<exists>released B'. process_batch_result_decode (\<lambda>_ _. Inr False) (\<lambda>g _. Some g) (\<lambda>_. False) True wit_result wit_decode_batch = Inr (released, B')"
proof -
  let ?r = "(wit_req (wit_params\<lparr>stop_strs := []\<rparr>) [7])\<lparr>g_spec_histogram := [1], g_spec_verify_ct := 1\<rparr>"
  let ?res = "wit_result\<lparr>gr_num_correct_drafts := [1, 0]\<rparr>"
  obtain r1 where c: "commit_run ?res 3 [2, 1] 0 ?r = Inr ([8, 2], r1)" "g_output_ids r1 = [7]" "g_params r1 = wit_params\<lparr>stop_strs := []\<rparr>"
    "g_finished_reason r1 = None" "g_finished_len r1 = None" "g_to_finish r1 = None" "g_grammar r1 = None" "g_vocab_size r1 = Some 100"
    "\<not> g_is_retracted r1"
    by (simp add: commit_run_def Let_def wit_result_def wit_runs finished_def wit_req_def bump_def torch_index_def)
  have "token_only (r1\<lparr>g_output_ids := [7, 8, 2]\<rparr>)" "list_all (\<lambda>x. \<not> outside_vocab (r1\<lparr>g_output_ids := [7, 8, 2]\<rparr>) x) [8, 2]"
    using c by (simp_all add: token_only_def running_def outside_vocab_def wit_params_def)
  from token_only_update [OF this(1) _ _ this(2), of "[7]" "\<lambda>_ _. Inr False" "\<lambda>_. False"]
  obtain r2 where u: "update_finish_state (\<lambda>_ _. Inr False) (\<lambda>_. False) 2 (r1\<lparr>g_output_ids := [7, 8, 2]\<rparr>) = Inr r2"
    using c by (auto simp: wit_params_def)
  have "g_grammar r2 = None"
    using u c by (auto simp: update_finish_state_def finished_def check_vocab_boundary_finish_def check_str_based_finish_def
        check_token_based_finish_def cap_frame Let_def wit_params_def split: if_splits option.splits list.splits)
  moreover let ?s = "(wit_req wit_params [2])\<lparr>g_finished_reason := Some (FINISH_MATCHED_TOKEN 2)\<rparr>"
  have "commit_run ?res 3 [2, 1] 1 ?s = Inr ([9], ?s)"
    by (simp add: commit_run_def Let_def wit_result_def wit_runs [simplified] finished_def)
  then have "for_reqs (commit_run ?res 3 [2, 1]) [?r, ?s] = Inr [([8, 2], r1), ([9], ?s)]"
    using c(1) by (simp add: for_reqs_def)
  moreover have "advance_grammar_fsm (\<lambda>g _. Some g) (\<lambda>_. False) ?res wit_decode_batch = Inr (?res, wit_decode_batch)"
    by (simp add: advance_grammar_fsm_def wit_decode_batch_def)
  ultimately have n: "normalize_decode_outputs (\<lambda>g _. Some g) (\<lambda>_. False) wit_result wit_decode_batch
      = Inr ([[8, 2], [9]], ?res, wit_decode_batch\<lparr>gb_reqs := [r1, ?s]\<rparr>)"
    by (simp add: normalize_decode_outputs_def resolve_spec_v2_tokens_def wit_first wit_reqs_def) (simp add: wit_decode_batch_def wit_reqs_def)
  have "decode_req (\<lambda>_ _. Inr False) (\<lambda>g _. Some g) (\<lambda>_. False) True True [[8, 2], [9]] 0 r1 = Inr (finished r2, r2)"
    using c u \<open>g_grammar r2 = None\<close> by (simp add: decode_req_def finished_def sync_grammar_def)
  moreover have "decode_req (\<lambda>_ _. Inr False) (\<lambda>g _. Some g) (\<lambda>_. False) True True [[8, 2], [9]] 1 ?s = Inr (False, ?s)"
    by (simp add: decode_req_def finished_def)
  ultimately have "for_reqs (decode_req (\<lambda>_ _. Inr False) (\<lambda>g _. Some g) (\<lambda>_. False) True True [[8, 2], [9]]) [r1, ?s]
      = Inr [(finished r2, r2), (False, ?s)]" by (simp add: for_reqs_def)
  then show ?thesis unfolding process_batch_result_decode_def n by (simp add: wit_decode_batch_def)
qed

lemma decode_step_accounting_witness:
  "\<exists>released B'. process_batch_result_decode (\<lambda>_ _. Inr False) (\<lambda>g _. Some g) (\<lambda>_. False) True wit_result wit_decode_batch = Inr (released, B')
    \<and> released ! 0 = finished (gb_reqs B' ! 0)"
proof -
  obtain released B' where p: "process_batch_result_decode (\<lambda>_ _. Inr False) (\<lambda>g _. Some g) (\<lambda>_. False) True wit_result wit_decode_batch = Inr (released, B')"
    using wit_decoded by blast
  have "\<not> finished (gb_reqs wit_decode_batch ! 0) \<and> \<not> g_is_retracted (gb_reqs wit_decode_batch ! 0)"
    unfolding wit_first(7) by (simp add: finished_def wit_req_def)
  then show ?thesis using decode_step_accounting [OF p wit_first(3), of 0] p wit_first(4) by auto
qed

lemma decode_histogram_exact_witness:
  "\<exists>released B'. process_batch_result_decode (\<lambda>_ _. Inr False) (\<lambda>g _. Some g) (\<lambda>_. False) True wit_result wit_decode_batch = Inr (released, B')
    \<and> histogram_ok (gb_reqs B' ! 0)"
proof -
  obtain released B' where p: "process_batch_result_decode (\<lambda>_ _. Inr False) (\<lambda>g _. Some g) (\<lambda>_. False) True wit_result wit_decode_batch = Inr (released, B')"
    using wit_decoded by blast
  have "histogram_ok (gb_reqs wit_decode_batch ! 0)"
    unfolding wit_first(7) by (simp add: histogram_ok_def weighted_def wit_req_def)
  then show ?thesis
    using decode_histogram_exact [OF p wit_first(3) _ wit_first(1), of 0] p wit_first(4,5) by auto
qed

lemma decode_step_like_single_tokens_witness:
  "\<exists>released B' r2. process_batch_result_decode (\<lambda>_ _. Inr False) (\<lambda>g _. Some g) (\<lambda>_. False) True wit_result wit_decode_batch = Inr (released, B')
    \<and> one_by_one (\<lambda>_ _. Inr False) (\<lambda>_. False) (gb_reqs wit_decode_batch ! 0) [8, 2] = Inr r2
    \<and> output_ids_through_stop (gb_reqs B' ! 0) = output_ids_through_stop r2"
proof -
  obtain released B' where p: "process_batch_result_decode (\<lambda>_ _. Inr False) (\<lambda>g _. Some g) (\<lambda>_. False) True wit_result wit_decode_batch = Inr (released, B')"
    using wit_decoded by blast
  have "token_only (gb_reqs wit_decode_batch ! 0)" "\<not> g_is_retracted (gb_reqs wit_decode_batch ! 0)"
    "list_all (\<lambda>x. \<not> outside_vocab (gb_reqs wit_decode_batch ! 0) x) [8, 2]"
    "len (g_output_ids (gb_reqs wit_decode_batch ! 0)) < sp_max_new_tokens (g_params (gb_reqs wit_decode_batch ! 0))"
    unfolding wit_first(7) by (simp_all add: token_only_def running_def outside_vocab_def wit_req_def wit_params_def)
  from decode_step_like_single_tokens [OF p wit_first(3) _ wit_first(1,2) _ _ this(1,2,3,4)]
  show ?thesis using p wit_first(4,6) wit_runs(1) by auto
qed

end
