(* ===== verification/Retraction.thy ===== *)
theory Retraction
  imports FinishFacts Tensors "HOL-Library.Product_Lexorder" "HOL-Library.Multiset"
begin

text \<open>
  Making room in a decode batch: \<open>new_tokens_required_next_decode\<close>, \<open>check_decode_mem\<close>, \<open>retract_decode\<close> and
  \<open>release_req\<close> of \<open>sglang-overlay/schedule_batch.py\<close>. Allocator and cache are the state \<open>'e\<close>, reached through
  \<open>mem_ops\<close>; the order for beam groups comes from outside.
\<close>

section \<open>Definitions\<close>

record 'e mem_ops =
  op_check_capacity :: "int \<Rightarrow> 'e \<Rightarrow> bool \<times> 'e"
  op_backup :: "nat \<Rightarrow> 'e \<Rightarrow> bool \<times> 'e"
  op_hisparse_retract :: "(nat \<Rightarrow> 'e \<Rightarrow> 'e) option"
  op_release_kv :: "nat \<Rightarrow> 'e \<Rightarrow> 'e"
  op_evict :: "int \<Rightarrow> 'e \<Rightarrow> 'e"
  op_free_members :: "nat \<Rightarrow> 'e \<Rightarrow> 'e"

record mem_cfg =
  mc_page_size :: int
  mc_spec :: bool
  mc_reserve :: int
  mc_beam_rows :: "nat list \<Rightarrow> int"
  mc_policy_priority :: bool
  mc_low_priority_first :: bool
  mc_disagg_decode :: bool
  mc_retract_steps :: int

definition req_new_tokens :: "mem_cfg \<Rightarrow> 'g gen_req \<Rightarrow> int" where
  "req_new_tokens C r =
     (let x = max 0 (g_kv_committed_len r + mc_reserve C - g_kv_allocated_len r);
          cur = g_kv_allocated_len r; nxt = cur + x
      in ceil_align nxt (mc_page_size C) - ceil_align cur (mc_page_size C))"

definition new_tokens_required_next_decode :: "mem_cfg \<Rightarrow> 'g gen_req list \<Rightarrow> nat list \<Rightarrow> int" where
  "new_tokens_required_next_decode C rs sel =
     (if \<not> mc_spec C
      then sum_list (map (\<lambda>i. if g_kv_committed_len (rs ! i) mod mc_page_size C = 0 then 1 else 0) sel) * mc_page_size C + mc_beam_rows C sel
      else sum_list (map (\<lambda>i. req_new_tokens C (rs ! i)) sel))"

definition check_decode_mem :: "'e mem_ops \<Rightarrow> mem_cfg \<Rightarrow> 'g gen_req list \<Rightarrow> nat list \<Rightarrow> 'e \<Rightarrow> bool \<times> 'e" where
  "check_decode_mem Op C rs sel st = op_check_capacity Op (new_tokens_required_next_decode C rs sel) st"

text \<open>The order of retraction, most preferred to keep first. Python's \<open>sort(reverse=True)\<close> is stable.\<close>

definition sort_desc :: "('a \<Rightarrow> 'k :: linorder) \<Rightarrow> 'a list \<Rightarrow> 'a list" where
  "sort_desc k xs = rev (sort_key k (rev xs))"

definition length_key :: "'g gen_req \<Rightarrow> int \<times> int" where
  "length_key r = (len (g_output_ids r), - len (g_origin_input_ids r))"

definition retraction_key :: "mem_cfg \<Rightarrow> 'g gen_req \<Rightarrow> int \<times> int \<times> int" where
  "retraction_key C r =
     (let sign = (if mc_low_priority_first C then 1 else - 1);
          priority = (case g_priority r of Some p \<Rightarrow> p
            | None \<Rightarrow> if mc_low_priority_first C then 2 ^ 63 - 1 else - (2 ^ 63 - 1) - 1)
      in (priority * (- sign), length_key r))"

definition decode_retraction_order :: "mem_cfg \<Rightarrow> 'g gen_req list \<Rightarrow> nat list" where
  "decode_retraction_order C rs =
     (if mc_policy_priority C then sort_desc (\<lambda>i. retraction_key C (rs ! i)) [0..<length rs]
      else sort_desc (\<lambda>i. length_key (rs ! i)) [0..<length rs])"

text \<open>\<open>reset_for_retract\<close> on the fields of the decode loop, and \<open>release_req\<close>.\<close>

definition reset_for_retract :: "'g gen_req \<Rightarrow> 'g gen_req" where
  "reset_for_retract r =
     r\<lparr>g_is_retracted := True, g_inflight_middle_chunks := 0, g_kv_committed_len := 0,
       g_output_ids := (if g_input_embeds r then [] else g_output_ids r)\<rparr>"

record ('g, 'e) retract_state =
  rs_reqs :: "'g gen_req list"
  rs_env :: 'e
  rs_retracted :: "nat list"
  rs_aborted :: "nat list"

definition release_req ::
    "'e mem_ops \<Rightarrow> mem_cfg \<Rightarrow> nat \<Rightarrow> int \<Rightarrow> bool \<Rightarrow> ('g, 'e) retract_state \<Rightarrow> bool \<times> ('g, 'e) retract_state" where
  "release_req Op C idx remaining offload S =
     (let st = (case op_hisparse_retract Op of
            Some f \<Rightarrow> if finished (rs_reqs S ! idx) then rs_env S else f idx (rs_env S)
          | None \<Rightarrow> rs_env S);
          (saved, st) = (if mc_disagg_decode C \<and> offload then op_backup Op idx st else (True, st));
          st = op_evict Op (remaining * mc_retract_steps C) (op_release_kv Op idx st)
      in (saved, S\<lparr>rs_env := st, rs_reqs := (rs_reqs S)[idx := reset_for_retract (rs_reqs S ! idx)]\<rparr>))"

definition set_to_finish :: "nat \<Rightarrow> abort_cause \<Rightarrow> ('g, 'e) retract_state \<Rightarrow> ('g, 'e) retract_state" where
  "set_to_finish idx cause S =
     S\<lparr>rs_reqs := (rs_reqs S)[idx := (rs_reqs S ! idx)\<lparr>g_to_finish := Some (FINISH_ABORT cause)\<rparr>], rs_aborted := rs_aborted S @ [idx]\<rparr>"

text \<open>One turn of the loop, for the index popped off; \<open>k\<close> indices remain.\<close>

definition retract_one :: "'e mem_ops \<Rightarrow> mem_cfg \<Rightarrow> nat \<Rightarrow> nat \<Rightarrow> ('g, 'e) retract_state \<Rightarrow> ('g, 'e) retract_state" where
  "retract_one Op C idx k S =
     (if g_beam (rs_reqs S ! idx) then
        (let S = set_to_finish idx BeamPoolFull S
         in snd (release_req Op C idx (int k) False (S\<lparr>rs_env := op_free_members Op idx (rs_env S)\<rparr>)))
      else (case release_req Op C idx (int k) True S of
          (True, S) \<Rightarrow> S\<lparr>rs_retracted := rs_retracted S @ [idx]\<rparr>
        | (False, S) \<Rightarrow> set_to_finish idx HostPoolExhausted S))"

text \<open>The loop: \<open>first\<close> skips the test, one request is always kept. \<open>idxs\<close> is reversed, so that its head is the
  next one to go.\<close>

fun retract_loop ::
    "'e mem_ops \<Rightarrow> mem_cfg \<Rightarrow> bool \<Rightarrow> nat list \<Rightarrow> ('g, 'e) retract_state \<Rightarrow> py_error + nat list \<times> ('g, 'e) retract_state" where
  "retract_loop Op C first [] S =
     (if first then Inl IndexError
      else (case check_decode_mem Op C (rs_reqs S) [] (rs_env S) of
          (True, st) \<Rightarrow> Inr ([], S\<lparr>rs_env := st\<rparr>) | (False, st) \<Rightarrow> Inl IndexError))"
| "retract_loop Op C first (x # xs) S =
     (let (ok, st) = (if first then (False, rs_env S) else check_decode_mem Op C (rs_reqs S) (rev (x # xs)) (rs_env S));
          S = S\<lparr>rs_env := st\<rparr>
      in if ok then Inr (x # xs, S)
         else if xs = [] then Inr ([x], S)
         else retract_loop Op C False xs (retract_one Op C x (length xs) S))"

definition filter_reqs :: "'a list \<Rightarrow> nat list \<Rightarrow> 'a list" where
  "filter_reqs rs keep = (if keep = [] then [] else if length keep = length rs then rs else map ((!) rs) keep)"

text \<open>\<open>retract_decode\<close>: the kept indices (in the order of the batch after it) and the final state. The last
  request goes as well when it does not fit.\<close>

definition retract_decode ::
    "'e mem_ops \<Rightarrow> mem_cfg \<Rightarrow> (nat list \<Rightarrow> nat list) \<Rightarrow> 'g gen_req list \<Rightarrow> 'e
     \<Rightarrow> py_error + nat list \<times> 'g gen_req list \<times> ('g, 'e) retract_state" where
  "retract_decode Op C beam_order rs st =
     (case retract_loop Op C True (rev (beam_order (decode_retraction_order C rs)))
            \<lparr>rs_reqs = rs, rs_env = st, rs_retracted = [], rs_aborted = []\<rparr> of
        Inl e \<Rightarrow> Inl e
      | Inr (left, S) \<Rightarrow>
          (let (ok, st) = (if length left \<le> 1 then check_decode_mem Op C (rs_reqs S) (rev left) (rs_env S) else (True, rs_env S));
               S = S\<lparr>rs_env := st\<rparr>
           in if ok then Inr (rev left, filter_reqs (rs_reqs S) (rev left), S)
              else (case left of
                  [] \<Rightarrow> Inl IndexError
                | x # xs \<Rightarrow>
                    (let S = set_to_finish x PoolFull S;
                         S = (if g_beam (rs_reqs S ! x) then S\<lparr>rs_env := op_free_members Op x (rs_env S)\<rparr> else S);
                         S = snd (release_req Op C x 0 False S)
                     in Inr (rev xs, filter_reqs (rs_reqs S) (rev xs), S)))))"

section \<open>The order\<close>

lemma set_sort_desc: "set (sort_desc k xs) = set xs" "distinct (sort_desc k xs) = distinct xs" "length (sort_desc k xs) = length xs"
  by (simp_all add: sort_desc_def)

lemma sort_desc_sorted: "sorted_wrt (\<lambda>x y. k y \<le> k x) (sort_desc k xs)"
  unfolding sort_desc_def sorted_wrt_rev using sorted_sort_key [of k "rev xs"] by (simp add: sorted_map)

lemma order_props:
  "set (decode_retraction_order C rs) = {..<length rs}" "distinct (decode_retraction_order C rs)"
  "length (decode_retraction_order C rs) = length rs"
  by (auto simp: decode_retraction_order_def set_sort_desc)

section \<open>The loop\<close>


text \<open>What happened between two states: the requests in \<open>gone\<close> are released, each of them either put back or
  aborted, the others are untouched.\<close>

definition gone_between :: "nat list \<Rightarrow> ('g, 'e) retract_state \<Rightarrow> ('g, 'e) retract_state \<Rightarrow> bool" where
  "gone_between gone S S' \<longleftrightarrow>
     length (rs_reqs S') = length (rs_reqs S)
     \<and> (\<forall>i. i \<notin> set gone \<longrightarrow> rs_reqs S' ! i = rs_reqs S ! i)
     \<and> (\<forall>i \<in> set gone. g_is_retracted (rs_reqs S' ! i) \<and> g_kv_committed_len (rs_reqs S' ! i) = 0)
     \<and> (\<exists>R A. rs_retracted S' = rs_retracted S @ R \<and> rs_aborted S' = rs_aborted S @ A \<and> mset R + mset A = mset gone
          \<and> (\<forall>i \<in> set A. g_to_finish (rs_reqs S' ! i) \<noteq> None))"

lemma gone_betweenI:
  assumes "length (rs_reqs S') = length (rs_reqs S)" "\<forall>i. i \<notin> set gone \<longrightarrow> rs_reqs S' ! i = rs_reqs S ! i"
    "\<forall>i \<in> set gone. g_is_retracted (rs_reqs S' ! i) \<and> g_kv_committed_len (rs_reqs S' ! i) = 0"
    "rs_retracted S' = rs_retracted S @ R" "rs_aborted S' = rs_aborted S @ A" "mset R + mset A = mset gone"
    "\<forall>i \<in> set A. g_to_finish (rs_reqs S' ! i) \<noteq> None"
  shows "gone_between gone S S'"
  unfolding gone_between_def
  by (intro conjI assms(1-3), rule exI [of _ R], rule exI [of _ A], intro conjI assms(4-7))

lemma gone_refl: "gone_between [] S (S\<lparr>rs_env := st\<rparr>)"
  by (simp add: gone_between_def)

lemma gone_trans:
  assumes "gone_between g1 S S1" "gone_between g2 S1 S2" "set g1 \<inter> set g2 = {}"
  shows "gone_between (g1 @ g2) S S2"
proof -
  obtain R1 A1 where 1: "rs_retracted S1 = rs_retracted S @ R1" "rs_aborted S1 = rs_aborted S @ A1" "mset R1 + mset A1 = mset g1"
    "\<forall>i \<in> set A1. g_to_finish (rs_reqs S1 ! i) \<noteq> None" using assms(1) by (auto simp: gone_between_def)
  obtain R2 A2 where 2: "rs_retracted S2 = rs_retracted S1 @ R2" "rs_aborted S2 = rs_aborted S1 @ A2" "mset R2 + mset A2 = mset g2"
    "\<forall>i \<in> set A2. g_to_finish (rs_reqs S2 ! i) \<noteq> None" using assms(2) by (auto simp: gone_between_def)
  have "set A1 \<subseteq> set g1" using 1(3) by (metis mset_subset_eqD mset_subset_eq_add_right set_mset_mset subsetI)
  then have a1: "\<forall>i \<in> set A1. rs_reqs S2 ! i = rs_reqs S1 ! i" using assms(2,3) by (auto simp: gone_between_def)
  have rest: "length (rs_reqs S2) = length (rs_reqs S)" "\<forall>i. i \<notin> set (g1 @ g2) \<longrightarrow> rs_reqs S2 ! i = rs_reqs S ! i"
    "\<forall>i \<in> set (g1 @ g2). g_is_retracted (rs_reqs S2 ! i) \<and> g_kv_committed_len (rs_reqs S2 ! i) = 0"
    using assms by (auto simp: gone_between_def)
  have "mset (R1 @ R2) + mset (A1 @ A2) = mset (g1 @ g2)" using 1(3) 2(3) by (metis add.assoc add.commute mset_append)
  moreover have "\<forall>i \<in> set (A1 @ A2). g_to_finish (rs_reqs S2 ! i) \<noteq> None" using a1 1(4) 2(4) by auto
  ultimately show ?thesis unfolding gone_between_def using rest 1(1,2) 2(1,2) by (metis append.assoc)
qed

lemma release_between:
  assumes "release_req Op C x k off S = (saved, S')" "x < length (rs_reqs S)"
  shows "length (rs_reqs S') = length (rs_reqs S)" "\<forall>i. i \<noteq> x \<longrightarrow> rs_reqs S' ! i = rs_reqs S ! i"
    "rs_reqs S' ! x = reset_for_retract (rs_reqs S ! x)" "rs_retracted S' = rs_retracted S" "rs_aborted S' = rs_aborted S"
  using assms by (auto simp: release_req_def Let_def split: prod.splits)

lemma retract_one_between:
  assumes "x < length (rs_reqs S)"
  shows "gone_between [x] S (retract_one Op C x k S)"
proof (cases "g_beam (rs_reqs S ! x)")
  case True
  let ?S1 = "(set_to_finish x BeamPoolFull S)\<lparr>rs_env := op_free_members Op x (rs_env (set_to_finish x BeamPoolFull S))\<rparr>"
  obtain saved S' where r: "release_req Op C x (int k) False ?S1 = (saved, S')" by (cases "release_req Op C x (int k) False ?S1")
  have e: "retract_one Op C x k S = S'" using True r by (simp add: retract_one_def Let_def)
  have "x < length (rs_reqs ?S1)" using assms by (simp add: set_to_finish_def)
  note R = release_between [OF r this]
  show ?thesis unfolding e gone_between_def using R assms
    by (auto simp: set_to_finish_def reset_for_retract_def nth_list_update)
next
  case False
  obtain saved S' where r: "release_req Op C x (int k) True S = (saved, S')" by (cases "release_req Op C x (int k) True S")
  note R = release_between [OF r assms]
  show ?thesis
  proof (cases saved)
    case True
    then have e: "retract_one Op C x k S = S'\<lparr>rs_retracted := rs_retracted S' @ [x]\<rparr>" using False r by (simp add: retract_one_def)
    show ?thesis unfolding e gone_between_def using R assms by (auto simp: reset_for_retract_def)
  next
    case f: False
    then have e: "retract_one Op C x k S = set_to_finish x HostPoolExhausted S'" using False r by (simp add: retract_one_def)
    show ?thesis unfolding e gone_between_def using R assms by (auto simp: set_to_finish_def reset_for_retract_def)
  qed
qed

lemma retract_loop_outcome:
  assumes "idxs \<noteq> []" "distinct idxs" "\<forall>i \<in> set idxs. i < length (rs_reqs S)"
  shows "\<exists>gone left S'. retract_loop Op C first idxs S = Inr (left, S') \<and> idxs = gone @ left \<and> left \<noteq> []
    \<and> gone_between gone S S' \<and> (2 \<le> length left \<longrightarrow> (\<exists>st. check_decode_mem Op C (rs_reqs S') (rev left) st = (True, rs_env S')))
    \<and> (first \<and> 2 \<le> length idxs \<longrightarrow> gone \<noteq> [])"
  using assms
proof (induction idxs arbitrary: first S)
  case (Cons x xs)
  obtain ok st where c: "(if first then (False, rs_env S) else check_decode_mem Op C (rs_reqs S) (rev (x # xs)) (rs_env S)) = (ok, st)"
    by (metis surj_pair)
  let ?S = "S\<lparr>rs_env := st\<rparr>"
  show ?case
  proof (cases "ok \<or> xs = []")
    case True
    then have e: "retract_loop Op C first (x # xs) S = Inr (x # xs, ?S)"
      using c by (auto simp only: retract_loop.simps Let_def prod.case split: if_splits)
    have "\<exists>st'. check_decode_mem Op C (rs_reqs ?S) (rev (x # xs)) st' = (True, rs_env ?S)" if "2 \<le> length (x # xs)"
      using True c that by (auto split: if_splits)
    moreover have "\<not> (first \<and> 2 \<le> length (x # xs))" using True c by (auto split: if_splits)
    ultimately show ?thesis using e gone_refl [of S st] by (intro exI [of _ "[]"] exI [of _ "x # xs"] exI [of _ ?S]) blast
  next
    case False
    let ?S1 = "retract_one Op C x (length xs) ?S"
    have e: "retract_loop Op C first (x # xs) S = retract_loop Op C False xs ?S1"
      using False c by (simp only: retract_loop.simps Let_def prod.case) simp
    have x: "x < length (rs_reqs ?S)" using Cons.prems(3) by simp
    note one = retract_one_between [OF x, of Op C "length xs"]
    have len: "length (rs_reqs ?S1) = length (rs_reqs S)" using one by (simp add: gone_between_def)
    have xs12: "xs \<noteq> []" "distinct xs" using False Cons.prems(2) by simp_all
    have xs3: "\<forall>i \<in> set xs. i < length (rs_reqs ?S1)" unfolding len using Cons.prems(3) by simp
    obtain gone left S' where IH: "retract_loop Op C False xs ?S1 = Inr (left, S')" "xs = gone @ left" "left \<noteq> []"
      "gone_between gone ?S1 S'" "2 \<le> length left \<longrightarrow> (\<exists>st. check_decode_mem Op C (rs_reqs S') (rev left) st = (True, rs_env S'))"
      using Cons.IH [of ?S1 False, OF _ _ xs3] xs12 by blast
    have "gone_between [x] S ?S1" using one by (simp add: gone_between_def)
    then have "gone_between ([x] @ gone) S S'" by (rule gone_trans [OF _ IH(4)]) (use Cons.prems(2) IH(2) in auto)
    then show ?thesis using e IH by (intro exI [of _ "x # gone"] exI [of _ left] exI [of _ S']) simp
  qed
qed simp

lemma set_then_release_between:
  assumes "x < length (rs_reqs S)" "S1 = set_to_finish x cause S \<or> S1 = (set_to_finish x cause S)\<lparr>rs_env := st\<rparr>"
  shows "gone_between [x] S (snd (release_req Op C x k False S1))"
proof -
  obtain saved S' where r: "release_req Op C x k False S1 = (saved, S')" by (cases "release_req Op C x k False S1")
  have "x < length (rs_reqs S1)" using assms by (auto simp: set_to_finish_def)
  note R = release_between [OF r this]
  have S1: "rs_reqs S1 = (rs_reqs S)[x := (rs_reqs S ! x)\<lparr>g_to_finish := Some (FINISH_ABORT cause)\<rparr>]"
    "rs_retracted S1 = rs_retracted S" "rs_aborted S1 = rs_aborted S @ [x]" using assms(2) by (auto simp: set_to_finish_def)
  have at: "rs_reqs S' ! x = reset_for_retract ((rs_reqs S ! x)\<lparr>g_to_finish := Some (FINISH_ABORT cause)\<rparr>)"
    using R(3) assms(1) by (simp add: S1)
  have others: "\<forall>i. i \<notin> set [x] \<longrightarrow> rs_reqs S' ! i = rs_reqs S ! i" using R(2) by (simp add: S1)
  have "gone_between [x] S S'"
  proof (rule gone_betweenI [where R = "[]" and A = "[x]"])
    show "length (rs_reqs S') = length (rs_reqs S)" using R(1) by (simp add: S1)
    show "\<forall>i. i \<notin> set [x] \<longrightarrow> rs_reqs S' ! i = rs_reqs S ! i" by (rule others)
    show "rs_retracted S' = rs_retracted S @ []" "rs_aborted S' = rs_aborted S @ [x]" using R(4,5) by (simp_all add: S1)
  qed (simp_all add: at reset_for_retract_def)
  then show ?thesis by (simp add: r)
qed


lemma retract_decode_between:
  assumes "rs \<noteq> []" "distinct order" "set order = {..<length rs}" and order: "order = beam_order (decode_retraction_order C rs)"
  shows "\<exists>keep gone S. retract_decode Op C beam_order rs st = Inr (keep, filter_reqs (rs_reqs S) keep, S) \<and> rev order = gone @ rev keep
    \<and> gone_between gone \<lparr>rs_reqs = rs, rs_env = st, rs_retracted = [], rs_aborted = []\<rparr> S
    \<and> (2 \<le> length rs \<longrightarrow> gone \<noteq> []) \<and> (keep = [] \<or> (\<exists>st'. check_decode_mem Op C (rs_reqs S) keep st' = (True, rs_env S)))"
proof -
  let ?Start = "\<lparr>rs_reqs = rs, rs_env = st, rs_retracted = [], rs_aborted = []\<rparr>"
  have ln: "length order = length rs" using assms(2,3) distinct_card [of order] by simp
  have two: "(True \<and> 2 \<le> length (rev order)) = (2 \<le> length rs)" by (simp add: ln)
  have ne: "rev order \<noteq> []" using ln assms(1) by (cases order) simp_all
  have "distinct (rev order)" "\<forall>i \<in> set (rev order). i < length (rs_reqs ?Start)" by (simp_all add: assms(2,3))
  from retract_loop_outcome [OF ne this, of Op C True, unfolded two]
  obtain gone left S where L: "retract_loop Op C True (rev order) ?Start = Inr (left, S)" "rev order = gone @ left" "left \<noteq> []"
    "gone_between gone ?Start S" "2 \<le> length left \<longrightarrow> (\<exists>st. check_decode_mem Op C (rs_reqs S) (rev left) st = (True, rs_env S))"
    "2 \<le> length rs \<longrightarrow> gone \<noteq> []" by blast
  obtain ok st' where c: "(if length left \<le> 1 then check_decode_mem Op C (rs_reqs S) (rev left) (rs_env S) else (True, rs_env S)) = (ok, st')"
    by (metis surj_pair)
  let ?S = "S\<lparr>rs_env := st'\<rparr>"
  have g: "gone_between gone ?Start ?S" using L(4) by (simp add: gone_between_def)
  show ?thesis
  proof (cases ok)
    case True
    have "retract_decode Op C beam_order rs st = Inr (rev left, filter_reqs (rs_reqs ?S) (rev left), ?S)"
      unfolding retract_decode_def order [symmetric] L(1) using c True by (simp add: Let_def)
    moreover have "\<exists>st''. check_decode_mem Op C (rs_reqs ?S) (rev left) st'' = (True, rs_env ?S)"
      using c True L(5) by (cases "length left \<le> 1") auto
    ultimately show ?thesis using g L(2,6) by (intro exI [of _ "rev left"] exI [of _ gone] exI [of _ ?S]) simp
  next
    case False
    then have "length left \<le> 1" using c by (simp split: if_splits)
    then obtain x where x: "left = [x]" using L(3) by (cases left) auto
    have xl: "x < length (rs_reqs ?S)"
      using g L(2) assms(3) x by (auto simp: gone_between_def dest!: arg_cong [where f = set])
    define S1 where "S1 = set_to_finish x PoolFull ?S"
    define S2 where "S2 = (if g_beam (rs_reqs S1 ! x) then S1\<lparr>rs_env := op_free_members Op x (rs_env S1)\<rparr> else S1)"
    define S3 where "S3 = snd (release_req Op C x 0 False S2)"
    have "S2 = set_to_finish x PoolFull ?S \<or> S2 = (set_to_finish x PoolFull ?S)\<lparr>rs_env := op_free_members Op x (rs_env S1)\<rparr>"
      by (simp add: S2_def S1_def)
    then have "gone_between [x] ?S S3" unfolding S3_def by (rule set_then_release_between [OF xl])
    moreover have "x \<notin> set gone" using L(2) x assms(2) by (metis distinct_append distinct_rev disjoint_iff list.set_intros(1))
    ultimately have g2: "gone_between (gone @ [x]) ?Start S3" using gone_trans [OF g] by simp
    have "retract_decode Op C beam_order rs st = Inr ([], filter_reqs (rs_reqs S3) [], S3)"
      unfolding retract_decode_def order [symmetric] L(1) using c False x by (simp add: Let_def S3_def S2_def S1_def)
    then show ?thesis using g2 L(2) x by (intro exI [of _ "[]"] exI [of _ "gone @ [x]"] exI [of _ S3]) simp
  qed
qed

section \<open>Properties\<close>


text \<open>the longest answers stay. When no beam group reorders them, no request that goes has more output tokens than one that
  stays, nor as many with a shorter prompt; under the priority policy priority comes first.\<close>

theorem retraction_keeps_longest:
  assumes "retract_decode Op C (\<lambda>xs. xs) rs st = Inr (keep, kept, S)" "i \<in> set keep" "j < length rs" "j \<notin> set keep"
  shows "if mc_policy_priority C then retraction_key C (rs ! j) \<le> retraction_key C (rs ! i)
    else len (g_output_ids (rs ! j)) < len (g_output_ids (rs ! i))
      \<or> len (g_output_ids (rs ! j)) = len (g_output_ids (rs ! i)) \<and> len (g_origin_input_ids (rs ! i)) \<le> len (g_origin_input_ids (rs ! j))"
proof -
  let ?order = "decode_retraction_order C rs"
  have "rs \<noteq> []" using assms(3) by auto
  from retract_decode_between [where beam_order = "\<lambda>xs. xs", OF this order_props(2,1) refl, of Op C st]
  obtain gone where "rev ?order = gone @ rev keep" using assms(1) by auto
  then have o: "?order = keep @ rev gone" by (metis rev_append rev_rev_ident)
  then have j: "j \<in> set (rev gone)" using assms(3,4) order_props(1) [of C rs] by auto
  have "sorted_wrt (\<lambda>x y. retraction_key C (rs ! y) \<le> retraction_key C (rs ! x)) ?order" if "mc_policy_priority C"
    using that sort_desc_sorted by (auto simp: decode_retraction_order_def)
  moreover have "sorted_wrt (\<lambda>x y. length_key (rs ! y) \<le> length_key (rs ! x)) ?order" if "\<not> mc_policy_priority C"
    using that sort_desc_sorted by (auto simp: decode_retraction_order_def)
  ultimately have k: "if mc_policy_priority C then retraction_key C (rs ! j) \<le> retraction_key C (rs ! i)
      else length_key (rs ! j) \<le> length_key (rs ! i)"
    using assms(2) j unfolding o sorted_wrt_append by simp
  show ?thesis
  proof (cases "mc_policy_priority C")
    case False
    then have "length_key (rs ! j) \<le> length_key (rs ! i)" using k by simp
    then show ?thesis using False by (auto simp: length_key_def less_eq_prod_def)
  qed (use k in simp)
qed

text \<open>the estimate of a speculative decode step is exact: it covers the committed length plus the reserve, it is a whole
  number of pages, and no smaller whole number of pages on top of what is allocated would do.\<close>

theorem decode_estimate_tight:
  assumes "0 < mc_page_size C"
  shows "let t = req_new_tokens C r; have' = ceil_align (g_kv_allocated_len r) (mc_page_size C) in
    0 \<le> t \<and> mc_page_size C dvd t \<and> g_kv_committed_len r + mc_reserve C \<le> have' + t
    \<and> (\<forall>u. 0 \<le> u \<longrightarrow> mc_page_size C dvd u \<longrightarrow> g_kv_committed_len r + mc_reserve C \<le> have' + u \<longrightarrow> t \<le> u)"
proof -
  let ?p = "mc_page_size C" and ?a = "g_kv_allocated_len r" and ?n = "g_kv_committed_len r + mc_reserve C"
  let ?nxt = "?a + max 0 (?n - ?a)"
  have t: "req_new_tokens C r = ceil_align ?nxt ?p - ceil_align ?a ?p" by (simp add: req_new_tokens_def Let_def)
  have "ceil_align ?a ?p \<le> ceil_align ?nxt ?p" using assms by (intro ceil_align_mono) simp_all
  moreover have "?n \<le> ceil_align ?nxt ?p" using ceil_align_ge [OF assms, of ?nxt] by linarith
  moreover have "ceil_align ?nxt ?p - ceil_align ?a ?p \<le> u"
    if "0 \<le> u" "?p dvd u" "?n \<le> ceil_align ?a ?p + u" for u
  proof -
    have "?nxt \<le> ceil_align ?a ?p + u" using that ceil_align_ge [OF assms, of ?a] by linarith
    then have "ceil_align ?nxt ?p \<le> ceil_align ?a ?p + u" using assms that(2) by (intro ceil_align_least dvd_add) simp_all
    then show ?thesis by linarith
  qed
  ultimately show ?thesis by (simp add: Let_def t dvd_diff)
qed

section \<open>A concrete batch\<close>

definition wit_ops :: "int mem_ops" where
  "wit_ops = \<lparr>op_check_capacity = (\<lambda>n st. (n \<le> st, st)), op_backup = (\<lambda>_ st. (True, st)), op_hisparse_retract = None, op_release_kv = (\<lambda>_ st. st + 4),
     op_evict = (\<lambda>_ st. st), op_free_members = (\<lambda>_ st. st)\<rparr>"

definition wit_cfg :: mem_cfg where
  "wit_cfg = \<lparr>mc_page_size = 4, mc_spec = False, mc_reserve = 3, mc_beam_rows = (\<lambda>_. 0), mc_policy_priority = False,
     mc_low_priority_first = False, mc_disagg_decode = False, mc_retract_steps = 1\<rparr>"

definition wit_batch :: "unit gen_req list" where
  "wit_batch = [(wit_req wit_params [7])\<lparr>g_kv_committed_len := 4\<rparr>, (wit_req wit_params [7, 8])\<lparr>g_kv_committed_len := 8\<rparr>]"

lemma wit_retraction:
  "\<exists>S. retract_decode wit_ops wit_cfg (\<lambda>xs. xs) wit_batch 1 = Inr ([1], [wit_batch ! 1], S) \<and> rs_retracted S = [0] \<and> rs_env S = 5"
  by (simp add: retract_decode_def decode_retraction_order_def sort_desc_def length_key_def wit_batch_def wit_cfg_def wit_ops_def
      wit_req_def upt_rec less_eq_prod_def check_decode_mem_def new_tokens_required_next_decode_def retract_one_def release_req_def
      reset_for_retract_def filter_reqs_def)


lemma retraction_keeps_longest_witness:
  "len (g_output_ids (wit_batch ! 0)) < len (g_output_ids (wit_batch ! 1))
    \<or> len (g_output_ids (wit_batch ! 0)) = len (g_output_ids (wit_batch ! 1))
      \<and> len (g_origin_input_ids (wit_batch ! 1)) \<le> len (g_origin_input_ids (wit_batch ! 0))"
proof -
  obtain S where S: "retract_decode wit_ops wit_cfg (\<lambda>xs. xs) wit_batch 1 = Inr ([1], [wit_batch ! 1], S)" using wit_retraction by blast
  have "0 < length wit_batch" "\<not> mc_policy_priority wit_cfg" by (simp_all add: wit_batch_def wit_cfg_def)
  then show ?thesis using retraction_keeps_longest [OF S, of 1 0] by simp
qed

lemma decode_estimate_tight_witness:
  "0 \<le> req_new_tokens wit_cfg (wit_batch ! 0) \<and> 4 dvd req_new_tokens wit_cfg (wit_batch ! 0)"
  using decode_estimate_tight [of wit_cfg "wit_batch ! 0"] by (simp add: Let_def wit_cfg_def)

end
