(* ===== verification/DsmlDetector.thy ===== *)
theory DsmlDetector
  imports Texts
begin

text \<open>
  The detector of tool calls in the model's output, one-shot and streaming: \<open>DeepSeekV32Detector\<close> and
  \<open>DeepSeekV41Detector\<close> of \<open>sglang-overlay/deepseekv32_detector.py\<close> and \<open>deepseekv41_detector.py\<close>. Each regular
  expression is a matcher at the head of a text that returns its groups and the text behind the match. JSON, the
  partial JSON parser and the base class's \<open>parse_base_json\<close> are arguments.
\<close>

section \<open>Tags\<close>

record dsml =
  tool_calls_block_name :: ustr
  invoke_tag_name :: ustr
  parameter_tag_name :: ustr

definition v32_tags :: dsml where
  "v32_tags = \<lparr>tool_calls_block_name = codes ''function_calls'', invoke_tag_name = codes ''invoke'', parameter_tag_name = codes ''parameter''\<rparr>"

definition v41_tags :: dsml where
  "v41_tags = \<lparr>tool_calls_block_name = codes '' calls'', invoke_tag_name = codes '' invoke'', parameter_tag_name = codes '' parameter''\<rparr>"

text \<open>\<open>dsml_token\<close> is DSML between two full-width bars.\<close>

definition dsml_token :: ustr where
  "dsml_token = 65372 # codes ''DSML'' @ [65372]"

definition opener :: "ustr \<Rightarrow> ustr" where
  "opener name = codes ''<'' @ dsml_token @ name"

definition closer :: "ustr \<Rightarrow> ustr" where
  "closer name = codes ''</'' @ dsml_token @ name @ codes ''>''"

definition bot_token :: "dsml \<Rightarrow> ustr" where
  "bot_token D = opener (tool_calls_block_name D) @ codes ''>''"

definition eot_token :: "dsml \<Rightarrow> ustr" where
  "eot_token D = closer (tool_calls_block_name D)"

definition invoke_start_token :: "dsml \<Rightarrow> ustr" where
  "invoke_start_token D = opener (invoke_tag_name D)"

definition invoke_end_token :: "dsml \<Rightarrow> ustr" where
  "invoke_end_token D = closer (invoke_tag_name D)"

section \<open>Matchers\<close>

text \<open>White space, at least one; and a quoted group, \<open>([^"]+)"\<close>.\<close>

definition spaces1 :: "ustr \<Rightarrow> ustr option" where
  "spaces1 s = (case s of [] \<Rightarrow> None | c # r \<Rightarrow> if py_space c then Some (dropWhile py_space r) else None)"

definition quoted :: "ustr \<Rightarrow> (ustr \<times> ustr) option" where
  "quoted s =
     (let v = takeWhile (\<lambda>c. c \<noteq> 34) s; r = dropWhile (\<lambda>c. c \<noteq> 34) s
      in if v = [] \<or> r = [] then None else Some (v, tl r))"

text \<open>An attribute, \<open>\s+key="..."\<close>, where \<open>key\<close> comes with its equals sign and quote.\<close>

definition attribute :: "ustr \<Rightarrow> ustr \<Rightarrow> (ustr \<times> ustr) option" where
  "attribute key s = Option.bind (spaces1 s) (\<lambda>r. Option.bind (strip_prefix key r) quoted)"

definition name_key :: ustr where
  "name_key = codes ''name='' @ [34]"

definition string_key :: ustr where
  "string_key = codes ''string='' @ [34]"

text \<open>\<open>invoke_regex\<close> with \<open>_unpack_invoke_match\<close>: name, body, whether the call is complete, and the text behind.
  A lazy body runs to the first closer; without one to \<open>$\<close>, which also matches before a final line feed.\<close>

definition invoke_body :: "dsml \<Rightarrow> ustr \<Rightarrow> ustr \<times> bool \<times> ustr" where
  "invoke_body D r =
     (case find_sub (invoke_end_token D) r of
        Some i \<Rightarrow> (take i r, True, drop (i + length (invoke_end_token D)) r)
      | None \<Rightarrow> if r \<noteq> [] \<and> List.last r = 10 then (butlast r, False, [10]) else (r, False, []))"

definition match_invoke :: "dsml \<Rightarrow> ustr \<Rightarrow> ((ustr \<times> ustr \<times> bool) \<times> ustr) option" where
  "match_invoke D s =
     Option.bind (strip_prefix (invoke_start_token D) s) (\<lambda>r.
     Option.bind (attribute name_key r) (\<lambda>(v, r).
       (let r = dropWhile py_space r in
        case strip_prefix (codes ''/>'') r of
          Some r \<Rightarrow> Some ((py_strip v, [], True), r)
        | None \<Rightarrow>
            Option.bind (strip_prefix (codes ''>'') r) (\<lambda>r.
              (case invoke_body D r of (body, ended, rest) \<Rightarrow> Some ((py_strip v, body, ended), rest))))))"

text \<open>\<open>parameter_regex\<close> and \<open>partial_parameter_regex\<close>: name, kind and value.\<close>

definition param_header :: "dsml \<Rightarrow> ustr \<Rightarrow> ((ustr \<times> ustr) \<times> ustr) option" where
  "param_header D s =
     Option.bind (strip_prefix (opener (parameter_tag_name D)) s) (\<lambda>r.
     Option.bind (attribute name_key r) (\<lambda>(v, r).
     Option.bind (attribute string_key r) (\<lambda>(t, r).
       map_option (\<lambda>r. ((v, t), r)) (strip_prefix (codes ''>'') (dropWhile py_space r)))))"

definition match_param :: "dsml \<Rightarrow> ustr \<Rightarrow> ((ustr \<times> ustr \<times> ustr) \<times> ustr) option" where
  "match_param D s =
     Option.bind (param_header D s) (\<lambda>((v, t), r).
       let c = closer (parameter_tag_name D) in
       map_option (\<lambda>i. ((v, t, take i r), drop (i + length c) r)) (find_sub c r))"

text \<open>\<open>function_calls_regex\<close>.\<close>

definition match_section :: "dsml \<Rightarrow> ustr \<Rightarrow> (ustr \<times> ustr) option" where
  "match_section D s =
     Option.bind (strip_prefix (bot_token D) s) (\<lambda>r.
       map_option (\<lambda>i. (take i r, drop (i + length (eot_token D)) r)) (find_sub (eot_token D) r))"

text \<open>\<open>re.search\<close> and \<open>re.finditer\<close> (no matcher here matches the empty text).\<close>

fun re_search :: "(ustr \<Rightarrow> ('m \<times> ustr) option) \<Rightarrow> ustr \<Rightarrow> (nat \<times> 'm \<times> ustr) option" where
  "re_search f [] = map_option (\<lambda>(m, rest). (0, m, rest)) (f [])"
| "re_search f (c # s) =
     (case f (c # s) of
        Some (m, rest) \<Rightarrow> Some (0, m, rest)
      | None \<Rightarrow> map_option (\<lambda>(i, m). (Suc i, m)) (re_search f s))"

function re_finditer :: "(ustr \<Rightarrow> ('m \<times> ustr) option) \<Rightarrow> ustr \<Rightarrow> ('m \<times> ustr) list" where
  "re_finditer f s =
     (case re_search f s of
        None \<Rightarrow> []
      | Some (i, m, rest) \<Rightarrow> if length rest < length s then (m, rest) # re_finditer f rest else [(m, rest)])"
  by pat_completeness auto
termination by (relation "measure (\<lambda>(f, s). length s)") auto

text \<open>\<open>re.sub\<close> with the empty replacement, for a matcher that returns the text behind.\<close>

function re_delete :: "(ustr \<Rightarrow> ustr option) \<Rightarrow> ustr \<Rightarrow> ustr" where
  "re_delete f [] = []"
| "re_delete f (c # s) =
     (case f (c # s) of
        Some rest \<Rightarrow> if length rest \<le> length s then re_delete f rest else c # re_delete f s
      | None \<Rightarrow> c # re_delete f s)"
  by pat_completeness auto
termination by (relation "measure (\<lambda>(f, s). length s)") auto

declare re_finditer.simps [simp del]

section \<open>Parameters\<close>

text \<open>JSON as the detector uses it. \<open>Inl (ValueError _)\<close> is what its \<open>except\<close> clauses name; any other error passes.\<close>

record 'v json_ops =
  js_loads :: "ustr \<Rightarrow> py_error + 'v"
  js_partial_loads :: "ustr \<Rightarrow> py_error + 'v"
  js_str :: "ustr \<Rightarrow> 'v"
  js_dumps :: "(ustr \<times> 'v) list \<Rightarrow> ustr"
  js_common_prefix :: "ustr \<Rightarrow> ustr \<Rightarrow> ustr"

definition loads_or_text :: "'v json_ops \<Rightarrow> (ustr \<Rightarrow> py_error + 'v) \<Rightarrow> ustr \<Rightarrow> ustr \<Rightarrow> ustr \<Rightarrow> py_error + 'v" where
  "loads_or_text J loads kind input text =
     (if kind = codes ''true'' then Inr (js_str J text)
      else case loads input of
          Inl (ValueError _) \<Rightarrow> Inr (js_str J text)
        | Inl e \<Rightarrow> Inl e
        | Inr v \<Rightarrow> Inr v)"

fun collect_params :: "'v json_ops \<Rightarrow> (ustr \<times> 'v) list \<Rightarrow> (ustr \<times> ustr \<times> ustr) list \<Rightarrow> py_error + (ustr \<times> 'v) list" where
  "collect_params J acc [] = Inr acc"
| "collect_params J acc ((name, kind, value) # ps) =
     (case loads_or_text J (js_loads J) kind (py_strip value) (py_strip value) of
        Inl e \<Rightarrow> Inl e
      | Inr v \<Rightarrow> collect_params J (dict_set name v acc) ps)"

definition rstrip_tokens :: "ustr list \<Rightarrow> ustr \<Rightarrow> ustr" where
  "rstrip_tokens tokens s = foldl (\<lambda>s t. rstrip_by (\<lambda>c. c \<in> set t) s) s (rev tokens)"

definition prefix_parameter_end_call :: "dsml \<Rightarrow> ustr list" where
  "prefix_parameter_end_call D = [codes ''</'', dsml_token, parameter_tag_name D]"

definition prefix_invoke_end_call :: "dsml \<Rightarrow> ustr list" where
  "prefix_invoke_end_call D =
     (let n = invoke_tag_name D in [codes ''</'', dsml_token, take (length n - 3) n, slice_from n (- 3)])"

definition partial_param :: "'v json_ops \<Rightarrow> dsml \<Rightarrow> (ustr \<times> 'v) list \<Rightarrow> ustr \<Rightarrow> py_error + (ustr \<times> 'v) list" where
  "partial_param J D ps remaining =
     (case re_search (param_header D) (rstrip_tokens (prefix_parameter_end_call D) remaining) of
        Some (_, (name, kind), value) \<Rightarrow>
          (if value = [] then Inr ps
           else map_sum id (\<lambda>v. dict_set name v ps) (loads_or_text J (js_partial_loads J) kind value (py_strip value)))
      | None \<Rightarrow> Inr ps)"

text \<open>\<open>_parse_parameters_from_xml\<close>: a JSON body as it is, else the parameter tags as JSON.\<close>

definition parse_parameters :: "'v json_ops \<Rightarrow> dsml \<Rightarrow> ustr \<Rightarrow> bool \<Rightarrow> py_error + ustr" where
  "parse_parameters J D content allow_partial =
     (let stripped = py_strip content in
      if prefix (codes ''{'') stripped \<and> allow_partial then Inr (rstrip_tokens (prefix_invoke_end_call D) stripped)
      else if prefix (codes ''{'') stripped \<and> suffix (codes ''}'') stripped then Inr stripped
      else
        (let matches = re_finditer (match_param D) content in
         case collect_params J [] (map fst matches) of
           Inl e \<Rightarrow> Inl e
         | Inr ps \<Rightarrow>
             map_sum id (js_dumps J)
               (if allow_partial
                then partial_param J D ps (if matches = [] then content else snd (List.last matches))
                else Inr ps)))"

section \<open>State and results\<close>

record tool_item =
  tool_index :: int
  tool_name :: "ustr option"
  tool_parameters :: ustr

record parse_result =
  normal_text :: ustr
  tool_calls :: "tool_item list"

text \<open>\<open>dt_prev\<close> holds the \<open>"arguments"\<close> entries of \<open>prev_tool_call_arr\<close>.\<close>

record detector =
  dt_buffer :: ustr
  dt_prev :: "ustr option list"
  dt_tool_id :: int
  dt_name_sent :: bool
  dt_streamed :: "ustr list"
  dt_preamble_end :: int

definition new_detector :: detector where
  "new_detector = \<lparr>dt_buffer = [], dt_prev = [], dt_tool_id = - 1, dt_name_sent = False, dt_streamed = [], dt_preamble_end = - 1\<rparr>"

definition has_tool_call :: "dsml \<Rightarrow> ustr \<Rightarrow> bool" where
  "has_tool_call D text \<longleftrightarrow> contains_sub (bot_token D) text \<or> contains_sub (invoke_start_token D) text"

section \<open>One-shot\<close>

text \<open>The calls of one section; a raised error is the outer \<open>except\<close>.\<close>

fun section_calls ::
    "'v json_ops \<Rightarrow> dsml \<Rightarrow> (ustr \<Rightarrow> 'v \<Rightarrow> py_error + tool_item list) \<Rightarrow> (ustr \<times> ustr \<times> bool) list \<Rightarrow> py_error + tool_item list" where
  "section_calls J D base [] = Inr []"
| "section_calls J D base ((name, content, ended) # ms) =
     (case parse_parameters J D content False of
        Inl e \<Rightarrow> Inl e
      | Inr args \<Rightarrow>
          (case js_loads J args of
             Inl e \<Rightarrow> Inl e
           | Inr v \<Rightarrow>
               (case base name v of
                  Inl e \<Rightarrow> Inl e
                | Inr items \<Rightarrow> map_sum id (\<lambda>more'. items @ more') (section_calls J D base ms))))"

definition detect_and_parse ::
    "'v json_ops \<Rightarrow> dsml \<Rightarrow> (ustr \<Rightarrow> 'v \<Rightarrow> py_error + tool_item list) \<Rightarrow> ustr \<Rightarrow> parse_result" where
  "detect_and_parse J D base text =
     (case find_sub (bot_token D) text of
        None \<Rightarrow> \<lparr>normal_text = text, tool_calls = []\<rparr>
      | Some idx \<Rightarrow>
          (let normal = removesuffix [10, 10] (take idx text);
               sections = map fst (re_finditer (match_section D) text)
           in if sections = [] then \<lparr>normal_text = normal, tool_calls = []\<rparr>
              else (case section_calls J D base (concat (map (\<lambda>c. map fst (re_finditer (match_invoke D) c)) sections)) of
                  Inl e \<Rightarrow> \<lparr>normal_text = text, tool_calls = []\<rparr>
                | Inr calls \<Rightarrow> \<lparr>normal_text = normal, tool_calls = calls\<rparr>)))"

section \<open>Streaming\<close>

definition dsml_markers :: "ustr list" where
  "dsml_markers = [dsml_token, [60, 65372], [60, 47, 65372]]"

definition dsml_prefixes :: "ustr list" where
  "dsml_prefixes = [[60], [60, 65372], [60, 47], [60, 47, 65372]]"

definition potentially_dsml :: "ustr \<Rightarrow> bool" where
  "potentially_dsml text \<longleftrightarrow> list_ex (\<lambda>m. contains_sub m text) dsml_markers"

definition ends_with_prefix :: "ustr \<Rightarrow> bool" where
  "ends_with_prefix text \<longleftrightarrow> list_ex (\<lambda>p. suffix p (rstrip_by py_space text)) dsml_prefixes"

text \<open>\<open>while len(xs) <= i: xs.append(d)\<close>.\<close>

definition pad_to :: "'a \<Rightarrow> int \<Rightarrow> 'a list \<Rightarrow> 'a list" where
  "pad_to d i xs = xs @ replicate (nat (i + 1 - len xs)) d"

text \<open>The locals of the loop: \<open>current_text\<close>, \<open>preamble\<close>, \<open>all_calls\<close>, and the object.\<close>

record turn_state =
  current_text :: ustr
  preamble :: ustr
  all_calls :: "tool_item list"
  det :: detector

definition first_tool :: "dsml \<Rightarrow> nat \<Rightarrow> turn_state \<Rightarrow> turn_state" where
  "first_tool D start X =
     (if dt_tool_id (det X) \<noteq> - 1 then X
      else
        (let call_start = (case rfind_sub (bot_token D) (take start (current_text X)) of Some b \<Rightarrow> b | None \<Rightarrow> start)
         in X\<lparr>preamble := removesuffix [10, 10] (take call_start (current_text X)),
              det := (det X)\<lparr>dt_tool_id := 0, dt_prev := [], dt_streamed := [[]], dt_preamble_end := int call_start\<rparr>\<rparr>))"

definition pad_tools :: "turn_state \<Rightarrow> turn_state" where
  "pad_tools X =
     (let S = det X in X\<lparr>det := S\<lparr>dt_prev := pad_to None (dt_tool_id S) (dt_prev S), dt_streamed := pad_to [] (dt_tool_id S) (dt_streamed S)\<rparr>\<rparr>)"

definition send_name :: "ustr \<Rightarrow> bool \<Rightarrow> turn_state \<Rightarrow> turn_state" where
  "send_name name is_tool_end X =
     (if \<not> dt_name_sent (det X) \<and> is_tool_end
      then X\<lparr>all_calls := all_calls X @ [\<lparr>tool_index = dt_tool_id (det X), tool_name = Some name, tool_parameters = []\<rparr>],
             det := (det X)\<lparr>dt_name_sent := True\<rparr>\<rparr>
      else X)"

definition argument_diff :: "'v json_ops \<Rightarrow> detector \<Rightarrow> ustr \<Rightarrow> bool \<Rightarrow> ustr" where
  "argument_diff J S params is_tool_end =
     (let i = nat (dt_tool_id S); sent_len = length (dt_streamed S ! i) in
      if is_tool_end then drop sent_len params
      else (case dt_prev S ! i of
          Some prev \<Rightarrow>
            (let common = js_common_prefix J params prev in
             if params \<noteq> prev \<and> sent_len < length common then drop sent_len common else [])
        | None \<Rightarrow> []))"

definition send_arguments :: "'v json_ops \<Rightarrow> ustr \<Rightarrow> bool \<Rightarrow> turn_state \<Rightarrow> turn_state" where
  "send_arguments J params is_tool_end X =
     (let S = det X; i = nat (dt_tool_id S); diff = argument_diff J S params is_tool_end;
          X = (if diff \<noteq> [] \<and> dt_name_sent S
               then X\<lparr>all_calls := all_calls X @ [\<lparr>tool_index = dt_tool_id S, tool_name = None, tool_parameters = diff\<rparr>],
                      det := S\<lparr>dt_streamed := (dt_streamed S)[i := dt_streamed S ! i @ diff]\<rparr>\<rparr>
               else X)
      in X\<lparr>det := (det X)\<lparr>dt_prev := (dt_prev (det X))[i := Some params]\<rparr>\<rparr>)"

definition next_tool :: "ustr \<Rightarrow> turn_state \<Rightarrow> turn_state" where
  "next_tool rest X =
     X\<lparr>current_text := rest,
       det := (det X)\<lparr>dt_buffer := rest, dt_preamble_end := 0, dt_tool_id := dt_tool_id (det X) + 1, dt_name_sent := False\<rparr>\<rparr>"

text \<open>One turn for a match: an error, or whether the loop goes on.\<close>

definition invoke_turn ::
    "'v json_ops \<Rightarrow> dsml \<Rightarrow> nat \<Rightarrow> ustr \<times> ustr \<times> bool \<Rightarrow> ustr \<Rightarrow> turn_state \<Rightarrow> (py_error + bool) \<times> turn_state" where
  "invoke_turn J D start m rest X =
     (case m of (name, content, is_tool_end) \<Rightarrow>
        (let X = send_name name is_tool_end (pad_tools (first_tool D start X)) in
         case parse_parameters J D content (\<not> is_tool_end) of
           Inl e \<Rightarrow> (Inl e, X)
         | Inr params \<Rightarrow>
             (let X = send_arguments J params is_tool_end X in
              if is_tool_end then (Inr True, next_tool rest X) else (Inr False, X))))"

lemma invoke_turn_text: "invoke_turn J D i m rest X = (Inr True, X') \<Longrightarrow> current_text X' = rest"
  by (auto simp: invoke_turn_def Let_def next_tool_def split: prod.splits sum.splits if_splits)

lemma strip_prefix_length: "strip_prefix p s = Some r \<Longrightarrow> length s = length p + length r"
  by (auto simp: strip_prefix_def dest: prefix_length_le split: if_splits)

lemma attribute_length: "attribute k s = Some (v, r) \<Longrightarrow> length r < length s"
proof -
  assume "attribute k s = Some (v, r)"
  then obtain u w where u: "spaces1 s = Some u" "strip_prefix k u = Some w" "quoted w = Some (v, r)"
    by (auto simp: attribute_def bind_eq_Some_conv)
  have "length u < length s" using u(1) length_dropWhile_le [of py_space "tl s"]
    by (auto simp: spaces1_def split: list.splits if_splits)
  moreover have "length r < length w" using u(3) length_dropWhile_le [of "\<lambda>c. c \<noteq> 34" w]
    by (cases "dropWhile (\<lambda>c. c \<noteq> 34) w") (auto simp: quoted_def Let_def split: if_splits)
  ultimately show ?thesis using strip_prefix_length [OF u(2)] by linarith
qed

lemma invoke_body_length: "invoke_body D r = (body, ended, rest) \<Longrightarrow> length rest \<le> length r"
  by (cases r) (auto simp: invoke_body_def split: option.splits if_splits)

lemma match_invoke_length: "match_invoke D s = Some (m, rest) \<Longrightarrow> length rest < length s"
proof -
  assume "match_invoke D s = Some (m, rest)"
  then obtain r v r1 where r: "strip_prefix (invoke_start_token D) s = Some r" "attribute name_key r = Some (v, r1)"
    "(case strip_prefix (codes ''/>'') (dropWhile py_space r1) of Some r \<Rightarrow> Some ((py_strip v, [], True), r)
        | None \<Rightarrow> Option.bind (strip_prefix (codes ''>'') (dropWhile py_space r1)) (\<lambda>r.
              (case invoke_body D r of (body, ended, rest) \<Rightarrow> Some ((py_strip v, body, ended), rest)))) = Some (m, rest)"
    by (auto simp: match_invoke_def bind_eq_Some_conv Let_def)
  have "length rest \<le> length r1"
  proof (cases "strip_prefix (codes ''/>'') (dropWhile py_space r1)")
    case None
    then obtain y where y: "strip_prefix (codes ''>'') (dropWhile py_space r1) = Some y"
      "(case invoke_body D y of (body, ended, rest) \<Rightarrow> Some ((py_strip v, body, ended), rest)) = Some (m, rest)"
      using r(3) by (auto simp: bind_eq_Some_conv)
    obtain b e where "invoke_body D y = (b, e, rest)" using y(2) by (auto split: prod.splits)
    then show ?thesis using strip_prefix_length [OF y(1)] invoke_body_length length_dropWhile_le [of py_space r1] by fastforce
  next
    case (Some y)
    then show ?thesis using r(3) strip_prefix_length [OF Some] length_dropWhile_le [of py_space r1] by auto
  qed
  then show ?thesis using strip_prefix_length [OF r(1)] attribute_length [OF r(2)] by linarith
qed

lemma re_search_length:
  assumes "\<And>s m rest. f s = Some (m, rest) \<Longrightarrow> length rest < length s"
  shows "re_search f s = Some (i, m, rest) \<Longrightarrow> length rest < length s"
proof (induction s arbitrary: i)
  case (Cons c s)
  show ?case
  proof (cases "f (c # s)")
    case None
    then obtain j where "re_search f s = Some (j, m, rest)" using Cons.prems by auto
    then show ?thesis using Cons.IH by fastforce
  qed (use Cons.prems assms [of "c # s" m rest] in auto)
qed (use assms [of "[]"] in auto)

function detector_loop :: "'v json_ops \<Rightarrow> dsml \<Rightarrow> turn_state \<Rightarrow> py_error option \<times> turn_state" where
  "detector_loop J D X =
     (case re_search (match_invoke D) (current_text X) of
        None \<Rightarrow> (None, X)
      | Some (i, m, rest) \<Rightarrow>
          (case invoke_turn J D i m rest X of
             (Inl e, X') \<Rightarrow> (Some e, X')
           | (Inr False, X') \<Rightarrow> (None, X')
           | (Inr True, X') \<Rightarrow> detector_loop J D X'))"
  by pat_completeness auto
termination
proof (relation "measure (\<lambda>(J, D, X). length (current_text X))")
  fix J :: "'v json_ops" and D X y i y' m rest e X' b
  assume a: "re_search (match_invoke D) (current_text X) = Some y" "(i, y') = y" "(m, rest) = y'"
    "(e, X') = invoke_turn J D i m rest X" "e = Inr b" "b = True"
  have "re_search (match_invoke D) (current_text X) = Some (i, m, rest)" using a(1-3) by simp
  moreover have "invoke_turn J D i m rest X = (Inr True, X')" using a(4-6) by simp
  moreover have "length rest < length (current_text X)" by (rule re_search_length [OF match_invoke_length calculation(1)])
  ultimately show "((J, D, X'), J, D, X) \<in> measure (\<lambda>(J, D, X). length (current_text X))"
    using invoke_turn_text [of J D i m rest X X'] by simp
qed simp

declare detector_loop.simps [simp del]

definition parse_streaming_increment ::
    "'v json_ops \<Rightarrow> dsml \<Rightarrow> ustr \<Rightarrow> detector \<Rightarrow> parse_result \<times> detector" where
  "parse_streaming_increment J D new_text S =
     (let text = dt_buffer S @ new_text in
      if \<not> has_tool_call D text \<and> \<not> potentially_dsml text \<and> \<not> ends_with_prefix text
      then
        (let text = fold (\<lambda>e text. if contains_sub e text then replace_all e [] text else text)
               [eot_token D, invoke_end_token D] text
         in (\<lparr>normal_text = text, tool_calls = []\<rparr>, S\<lparr>dt_buffer := []\<rparr>))
      else
        (case detector_loop J D \<lparr>current_text = text, preamble = [], all_calls = [], det = S\<lparr>dt_buffer := text\<rparr>\<rparr> of
           (None, X) \<Rightarrow> (\<lparr>normal_text = preamble X, tool_calls = all_calls X\<rparr>, det X)
         | (Some e, X) \<Rightarrow>
             (let text = (if prefix (preamble X) (current_text X) then current_text X else preamble X @ current_text X)
              in (\<lparr>normal_text = text, tool_calls = []\<rparr>, (det X)\<lparr>dt_buffer := []\<rparr>))))"

section \<open>The end of the stream\<close>

text \<open>\<open></?|DSML|[^>]*>\<close> and \<open><|DSML[^>]*>?\<close>, with full-width bars.\<close>

definition match_tag :: "ustr \<Rightarrow> ustr option" where
  "match_tag s =
     Option.bind (strip_prefix [60] s) (\<lambda>r.
       let r = (case strip_prefix [47] r of Some r' \<Rightarrow> r' | None \<Rightarrow> r) in
       Option.bind (strip_prefix dsml_token r) (\<lambda>r. strip_prefix [62] (dropWhile (\<lambda>c. c \<noteq> 62) r)))"

definition match_open_tag :: "ustr \<Rightarrow> ustr option" where
  "match_open_tag s =
     map_option (\<lambda>r. tl (dropWhile (\<lambda>c. c \<noteq> 62) r)) (strip_prefix (60 # 65372 # codes ''DSML'') s)"

definition clean_leftover :: "dsml \<Rightarrow> ustr \<Rightarrow> ustr" where
  "clean_leftover D leftover =
     (let leftover = re_delete match_open_tag (re_delete match_tag leftover);
          leftover = fold (\<lambda>tok s. replace_all tok [] s)
            [eot_token D, invoke_end_token D, bot_token D, invoke_start_token D, closer (codes ''calls''), opener (codes ''calls'') @ codes ''>'']
            leftover
      in replace_all dsml_token [] leftover)"

definition finish :: "dsml \<Rightarrow> detector \<Rightarrow> parse_result \<times> detector" where
  "finish D S =
     (let leftover = (if 0 \<le> dt_preamble_end S
            then (if dt_preamble_end S < len (dt_buffer S) then slice_from (dt_buffer S) (dt_preamble_end S) else [])
            else dt_buffer S);
          S = S\<lparr>dt_buffer := [], dt_preamble_end := - 1, dt_tool_id := - 1, dt_name_sent := False, dt_prev := [], dt_streamed := []\<rparr>;
          flushed = (if leftover = [] then [] else clean_leftover D leftover)
      in (\<lparr>normal_text = (if py_strip flushed \<noteq> [] then flushed else []), tool_calls = []\<rparr>, S))"

text \<open>\<open>structure_info\<close>: what a call of a tool begins and ends with.\<close>

definition structure_begin :: "dsml \<Rightarrow> ustr \<Rightarrow> ustr" where
  "structure_begin D name = invoke_start_token D @ codes '' name='' @ [34] @ name @ [34] @ codes ''>''"

definition structure_end :: "dsml \<Rightarrow> ustr" where
  "structure_end D = invoke_end_token D"

section \<open>Streams\<close>

text \<open>A stream of chunks through the detector: the results and the detector behind them.\<close>

fun feed :: "'v json_ops \<Rightarrow> dsml \<Rightarrow> ustr list \<Rightarrow> detector \<Rightarrow> parse_result list \<times> detector" where
  "feed J D [] S = ([], S)"
| "feed J D (c # cs) S =
     (case parse_streaming_increment J D c S of (r, S') \<Rightarrow>
       (case feed J D cs S' of (rs, S'') \<Rightarrow> (r # rs, S'')))"

definition emitted_text :: "parse_result list \<Rightarrow> ustr" where
  "emitted_text rs = concat (map normal_text rs)"

definition emitted_calls :: "parse_result list \<Rightarrow> tool_item list" where
  "emitted_calls rs = concat (map tool_calls rs)"

end
