(* ===== verification/DsmlFacts.thy ===== *)
theory DsmlFacts
  imports DsmlDetector
begin

text \<open>
  What a stream means to the detector: \<open>complete_calls\<close> reads the finished calls off a whole text, and feeding the
  text in any chunks yields exactly those. The key is that an invoke found in a text is found in every
  continuation of it.
\<close>

section \<open>Searching\<close>

lemma find_sub_append: "find_sub p xs = Some i \<Longrightarrow> find_sub p (xs @ ys) = Some i"
proof (induction xs arbitrary: i)
  case (Cons x xs)
  show ?case
  proof (cases "prefix p (x # xs)")
    case True
    then have "prefix p (x # xs @ ys)" by (metis append_Cons prefix_prefix)
    then show ?thesis using True Cons.prems by simp
  next
    case False
    then obtain j where j: "find_sub p xs = Some j" "i = Suc j" using Cons.prems by auto
    have "\<not> prefix p (x # xs @ ys)"
    proof
      assume "prefix p (x # xs @ ys)"
      then have "length (x # xs) < length p" using False by (metis append_Cons not_le_imp_less prefix_length_prefix prefixI)
      moreover have "length p \<le> length xs" using j(1)
        by (induction xs arbitrary: j) (auto dest: prefix_length_le split: if_splits)
      ultimately show False by simp
    qed
    then show ?thesis using Cons.IH [OF j(1)] j(2) by simp
  qed
qed (cases ys; simp split: if_splits)

lemma find_sub_None: "find_sub p xs = None \<longleftrightarrow> \<not> contains_sub p xs"
  by (induction xs) auto

text \<open>A pattern whose first character does not come again cannot reach over the start of another one.\<close>

lemma find_sub_skip:
  assumes "\<not> contains_sub p xs" "p = c # q" "c \<notin> set q" "ys \<noteq> [] \<longrightarrow> hd ys = c"
  shows "find_sub p (xs @ ys) = map_option ((+) (length xs)) (find_sub p ys)"
  using assms(1)
proof (induction xs)
  case (Cons x xs)
  have "\<not> prefix p (x # xs @ ys)"
  proof
    assume a: "prefix p (x # xs @ ys)"
    have q: "prefix q (xs @ ys)" "\<not> prefix q xs" using a Cons.prems assms(2) by auto
    then have l: "length xs < length q" using prefix_length_prefix [OF q(1), of xs] by (metis linorder_not_less prefixI)
    obtain zs where z: "xs @ ys = q @ zs" using q(1) by (auto simp: prefix_def)
    have "ys \<noteq> []" using l z by (metis append_Nil2 length_append less_le_not_le trans_le_add1 order_refl)
    then have "q ! length xs = hd ys" using l arg_cong [OF z, of "\<lambda>l. l ! length xs"] by (simp add: nth_append hd_conv_nth)
    then show False using assms(3,4) l \<open>ys \<noteq> []\<close> nth_mem by metis
  qed
  then show ?case using Cons by (simp add: option.map_comp comp_def)
qed (simp add: option.map_ident fun_eq_iff option.map_id0 [unfolded id_def] map_option_case split: option.splits)

section \<open>Openers\<close>

text \<open>The text of an opener up to and with its closing bracket.\<close>

definition invoke_open :: "dsml \<Rightarrow> ustr \<Rightarrow> ustr \<Rightarrow> ustr \<Rightarrow> ustr \<Rightarrow> ustr" where
  "invoke_open D sp v sp' gt = invoke_start_token D @ sp @ name_key @ v @ [34] @ sp' @ gt"

definition opens :: "ustr \<Rightarrow> ustr \<Rightarrow> ustr \<Rightarrow> ustr \<Rightarrow> bool" where
  "opens sp v sp' gt \<longleftrightarrow> sp \<noteq> [] \<and> list_all py_space sp \<and> v \<noteq> [] \<and> 34 \<notin> set v \<and> list_all py_space sp' \<and> gt \<in> {[47, 62], [62]}"

definition tags_ok :: "dsml \<Rightarrow> bool" where
  "tags_ok D \<longleftrightarrow> set (invoke_tag_name D) \<inter> {34, 60} = {}"

lemma strip_prefix_append [simp]: "strip_prefix p (p @ r) = Some r"
  by (simp add: strip_prefix_def)

lemma strip_prefixD: "strip_prefix p s = Some r \<Longrightarrow> s = p @ r"
  by (auto simp: strip_prefix_def prefix_def split: if_splits)

lemma takeWhile_stop: "list_all P xs \<Longrightarrow> \<not> P y \<Longrightarrow> takeWhile P (xs @ y # ys) = xs \<and> dropWhile P (xs @ y # ys) = y # ys"
  by (induction xs) auto

lemma dropWhile_split: "\<exists>xs. s = xs @ dropWhile P s \<and> list_all P xs"
  by (metis list_all_iff set_takeWhileD takeWhile_dropWhile_id)

lemma not_space [simp]: "\<not> py_space 110" "\<not> py_space 47" "\<not> py_space 62" "\<not> py_space 60" "\<not> py_space 34"
  by (simp_all add: py_space_def)

lemma name_key_eq: "name_key = [110, 97, 109, 101, 61, 34]"
  by (simp add: name_key_def codes_def)

lemma gt_codes: "codes ''/>'' = [47, 62]" "codes ''>'' = [62]" "codes ''<'' = [60]" "codes ''</'' = [60, 47]"
  by (simp_all add: codes_def)

lemma spaces1_form: "sp \<noteq> [] \<Longrightarrow> list_all py_space sp \<Longrightarrow> \<not> py_space c \<Longrightarrow> spaces1 (sp @ c # r) = Some (c # r)"
  using takeWhile_stop [of py_space "tl sp" c r] by (cases sp) (auto simp: spaces1_def)

lemma spaces1D: "spaces1 s = Some r \<Longrightarrow> \<exists>sp. s = sp @ r \<and> sp \<noteq> [] \<and> list_all py_space sp"
proof -
  assume "spaces1 s = Some r"
  then obtain c u where c: "s = c # u" "py_space c" "r = dropWhile py_space u"
    by (auto simp: spaces1_def split: list.splits if_splits)
  obtain xs where "u = xs @ r" "list_all py_space xs" using dropWhile_split [of u py_space] c(3) by auto
  then show ?thesis using c by (intro exI [of _ "c # xs"]) simp
qed

lemma quoted_form: "v \<noteq> [] \<Longrightarrow> 34 \<notin> set v \<Longrightarrow> quoted (v @ 34 # r) = Some (v, r)"
proof -
  assume v: "v \<noteq> []" "34 \<notin> set v"
  have "list_all (\<lambda>c. c \<noteq> 34) v" using v(2) by (auto simp: list_all_iff)
  note e = takeWhile_stop [OF this, of 34 r]
  show ?thesis using e v(1) by (simp add: quoted_def Let_def)
qed

lemma quotedD: "quoted s = Some (v, r) \<Longrightarrow> s = v @ 34 # r \<and> v \<noteq> [] \<and> 34 \<notin> set v"
proof -
  assume "quoted s = Some (v, r)"
  then have v: "v = takeWhile (\<lambda>c. c \<noteq> 34) s" "v \<noteq> []" "dropWhile (\<lambda>c. c \<noteq> 34) s \<noteq> []" "r = tl (dropWhile (\<lambda>c. c \<noteq> 34) s)"
    by (auto simp: quoted_def Let_def split: if_splits)
  have "hd (dropWhile (\<lambda>c. c \<noteq> 34) s) = 34" using hd_dropWhile [OF v(3)] by simp
  then have "dropWhile (\<lambda>c. c \<noteq> 34) s = 34 # r" using v(3,4) by (cases "dropWhile (\<lambda>c. c \<noteq> 34) s") auto
  then have "s = v @ 34 # r" using v(1) takeWhile_dropWhile_id [of "\<lambda>c. c \<noteq> 34" s] by simp
  moreover have "34 \<notin> set v" using v(1) by (auto dest: set_takeWhileD)
  ultimately show ?thesis using v(2) by simp
qed

lemma match_form:
  assumes "opens sp v sp' gt"
  shows "match_invoke D (invoke_open D sp v sp' gt @ r) =
    (if gt = [47, 62] then Some ((py_strip v, [], True), r)
     else (case invoke_body D r of (b, e, rest) \<Rightarrow> Some ((py_strip v, b, e), rest)))"
proof -
  have a: "attribute name_key (sp @ name_key @ v @ 34 # u) = Some (v, u)" for u
  proof -
    have "spaces1 (sp @ name_key @ v @ 34 # u) = Some (name_key @ v @ 34 # u)"
      using assms spaces1_form [of sp 110] by (simp add: opens_def name_key_eq)
    then show ?thesis using assms by (simp add: attribute_def opens_def quoted_form)
  qed
  have d: "dropWhile py_space (sp' @ 47 # u) = 47 # u" "dropWhile py_space (sp' @ 62 # u) = 62 # u" for u
    using assms takeWhile_stop [of py_space sp'] by (auto simp: opens_def)
  show ?thesis using assms
    by (auto simp: match_invoke_def invoke_open_def a d gt_codes Let_def opens_def strip_prefix_def)
qed

lemma match_invokeD:
  assumes "match_invoke D s = Some x"
  shows "\<exists>sp v sp' gt r. opens sp v sp' gt \<and> s = invoke_open D sp v sp' gt @ r"
proof -
  obtain r v r1 where r: "strip_prefix (invoke_start_token D) s = Some r" "attribute name_key r = Some (v, r1)"
    "(case strip_prefix (codes ''/>'') (dropWhile py_space r1) of Some r \<Rightarrow> Some ((py_strip v, [], True), r)
        | None \<Rightarrow> Option.bind (strip_prefix (codes ''>'') (dropWhile py_space r1)) (\<lambda>r.
              (case invoke_body D r of (body, ended, rest) \<Rightarrow> Some ((py_strip v, body, ended), rest)))) = Some x"
    using assms by (auto simp: match_invoke_def bind_eq_Some_conv Let_def)
  obtain sp where sp: "r = sp @ name_key @ v @ 34 # r1" "sp \<noteq> []" "list_all py_space sp" "v \<noteq> []" "34 \<notin> set v"
    using r(2) by (auto simp: attribute_def bind_eq_Some_conv dest!: spaces1D quotedD strip_prefixD)
  define w where "w = dropWhile py_space r1"
  obtain sp' where sp': "r1 = sp' @ w" "list_all py_space sp'" using dropWhile_split [of r1 py_space] w_def by blast
  obtain gt u where g: "w = gt @ u" "gt \<in> {[47, 62], [62]}"
    using r(3) unfolding w_def [symmetric] by (auto simp: gt_codes bind_eq_Some_conv dest!: strip_prefixD split: option.splits)
  have "s = invoke_open D sp v sp' gt @ u"
    unfolding strip_prefixD [OF r(1)] sp(1) sp'(1) g(1) invoke_open_def by simp
  moreover have "opens sp v sp' gt" using sp sp' g(2) by (simp add: opens_def)
  ultimately show ?thesis by blast
qed

section \<open>An invoke is found in every continuation\<close>

lemma invoke_body_append: "invoke_body D r = (b, True, rest) \<Longrightarrow> invoke_body D (r @ t) = (b, True, rest @ t)"
proof -
  assume a: "invoke_body D r = (b, True, rest)"
  then obtain i where i: "find_sub (invoke_end_token D) r = Some i" "b = take i r" "rest = drop (i + length (invoke_end_token D)) r"
    by (auto simp: invoke_body_def split: option.splits if_splits)
  have "i + length (invoke_end_token D) \<le> length r" using i(1)
    by (induction r arbitrary: i) (auto dest: prefix_length_le split: if_splits)
  then show ?thesis using i find_sub_append [OF i(1), of t] by (simp add: invoke_body_def)
qed

lemma match_complete_append:
  assumes "match_invoke D s = Some ((n, b, True), rest)"
  shows "match_invoke D (s @ t) = Some ((n, b, True), rest @ t)"
proof -
  obtain sp v sp' gt r where m: "opens sp v sp' gt" "s = invoke_open D sp v sp' gt @ r" using match_invokeD [OF assms] by blast
  show ?thesis
  proof (cases "gt = [47, 62]")
    case True
    then show ?thesis using assms match_form [OF m(1), of D r] match_form [OF m(1), of D "r @ t"] by (simp add: m(2))
  next
    case False
    obtain b' e' rest' where i: "invoke_body D r = (b', e', rest')" by (metis surj_pair)
    have "py_strip v = n" "invoke_body D r = (b, True, rest)"
      using assms match_form [OF m(1), of D r] False by (simp_all add: m(2) i)
    then show ?thesis using match_form [OF m(1), of D "r @ t"] False invoke_body_append [of D r b rest t] by (simp add: m(2))
  qed
qed

text \<open>In the middle of an opener no other one can begin.\<close>

lemma open_parts:
  assumes "opens sp v sp' gt" "tags_ok D"
  shows "\<exists>A B. invoke_open D sp v sp' gt = A @ 34 # v @ 34 # B \<and> A = 60 # tl A \<and> 60 \<notin> set (tl A) \<and> 34 \<notin> set A \<and> 34 \<notin> set B"
proof -
  let ?A = "invoke_start_token D @ sp @ [110, 97, 109, 101, 61]"
  have st: "invoke_start_token D = 60 # dsml_token @ invoke_tag_name D" by (simp add: invoke_start_token_def opener_def gt_codes)
  have sp: "60 \<notin> set sp" "34 \<notin> set sp" "34 \<notin> set sp'"
    using assms(1) not_space(4,5) by (auto simp: opens_def list_all_iff)
  have d: "60 \<notin> set dsml_token" "34 \<notin> set dsml_token" by (auto simp: dsml_token_def codes_def)
  have "invoke_open D sp v sp' gt = ?A @ 34 # v @ 34 # (sp' @ gt)" by (simp add: invoke_open_def name_key_eq)
  moreover have "?A = 60 # tl ?A" "60 \<notin> set (tl ?A)" "34 \<notin> set ?A"
    using sp d assms(2) by (auto simp: st tags_ok_def)
  moreover have "34 \<notin> set (sp' @ gt)" using sp assms(1) by (auto simp: opens_def)
  ultimately show ?thesis by blast
qed

lemma no_match_inside:
  assumes "tags_ok D" "match_invoke D u = None" "match_invoke D (u @ t) = Some x" "0 < p"
  shows "match_invoke D (drop p u) = None"
proof (rule ccontr)
  assume "match_invoke D (drop p u) \<noteq> None"
  then obtain sp0 v0 sp0' gt0 r0 where in_u: "opens sp0 v0 sp0' gt0" "drop p u = invoke_open D sp0 v0 sp0' gt0 @ r0"
    using match_invokeD by blast
  obtain sp v sp' gt r where m: "opens sp v sp' gt" "u @ t = invoke_open D sp v sp' gt @ r" using match_invokeD [OF assms(3)] by blast
  let ?h = "invoke_open D sp v sp' gt"
  have "length u < length ?h"
  proof (rule ccontr)
    assume "\<not> length u < length ?h"
    then have "prefix ?h u" using m(2) by (metis linorder_not_less prefixI prefix_length_prefix)
    then obtain r' where "u = ?h @ r'" by (auto simp: prefix_def)
    then show False using assms(2) match_form [OF m(1), of D r'] by (simp split: if_splits prod.splits)
  qed
  then have "prefix u ?h" using m(2) by (metis less_or_eq_imp_le prefixI prefix_length_prefix)
  then obtain w where w: "?h = u @ w" by (auto simp: prefix_def)
  obtain A B where AB: "?h = A @ 34 # v @ 34 # B" "A = 60 # tl A" "60 \<notin> set (tl A)" "34 \<notin> set A" "34 \<notin> set B"
    using open_parts [OF m(1) assms(1)] by blast
  obtain A0 B0 where AB0: "invoke_open D sp0 v0 sp0' gt0 = A0 @ 34 # v0 @ 34 # B0" "A0 = 60 # tl A0"
    using open_parts [OF in_u(1) assms(1)] by blast
  have pu: "p < length u" using in_u(2) AB0(1) by (cases "p < length u") auto
  have d: "drop p ?h = A0 @ 34 # v0 @ 34 # B0 @ r0 @ w" using in_u(2) AB0(1) pu w by simp
  have "34 \<notin> set v" using m(1) by (simp add: opens_def)
  then have c: "count_list (drop (Suc (length A)) ?h) 34 = 1" using AB(1,5) by (simp add: count_notin)
  have two: "2 \<le> count_list (drop p ?h) 34" unfolding d by simp
  have "p \<le> length A"
  proof (rule ccontr)
    assume "\<not> p \<le> length A"
    then have "drop p ?h = drop (p - Suc (length A)) (drop (Suc (length A)) ?h)" by simp
    then have "count_list (drop p ?h) 34 \<le> 1"
      using c by (metis append_take_drop_id count_list_append le_add2)
    then show False using two by simp
  qed
  moreover have "?h ! p = 60" using d AB0(2) hd_drop_conv_nth [of p ?h] pu w by (metis append_Cons length_append list.sel(1) trans_less_add1)
  ultimately have "p < length A" "A ! p = 60" using AB(1) by (cases "p = length A"; simp add: nth_append)+
  then have "p - 1 < length (tl A)" "tl A ! (p - 1) = 60" using assms(4) by (simp_all add: nth_tl)
  then show False using AB(3) nth_mem by metis
qed

lemma re_search_found: "re_search f s = Some (i, m, rest) \<Longrightarrow> f (drop i s) = Some (m, rest)"
  by (induction s arbitrary: i) (auto split: option.splits)

lemma search_append:
  assumes "tags_ok D" "re_search (match_invoke D) s = Some (i, (n, b, True), rest)"
  shows "re_search (match_invoke D) (s @ t) = Some (i, (n, b, True), rest @ t)"
  using assms(2)
proof (induction s arbitrary: i)
  case Nil
  then show ?case by (auto simp: match_invoke_def strip_prefix_def invoke_start_token_def opener_def gt_codes bind_eq_Some_conv)
next
  case (Cons c s)
  show ?case
  proof (cases "match_invoke D (c # s)")
    case None
    then obtain j where j: "re_search (match_invoke D) s = Some (j, (n, b, True), rest)" "i = Suc j" using Cons.prems by auto
    have "match_invoke D (drop (Suc j) (c # s)) \<noteq> None" using re_search_found [OF j(1)] by simp
    then have "match_invoke D ((c # s) @ t) = None" using no_match_inside [OF assms(1) None] by (metis not_Some_eq zero_less_Suc)
    then show ?thesis using Cons.IH [OF j(1)] j(2) by simp
  next
    case (Some m)
    then have "m = ((n, b, True), rest)" "i = 0" using Cons.prems by auto
    then show ?thesis using match_complete_append [of D "c # s" n b rest t] Some by simp
  qed
qed

section \<open>The finished calls of a text\<close>

definition next_call :: "dsml \<Rightarrow> ustr \<Rightarrow> ((ustr \<times> ustr) \<times> ustr) option" where
  "next_call D s =
     (case re_search (match_invoke D) s of
        Some (i, (n, b, ended), rest) \<Rightarrow> if ended then Some ((n, b), rest) else None
      | None \<Rightarrow> None)"

lemma next_call_length: "next_call D s = Some (x, rest) \<Longrightarrow> length rest < length s"
  unfolding next_call_def
  by (auto intro: re_search_length [OF match_invoke_length] split: option.splits if_splits)

lemma match_invoke_Nil: "match_invoke D [] = None"
  by (simp add: match_invoke_def strip_prefix_def invoke_start_token_def opener_def gt_codes)

lemma next_call_append: "tags_ok D \<Longrightarrow> next_call D s = Some (x, rest) \<Longrightarrow> next_call D (s @ t) = Some (x, rest @ t)"
  using search_append by (auto simp: next_call_def split: option.splits if_splits)

function complete_calls :: "dsml \<Rightarrow> ustr \<Rightarrow> (ustr \<times> ustr) list" where
  "complete_calls D s = (case next_call D s of Some (x, rest) \<Rightarrow> x # complete_calls D rest | None \<Rightarrow> [])"
  by pat_completeness auto
termination by (relation "measure (\<lambda>(D, s). length s)") (auto dest: next_call_length)

lemma complete_calls_Nil [simp]: "complete_calls D [] = []"
  by (simp add: complete_calls.simps [of D "[]"] next_call_def match_invoke_Nil)

text \<open>What is left of a text behind its finished calls.\<close>

function leftover_text :: "dsml \<Rightarrow> ustr \<Rightarrow> ustr" where
  "leftover_text D s = (case next_call D s of Some (x, rest) \<Rightarrow> leftover_text D rest | None \<Rightarrow> s)"
  by pat_completeness auto
termination by (relation "measure (\<lambda>(D, s). length s)") (auto dest: next_call_length)

declare complete_calls.simps [simp del] leftover_text.simps [simp del]

lemma complete_calls_append:
  assumes "tags_ok D"
  shows "complete_calls D (s @ t) = complete_calls D s @ complete_calls D (leftover_text D s @ t)
    \<and> complete_calls D (leftover_text D s) = []"
  using assms
proof (induction D s rule: complete_calls.induct)
  case (1 D s)
  show ?case
  proof (cases "next_call D s")
    case None
    then have "complete_calls D s = []" "leftover_text D s = s" by (simp_all add: complete_calls.simps [of D s] leftover_text.simps [of D s])
    then show ?thesis by simp
  next
    case (Some y)
    obtain x rest where y: "y = (x, rest)" by (cases y)
    note n = Some [unfolded y]
    have "complete_calls D (s @ t) = x # complete_calls D (rest @ t)" "complete_calls D s = x # complete_calls D rest"
      "leftover_text D s = leftover_text D rest"
      using next_call_append [OF 1(2) n, of t]
      by (simp_all add: complete_calls.simps [of D s] complete_calls.simps [of D "s @ t"] leftover_text.simps [of D s] n)
    then show ?thesis using 1(1) [OF Some y [symmetric] 1(2)] by simp
  qed
qed

text \<open>Prose that holds no part of an opener is passed over. A match begins with \<open><\<close> and a full-width bar.\<close>

definition bar_start :: "(ustr \<Rightarrow> ('m \<times> ustr) option) \<Rightarrow> bool" where
  "bar_start f \<longleftrightarrow> (\<forall>s. f s \<noteq> None \<longrightarrow> prefix [60, 65372] s)"

lemma bar_start_invoke: "bar_start (match_invoke D)"
  by (auto simp: bar_start_def match_invoke_def invoke_start_token_def opener_def dsml_token_def gt_codes bind_eq_Some_conv dest!: strip_prefixD)

lemma search_prose:
  assumes "bar_start f" "\<not> contains_sub [60, 65372] u" "u = [] \<or> List.last u \<noteq> 60 \<or> t = [] \<or> hd t \<noteq> 65372"
  shows "map_option snd (re_search f (u @ t)) = map_option snd (re_search f t)"
  using assms(2,3)
proof (induction u)
  case (Cons c u)
  have "f (c # u @ t) = None"
  proof (rule ccontr)
    assume "f (c # u @ t) \<noteq> None"
    then obtain r where "c # u @ t = [60, 65372] @ r" using assms(1) by (auto simp: bar_start_def prefix_def)
    then show False using Cons.prems by (cases u) (auto simp: prefix_def)
  qed
  moreover have "\<not> contains_sub [60, 65372] u" "u = [] \<or> List.last u \<noteq> 60 \<or> t = [] \<or> hd t \<noteq> 65372"
    using Cons.prems by (auto split: if_splits)
  ultimately show ?case using Cons.IH by (simp add: option.map_comp comp_def case_prod_beta)
qed simp

lemma next_call_cong:
  "map_option snd (re_search (match_invoke D) s) = map_option snd (re_search (match_invoke D) t) \<Longrightarrow> next_call D s = next_call D t"
  by (cases "re_search (match_invoke D) s"; cases "re_search (match_invoke D) t") (auto simp: next_call_def)

lemma prose_calls:
  assumes "\<not> contains_sub [60, 65372] u" "u = [] \<or> List.last u \<noteq> 60 \<or> t = [] \<or> hd t \<noteq> 65372"
  shows "complete_calls D (u @ t) = complete_calls D t"
  using next_call_cong [OF search_prose [OF bar_start_invoke assms]] by (metis complete_calls.simps)

section \<open>The loop\<close>

definition arguments_of :: "'v json_ops \<Rightarrow> dsml \<Rightarrow> ustr \<Rightarrow> ustr" where
  "arguments_of J D body = (case parse_parameters J D body False of Inr args \<Rightarrow> args | Inl e \<Rightarrow> [])"

text \<open>What the stream says for a list of calls: the name, then all of the arguments at once.\<close>

fun call_items :: "'v json_ops \<Rightarrow> dsml \<Rightarrow> int \<Rightarrow> (ustr \<times> ustr) list \<Rightarrow> tool_item list" where
  "call_items J D k [] = []"
| "call_items J D k ((name, body) # calls) =
     \<lparr>tool_index = k, tool_name = Some name, tool_parameters = []\<rparr>
     # (if arguments_of J D body = [] then []
        else [\<lparr>tool_index = k, tool_name = None, tool_parameters = arguments_of J D body\<rparr>])
     @ call_items J D (k + 1) calls"

lemma call_items_append: "call_items J D k (xs @ ys) = call_items J D k xs @ call_items J D (k + len xs) ys"
  by (induction xs arbitrary: k) (auto simp: algebra_simps)

text \<open>The codec errors the detector expects are the only ones.\<close>

definition json_errors_expected :: "'v json_ops \<Rightarrow> bool" where
  "json_errors_expected J \<longleftrightarrow>
     (\<forall>s e. js_loads J s = Inl e \<or> js_partial_loads J s = Inl e \<longrightarrow> (\<exists>m. e = ValueError m))"

lemma loads_or_text_ok:
  assumes "\<And>e. loads input = Inl e \<Longrightarrow> \<exists>m. e = ValueError m"
  shows "\<exists>v. loads_or_text J loads kind input txt = Inr v"
  using assms by (auto simp: loads_or_text_def split: sum.splits py_error.splits)

lemma parse_parameters_ok:
  assumes "json_errors_expected J"
  shows "\<exists>args. parse_parameters J D content p = Inr args"
proof -
  have "\<exists>ps. collect_params J acc ms = Inr ps" for acc ms
  proof (induction ms arbitrary: acc)
    case (Cons m ms)
    obtain a k v where m: "m = (a, k, v)" by (cases m)
    obtain w where "loads_or_text J (js_loads J) k (py_strip v) (py_strip v) = Inr w"
      using loads_or_text_ok [of "js_loads J"] assms unfolding json_errors_expected_def by metis
    then show ?case using Cons by (simp add: m)
  qed simp
  then obtain ps where ps: "collect_params J [] (map fst (re_finditer (match_param D) content)) = Inr ps" by blast
  have "\<exists>ps'. partial_param J D ps r = Inr ps'" for r
  proof -
    have "\<exists>w. loads_or_text J (js_partial_loads J) k v u = Inr w" for k v u
      using loads_or_text_ok [of "js_partial_loads J"] assms unfolding json_errors_expected_def by metis
    then show ?thesis unfolding partial_param_def
      by (auto simp: map_sum_def split: option.splits sum.splits) (metis Inl_Inr_False)
  qed
  then obtain ps' where
    "partial_param J D ps (if re_finditer (match_param D) content = [] then content else snd (List.last (re_finditer (match_param D) content))) = Inr ps'"
    by blast
  then show ?thesis using ps by (simp add: parse_parameters_def Let_def)
qed

text \<open>Between two chunks nothing of the current tool has been sent.\<close>

definition at_rest :: "detector \<Rightarrow> bool" where
  "at_rest S \<longleftrightarrow> \<not> dt_name_sent S \<and> - 1 \<le> dt_tool_id S \<and> (\<forall>s \<in> set (drop (nat (dt_tool_id S)) (dt_streamed S)). s = [])"

definition next_id :: "detector \<Rightarrow> int" where
  "next_id S = max 0 (dt_tool_id S)"

lemma length_pad_to: "i < len (pad_to d i xs)"
  by (simp add: pad_to_def)

lemma pad_to_new: "\<forall>s \<in> set (drop k xs). s = d \<Longrightarrow> \<forall>s \<in> set (drop k (pad_to d i xs)). s = d"
  by (auto simp: pad_to_def)

lemma ready_tools:
  assumes "at_rest (det X)" and Y_def: "Y = pad_tools (first_tool D i X)"
  shows "dt_tool_id (det Y) = next_id (det X)" "\<not> dt_name_sent (det Y)" "all_calls Y = all_calls X" "current_text Y = current_text X"
    "dt_buffer (det Y) = dt_buffer (det X)" "next_id (det X) < len (dt_prev (det Y))" "next_id (det X) < len (dt_streamed (det Y))"
    "\<forall>s \<in> set (drop (nat (next_id (det X))) (dt_streamed (det Y))). s = []" "dt_streamed (det Y) ! nat (next_id (det X)) = []"
proof -
  let ?Z = "first_tool D i X"
  have z: "dt_tool_id (det ?Z) = next_id (det X)" "\<not> dt_name_sent (det ?Z)" "all_calls ?Z = all_calls X"
    "current_text ?Z = current_text X" "dt_buffer (det ?Z) = dt_buffer (det X)"
    "\<forall>s \<in> set (drop (nat (next_id (det X))) (dt_streamed (det ?Z))). s = []"
    using assms(1) by (auto simp: first_tool_def at_rest_def next_id_def Let_def)
  show y: "dt_tool_id (det Y) = next_id (det X)" "\<not> dt_name_sent (det Y)" "all_calls Y = all_calls X" "current_text Y = current_text X"
    "dt_buffer (det Y) = dt_buffer (det X)" "next_id (det X) < len (dt_prev (det Y))"
    using z length_pad_to by (simp_all add: Y_def pad_tools_def Let_def)
  show l: "next_id (det X) < len (dt_streamed (det Y))" using z(1) length_pad_to by (simp add: Y_def pad_tools_def Let_def)
  show s: "\<forall>s \<in> set (drop (nat (next_id (det X))) (dt_streamed (det Y))). s = []"
    using pad_to_new [OF z(6)] z(1) by (simp add: Y_def pad_tools_def Let_def)
  have "nat (next_id (det X)) < length (dt_streamed (det Y))" using l by (simp add: next_id_def nat_less_iff)
  then show "dt_streamed (det Y) ! nat (next_id (det X)) = []"
    using s by (metis Cons_nth_drop_Suc list.set_intros(1))
qed

lemma turn_complete:
  assumes "at_rest (det X)" "json_errors_expected J"
  shows "\<exists>X'. invoke_turn J D i (n, b, True) rest X = (Inr True, X') \<and> current_text X' = rest \<and> dt_buffer (det X') = rest
    \<and> all_calls X' = all_calls X @ call_items J D (next_id (det X)) [(n, b)] \<and> at_rest (det X') \<and> next_id (det X') = next_id (det X) + 1"
proof -
  define Y where "Y = pad_tools (first_tool D i X)"
  note r = ready_tools [OF assms(1) Y_def]
  let ?k = "next_id (det X)"
  obtain args where args: "parse_parameters J D b False = Inr args" using parse_parameters_ok [OF assms(2)] by blast
  then have a: "arguments_of J D b = args" by (simp add: arguments_of_def)
  define Z where "Z = send_name n True Y"
  have z: "Z = Y\<lparr>all_calls := all_calls Y @ [\<lparr>tool_index = ?k, tool_name = Some n, tool_parameters = []\<rparr>],
      det := (det Y)\<lparr>dt_name_sent := True\<rparr>\<rparr>"
    using r(1,2) by (simp add: Z_def send_name_def)
  have d: "argument_diff J (det Z) args True = args" using r(1,9) by (simp add: argument_diff_def Let_def z)
  define W where "W = send_arguments J args True Z"
  have w: "all_calls W = all_calls X @ call_items J D ?k [(n, b)]" "dt_tool_id (det W) = ?k"
    "dt_streamed (det W) = (if args = [] then dt_streamed (det Y) else (dt_streamed (det Y))[nat ?k := args])"
    using r(1,3,9) d a by (auto simp: W_def send_arguments_def Let_def z)
  have e: "invoke_turn J D i (n, b, True) rest X = (Inr True, next_tool rest W)"
    by (simp add: invoke_turn_def Let_def args W_def Z_def Y_def)
  have k: "0 \<le> ?k" by (simp add: next_id_def)
  then have k1: "nat (?k + 1) = Suc (nat ?k)" by simp
  have "\<forall>s \<in> set (drop (Suc (nat ?k)) (dt_streamed (det Y))). s = []"
    using r(8) by (metis drop_Suc drop_drop in_set_dropD plus_1_eq_Suc)
  then have "at_rest (det (next_tool rest W))" using w k by (simp add: at_rest_def next_tool_def k1 drop_update_cancel)
  moreover have "next_id (det (next_tool rest W)) = ?k + 1" using w k by (simp add: next_id_def next_tool_def)
  ultimately show ?thesis using e w by (intro exI [of _ "next_tool rest W"]) (simp add: next_tool_def)
qed

lemma turn_partial:
  assumes "at_rest (det X)" "json_errors_expected J"
  shows "\<exists>X'. invoke_turn J D i (n, b, False) rest X = (Inr False, X') \<and> dt_buffer (det X') = dt_buffer (det X)
    \<and> all_calls X' = all_calls X \<and> at_rest (det X') \<and> next_id (det X') = next_id (det X)"
proof -
  define Y where "Y = pad_tools (first_tool D i X)"
  note r = ready_tools [OF assms(1) Y_def]
  obtain args where args: "parse_parameters J D b True = Inr args" using parse_parameters_ok [OF assms(2)] by blast
  have z: "send_name n False Y = Y" by (simp add: send_name_def)
  define W where "W = send_arguments J args False Y"
  have w: "all_calls W = all_calls X" "dt_tool_id (det W) = next_id (det X)" "dt_streamed (det W) = dt_streamed (det Y)"
    "dt_buffer (det W) = dt_buffer (det X)" "\<not> dt_name_sent (det W)"
    using r(1,2,3,5) by (auto simp: W_def send_arguments_def Let_def)
  have e: "invoke_turn J D i (n, b, False) rest X = (Inr False, W)"
    using z by (simp add: invoke_turn_def Let_def args W_def Y_def)
  have "at_rest (det W)" using w r(8) by (simp add: at_rest_def next_id_def)
  then show ?thesis using e w by (intro exI [of _ W]) (simp add: next_id_def)
qed

lemma loop_calls:
  assumes "json_errors_expected J" "at_rest (det X)" "dt_buffer (det X) = current_text X"
  shows "\<exists>X'. detector_loop J D X = (None, X') \<and> dt_buffer (det X') = leftover_text D (current_text X)
    \<and> all_calls X' = all_calls X @ call_items J D (next_id (det X)) (complete_calls D (current_text X))
    \<and> at_rest (det X') \<and> next_id (det X') = next_id (det X) + len (complete_calls D (current_text X))"
  using assms(2,3)
proof (induction "length (current_text X)" arbitrary: X rule: less_induct)
  case less
  show ?case
  proof (cases "re_search (match_invoke D) (current_text X)")
    case None
    then have "next_call D (current_text X) = None" by (simp add: next_call_def)
    then show ?thesis using None less.prems
      by (simp add: detector_loop.simps [of J D X] complete_calls.simps [of D "current_text X"] leftover_text.simps [of D "current_text X"])
  next
    case (Some y)
    obtain i n b e rest where y: "y = (i, (n, b, e), rest)" by (cases y) auto
    note s = Some [unfolded y]
    show ?thesis
    proof (cases e)
      case True
      obtain X' where X': "invoke_turn J D i (n, b, True) rest X = (Inr True, X')" "current_text X' = rest" "dt_buffer (det X') = rest"
        "all_calls X' = all_calls X @ call_items J D (next_id (det X)) [(n, b)]" "at_rest (det X')" "next_id (det X') = next_id (det X) + 1"
        using turn_complete [OF less.prems(1) assms(1)] by blast
      have nc: "next_call D (current_text X) = Some ((n, b), rest)" using s True by (simp add: next_call_def)
      have cc: "complete_calls D (current_text X) = (n, b) # complete_calls D rest" "leftover_text D (current_text X) = leftover_text D rest"
        using nc by (simp_all add: complete_calls.simps [of D "current_text X"] leftover_text.simps [of D "current_text X"])
      have "detector_loop J D X = detector_loop J D X'" using s True X'(1) by (simp add: detector_loop.simps [of J D X])
      moreover have "length (current_text X') < length (current_text X)" using next_call_length [OF nc] X'(2) by simp
      ultimately show ?thesis using less.hyps [of X'] X'(2-6) cc
        by (auto simp: algebra_simps)
    next
      case False
      obtain X' where "invoke_turn J D i (n, b, False) rest X = (Inr False, X')" "dt_buffer (det X') = dt_buffer (det X)"
        "all_calls X' = all_calls X" "at_rest (det X')" "next_id (det X') = next_id (det X)"
        using turn_partial [OF less.prems(1) assms(1)] by blast
      moreover have "next_call D (current_text X) = None" using s False by (simp add: next_call_def)
      ultimately show ?thesis using s False less.prems
        by (simp add: detector_loop.simps [of J D X] complete_calls.simps [of D "current_text X"] leftover_text.simps [of D "current_text X"])
    qed
  qed
qed

text \<open>One chunk, and a stream of them.\<close>

lemma rstrip_last: "xs \<noteq> [] \<Longrightarrow> \<not> P (List.last xs) \<Longrightarrow> rstrip_by P xs = xs"
  by (cases xs rule: rev_cases) (simp_all add: rstrip_by_def)

lemma released_text:
  assumes "\<not> potentially_dsml text" "\<not> ends_with_prefix text"
  shows "\<not> contains_sub [60, 65372] text" "text = [] \<or> List.last text \<noteq> 60"
proof -
  show "\<not> contains_sub [60, 65372] text" using assms(1) by (simp add: potentially_dsml_def dsml_markers_def)
  show "text = [] \<or> List.last text \<noteq> 60"
  proof (rule ccontr)
    assume "\<not> ?thesis"
    then have t: "text \<noteq> []" "List.last text = 60" by auto
    then have "rstrip_by py_space text = text" by (intro rstrip_last) simp_all
    moreover have "suffix [60] text" using t by (metis append_butlast_last_id suffixI)
    ultimately show False using assms(2) by (simp add: ends_with_prefix_def dsml_prefixes_def)
  qed
qed

lemma increment_calls:
  assumes "json_errors_expected J" "tags_ok D" "at_rest S" "complete_calls D (dt_buffer S) = []"
    and "parse_streaming_increment J D c S = (r, S')"
  shows "\<exists>calls. tool_calls r = call_items J D (next_id S) calls \<and> next_id S' = next_id S + len calls \<and> at_rest S'
    \<and> complete_calls D (dt_buffer S') = [] \<and> (\<forall>t. complete_calls D (dt_buffer S @ c @ t) = calls @ complete_calls D (dt_buffer S' @ t))"
proof -
  let ?t = "dt_buffer S @ c"
  show ?thesis
  proof (cases "\<not> has_tool_call D ?t \<and> \<not> potentially_dsml ?t \<and> \<not> ends_with_prefix ?t")
    case True
    have "tool_calls r = []" "S' = S\<lparr>dt_buffer := []\<rparr>"
      using assms(5) True by (auto simp: parse_streaming_increment_def Let_def)
    moreover have "complete_calls D (?t @ t) = complete_calls D t" for t
      using True released_text by (intro prose_calls) blast+
    ultimately show ?thesis using assms(3) complete_calls_Nil by (intro exI [of _ "[]"]) (simp add: at_rest_def next_id_def)
  next
    case False
    let ?X = "\<lparr>current_text = ?t, preamble = [], all_calls = [], det = S\<lparr>dt_buffer := ?t\<rparr>\<rparr>"
    have "at_rest (det ?X)" "dt_buffer (det ?X) = current_text ?X" using assms(3) by (simp_all add: at_rest_def)
    then obtain X' where X': "detector_loop J D ?X = (None, X')" "dt_buffer (det X') = leftover_text D ?t"
      "all_calls X' = call_items J D (next_id S) (complete_calls D ?t)" "at_rest (det X')"
      "next_id (det X') = next_id S + len (complete_calls D ?t)"
      using loop_calls [OF assms(1), of ?X D] by (auto simp: next_id_def)
    have "r = \<lparr>normal_text = preamble X', tool_calls = all_calls X'\<rparr>" "S' = det X'"
      using assms(5) False X'(1) by (auto simp: parse_streaming_increment_def Let_def)
    then show ?thesis using X' complete_calls_append [OF assms(2), of ?t] by (intro exI [of _ "complete_calls D ?t"]) simp
  qed
qed

lemma feed_calls:
  assumes "json_errors_expected J" "tags_ok D" "at_rest S" "complete_calls D (dt_buffer S) = []"
  shows "emitted_calls (fst (feed J D cs S)) = call_items J D (next_id S) (complete_calls D (dt_buffer S @ concat cs))"
  using assms(3,4)
proof (induction cs arbitrary: S)
  case Nil
  then show ?case by (simp add: emitted_calls_def)
next
  case (Cons c cs)
  obtain r S' where p: "parse_streaming_increment J D c S = (r, S')" by (cases "parse_streaming_increment J D c S")
  obtain calls where k: "tool_calls r = call_items J D (next_id S) calls" "next_id S' = next_id S + len calls" "at_rest S'"
    "complete_calls D (dt_buffer S') = []" "\<forall>t. complete_calls D (dt_buffer S @ c @ t) = calls @ complete_calls D (dt_buffer S' @ t)"
    using increment_calls [OF assms(1,2) Cons.prems p] by blast
  have "emitted_calls (fst (feed J D (c # cs) S)) = tool_calls r @ emitted_calls (fst (feed J D cs S'))"
    by (simp add: p emitted_calls_def split: prod.splits)
  then show ?case using Cons.IH [OF k(3,4)] k(1,2,5) by (simp add: call_items_append)
qed

end
