(* ===== verification/DsmlClaims.thy ===== *)
theory DsmlClaims
  imports DsmlFacts
begin

text \<open>
  The detector of tool calls: prose streams through unchanged, calls do not depend on how the stream is cut
  and are those that were written, the one-shot parser agrees; and where the detector fails.
\<close>

section \<open>Prose\<close>

definition prose :: "ustr \<Rightarrow> bool" where
  "prose s \<longleftrightarrow> \<not> potentially_dsml s"

lemma contains_iff: "contains_sub p xs \<longleftrightarrow> (\<exists>a b. xs = a @ p @ b)"
  by (auto simp: contains_sub_iff suffix_def prefix_def)

lemma contains_append: "contains_sub p xs \<Longrightarrow> contains_sub p (ys @ xs)"
  "contains_sub p xs \<Longrightarrow> contains_sub p (xs @ zs)"
  unfolding contains_iff by (metis append.assoc)+

lemma contains_in: "contains_sub (a @ p @ b) xs \<Longrightarrow> contains_sub p xs"
  unfolding contains_iff by (metis append.assoc)

lemma prose_parts:
  assumes "prose (a @ b)"
  shows "prose a" "prose b"
  using assms contains_append [of _ a b] contains_append [of _ b a]
  by (auto simp: prose_def potentially_dsml_def dsml_markers_def)

lemma prose_no_token: "prose s \<Longrightarrow> \<not> contains_sub (a @ dsml_token @ b) s"
  using contains_in [of a dsml_token b s] by (auto simp: prose_def potentially_dsml_def dsml_markers_def)

lemma prose_no_call: "prose s \<Longrightarrow> \<not> has_tool_call D s"
  using prose_no_token [of s "codes ''<''"]
  by (auto simp: has_tool_call_def bot_token_def invoke_start_token_def opener_def)

lemma prose_search: "prose s \<Longrightarrow> re_search (match_invoke D) s = None"
proof -
  assume "prose s"
  then have "\<not> contains_sub [60, 65372] s" by (simp add: prose_def potentially_dsml_def dsml_markers_def)
  then have "map_option snd (re_search (match_invoke D) s) = map_option snd (re_search (match_invoke D) [])"
    using search_prose [OF bar_start_invoke, of s "[]" D] by simp
  then show ?thesis by (simp add: match_invoke_Nil)
qed

lemma replace_all_id: "\<not> contains_sub p s \<Longrightarrow> replace_all p r s = s"
proof (induction s)
  case (Cons c s)
  then have "p \<noteq> []" by (cases p) auto
  then show ?case using Cons by (simp add: replace_all_Cons)
qed simp

lemma re_delete_id: "(\<And>s'. suffix s' s \<Longrightarrow> f s' = None) \<Longrightarrow> re_delete f s = s"
proof (induction s)
  case (Cons c s)
  then show ?case using Cons.prems [of "c # s"] by (simp add: suffix_Cons)
qed simp

lemma contains_suffix: "suffix s' s \<Longrightarrow> prefix p s' \<Longrightarrow> contains_sub p s"
  by (auto simp: contains_sub_iff)

lemma clean_prose:
  assumes "prose s"
  shows "clean_leftover D s = s"
proof -
  have no: "\<not> prefix (a @ dsml_token @ b) s'" if "suffix s' s" for a b s'
    using prose_no_token [OF assms] contains_suffix [OF that] by blast
  have "match_tag s' = None" if "suffix s' s" for s'
    using no [OF that, of "[60]" "[]"] no [OF that, of "[60, 47]" "[]"]
    by (auto simp: match_tag_def bind_eq_None_conv strip_prefix_def Let_def prefix_def split: option.splits if_splits)
  moreover have "match_open_tag s' = None" if "suffix s' s" for s'
  proof -
    have "\<not> prefix [60, 65372] s'" using assms contains_suffix [OF that] by (auto simp: prose_def potentially_dsml_def dsml_markers_def)
    then show ?thesis by (auto simp: match_open_tag_def strip_prefix_def prefix_def)
  qed
  ultimately have "re_delete match_open_tag (re_delete match_tag s) = s" using re_delete_id [of s] by metis
  moreover have "replace_all (a @ dsml_token @ b) [] s = s" for a b using replace_all_id prose_no_token [OF assms] by blast
  ultimately show ?thesis
    using \<open>\<And>a b. replace_all (a @ dsml_token @ b) [] s = s\<close> [of "[]" "[]"]
    by (simp add: clean_leftover_def Let_def eot_token_def invoke_end_token_def bot_token_def invoke_start_token_def closer_def opener_def)
qed

lemma prose_increment:
  assumes "prose (dt_buffer S @ c)"
  shows "\<exists>r S'. parse_streaming_increment J D c S = (r, S') \<and> tool_calls r = [] \<and> normal_text r @ dt_buffer S' = dt_buffer S @ c
    \<and> dt_preamble_end S' = dt_preamble_end S \<and> (dt_buffer S' = [] \<or> ends_with_prefix (dt_buffer S'))"
proof -
  let ?t = "dt_buffer S @ c"
  show ?thesis
  proof (cases "ends_with_prefix ?t")
    case True
    have "detector_loop J D \<lparr>current_text = ?t, preamble = [], all_calls = [], det = S\<lparr>dt_buffer := ?t\<rparr>\<rparr>
        = (None, \<lparr>current_text = ?t, preamble = [], all_calls = [], det = S\<lparr>dt_buffer := ?t\<rparr>\<rparr>)"
      using prose_search [OF assms] by (simp add: detector_loop.simps [of J D "\<lparr>current_text = ?t, preamble = [], all_calls = [], det = S\<lparr>dt_buffer := ?t\<rparr>\<rparr>"])
    then show ?thesis using True by (simp add: parse_streaming_increment_def Let_def)
  next
    case False
    have "\<not> contains_sub (eot_token D) ?t" "\<not> contains_sub (invoke_end_token D) ?t"
      using prose_no_token [OF assms] by (auto simp: eot_token_def invoke_end_token_def closer_def)
    then show ?thesis using False assms prose_no_call [OF assms]
      by (simp add: parse_streaming_increment_def Let_def prose_def)
  qed
qed

lemma held_not_blank: "ends_with_prefix s \<Longrightarrow> py_strip s \<noteq> []"
proof
  assume e: "ends_with_prefix s" "py_strip s = []"
  have "60 \<in> set (rstrip_by py_space s)" using e(1)
    by (auto simp: ends_with_prefix_def dsml_prefixes_def dest!: set_mono_suffix)
  then have "60 \<in> set s" by (auto simp: rstrip_by_def dest: set_dropWhileD)
  then have d: "60 \<in> set (dropWhile py_space s)"
    by (induction s) (auto split: if_splits)
  moreover have "\<forall>x \<in> set (dropWhile py_space s). py_space x" using e(2) by (simp add: py_strip_def rstrip_by_def dropWhile_eq_Nil_conv)
  ultimately show False using not_space(4) by blast
qed

text \<open>C16: Prose is not touched. A stream without tag markers comes out as it went in, however it is cut into
  chunks: nothing is lost, nothing repeated, nothing taken for a call.\<close>

theorem prose_streams_through:
  assumes "prose (concat cs)"
  shows "case feed J D cs new_detector of (rs, S) \<Rightarrow>
    emitted_text rs @ normal_text (fst (finish D S)) = concat cs \<and> emitted_calls rs = []"
proof -
  have "case feed J D cs S of (rs, S') \<Rightarrow>
      emitted_text rs @ dt_buffer S' = dt_buffer S @ concat cs \<and> emitted_calls rs = [] \<and> dt_preamble_end S' = - 1
        \<and> (dt_buffer S' = [] \<or> ends_with_prefix (dt_buffer S'))"
    if "prose (dt_buffer S @ concat cs)" "dt_preamble_end S = - 1" "dt_buffer S = [] \<or> ends_with_prefix (dt_buffer S)" for S
    using that
  proof (induction cs arbitrary: S)
    case (Cons c cs)
    have "prose (dt_buffer S @ c)" using Cons.prems(1) prose_parts(1) [of "dt_buffer S @ c" "concat cs"] by simp
    from prose_increment [OF this, of J D]
    obtain r S' where p: "parse_streaming_increment J D c S = (r, S')" "tool_calls r = []" "normal_text r @ dt_buffer S' = dt_buffer S @ c"
      "dt_preamble_end S' = dt_preamble_end S" "dt_buffer S' = [] \<or> ends_with_prefix (dt_buffer S')" by blast
    have e: "dt_buffer S @ concat (c # cs) = normal_text r @ dt_buffer S' @ concat cs" using p(3) by (metis append.assoc concat.simps(2))
    then have "prose (dt_buffer S' @ concat cs)" using Cons.prems(1) prose_parts(2) by metis
    then show ?case using Cons.IH [of S'] p Cons.prems(2) e
      by (auto simp: emitted_text_def emitted_calls_def split: prod.splits)
  qed (simp add: emitted_text_def emitted_calls_def)
  from this [of new_detector]
  obtain rs S where f: "feed J D cs new_detector = (rs, S)" "emitted_text rs @ dt_buffer S = concat cs" "emitted_calls rs = []"
    "dt_preamble_end S = - 1" "dt_buffer S = [] \<or> ends_with_prefix (dt_buffer S)"
    using assms by (auto simp: new_detector_def split: prod.splits)
  have "prose (dt_buffer S)" using f(2) assms prose_parts(2) by metis
  then have "normal_text (fst (finish D S)) = dt_buffer S"
    using f(4,5) held_not_blank clean_prose by (auto simp: finish_def Let_def)
  then show ?thesis using f by simp
qed

section \<open>Calls\<close>

lemma new_detector_rest: "at_rest new_detector" "next_id new_detector = 0" "dt_buffer new_detector = []"
  by (simp_all add: at_rest_def next_id_def new_detector_def)

text \<open>C14: Calls do not depend on how the stream is cut. In any chunks the detector emits the finished calls of
  the whole text, in order, each as its name and then all of its arguments, and nothing of a call that is not
  finished. JSON may raise what the code expects.\<close>

theorem calls_any_chunking:
  assumes "json_errors_expected J" "tags_ok D"
  shows "emitted_calls (fst (feed J D cs new_detector)) = call_items J D 0 (complete_calls D (concat cs))
    \<and> emitted_calls (fst (feed J D cs new_detector)) = emitted_calls (fst (feed J D [concat cs] new_detector))"
  using feed_calls [OF assms new_detector_rest(1)] by (simp del: feed.simps add: new_detector_rest)

text \<open>A block of calls as \<open>structure_info\<close> and the structural tag write it.\<close>

definition call_text :: "dsml \<Rightarrow> ustr \<times> ustr \<Rightarrow> ustr" where
  "call_text D call = structure_begin D (fst call) @ snd call @ structure_end D @ [10]"

definition calls_block :: "dsml \<Rightarrow> (ustr \<times> ustr) list \<Rightarrow> ustr" where
  "calls_block D calls = bot_token D @ [10] @ concat (map (call_text D) calls) @ eot_token D"

text \<open>Names are plain, bodies hold no closer; the tag names are told apart.\<close>

definition plain_call :: "dsml \<Rightarrow> ustr \<times> ustr \<Rightarrow> bool" where
  "plain_call D call \<longleftrightarrow> fst call \<noteq> [] \<and> set (fst call) \<inter> {34, 60} = {} \<and> py_strip (fst call) = fst call
     \<and> \<not> contains_sub (invoke_end_token D) (snd call) \<and> \<not> contains_sub (eot_token D) (snd call)"

definition tags_distinct :: "dsml \<Rightarrow> bool" where
  "tags_distinct D \<longleftrightarrow> set (invoke_tag_name D) \<inter> {34, 60, 62} = {} \<and> set (tool_calls_block_name D) \<inter> {60, 62} = {}
     \<and> \<not> prefix (invoke_tag_name D) (tool_calls_block_name D)"

definition no_bar :: "ustr \<Rightarrow> bool" where
  "no_bar s \<longleftrightarrow> \<not> contains_sub [60, 65372] s"

lemma no_lt_no_bar: "60 \<notin> set s \<Longrightarrow> no_bar s"
  by (induction s) (auto simp: no_bar_def)

lemma no_bar_append: "no_bar a \<Longrightarrow> no_bar b \<Longrightarrow> a = [] \<or> List.last a \<noteq> 60 \<Longrightarrow> no_bar (a @ b)"
proof (induction a)
  case (Cons c a)
  then have "no_bar (a @ b)" by (auto simp: no_bar_def split: if_splits)
  then show ?case using Cons.prems by (cases a) (auto simp: no_bar_def prefix_def)
qed simp

lemma skip_no_lt: "60 \<notin> set u \<Longrightarrow> complete_calls D (u @ t) = complete_calls D t"
  using no_lt_no_bar [of u] by (intro prose_calls) (auto simp: no_bar_def dest: last_in_set)

lemma token_no_lt: "60 \<notin> set dsml_token" "62 \<notin> set dsml_token" "34 \<notin> set dsml_token"
  by (auto simp: dsml_token_def codes_def)

lemma token_forms:
  "bot_token D = 60 # dsml_token @ tool_calls_block_name D @ [62]" "eot_token D = 60 # 47 # dsml_token @ tool_calls_block_name D @ [62]"
  "invoke_start_token D = 60 # dsml_token @ invoke_tag_name D" "invoke_end_token D = 60 # 47 # dsml_token @ invoke_tag_name D @ [62]"
  by (simp_all add: bot_token_def eot_token_def invoke_start_token_def invoke_end_token_def opener_def closer_def gt_codes)

lemma structure_begin_open: "structure_begin D n = invoke_open D [32] n [] [62]"
  by (simp add: structure_begin_def invoke_open_def name_key_eq codes_def)

lemma call_found:
  assumes "tags_distinct D" "plain_call D (n, b)"
  shows "match_invoke D (call_text D (n, b) @ t) = Some ((n, b, True), 10 # t)"
proof -
  have o: "opens [32] n [] [62]" using assms(2) by (auto simp: opens_def plain_call_def py_space_def)
  have c: "invoke_end_token D = 60 # tl (invoke_end_token D)" "60 \<notin> set (tl (invoke_end_token D))"
    using token_no_lt assms(1) by (auto simp: token_forms tags_distinct_def)
  have "find_sub (invoke_end_token D) (invoke_end_token D @ 10 # t) = Some 0"
    by (cases "invoke_end_token D") (auto simp: token_forms)
  then have "find_sub (invoke_end_token D) (b @ invoke_end_token D @ 10 # t) = Some (length b)"
    using find_sub_skip [OF _ c, of b "invoke_end_token D @ 10 # t"] assms(2) by (simp add: plain_call_def) (simp add: token_forms)
  then have "invoke_body D (b @ invoke_end_token D @ 10 # t) = (b, True, 10 # t)" by (simp add: invoke_body_def)
  moreover have "call_text D (n, b) @ t = invoke_open D [32] n [] [62] @ b @ invoke_end_token D @ 10 # t"
    by (simp add: call_text_def structure_begin_open structure_end_def)
  ultimately show ?thesis using match_form [OF o, of D "b @ invoke_end_token D @ 10 # t"] assms(2) by (simp add: plain_call_def)
qed

lemma call_head: "\<exists>u. call_text D x = 60 # 65372 # u"
  by (simp add: call_text_def structure_begin_def token_forms dsml_token_def)

lemma calls_written:
  assumes "tags_distinct D" "list_all (plain_call D) calls"
  shows "complete_calls D (concat (map (call_text D) calls) @ t) = calls @ complete_calls D t"
  using assms(2)
proof (induction calls)
  case (Cons x calls)
  let ?u = "concat (map (call_text D) calls) @ t"
  have "match_invoke D (call_text D x @ ?u) = Some ((fst x, snd x, True), 10 # ?u)"
    using call_found [OF assms(1), of "fst x" "snd x"] Cons.prems by simp
  then have "next_call D (call_text D x @ ?u) = Some (x, 10 # ?u)"
    using call_head [of D x] by (auto simp: next_call_def)
  then have "complete_calls D (call_text D x @ ?u) = x # complete_calls D (10 # ?u)" by (simp add: complete_calls.simps [of D "call_text D x @ ?u"])
  then show ?case using Cons skip_no_lt [of "[10]" D ?u] by simp
qed simp

lemma bot_no_invoke: "tags_distinct D \<Longrightarrow> match_invoke D (bot_token D @ t) = None"
proof (rule ccontr)
  assume a: "tags_distinct D" "match_invoke D (bot_token D @ t) \<noteq> None"
  then have "prefix (invoke_start_token D) (bot_token D @ t)"
    by (auto simp: match_invoke_def bind_eq_Some_conv dest!: strip_prefixD)
  then have p: "prefix (invoke_tag_name D) (tool_calls_block_name D @ 62 # t)" by (simp add: token_forms)
  then have "\<not> length (invoke_tag_name D) \<le> length (tool_calls_block_name D)"
    using a(1) by (metis append_eq_conv_conj prefix_def prefix_length_prefix tags_distinct_def)
  then have "62 \<in> set (invoke_tag_name D)" using p
    by (metis in_set_conv_nth linorder_not_le nth_append_length prefix_def nth_append)
  then show False using a(1) by (auto simp: tags_distinct_def)
qed

lemma block_calls:
  assumes "tags_distinct D" "list_all (plain_call D) calls" "no_bar pre" "no_bar post"
  shows "complete_calls D (pre @ calls_block D calls @ post) = calls"
proof -
  let ?c = "concat (map (call_text D) calls)" and ?e = "eot_token D @ post"
  have "complete_calls D (pre @ calls_block D calls @ post) = complete_calls D (calls_block D calls @ post)"
    using assms(3) by (intro prose_calls) (auto simp: no_bar_def calls_block_def token_forms)
  also have "\<dots> = complete_calls D (tl (bot_token D) @ [10] @ ?c @ ?e)"
  proof -
    have "calls_block D calls @ post = 60 # tl (bot_token D) @ [10] @ ?c @ ?e" by (simp add: calls_block_def token_forms)
    moreover have "match_invoke D (60 # tl (bot_token D) @ [10] @ ?c @ ?e) = None"
      using bot_no_invoke [OF assms(1), of "[10] @ ?c @ ?e"] by (simp add: token_forms)
    ultimately show ?thesis
      by (simp add: complete_calls.simps [of D "60 # _"] complete_calls.simps [of D "tl _ @ _"] next_call_def case_prod_beta option.case_eq_if option.map_sel)
  qed
  also have "\<dots> = complete_calls D (?c @ ?e)"
    using skip_no_lt [of "tl (bot_token D) @ [10]" D "?c @ ?e"] token_no_lt assms(1) by (auto simp: token_forms tags_distinct_def)
  also have "\<dots> = calls @ complete_calls D ?e" by (rule calls_written [OF assms(1,2)])
  also have "complete_calls D ?e = []"
  proof -
    have "no_bar (eot_token D)" using token_no_lt assms(1) no_lt_no_bar [of "tl (eot_token D)"]
      by (auto simp: token_forms tags_distinct_def no_bar_def)
    then have "no_bar (eot_token D @ post)" using assms(4) by (intro no_bar_append) (simp_all add: token_forms)
    then show ?thesis using prose_calls [of ?e "[]" D] by (simp add: no_bar_def)
  qed
  finally show ?thesis by simp
qed

text \<open>C15: What is written is read back. A block of calls written with the tags of \<open>structure_info\<close>, with prose before
  and behind it, yields exactly these calls in any chunks: their names and the parameters of their bodies.\<close>

theorem written_calls_recovered:
  assumes "json_errors_expected J" "tags_distinct D" "list_all (plain_call D) calls" "no_bar pre" "no_bar post"
    and "concat cs = pre @ calls_block D calls @ post"
  shows "emitted_calls (fst (feed J D cs new_detector)) = call_items J D 0 calls"
proof -
  have "tags_ok D" using assms(2) by (auto simp: tags_ok_def tags_distinct_def)
  from feed_calls [OF assms(1) this new_detector_rest(1), of cs]
  show ?thesis using block_calls [OF assms(2-5)] assms(6) by (simp add: new_detector_rest)
qed

section \<open>The one-shot parser\<close>

lemma finditer_unfold:
  "re_finditer f s = (case map_option snd (re_search f s) of
      None \<Rightarrow> [] | Some (m, rest) \<Rightarrow> if length rest < length s then (m, rest) # re_finditer f rest else [(m, rest)])"
  by (subst re_finditer.simps) (auto split: option.splits)

lemma finditer_prose:
  assumes "bar_start f" "no_bar s"
  shows "re_finditer f s = []"
proof -
  have "f [] = None"
  proof (rule ccontr)
    assume "f [] \<noteq> None"
    then have "prefix [60, 65372] ([] :: ustr)" using assms(1) unfolding bar_start_def by blast
    then show False by simp
  qed
  moreover have "map_option snd (re_search f (s @ [])) = map_option snd (re_search f [])"
    using assms by (intro search_prose) (simp_all add: no_bar_def)
  ultimately show ?thesis by (subst finditer_unfold) simp
qed

lemma contains_skip:
  assumes "\<not> contains_sub p xs" "p = c # q" "c \<notin> set q" "ys \<noteq> [] \<longrightarrow> hd ys = c"
  shows "contains_sub p (xs @ ys) = contains_sub p ys"
  using find_sub_skip [OF assms] by (metis find_sub_None map_option_is_None)

lemma contains_skip_no_lt: "60 \<notin> set xs \<Longrightarrow> contains_sub (60 # q) (xs @ ys) = contains_sub (60 # q) ys"
  by (induction xs) auto

lemma tags_apart:
  assumes "tags_distinct D"
  shows "\<not> prefix (eot_token D) (invoke_end_token D @ t)"
proof
  assume "prefix (eot_token D) (invoke_end_token D @ t)"
  then have p: "prefix (tool_calls_block_name D @ [62]) (invoke_tag_name D @ 62 # t)" by (simp add: token_forms)
  have l: "62 \<notin> set (tool_calls_block_name D)" "62 \<notin> set (invoke_tag_name D)" using assms by (auto simp: tags_distinct_def)
  have "list_all (\<lambda>c. c \<noteq> 62) (invoke_tag_name D)" "list_all (\<lambda>c. c \<noteq> 62) (tool_calls_block_name D)"
    using l by (auto simp: list_all_iff)
  note l = this
  have "takeWhile (\<lambda>c. c \<noteq> 62) (invoke_tag_name D @ 62 # t) = invoke_tag_name D"
    using l(1) takeWhile_stop [of "\<lambda>c. c \<noteq> 62" "invoke_tag_name D" 62 t] by simp
  moreover obtain w where "invoke_tag_name D @ 62 # t = tool_calls_block_name D @ [62] @ w" using p by (auto simp: prefix_def)
  ultimately have "invoke_tag_name D = tool_calls_block_name D"
    using l(2) takeWhile_stop [of "\<lambda>c. c \<noteq> 62" "tool_calls_block_name D" 62 w] by simp
  then show False using assms by (simp add: tags_distinct_def)
qed

lemma eot_head: "tags_distinct D \<Longrightarrow> eot_token D = 60 # tl (eot_token D) \<and> 60 \<notin> set (tl (eot_token D))"
  using token_no_lt by (auto simp: token_forms tags_distinct_def)

lemma no_eot_in_calls:
  assumes "tags_distinct D" "list_all (plain_call D) calls"
  shows "\<not> contains_sub (eot_token D) (concat (map (call_text D) calls))"
  using assms(2)
proof (induction calls)
  case Nil
  then show ?case by (simp add: token_forms)
next
  case (Cons x calls)
  let ?u = "concat (map (call_text D) calls)" and ?p = "eot_token D" and ?e = "invoke_end_token D"
  have e: "?p = 60 # tl ?p" "60 \<notin> set (tl ?p)" using eot_head [OF assms(1)] by auto
  have u: "?u \<noteq> [] \<longrightarrow> hd ?u = 60" by (cases calls) (auto simp: call_text_def structure_begin_def token_forms)
  obtain w where w: "structure_begin D (fst x) = 60 # 65372 # w" "60 \<notin> set w"
    using Cons.prems token_no_lt assms(1)
    by (auto simp: structure_begin_def token_forms dsml_token_def plain_call_def tags_distinct_def codes_def)
  have "contains_sub ?p (call_text D x @ ?u) = contains_sub ?p ((65372 # w) @ snd x @ ?e @ 10 # ?u)"
    by (simp add: call_text_def w structure_end_def) (simp add: token_forms)
  also have "\<dots> = contains_sub ?p (snd x @ ?e @ 10 # ?u)"
    using contains_skip_no_lt [of "65372 # w" "tl ?p"] w(2) e(1) by simp
  also have "\<dots> = contains_sub ?p (?e @ 10 # ?u)"
    using Cons.prems by (intro contains_skip [OF _ e]) (auto simp: plain_call_def token_forms)
  also have "\<dots> = contains_sub ?p ((tl ?e @ [10]) @ ?u)"
    using tags_apart [OF assms(1), of "10 # ?u"] by (simp add: token_forms)
  also have "\<dots> = contains_sub ?p ?u"
    using contains_skip_no_lt [of "tl ?e @ [10]" "tl ?p" ?u] e(1) token_no_lt assms(1) by (simp add: token_forms tags_distinct_def)
  finally show ?case using Cons by simp
qed

lemma invokes_written:
  assumes "tags_distinct D" "list_all (plain_call D) calls"
  shows "map fst (re_finditer (match_invoke D) (10 # concat (map (call_text D) calls))) = map (\<lambda>(n, b). (n, b, True)) calls"
  using assms(2)
proof (induction calls)
  case Nil
  then show ?case using finditer_prose [OF bar_start_invoke, of "[10]" D] by (simp add: no_bar_def prefix_def)
next
  case (Cons x calls)
  let ?u = "concat (map (call_text D) calls)"
  obtain n b where x: "x = (n, b)" by (cases x)
  have m: "match_invoke D (call_text D x @ ?u) = Some ((n, b, True), 10 # ?u)" using call_found [OF assms(1)] Cons.prems x by simp
  have "map_option snd (re_search (match_invoke D) ([10] @ call_text D x @ ?u)) = map_option snd (re_search (match_invoke D) (call_text D x @ ?u))"
    by (intro search_prose [OF bar_start_invoke]) (simp_all add: prefix_def)
  also have "\<dots> = Some ((n, b, True), 10 # ?u)" using m call_head [of D x] by auto
  finally have "re_finditer (match_invoke D) (10 # call_text D x @ ?u) = ((n, b, True), 10 # ?u) # re_finditer (match_invoke D) (10 # ?u)"
    using call_head [of D x] by (subst finditer_unfold) auto
  then show ?case using Cons x by simp
qed

text \<open>The one-shot parser reads the same calls: on prose, a block of calls and more prose it passes on exactly the
  written calls with the arguments the stream sends, and its text is the prose before the block without the
  blank line.\<close>

theorem one_shot_agrees:
  assumes "tags_distinct D" "list_all (plain_call D) calls" "no_bar pre" "no_bar post"
  defines "text \<equiv> pre @ calls_block D calls @ post"
  shows "detect_and_parse J D base text =
    (case section_calls J D base (map (\<lambda>(n, b). (n, b, True)) calls) of
       Inl e \<Rightarrow> \<lparr>normal_text = text, tool_calls = []\<rparr>
     | Inr items \<Rightarrow> \<lparr>normal_text = removesuffix [10, 10] pre, tool_calls = items\<rparr>)"
proof -
  let ?c = "10 # concat (map (call_text D) calls)" and ?p = "eot_token D"
  have e: "?p = 60 # tl ?p" "60 \<notin> set (tl ?p)" using eot_head [OF assms(1)] by auto
  have whole: "text = pre @ bot_token D @ ?c @ ?p @ post" by (simp add: text_def calls_block_def)
  have "\<not> contains_sub ?p ?c" using no_eot_in_calls [OF assms(1,2)] by (simp add: token_forms)
  then have "find_sub ?p (?c @ ?p @ post) = Some (length ?c)"
    using find_sub_skip [OF _ e, of ?c "?p @ post"] by (cases "?p") (auto simp: token_forms)
  then have m: "match_section D (bot_token D @ ?c @ ?p @ post) = Some (?c, post)" by (simp add: match_section_def)
  have bs: "bar_start (match_section D)"
    by (auto simp: bar_start_def match_section_def token_forms dsml_token_def bind_eq_Some_conv dest!: strip_prefixD)
  have bot: "bot_token D = 60 # tl (bot_token D)" "60 \<notin> set (tl (bot_token D))"
    using token_no_lt assms(1) by (auto simp: token_forms tags_distinct_def)
  have "map_option snd (re_search (match_section D) text) = map_option snd (re_search (match_section D) (bot_token D @ ?c @ ?p @ post))"
    unfolding whole using assms(3) by (intro search_prose [OF bs]) (auto simp: no_bar_def token_forms)
  also have "\<dots> = Some (?c, post)" using m by (cases "bot_token D") (auto simp: token_forms)
  finally have sec: "re_finditer (match_section D) text = [(?c, post)]"
    using finditer_prose [OF bs assms(4)] by (subst finditer_unfold) (auto simp: whole)
  have "\<not> contains_sub (bot_token D) pre"
    using assms(3) contains_in [of "[]" "[60, 65372]" "tl (tl (bot_token D))" pre] by (auto simp: no_bar_def token_forms dsml_token_def)
  then have "find_sub (bot_token D) text = Some (length pre)"
    unfolding whole using find_sub_skip [OF _ bot, of pre "bot_token D @ ?c @ ?p @ post"] by (cases "bot_token D") (auto simp: token_forms)
  moreover have pre_part: "take (length pre) text = pre" by (simp add: whole)
  ultimately show ?thesis using invokes_written [OF assms(1,2)] by (simp add: detect_and_parse_def Let_def sec pre_part)
qed

section \<open>Concrete streams\<close>

text \<open>A codec that reads no number, and one that gives up on a nested list as Python does.\<close>

definition demo_json :: "ustr json_ops" where
  "demo_json = \<lparr>js_loads = (\<lambda>s. Inl (ValueError ''json'')), js_partial_loads = (\<lambda>s. Inl (ValueError ''json'')), js_str = (\<lambda>s. s),
     js_dumps = (\<lambda>ps. codes ''{'' @ concat (map (\<lambda>(k, v). k @ codes '':'' @ v) ps) @ codes ''}''), js_common_prefix = (\<lambda>a b. a)\<rparr>"

definition deep_json :: "ustr json_ops" where
  "deep_json = demo_json\<lparr>js_loads := (\<lambda>s. if s = codes ''['' then Inl (RuntimeError ''recursion'') else Inl (ValueError ''json''))\<rparr>"

definition demo_calls :: "(ustr \<times> ustr) list" where
  "demo_calls = [(codes ''f'', codes ''{}''), (codes ''g'', [])]"

definition param_text :: "ustr \<Rightarrow> ustr" where
  "param_text v = opener (codes '' parameter name='') @ [34] @ codes ''a'' @ [34] @ codes '' string='' @ [34] @ codes ''false'' @ [34] @ codes ''>'' @ v"

lemma demo_json_expected: "json_errors_expected demo_json"
  by (simp add: json_errors_expected_def demo_json_def)

lemma v41_distinct: "tags_distinct v41_tags"
  by (simp add: tags_distinct_def v41_tags_def codes_def)

lemma v32_distinct: "tags_distinct v32_tags"
  by (simp add: tags_distinct_def v32_tags_def codes_def)

lemma tag_codes:
  "dsml_token = [65372, 68, 83, 77, 76, 65372]" "string_key = [115, 116, 114, 105, 110, 103, 61, 34]"
  "invoke_start_token v41_tags = [60, 65372, 68, 83, 77, 76, 65372, 32, 105, 110, 118, 111, 107, 101]"
  "invoke_end_token v41_tags = [60, 47, 65372, 68, 83, 77, 76, 65372, 32, 105, 110, 118, 111, 107, 101, 62]"
  "bot_token v41_tags = [60, 65372, 68, 83, 77, 76, 65372, 32, 99, 97, 108, 108, 115, 62]"
  "eot_token v41_tags = [60, 47, 65372, 68, 83, 77, 76, 65372, 32, 99, 97, 108, 108, 115, 62]"
  "opener (parameter_tag_name v41_tags) = [60, 65372, 68, 83, 77, 76, 65372, 32, 112, 97, 114, 97, 109, 101, 116, 101, 114]"
  "closer (parameter_tag_name v41_tags) = [60, 47, 65372, 68, 83, 77, 76, 65372, 32, 112, 97, 114, 97, 109, 101, 116, 101, 114, 62]"
  "invoke_tag_name v41_tags = [32, 105, 110, 118, 111, 107, 101]" "parameter_tag_name v41_tags = [32, 112, 97, 114, 97, 109, 101, 116, 101, 114]"
  by (simp_all add: token_forms dsml_token_def v41_tags_def codes_def string_key_def opener_def closer_def)

lemma demo_plain: "list_all (plain_call v41_tags) demo_calls"
  by (simp add: demo_calls_def plain_call_def tag_codes codes_def py_strip_def rstrip_by_def py_space_def)

lemmas run_defs =
  parse_streaming_increment_def Let_def has_tool_call_def potentially_dsml_def dsml_markers_def ends_with_prefix_def dsml_prefixes_def
  detector_loop.simps match_invoke_def attribute_def spaces1_def quoted_def name_key_eq strip_prefix_def invoke_body_def invoke_turn_def
  first_tool_def pad_tools_def pad_to_def send_name_def send_arguments_def argument_diff_def next_tool_def parse_parameters_def
  rstrip_tokens_def re_finditer.simps match_param_def param_header_def loads_or_text_def partial_param_def removesuffix_def
  py_strip_def rstrip_by_def py_space_def finish_def slice_from_def tag_codes codes_def gt_codes emitted_text_def emitted_calls_def new_detector_def
  prefix_parameter_end_call_def prefix_invoke_end_call_def suffix_to_prefix



lemma e4: "parse_parameters demo_json v41_tags (codes ''{}'') False = Inr (codes ''{}'')"
  by (simp add: run_defs)

lemmas call_defs = run_defs call_text_def structure_begin_def structure_end_def closer_def opener_def

text \<open>A stream cut off inside the last closer: the rest of the tag comes out as text.\<close>

lemma leaked_closer:
  "case feed demo_json v41_tags [call_text v41_tags (codes ''f'', codes ''{}''), codes ''</'' @ dsml_token @ codes '' cal''] new_detector of (rs, S) \<Rightarrow>
     length (emitted_calls rs) = 2 \<and> normal_text (fst (finish v41_tags S)) = 10 # codes ''</ cal''"
  by (simp add: call_defs clean_leftover_def match_tag_def match_open_tag_def replace_all_Cons)

text \<open>When the parameters of a finished call raise, its name counts as sent: the next call comes without a name.\<close>

lemma name_lost_after_error:
  "tool_calls (fst (parse_streaming_increment deep_json v41_tags (call_text v41_tags (codes ''g'', codes ''{}''))
      (snd (parse_streaming_increment deep_json v41_tags
        (call_text v41_tags (codes ''f'', param_text (codes ''['') @ closer (codes '' parameter''))) new_detector))))
    = [\<lparr>tool_index = 0, tool_name = None, tool_parameters = codes ''{}''\<rparr>]"
  by (simp add: call_defs deep_json_def demo_json_def param_text_def)

text \<open>The same error repeats prose that was sent before, and what was held at the end of the stream is dropped.\<close>

lemma prose_repeated_after_error:
  "case feed deep_json v41_tags
      [codes ''Hi '' @ structure_begin v41_tags (codes ''f'') @ param_text (codes ''[''), closer (codes '' parameter'') @ structure_end v41_tags, codes ''a<'']
      new_detector of (rs, S) \<Rightarrow>
    (\<exists>s. emitted_text rs = codes ''Hi Hi <'' @ s) \<and> dt_buffer S = codes ''a<'' \<and> normal_text (fst (finish v41_tags S)) = []"
  by (simp add: call_defs deep_json_def demo_json_def param_text_def)

text \<open>An error in a second call of a chunk loses the first one: neither its call nor its text comes out.\<close>

lemma call_lost_by_error:
  "\<exists>s. fst (parse_streaming_increment deep_json v41_tags
      (call_text v41_tags (codes ''f'', codes ''{}'') @ call_text v41_tags (codes ''g'', param_text (codes ''['') @ closer (codes '' parameter'')))
      new_detector) = \<lparr>normal_text = 10 # structure_begin v41_tags (codes ''g'') @ s, tool_calls = []\<rparr>"
  by (simp add: call_defs deep_json_def demo_json_def param_text_def)

text \<open>The blank line before a block is only cut off when it comes with the block.\<close>

lemma blank_line_kept:
  "emitted_text (fst (feed demo_json v41_tags [codes ''Hi'' @ [10, 10] @ call_text v41_tags (codes ''f'', codes ''{}'')] new_detector)) = codes ''Hi''"
  "emitted_text (fst (feed demo_json v41_tags [codes ''Hi'' @ [10, 10], call_text v41_tags (codes ''f'', codes ''{}'')] new_detector)) = codes ''Hi'' @ [10, 10]"
  by (simp_all add: call_defs)

text \<open>Prose between two calls is dropped.\<close>

lemma prose_between_calls_dropped:
  "case feed demo_json v41_tags [call_text v41_tags (codes ''f'', codes ''{}'') @ codes ''and'' @ call_text v41_tags (codes ''g'', codes ''{}'')] new_detector of (rs, S) \<Rightarrow>
     emitted_text rs = [] \<and> normal_text (fst (finish v41_tags S)) = []"
  by (simp add: call_defs clean_leftover_def match_tag_def match_open_tag_def replace_all_Cons)

text \<open>Closers in released text are never there to be stripped.\<close>

lemma closers_never_released:
  "\<not> potentially_dsml s \<Longrightarrow> \<not> contains_sub (eot_token D) s \<and> \<not> contains_sub (invoke_end_token D) s"
  using prose_no_token [of s "codes ''</''"] by (auto simp: prose_def eot_token_def invoke_end_token_def closer_def)

section \<open>Instances\<close>

lemma v41_ok: "tags_ok v41_tags"
  using v41_distinct by (auto simp: tags_ok_def tags_distinct_def)

lemma prose_streams_through_witness:
  "case feed demo_json v41_tags [codes ''a <'', codes '' b'', codes ''</''] new_detector of (rs, S) \<Rightarrow>
    emitted_text rs @ normal_text (fst (finish v41_tags S)) = codes ''a < b</'' \<and> emitted_calls rs = []"
proof -
  have "prose (concat [codes ''a <'', codes '' b'', codes ''</''])"
    by (simp add: prose_def potentially_dsml_def dsml_markers_def tag_codes codes_def)
  from prose_streams_through [where J = demo_json and D = v41_tags, OF this]
  show ?thesis by (simp add: codes_def split: prod.splits)
qed

lemma calls_any_chunking_witness:
  "emitted_calls (fst (feed demo_json v41_tags [codes ''<'', calls_block v41_tags demo_calls] new_detector))
    = call_items demo_json v41_tags 0 (complete_calls v41_tags (codes ''<'' @ calls_block v41_tags demo_calls))"
  using calls_any_chunking [OF demo_json_expected v41_ok, of "[codes ''<'', calls_block v41_tags demo_calls]"] by simp

lemma written_calls_recovered_witness:
  "emitted_calls (fst (feed demo_json v41_tags [codes ''Hi'', calls_block v41_tags demo_calls @ codes ''Bye''] new_detector))
    = call_items demo_json v41_tags 0 demo_calls"
  by (rule written_calls_recovered [OF demo_json_expected v41_distinct demo_plain, of "codes ''Hi''" "codes ''Bye''"])
    (simp_all add: no_bar_def codes_def)

lemma one_shot_agrees_witness:
  "\<exists>items. detect_and_parse (demo_json\<lparr>js_loads := Inr\<rparr>) v41_tags (\<lambda>n v. Inr [\<lparr>tool_index = 0, tool_name = Some n, tool_parameters = v\<rparr>])
      (codes ''Hi'' @ calls_block v41_tags [(codes ''f'', codes ''{}'')] @ []) = \<lparr>normal_text = codes ''Hi'', tool_calls = items\<rparr>"
proof -
  have p: "list_all (plain_call v41_tags) [(codes ''f'', codes ''{}'')]"
    by (simp add: plain_call_def tag_codes codes_def py_strip_def rstrip_by_def py_space_def)
  have n: "no_bar (codes ''Hi'')" "no_bar []" by (simp_all add: no_bar_def codes_def)
  have "parse_parameters (demo_json\<lparr>js_loads := Inr\<rparr>) v41_tags (codes ''{}'') False = Inr (codes ''{}'')" by (simp add: run_defs)
  moreover have "removesuffix [10, 10] (codes ''Hi'') = codes ''Hi''" by (simp add: run_defs)
  ultimately show ?thesis
    using one_shot_agrees [OF v41_distinct p n, of "demo_json\<lparr>js_loads := Inr\<rparr>" "\<lambda>n v. Inr [\<lparr>tool_index = 0, tool_name = Some n, tool_parameters = v\<rparr>]"]
    by simp
qed

end
