(* ===== verification/DecodePlan.thy ===== *)
theory DecodePlan
  imports Tensors
begin

text \<open>
  The plan of a speculative decode step: \<open>DecodePlanStaging\<close> and \<open>DFlashDraftInputV2\<close> of
  \<open>sglang-overlay/dflash_info_v2.py\<close>. Host buffers live in a store under addresses, since the results of a step
  are views of them; what the host submits to the device waits in a queue and happens later, in order. Which
  lengths a step needs (\<open>page_aligned_decode_alloc_lens\<close>) comes from outside.
\<close>

section \<open>Memory and device\<close>

text \<open>A host slot: committed lengths (int64) and the two plan rows (int32).\<close>

record slot =
  sl_seq :: "int list"
  sl_cur :: "int list"
  sl_nxt :: "int list"

text \<open>Submitted work, with the step it belongs to: a copy of a host slot to a device buffer (all of it, or the
  first requests), and the allocation, which reads the device rows where the host passed \<open>cur\<close> and \<open>nxt\<close>.\<close>

datatype op =
    H2D nat nat nat "nat option"
  | Use nat nat nat "int list" "int list"

fun op_step :: "op \<Rightarrow> nat" where
  "op_step (H2D n src dst b) = n"
| "op_step (Use n dst bs cur nxt) = n"

record machine =
  mc_host :: "nat \<Rightarrow> slot"
  mc_host_next :: nat
  mc_dev :: "nat \<Rightarrow> int list \<times> int list"
  mc_dev_next :: nat
  mc_queue :: "op list"
  mc_log :: "((int list \<times> int list) \<times> int list \<times> int list) list"

text \<open>Assignment to the front part of a row.\<close>

definition put_front :: "int list \<Rightarrow> int list \<Rightarrow> int list" where
  "put_front xs row = xs @ drop (length xs) row"

fun exec_op :: "op \<Rightarrow> machine \<Rightarrow> machine" where
  "exec_op (H2D n src dst b) m =
     (let s = mc_host m src; (c, x) = mc_dev m dst;
          rows = (case b of None \<Rightarrow> (sl_cur s, sl_nxt s) | Some bs \<Rightarrow> (put_front (take bs (sl_cur s)) c, put_front (take bs (sl_nxt s)) x))
      in m\<lparr>mc_dev := (mc_dev m)(dst := rows)\<rparr>)"
| "exec_op (Use n dst bs cur nxt) m =
     m\<lparr>mc_log := mc_log m @ [((take bs (fst (mc_dev m dst)), take bs (snd (mc_dev m dst))), cur, nxt)]\<rparr>"

definition run_next :: "machine \<Rightarrow> machine" where
  "run_next m = (case mc_queue m of [] \<Rightarrow> m | x # xs \<Rightarrow> exec_op x (m\<lparr>mc_queue := xs\<rparr>))"

definition drain :: "machine \<Rightarrow> machine" where
  "drain m = fold exec_op (mc_queue m) (m\<lparr>mc_queue := []\<rparr>)"

definition submit :: "op \<Rightarrow> machine \<Rightarrow> machine" where
  "submit x m = m\<lparr>mc_queue := mc_queue m @ [x]\<rparr>"

text \<open>\<open>torch.tensor(xs, dtype=d)\<close> and storing an element refuse a value that does not fit; \<open>copy_\<close> refuses another
  length (a single element is spread).\<close>

definition tensor_of :: "dtype \<Rightarrow> int list \<Rightarrow> py_error + int list" where
  "tensor_of d xs = (if list_all (fits d) xs then Inr xs else Inl (RuntimeError ''overflow''))"

definition copy_row :: "nat \<Rightarrow> dtype \<Rightarrow> int list \<Rightarrow> py_error + int list" where
  "copy_row bs d xs =
     (case tensor_of d xs of
        Inl e \<Rightarrow> Inl e
      | Inr xs \<Rightarrow> if length xs = bs then Inr xs else if length xs = 1 then Inr (replicate bs (hd xs))
          else Inl (RuntimeError ''shape''))"

section \<open>Staging\<close>

record 'r staging =
  sg_capacity :: nat
  sg_slot :: nat
  sg_ring :: "nat list"
  sg_copied :: "nat option list"
  sg_lens_gpu :: "nat option"
  sg_device_stale :: bool
  sg_shipped :: "'r list option"
  sg_stage_ct :: nat
  sg_h2d_copy_ct :: nat

definition ring_depth :: nat where
  "ring_depth = 2"

definition new_staging :: "'r staging" where
  "new_staging = \<lparr>sg_capacity = 0, sg_slot = 0, sg_ring = [], sg_copied = [], sg_lens_gpu = None, sg_device_stale = True,
     sg_shipped = None, sg_stage_ct = 0, sg_h2d_copy_ct = 0\<rparr>"

definition zero_slot :: "nat \<Rightarrow> slot" where
  "zero_slot n = \<lparr>sl_seq = replicate n 0, sl_cur = replicate n 0, sl_nxt = replicate n 0\<rparr>"

text \<open>\<open>_grow\<close>: new buffers; old ones stay alive under their addresses.\<close>

definition grow :: "nat \<Rightarrow> 'r staging \<Rightarrow> machine \<Rightarrow> 'r staging \<times> machine" where
  "grow bs S m =
     (let cap = max bs (max 32 (sg_capacity S * 2)); a = mc_host_next m; d = mc_dev_next m
      in (S\<lparr>sg_capacity := cap, sg_ring := [a..<a + ring_depth], sg_copied := replicate ring_depth None,
             sg_lens_gpu := Some d, sg_device_stale := True\<rparr>,
          m\<lparr>mc_host := (\<lambda>x. if a \<le> x \<and> x < a + ring_depth then zero_slot cap else mc_host m x), mc_host_next := a + ring_depth,
             mc_dev := (mc_dev m)(d := (replicate cap 0, replicate cap 0)), mc_dev_next := d + 1\<rparr>))"

text \<open>\<open>acquire\<close> yields the address of the slot. An event has been reached when no copy of its step waits.\<close>

definition copy_pending :: "nat \<Rightarrow> machine \<Rightarrow> bool" where
  "copy_pending n m \<longleftrightarrow> list_ex (\<lambda>x. case x of H2D k src dst b \<Rightarrow> k = n | _ \<Rightarrow> False) (mc_queue m)"

definition acquire :: "nat \<Rightarrow> 'r staging \<Rightarrow> machine \<Rightarrow> py_error + nat \<times> 'r staging \<times> machine" where
  "acquire bs S m =
     (let (S, m) = (if sg_capacity S < bs then grow bs S m else (S, m));
          S = S\<lparr>sg_slot := (sg_slot S + 1) mod ring_depth\<rparr>
      in if length (sg_ring S) \<le> sg_slot S then Inl IndexError
         else (case sg_copied S ! sg_slot S of
             Some n \<Rightarrow> if copy_pending n m then Inl AssertionError else Inr (sg_ring S ! sg_slot S, S, m)
           | None \<Rightarrow> Inr (sg_ring S ! sg_slot S, S, m)))"

definition write_slot :: "nat \<Rightarrow> int list \<Rightarrow> int list \<Rightarrow> int list \<Rightarrow> machine \<Rightarrow> machine" where
  "write_slot a seq cur nxt m =
     (let s = mc_host m a
      in m\<lparr>mc_host := (mc_host m)(a := \<lparr>sl_seq = put_front seq (sl_seq s), sl_cur = put_front cur (sl_cur s), sl_nxt = put_front nxt (sl_nxt s)\<rparr>)\<rparr>)"

definition ship :: "bool \<Rightarrow> int \<Rightarrow> 'r list \<Rightarrow> 'r staging \<Rightarrow> machine \<Rightarrow> py_error + nat \<times> 'r staging \<times> machine" where
  "ship checking needed req_ids S m =
     (case sg_lens_gpu S of
        None \<Rightarrow> Inl AssertionError
      | Some d \<Rightarrow>
          (let S = S\<lparr>sg_stage_ct := sg_stage_ct S + 1\<rparr>;
               dirty = (sg_device_stale S \<or> 0 < needed \<or> Some req_ids \<noteq> sg_shipped S)
           in if dirty \<or> checking
              then Inr (d, S\<lparr>sg_copied := (if checking then (sg_copied S)[sg_slot S := Some (sg_stage_ct S)] else sg_copied S),
                       sg_h2d_copy_ct := sg_h2d_copy_ct S + 1, sg_device_stale := False, sg_shipped := Some req_ids\<rparr>,
                     submit (H2D (sg_stage_ct S) (sg_ring S ! sg_slot S) d None) m)
              else Inr (d, S, m)))"

section \<open>Draft inputs and batches\<close>

text \<open>A row of lengths on the host: the front of a slot, or a tensor of its own.\<close>

datatype row_view = Slot nat nat | Own "int list"

fun view_seq :: "machine \<Rightarrow> row_view \<Rightarrow> int list" where
  "view_seq m (Slot a n) = take n (sl_seq (mc_host m a))"
| "view_seq m (Own xs) = xs"

fun view_nxt :: "machine \<Rightarrow> row_view \<Rightarrow> int list" where
  "view_nxt m (Slot a n) = take n (sl_nxt (mc_host m a))"
| "view_nxt m (Own xs) = xs"

record 'r plan_req =
  pr_rid :: 'r
  pr_committed :: int
  pr_allocated :: int
  pr_top_k :: int
  pr_decode_batch_idx :: int

record 'r plan_batch =
  pb_reqs :: "'r plan_req list"
  pb_seq_lens_cpu :: row_view
  pb_seq_lens_sum :: int

text \<open>\<open>di_rows\<close> are the tensors with one row per request; the buffers are those of the older path, with
  their capacity.\<close>

record 'x draft_input =
  di_max_top_k :: int
  di_uniform_top_k :: "int option"
  di_nxt_cpu :: "row_view option"
  di_nxt_sum :: "int option"
  di_rows :: "'x list"
  di_future :: "'x list option"
  di_cpu_buf :: "(nat \<times> nat) option"
  di_gpu_buf :: "(nat \<times> nat) option"

text \<open>The loop over \<open>top_k\<close>.\<close>

definition max_top_k :: "int list \<Rightarrow> int" where
  "max_top_k ks = max (foldl max 1 ks) 1"

definition uniform_top_k :: "int list \<Rightarrow> int option" where
  "uniform_top_k ks = (case ks of [] \<Rightarrow> None | k # r \<Rightarrow> if list_all (\<lambda>x. x = k) r then Some k else None)"

definition bump_batch :: "row_view \<Rightarrow> 'r plan_batch \<Rightarrow> 'r plan_batch" where
  "bump_batch v B =
     B\<lparr>pb_reqs := map (\<lambda>r. r\<lparr>pr_decode_batch_idx := pr_decode_batch_idx r + 1\<rparr>) (pb_reqs B),
       pb_seq_lens_cpu := v, pb_seq_lens_sum := sum_list (map pr_committed (pb_reqs B))\<rparr>"

definition planned :: "row_view \<Rightarrow> int list \<Rightarrow> int list \<Rightarrow> 'x draft_input \<Rightarrow> 'x draft_input" where
  "planned v nxt ks I =
     I\<lparr>di_max_top_k := max_top_k ks, di_uniform_top_k := uniform_top_k ks, di_nxt_cpu := Some v, di_nxt_sum := Some (sum_list nxt)\<rparr>"

text \<open>\<open>_prepare_for_decode_staged\<close>. The allocation reads the device rows only when tokens are needed.\<close>

type_synonym 'r sizing = "'r plan_req list \<Rightarrow> int \<Rightarrow> int list \<times> int list \<times> int"

definition prepare_staged ::
    "'r sizing \<Rightarrow> int \<Rightarrow> bool \<Rightarrow> 'r plan_batch \<Rightarrow> 'x draft_input \<Rightarrow> 'r staging \<Rightarrow> machine
     \<Rightarrow> py_error + 'r plan_batch \<times> 'x draft_input \<times> 'r staging \<times> machine" where
  "prepare_staged sizing block_size checking B I S m =
     (let reqs = pb_reqs B; bs = length reqs in
      if bs = 0 then Inr (B, I, S, m)
      else if block_size \<le> 0 then Inl (ValueError ''speculative_num_draft_tokens'')
      else
        (let (cur, nxt, needed) = sizing reqs (2 * block_size); committed = map pr_committed reqs in
         case acquire bs S m of
           Inl e \<Rightarrow> Inl e
         | Inr (a, S, m) \<Rightarrow>
             (case copy_row bs I64 committed of
                Inl e \<Rightarrow> Inl e
              | Inr seq' \<Rightarrow>
                  (case copy_row bs I32 cur of
                     Inl e \<Rightarrow> Inl e
                   | Inr cur' \<Rightarrow>
                       (case copy_row bs I32 nxt of
                          Inl e \<Rightarrow> Inl e
                        | Inr nxt' \<Rightarrow>
                            (case ship checking needed (map pr_rid reqs) S (write_slot a seq' cur' nxt' m) of
                               Inl e \<Rightarrow> Inl e
                             | Inr (d, S, m) \<Rightarrow>
                                 Inr (bump_batch (Slot a bs) B, planned (Slot a bs) nxt (map pr_top_k reqs) I, S,
                                   if 0 < needed then submit (Use (sg_stage_ct S) d bs cur' nxt') m else m)))))))"

text \<open>\<open>_ensure_prepare_length_buffers\<close> (one device).\<close>

definition grown_capacity :: "nat \<Rightarrow> (nat \<times> nat) option \<Rightarrow> nat" where
  "grown_capacity bs buf = max bs (max 32 (case buf of None \<Rightarrow> 0 | Some (cap, a) \<Rightarrow> if 0 < cap then cap * 2 else 0))"

definition needs_alloc :: "nat \<Rightarrow> (nat \<times> nat) option \<Rightarrow> bool" where
  "needs_alloc bs buf \<longleftrightarrow> (case buf of None \<Rightarrow> True | Some (cap, a) \<Rightarrow> cap < bs)"

definition ensure_buffers :: "nat \<Rightarrow> 'x draft_input \<Rightarrow> machine \<Rightarrow> 'x draft_input \<times> machine" where
  "ensure_buffers bs I m =
     (let (I, m) = (if needs_alloc bs (di_cpu_buf I)
            then (let cap = grown_capacity bs (di_cpu_buf I); a = mc_host_next m
                  in (I\<lparr>di_cpu_buf := Some (cap, a)\<rparr>, m\<lparr>mc_host := (mc_host m)(a := zero_slot cap), mc_host_next := a + 1\<rparr>))
            else (I, m))
      in if needs_alloc bs (di_gpu_buf I)
         then (let cap = grown_capacity bs (di_gpu_buf I); d = mc_dev_next m
               in (I\<lparr>di_gpu_buf := Some (cap, d)\<rparr>, m\<lparr>mc_dev := (mc_dev m)(d := (replicate cap 0, replicate cap 0)), mc_dev_next := d + 1\<rparr>))
         else (I, m))"

text \<open>\<open>_prepare_for_decode_legacy\<close>: the loop stores one request after the other, as far as the lists reach.\<close>

definition prepare_legacy ::
    "'r sizing \<Rightarrow> int \<Rightarrow> 'r plan_batch \<Rightarrow> 'x draft_input \<Rightarrow> machine \<Rightarrow> py_error + 'r plan_batch \<times> 'x draft_input \<times> machine" where
  "prepare_legacy sizing block_size B I m =
     (let reqs = pb_reqs B; bs = length reqs in
      if bs = 0 then Inr (B, I, m)
      else
        (let (I, m) = ensure_buffers bs I m in
         if block_size \<le> 0 then Inl (ValueError ''speculative_num_draft_tokens'')
         else
           (let (cur, nxt, needed) = sizing reqs (2 * block_size); rows = zip reqs (zip cur nxt);
                seq' = map (pr_committed \<circ> fst) rows; cur' = map (fst \<circ> snd) rows; nxt' = map (snd \<circ> snd) rows
            in if \<not> (list_all (fits I64) seq' \<and> list_all (fits I32) cur' \<and> list_all (fits I32) nxt') then Inl (RuntimeError ''overflow'')
               else
                 (case (di_cpu_buf I, di_gpu_buf I) of
                    (Some (_, a), Some (_, d)) \<Rightarrow>
                      (let m = submit (H2D 0 a d (Some bs)) (write_slot a seq' cur' nxt' m);
                           s = mc_host m a
                       in Inr ((bump_batch (Slot a bs) B)\<lparr>pb_seq_lens_sum := sum_list seq'\<rparr>,
                           planned (Slot a bs) nxt' (map (pr_top_k \<circ> fst) rows) I,
                           if 0 < needed then submit (Use 0 d bs (take bs (sl_cur s)) (take bs (sl_nxt s))) m else m))
                  | _ \<Rightarrow> Inl AssertionError))))"

text \<open>\<open>filter_batch\<close> and \<open>merge_batch\<close>.\<close>

definition index_rows :: "'a list \<Rightarrow> int list \<Rightarrow> py_error + 'a list" where
  "index_rows xs idx = sequence (map (\<lambda>i. map_sum id ((!) xs) (torch_index (length xs) i)) idx)"

definition filter_draft :: "int list \<Rightarrow> int list option \<Rightarrow> machine \<Rightarrow> 'x draft_input \<Rightarrow> py_error + 'x draft_input" where
  "filter_draft new_indices new_indices_cpu m I =
     (case (case di_nxt_cpu I of
              None \<Rightarrow> Inr I
            | Some v \<Rightarrow>
                map_sum id (\<lambda>xs. I\<lparr>di_nxt_cpu := Some (Own xs), di_nxt_sum := Some (sum_list xs)\<rparr>)
                  (index_rows (view_nxt m v) (case new_indices_cpu of Some idx \<Rightarrow> idx | None \<Rightarrow> new_indices))) of
        Inl e \<Rightarrow> Inl e
      | Inr I \<Rightarrow>
          (case di_future I of
             Some f \<Rightarrow> map_sum id (\<lambda>f. I\<lparr>di_future := Some f\<rparr>) (index_rows f new_indices)
           | None \<Rightarrow> map_sum id (\<lambda>r. I\<lparr>di_rows := r\<rparr>) (index_rows (di_rows I) new_indices)))"

definition merge_draft :: "machine \<Rightarrow> 'x draft_input \<Rightarrow> 'x draft_input \<Rightarrow> py_error + 'x draft_input" where
  "merge_draft m other I =
     (case (case di_nxt_cpu I of
              Some v \<Rightarrow>
                (case di_nxt_cpu other of
                   None \<Rightarrow> Inl AssertionError
                 | Some w \<Rightarrow> (let xs = view_nxt m v @ view_nxt m w
                     in Inr (I\<lparr>di_nxt_cpu := Some (Own xs), di_nxt_sum := Some (sum_list xs)\<rparr>)))
            | None \<Rightarrow>
                (case di_nxt_cpu other of
                   None \<Rightarrow> Inr I
                 | Some w \<Rightarrow> Inr (I\<lparr>di_nxt_cpu := Some w, di_nxt_sum := di_nxt_sum other\<rparr>))) of
        Inl e \<Rightarrow> Inl e
      | Inr I \<Rightarrow>
          (case di_future I of
             Some f \<Rightarrow> (case di_future other of None \<Rightarrow> Inl AssertionError | Some g \<Rightarrow> Inr (I\<lparr>di_future := Some (f @ g)\<rparr>))
           | None \<Rightarrow> Inr (I\<lparr>di_rows := di_rows I @ di_rows other\<rparr>)))"

section \<open>Running ahead of the device\<close>

text \<open>The host prepares step \<open>n + 1\<close> when all work of the steps before \<open>n\<close> is done (the scheduler has waited for
  the copy of the step before the last one); the device does the next piece of work at any time. A batch that
  is not empty is prepared. What the rows of a draft input hold does not matter here.\<close>

inductive runs_ahead :: "'r sizing \<Rightarrow> 'r staging \<Rightarrow> machine \<Rightarrow> bool" for sizing where
  start: "mc_queue m = [] \<Longrightarrow> mc_log m = [] \<Longrightarrow> runs_ahead sizing new_staging m"
| device: "runs_ahead sizing S m \<Longrightarrow> runs_ahead sizing S (run_next m)"
| host: "runs_ahead sizing S m \<Longrightarrow> list_all (\<lambda>x. sg_stage_ct S \<le> op_step x) (mc_queue m)
    \<Longrightarrow> prepare_staged sizing block_size checking B (I :: unit draft_input) S m = Inr (B', I', S', m') \<Longrightarrow> runs_ahead sizing S' m'"

end
