(* ===== verification/DecodePlanFacts.thy ===== *)
theory DecodePlanFacts
  imports DecodePlan
begin

text \<open>
  The host may run one step ahead of the device: every allocation still reads the rows of its own step, the rows
  handed out stay as they are until the step after the next, and the staged path does what the older one does.
\<close>

section \<open>Well-formed staging\<close>

definition staged_ok :: "'r staging \<Rightarrow> machine \<Rightarrow> bool" where
  "staged_ok S m \<longleftrightarrow>
     sg_slot S < 2 \<and>
     (if sg_capacity S = 0 then sg_ring S = [] else
        (\<exists>a b. sg_ring S = [a, b] \<and> a \<noteq> b \<and> a < mc_host_next m \<and> b < mc_host_next m)
        \<and> (\<exists>d. sg_lens_gpu S = Some d \<and> d < mc_dev_next m))"

text \<open>Copies of the last step read its slot; every allocation follows the copy of its step.\<close>

definition copies_ok :: "'r staging \<Rightarrow> machine \<Rightarrow> bool" where
  "copies_ok S m \<longleftrightarrow>
     (\<forall>n src dst b. H2D n src dst b \<in> set (mc_queue m) \<longrightarrow>
        b = None \<and> n \<le> sg_stage_ct S \<and> src < mc_host_next m \<and> dst < mc_dev_next m
        \<and> (n = sg_stage_ct S \<longrightarrow> sg_slot S < length (sg_ring S) \<and> src = sg_ring S ! sg_slot S))
     \<and> (\<forall>n dst bs c x. Use n dst bs c x \<in> set (mc_queue m) \<longrightarrow> dst < mc_dev_next m)"

definition use_ok :: "machine \<Rightarrow> op list \<Rightarrow> nat \<Rightarrow> nat \<Rightarrow> int list \<Rightarrow> int list \<Rightarrow> bool" where
  "use_ok m pre dst bs c x \<longleftrightarrow>
     (pre = [] \<and> take bs (fst (mc_dev m dst)) = c \<and> take bs (snd (mc_dev m dst)) = x)
     \<or> (\<exists>pre' n src. pre = pre' @ [H2D n src dst None] \<and> take bs (sl_cur (mc_host m src)) = c \<and> take bs (sl_nxt (mc_host m src)) = x)"

definition uses_ok :: "machine \<Rightarrow> bool" where
  "uses_ok m \<longleftrightarrow> (\<forall>pre n dst bs c x post. mc_queue m = pre @ Use n dst bs c x # post \<longrightarrow> use_ok m pre dst bs c x)"

definition log_ok :: "machine \<Rightarrow> bool" where
  "log_ok m \<longleftrightarrow> (\<forall>(got, expected) \<in> set (mc_log m). got = expected)"

section \<open>The device\<close>

lemma exec_op_fields: "mc_host (exec_op x m) = mc_host m" "mc_host_next (exec_op x m) = mc_host_next m"
  "mc_dev_next (exec_op x m) = mc_dev_next m" "mc_queue (exec_op x m) = mc_queue m"
  by (cases x; simp add: Let_def split: prod.splits)+

lemma run_next_host: "mc_host (run_next m) = mc_host m" "mc_host_next (run_next m) = mc_host_next m" "mc_dev_next (run_next m) = mc_dev_next m"
  by (cases "mc_queue m"; simp add: run_next_def exec_op_fields)+

lemma run_next_queue: "mc_queue (run_next m) = tl (mc_queue m)"
  by (cases "mc_queue m") (simp_all add: run_next_def exec_op_fields)

lemma run_next_ok:
  assumes "uses_ok m" "log_ok m" "copies_ok S m"
  shows "uses_ok (run_next m)" "log_ok (run_next m)"
proof -
  have "uses_ok (run_next m) \<and> log_ok (run_next m)"
  proof (cases "mc_queue m")
    case (Cons y q)
    show ?thesis
    proof (cases y)
      case (H2D n src dst b)
      have b: "b = None" using assms(3) Cons H2D by (auto simp: copies_ok_def)
      have r: "run_next m = m\<lparr>mc_queue := q, mc_dev := (mc_dev m)(dst := (sl_cur (mc_host m src), sl_nxt (mc_host m src)))\<rparr>"
        using Cons H2D b by (simp add: run_next_def Let_def split: prod.splits)
      have "use_ok (run_next m) pre d bs c x" if "q = pre @ Use k d bs c x # post" for pre k d bs c x post
      proof -
        have "use_ok m (y # pre) d bs c x" using assms(1) Cons that by (auto simp: uses_ok_def)
        then obtain pre' n' src' where u: "y # pre = pre' @ [H2D n' src' d None]" "take bs (sl_cur (mc_host m src')) = c"
          "take bs (sl_nxt (mc_host m src')) = x" by (auto simp: use_ok_def)
        show ?thesis
        proof (cases pre')
          case Nil
          then show ?thesis using u H2D r by (simp add: use_ok_def)
        next
          case (Cons z zs)
          then show ?thesis using u r by (auto simp: use_ok_def)
        qed
      qed
      moreover have "mc_queue (run_next m) = q" using r by simp
      ultimately show ?thesis using assms(2) r by (simp add: uses_ok_def log_ok_def)
    next
      case (Use n dst bs c x)
      have r: "run_next m = m\<lparr>mc_queue := q, mc_log := mc_log m @ [((take bs (fst (mc_dev m dst)), take bs (snd (mc_dev m dst))), c, x)]\<rparr>"
        using Cons Use by (simp add: run_next_def)
      have "use_ok m [] dst bs c x" using assms(1) Cons Use by (auto simp: uses_ok_def)
      then have "log_ok (run_next m)" using assms(2) r by (auto simp: log_ok_def use_ok_def)
      moreover have "use_ok (run_next m) pre d bs' c' x'" if "q = pre @ Use k d bs' c' x' # post" for pre k d bs' c' x' post
      proof -
        have "use_ok m (y # pre) d bs' c' x'" using assms(1) Cons that by (auto simp: uses_ok_def)
        then obtain pre' n' src' where u: "y # pre = pre' @ [H2D n' src' d None]" "take bs' (sl_cur (mc_host m src')) = c'"
          "take bs' (sl_nxt (mc_host m src')) = x'" by (auto simp: use_ok_def)
        then show ?thesis using Use r by (cases pre') (auto simp: use_ok_def)
      qed
      moreover have "mc_queue (run_next m) = q" using r by simp
      ultimately show ?thesis by (simp add: uses_ok_def)
    qed
  qed (use assms in \<open>simp add: run_next_def\<close>)
  then show "uses_ok (run_next m)" "log_ok (run_next m)" by auto
qed

lemma run_next_staged: "staged_ok S m \<Longrightarrow> staged_ok S (run_next m)"
  by (simp add: staged_ok_def run_next_host)

lemma run_next_copies: "copies_ok S m \<Longrightarrow> copies_ok S (run_next m)"
proof -
  assume c: "copies_ok S m"
  have "x \<in> set (mc_queue m)" if "x \<in> set (tl (mc_queue m))" for x using that by (cases "mc_queue m") auto
  then show ?thesis using c unfolding copies_ok_def run_next_host run_next_queue by blast
qed

section \<open>The host\<close>

lemma copy_row_length: "copy_row bs d xs = Inr ys \<Longrightarrow> length ys = bs"
  by (auto simp: copy_row_def tensor_of_def split: if_splits)

lemma copy_row_same: "copy_row bs d xs = Inr ys \<Longrightarrow> length xs = bs \<Longrightarrow> ys = xs \<and> list_all (fits d) xs"
  by (auto simp: copy_row_def tensor_of_def split: if_splits)

lemma take_put_front: "length xs = n \<Longrightarrow> take n (put_front xs row) = xs"
  by (simp add: put_front_def)

text \<open>What a step does: a slot that no waiting copy reads is written, then copied when the rows are needed.\<close>

lemma acquire_slot:
  assumes "acquire bs S m = Inr (a, S1, m1)" "staged_ok S m" "0 < bs"
  shows "staged_ok S1 m1" "sg_capacity S1 \<noteq> 0" "a = sg_ring S1 ! sg_slot S1" "sg_slot S1 < length (sg_ring S1)" "sg_stage_ct S1 = sg_stage_ct S"
    "mc_queue m1 = mc_queue m" "mc_log m1 = mc_log m" "mc_host_next m \<le> mc_host_next m1" "mc_dev_next m \<le> mc_dev_next m1"
    "\<forall>x < mc_host_next m. mc_host m1 x = mc_host m x" "\<forall>d < mc_dev_next m. mc_dev m1 d = mc_dev m d"
    "a < mc_host_next m1" "sg_slot S < length (sg_ring S) \<longrightarrow> a \<noteq> sg_ring S ! sg_slot S"
proof -
  define T where "T = (if sg_capacity S < bs then grow bs S m else (S, m))"
  obtain S0 m0 where t: "T = (S0, m0)" by (cases T)
  have slot: "S1 = S0\<lparr>sg_slot := (sg_slot S0 + 1) mod 2\<rparr>" "m1 = m0" "a = sg_ring S1 ! sg_slot S1" "sg_slot S1 < length (sg_ring S1)"
    using assms(1) t by (auto simp: acquire_def Let_def T_def ring_depth_def split: if_splits option.splits prod.splits)
  have ring: "staged_ok S0 m0" "sg_capacity S0 \<noteq> 0" "sg_stage_ct S0 = sg_stage_ct S" "sg_slot S0 = sg_slot S"
    "mc_queue m0 = mc_queue m" "mc_log m0 = mc_log m" "mc_host_next m \<le> mc_host_next m0" "mc_dev_next m \<le> mc_dev_next m0"
    "\<forall>x < mc_host_next m. mc_host m0 x = mc_host m x" "\<forall>d < mc_dev_next m. mc_dev m0 d = mc_dev m d"
    using t assms(2,3) by (auto simp: T_def grow_def Let_def staged_ok_def ring_depth_def upt_rec split: if_splits)
  show "staged_ok S1 m1" "sg_capacity S1 \<noteq> 0" "a = sg_ring S1 ! sg_slot S1" "sg_slot S1 < length (sg_ring S1)" "sg_stage_ct S1 = sg_stage_ct S"
    "mc_queue m1 = mc_queue m" "mc_log m1 = mc_log m" "mc_host_next m \<le> mc_host_next m1" "mc_dev_next m \<le> mc_dev_next m1"
    "\<forall>x < mc_host_next m. mc_host m1 x = mc_host m x" "\<forall>d < mc_dev_next m. mc_dev m1 d = mc_dev m d"
    using slot ring by (simp_all add: staged_ok_def)
  obtain u v where uv: "sg_ring S0 = [u, v]" "u \<noteq> v" "u < mc_host_next m0" "v < mc_host_next m0" "sg_slot S0 < 2"
    using ring(1,2) by (auto simp: staged_ok_def)
  then have a: "a = (if sg_slot S = 0 then v else u)" using slot(1,3) ring(4) by (cases "sg_slot S0"; cases "sg_slot S0 - 1") auto
  then show "a < mc_host_next m1" using uv slot(2) by simp
  show "sg_slot S < length (sg_ring S) \<longrightarrow> a \<noteq> sg_ring S ! sg_slot S"
  proof (cases "sg_capacity S < bs")
    case True
    then have "u \<ge> mc_host_next m" "v \<ge> mc_host_next m" using t uv(1) by (auto simp: T_def grow_def Let_def ring_depth_def upt_rec)
    moreover have "sg_slot S < length (sg_ring S) \<Longrightarrow> sg_ring S ! sg_slot S < mc_host_next m"
      using assms(2) by (auto simp: staged_ok_def nth_Cons split: if_splits nat.splits)
    ultimately show ?thesis using a by auto
  next
    case False
    then have "S0 = S" using t by (simp add: T_def)
    then show ?thesis using uv a by (cases "sg_slot S"; cases "sg_slot S - 1") auto
  qed
qed

lemma ship_cases:
  assumes "ship checking needed ids S m = Inr (d, S', m')"
  shows "sg_lens_gpu S = Some d \<and> sg_stage_ct S' = sg_stage_ct S + 1 \<and> sg_ring S' = sg_ring S \<and> sg_slot S' = sg_slot S
    \<and> sg_capacity S' = sg_capacity S \<and> sg_lens_gpu S' = sg_lens_gpu S
    \<and> (m' = submit (H2D (sg_stage_ct S + 1) (sg_ring S ! sg_slot S) d None) m \<or> m' = m \<and> needed \<le> 0)"
  using assms by (auto simp: ship_def Let_def split: option.splits if_splits)

lemma prepare_parts:
  assumes "prepare_staged sizing block_size checking B I S m = Inr (B', I', S', m')" "pb_reqs B \<noteq> []"
  obtains cur nxt needed seq' cur' nxt' a S1 m1 d m2 where
    "sizing (pb_reqs B) (2 * block_size) = (cur, nxt, needed)" "0 < block_size"
    "acquire (length (pb_reqs B)) S m = Inr (a, S1, m1)"
    "copy_row (length (pb_reqs B)) I64 (map pr_committed (pb_reqs B)) = Inr seq'"
    "copy_row (length (pb_reqs B)) I32 cur = Inr cur'" "copy_row (length (pb_reqs B)) I32 nxt = Inr nxt'"
    "ship checking needed (map pr_rid (pb_reqs B)) S1 (write_slot a seq' cur' nxt' m1) = Inr (d, S', m2)"
    "B' = bump_batch (Slot a (length (pb_reqs B))) B" "I' = planned (Slot a (length (pb_reqs B))) nxt (map pr_top_k (pb_reqs B)) I"
    "m' = (if 0 < needed then submit (Use (sg_stage_ct S') d (length (pb_reqs B)) cur' nxt') m2 else m2)"
  using assms by (auto simp: prepare_staged_def Let_def split: if_splits prod.splits sum.splits)

lemma use_ok_cong:
  assumes "use_ok m pre dst bs c x" "mc_dev m' dst = mc_dev m dst" "\<And>n src d b. H2D n src d b \<in> set pre \<Longrightarrow> mc_host m' src = mc_host m src"
  shows "use_ok m' pre dst bs c x"
  using assms by (fastforce simp: use_ok_def)

lemma append_eq_appendE:
  assumes "xs @ ys = pre @ z # post"
  obtains r where "xs = pre @ z # r" | r where "pre = xs @ r" "ys = r @ z # post"
proof -
  obtain us where "xs = pre @ us \<and> us @ ys = z # post \<or> xs @ us = pre \<and> ys = us @ z # post"
    using assms by (auto simp: append_eq_append_conv2)
  then show thesis using that(1) [of "tl us"] that(2) [of us] that(2) [of "[]"] by (cases us) auto
qed

lemma prepare_ok:
  assumes "staged_ok S m" "copies_ok S m" "uses_ok m" "log_ok m"
    and "list_all (\<lambda>x. sg_stage_ct S \<le> op_step x) (mc_queue m)"
    and "prepare_staged sizing block_size checking B I S m = Inr (B', I', S', m')" "pb_reqs B \<noteq> []"
  shows "staged_ok S' m' \<and> copies_ok S' m' \<and> uses_ok m' \<and> log_ok m'"
proof -
  let ?bs = "length (pb_reqs B)"
  obtain cur nxt needed seq' cur' nxt' a S1 m1 d m2 where P:
    "sizing (pb_reqs B) (2 * block_size) = (cur, nxt, needed)" "acquire ?bs S m = Inr (a, S1, m1)"
    "copy_row ?bs I64 (map pr_committed (pb_reqs B)) = Inr seq'" "copy_row ?bs I32 cur = Inr cur'" "copy_row ?bs I32 nxt = Inr nxt'"
    "ship checking needed (map pr_rid (pb_reqs B)) S1 (write_slot a seq' cur' nxt' m1) = Inr (d, S', m2)"
    "m' = (if 0 < needed then submit (Use (sg_stage_ct S') d ?bs cur' nxt') m2 else m2)"
    using prepare_parts [OF assms(6,7)] by metis
  have "0 < ?bs" using assms(7) by simp
  note A = acquire_slot [OF P(2) assms(1) this]
  define mw where "mw = write_slot a seq' cur' nxt' m1"
  have mw: "mc_queue mw = mc_queue m" "mc_log mw = mc_log m" "mc_host_next mw = mc_host_next m1" "mc_dev_next mw = mc_dev_next m1"
    "mc_dev mw = mc_dev m1" "take ?bs (sl_cur (mc_host mw a)) = cur'" "take ?bs (sl_nxt (mc_host mw a)) = nxt'"
    "\<forall>x. x \<noteq> a \<longrightarrow> mc_host mw x = mc_host m1 x"
    using A(6,7) copy_row_length [OF P(4)] copy_row_length [OF P(5)] by (auto simp: mw_def write_slot_def Let_def take_put_front)
  note H = ship_cases [OF P(6) [folded mw_def]]
  have ct: "sg_stage_ct S' = sg_stage_ct S + 1" using H A(5) by simp
  have ring: "sg_ring S' = sg_ring S1" "sg_slot S' = sg_slot S1" using H by auto
  obtain h where h: "mc_queue m' = mc_queue m @ h" "h \<in> {[], [H2D (sg_stage_ct S') a d None], [H2D (sg_stage_ct S') a d None, Use (sg_stage_ct S') d ?bs cur' nxt']}"
    "mc_host m' = mc_host mw" "mc_dev m' = mc_dev m1" "mc_log m' = mc_log m" "mc_host_next m' = mc_host_next m1" "mc_dev_next m' = mc_dev_next m1"
    using H P(7) mw A(3) ct by (cases "0 < needed") (auto simp: submit_def A(5))
  have dl: "d < mc_dev_next m1" using A(1,2) H by (auto simp: staged_ok_def)
  have so: "staged_ok S' m'" using A(1) H h(6,7) by (auto simp: staged_ok_def)
  have old: "src \<noteq> a \<and> src < mc_host_next m \<and> dst < mc_dev_next m \<and> b = None \<and> n \<le> sg_stage_ct S"
    if "H2D n src dst b \<in> set (mc_queue m)" for n src dst b
  proof -
    have c: "b = None" "n \<le> sg_stage_ct S" "src < mc_host_next m" "dst < mc_dev_next m"
      "n = sg_stage_ct S \<longrightarrow> sg_slot S < length (sg_ring S) \<and> src = sg_ring S ! sg_slot S"
      using assms(2) that unfolding copies_ok_def by blast+
    have "sg_stage_ct S \<le> n" using assms(5) that by (auto simp: list_all_iff)
    then show ?thesis using c A(13) by auto
  qed
  have host: "mc_host m' src = mc_host m src" if "H2D n src dst b \<in> set (mc_queue m)" for n src dst b
    using old [OF that] h(3) mw(8) A(10) by auto
  have co1: "b = None \<and> n \<le> sg_stage_ct S' \<and> src < mc_host_next m' \<and> dst < mc_dev_next m'
      \<and> (n = sg_stage_ct S' \<longrightarrow> sg_slot S' < length (sg_ring S') \<and> src = sg_ring S' ! sg_slot S')"
    if "H2D n src dst b \<in> set (mc_queue m')" for n src dst b
  proof (cases "H2D n src dst b \<in> set (mc_queue m)")
    case True
    show ?thesis using old [OF True] ct h(6,7) A(8,9) by auto
  next
    case False
    then have "n = sg_stage_ct S'" "src = a" "dst = d" "b = None" using that h(1,2) by auto
    then show ?thesis using A(3,4,12) ring dl h(6,7) by simp
  qed
  have co2: "dst < mc_dev_next m'" if "Use n dst bs c x \<in> set (mc_queue m')" for n dst bs c x
  proof (cases "Use n dst bs c x \<in> set (mc_queue m)")
    case True
    then have "dst < mc_dev_next m" using assms(2) unfolding copies_ok_def by blast
    then show ?thesis using A(9) h(7) by simp
  next
    case False
    then show ?thesis using that h(1,2,7) dl by auto
  qed
  have co: "copies_ok S' m'" unfolding copies_ok_def using co1 co2 by blast
  have uo: "use_ok m' pre dst bs c x" if q: "mc_queue m' = pre @ Use n dst bs c x # post" for pre n dst bs c x post
  proof -
    have "mc_queue m @ h = pre @ Use n dst bs c x # post" using q h(1) by simp
    then consider r where "mc_queue m = pre @ Use n dst bs c x # r" | r where "pre = mc_queue m @ r" "h = r @ Use n dst bs c x # post"
      by (rule append_eq_appendE)
    then show ?thesis
    proof cases
      case 1
      then have u: "use_ok m pre dst bs c x" using assms(3) by (auto simp: uses_ok_def)
      have "dst < mc_dev_next m" using assms(2) 1 by (auto simp: copies_ok_def)
      then have "mc_dev m' dst = mc_dev m dst" using h(4) A(11) by simp
      moreover have "mc_host m' src = mc_host m src" if "H2D k src d' b \<in> set pre" for k src d' b
        using host [of k src d' b] that 1 by simp
      ultimately show ?thesis by (rule use_ok_cong [OF u])
    next
      case 2
      then have "r = [H2D (sg_stage_ct S') a d None]" "dst = d" "bs = ?bs" "c = cur'" "x = nxt'"
        using h(2) by (auto simp: append_eq_Cons_conv Cons_eq_append_conv)
      then show ?thesis using 2 mw(6,7) h(3) by (auto simp: use_ok_def)
    qed
  qed
  show ?thesis using so co uo assms(4) h(5) by (simp add: uses_ok_def log_ok_def)
qed

lemma runs_ahead_ok: "runs_ahead sizing S m \<Longrightarrow> staged_ok S m \<and> copies_ok S m \<and> uses_ok m \<and> log_ok m"
proof (induction rule: runs_ahead.induct)
  case (start m)
  then show ?case by (simp add: staged_ok_def new_staging_def copies_ok_def uses_ok_def log_ok_def)
next
  case (device S m)
  then show ?case using run_next_ok run_next_staged run_next_copies by blast
next
  case (host S m block_size chk B I B' I' S' m')
  show ?case
  proof (cases "pb_reqs B = []")
    case True
    then show ?thesis using host by (auto simp: prepare_staged_def)
  next
    case False
    then show ?thesis using prepare_ok host by blast
  qed
qed

section \<open>Rows on the device\<close>

text \<open>C17: While the host stays at most one step ahead, every allocation finds in the device rows the very
  lengths the host computed for that step, although copies that seem needless are left out.\<close>

theorem plan_uses_exact:
  assumes "runs_ahead sizing S m" "(got, expected) \<in> set (mc_log m)"
  shows "got = expected"
  using runs_ahead_ok [OF assms(1)] assms(2) by (auto simp: log_ok_def)

section \<open>Rows on the host\<close>

definition rows_per_request :: "'r sizing \<Rightarrow> bool" where
  "rows_per_request sizing \<longleftrightarrow> (\<forall>reqs k. length (fst (sizing reqs k)) = length reqs \<and> length (fst (snd (sizing reqs k))) = length reqs)"

lemma acquire_other_slot:
  assumes "acquire bs S m = Inr (a, S1, m1)" "staged_ok S m" "0 < bs" "x < mc_host_next m" "sg_slot S < length (sg_ring S)"
    "x = sg_ring S ! sg_slot S"
  shows "mc_host (write_slot a p q r m1) x = mc_host m x"
  using acquire_slot(10,13) [OF assms(1,2,3)] assms(4-6) by (simp add: write_slot_def Let_def)

lemma ship_host: "ship chk needed ids S m = Inr (d, S', m') \<Longrightarrow> mc_host m' = mc_host m"
  using ship_cases [of chk needed ids S m d S' m'] by (auto simp: submit_def)

lemma prepare_views:
  assumes "prepare_staged sizing bs chk B I S m = Inr (B', I', S', m')" "pb_reqs B \<noteq> []" "staged_ok S m" "rows_per_request sizing"
  obtains a where "a = sg_ring S' ! sg_slot S'" "sg_slot S' < length (sg_ring S')" "a < mc_host_next m'"
    "pb_seq_lens_cpu B' = Slot a (length (pb_reqs B))" "di_nxt_cpu I' = Some (Slot a (length (pb_reqs B)))"
    "take (length (pb_reqs B)) (sl_seq (mc_host m' a)) = map pr_committed (pb_reqs B)"
    "take (length (pb_reqs B)) (sl_nxt (mc_host m' a)) = fst (snd (sizing (pb_reqs B) (2 * bs)))"
proof -
  obtain cur nxt needed seq' cur' nxt' a S1 m1 d m2 where P:
    "sizing (pb_reqs B) (2 * bs) = (cur, nxt, needed)" "acquire (length (pb_reqs B)) S m = Inr (a, S1, m1)"
    "copy_row (length (pb_reqs B)) I64 (map pr_committed (pb_reqs B)) = Inr seq'" "copy_row (length (pb_reqs B)) I32 nxt = Inr nxt'"
    "ship chk needed (map pr_rid (pb_reqs B)) S1 (write_slot a seq' cur' nxt' m1) = Inr (d, S', m2)"
    "B' = bump_batch (Slot a (length (pb_reqs B))) B" "I' = planned (Slot a (length (pb_reqs B))) nxt (map pr_top_k (pb_reqs B)) I"
    "m' = (if 0 < needed then submit (Use (sg_stage_ct S') d (length (pb_reqs B)) cur' nxt') m2 else m2)"
    using prepare_parts [OF assms(1,2)] by metis
  have "0 < length (pb_reqs B)" using assms(2) by simp
  note A = acquire_slot [OF P(2) assms(3) this]
  note H = ship_cases [OF P(5)]
  have "length nxt = length (pb_reqs B)" using assms(4) P(1) by (metis fst_conv rows_per_request_def snd_conv)
  then have eq: "seq' = map pr_committed (pb_reqs B)" "nxt' = nxt" using copy_row_same [OF P(3)] copy_row_same [OF P(4)] by auto
  have h: "mc_host m' = mc_host (write_slot a seq' cur' nxt' m1)" using ship_host [OF P(5)] P(8) by (simp add: submit_def)
  have "mc_host_next m' = mc_host_next m1" using H P(8) by (auto simp: submit_def write_slot_def Let_def)
  then show thesis
    using A(3,4,12) H P(1,6,7) eq h \<open>length nxt = _\<close>
    by (intro that) (auto simp: bump_batch_def planned_def write_slot_def Let_def put_front_def)
qed

lemma run_next_times: "mc_host ((run_next ^^ k) m) = mc_host m \<and> mc_host_next ((run_next ^^ k) m) = mc_host_next m"
  by (induction k) (simp_all add: run_next_host)

lemma run_next_times_ahead: "runs_ahead sizing S m \<Longrightarrow> runs_ahead sizing S ((run_next ^^ k) m)"
  by (induction k) (auto intro: runs_ahead.device)

lemma prepare_keeps_slot:
  assumes "prepare_staged sizing bs chk B I S m = Inr (B', I', S', m')" "staged_ok S m"
    "x < mc_host_next m" "sg_slot S < length (sg_ring S)" "x = sg_ring S ! sg_slot S"
  shows "mc_host m' x = mc_host m x"
proof (cases "pb_reqs B = []")
  case True
  then show ?thesis using assms(1) by (simp add: prepare_staged_def)
next
  case False
  obtain cur nxt needed seq' cur' nxt' a S1 m1 d m2 where P: "acquire (length (pb_reqs B)) S m = Inr (a, S1, m1)"
    "ship chk needed (map pr_rid (pb_reqs B)) S1 (write_slot a seq' cur' nxt' m1) = Inr (d, S', m2)"
    "m' = (if 0 < needed then submit (Use (sg_stage_ct S') d (length (pb_reqs B)) cur' nxt') m2 else m2)"
    using prepare_parts [OF assms(1) False] by metis
  show ?thesis
    using acquire_other_slot [OF P(1) assms(2) _ assms(3-5)] ship_host [OF P(2)] P(3) False by (simp add: submit_def)
qed

text \<open>C18: The lengths a step hands out (views of its host slot) are the committed lengths and the bounds computed
  for it, and they still are after any device work and after the next step has been prepared.\<close>

theorem handed_views_intact:
  assumes "runs_ahead sizing S m" "list_all (\<lambda>x. sg_stage_ct S \<le> op_step x) (mc_queue m)" "rows_per_request sizing"
    "prepare_staged sizing bs chk B (I :: unit draft_input) S m = Inr (B', I', S', m')" "pb_reqs B \<noteq> []"
    "prepare_staged sizing bs2 chk2 C J S' ((run_next ^^ k) m') = Inr (C', J', S2, m2)"
  shows "view_seq m2 (pb_seq_lens_cpu B') = map pr_committed (pb_reqs B)
    \<and> map_option (view_nxt m2) (di_nxt_cpu I') = Some (fst (snd (sizing (pb_reqs B) (2 * bs))))"
proof -
  have S: "staged_ok S m" using runs_ahead_ok [OF assms(1)] by simp
  have "runs_ahead sizing S' m'" using runs_ahead.host assms(1,2,4) by blast
  then have S': "staged_ok S' ((run_next ^^ k) m')" using runs_ahead_ok run_next_times_ahead by blast
  obtain a where a: "a = sg_ring S' ! sg_slot S'" "sg_slot S' < length (sg_ring S')" "a < mc_host_next m'"
    "pb_seq_lens_cpu B' = Slot a (length (pb_reqs B))" "di_nxt_cpu I' = Some (Slot a (length (pb_reqs B)))"
    "take (length (pb_reqs B)) (sl_seq (mc_host m' a)) = map pr_committed (pb_reqs B)"
    "take (length (pb_reqs B)) (sl_nxt (mc_host m' a)) = fst (snd (sizing (pb_reqs B) (2 * bs)))"
    by (rule prepare_views [OF assms(4,5) S assms(3)])
  have "mc_host m2 a = mc_host m' a"
    using prepare_keeps_slot [OF assms(6) S' _ a(2,1)] a(3) run_next_times by metis
  then show ?thesis using a by simp
qed

section \<open>The older path\<close>

text \<open>What a prepared step leaves to be seen.\<close>

definition plan_readout :: "'r plan_batch \<Rightarrow> 'x draft_input \<Rightarrow> machine \<Rightarrow>
    'r plan_req list \<times> int \<times> int list \<times> int \<times> int option \<times> int list option \<times> int option \<times> ((int list \<times> int list) \<times> int list \<times> int list) list" where
  "plan_readout B I m = (pb_reqs B, pb_seq_lens_sum B, view_seq m (pb_seq_lens_cpu B), di_max_top_k I, di_uniform_top_k I,
     map_option (view_nxt m) (di_nxt_cpu I), di_nxt_sum I, mc_log (drain m))"

lemma exec_op_queue_free: "mc_queue (fold exec_op xs m) = mc_queue m" "mc_host (fold exec_op xs m) = mc_host m"
  by (induction xs arbitrary: m) (simp_all add: exec_op_fields)

lemma acquire_ready:
  assumes "staged_ok S m" "0 < bs" "mc_queue m = []"
  obtains a S1 m1 where "acquire bs S m = Inr (a, S1, m1)"
proof -
  define T where "T = (if sg_capacity S < bs then grow bs S m else (S, m))"
  obtain S0 m0 where t: "T = (S0, m0)" by (cases T)
  have "length (sg_ring S0) = 2" "mc_queue m0 = []"
    using t assms by (auto simp: T_def grow_def Let_def staged_ok_def ring_depth_def split: if_splits)
  then have "acquire bs S m = Inr (sg_ring S0 ! ((sg_slot S0 + 1) mod 2), S0\<lparr>sg_slot := (sg_slot S0 + 1) mod 2\<rparr>, m0)"
    using t [unfolded T_def] by (simp add: acquire_def ring_depth_def copy_pending_def Let_def not_le split: option.splits)
  then show thesis by (rule that)
qed

lemma needs_alloc_not: "\<not> needs_alloc bs buf \<Longrightarrow> \<exists>x a. buf = Some (x, a)"
  by (auto simp: needs_alloc_def split: option.splits)

lemma ensure_buffers_ready:
  assumes "mc_queue m = []"
  obtains a d I1 m1 x y where "ensure_buffers bs I m = (I1, m1)" "di_cpu_buf I1 = Some (x, a)" "di_gpu_buf I1 = Some (y, d)"
    "mc_queue m1 = []" "mc_log m1 = mc_log m"
proof -
  obtain I1 m1 where e: "ensure_buffers bs I m = (I1, m1)" by (cases "ensure_buffers bs I m")
  have "(\<exists>x a. di_cpu_buf I1 = Some (x, a)) \<and> (\<exists>y d. di_gpu_buf I1 = Some (y, d)) \<and> mc_queue m1 = [] \<and> mc_log m1 = mc_log m"
    using e assms needs_alloc_not [of bs "di_cpu_buf I"] needs_alloc_not [of bs "di_gpu_buf I"]
    by (cases "needs_alloc bs (di_cpu_buf I)"; cases "needs_alloc bs (di_gpu_buf I)") (auto simp: ensure_buffers_def Let_def)
  then show thesis using that e by blast
qed

lemma staged_readout:
  assumes "staged_ok S m" "mc_queue m = []" "pb_reqs B \<noteq> []" "0 < block_size"
    "sizing (pb_reqs B) (2 * block_size) = (cur, nxt, needed)" "length cur = length (pb_reqs B)" "length nxt = length (pb_reqs B)"
  shows "map_sum id (\<lambda>(B, I, S, m). plan_readout B I m) (prepare_staged sizing block_size chk B I S m)
    = (if list_all (fits I64) (map pr_committed (pb_reqs B)) \<and> list_all (fits I32) cur \<and> list_all (fits I32) nxt
       then Inr (map (\<lambda>r. r\<lparr>pr_decode_batch_idx := pr_decode_batch_idx r + 1\<rparr>) (pb_reqs B), sum_list (map pr_committed (pb_reqs B)),
         map pr_committed (pb_reqs B), max_top_k (map pr_top_k (pb_reqs B)), uniform_top_k (map pr_top_k (pb_reqs B)), Some nxt, Some (sum_list nxt),
         mc_log m @ (if 0 < needed then [((cur, nxt), cur, nxt)] else []))
       else Inl (RuntimeError ''overflow''))"
proof -
  have bs: "0 < length (pb_reqs B)" using assms(3) by simp
  obtain a S1 m1 where a: "acquire (length (pb_reqs B)) S m = Inr (a, S1, m1)" by (rule acquire_ready [OF assms(1) bs assms(2)])
  note A = acquire_slot [OF a assms(1) bs]
  obtain d where d: "sg_lens_gpu S1 = Some d" using A(1,2) by (auto simp: staged_ok_def)
  show ?thesis
    using assms(2-7) bs a A(3,6,7) d
    by (simp add: prepare_staged_def copy_row_def tensor_of_def ship_def Let_def plan_readout_def bump_batch_def planned_def
      write_slot_def put_front_def submit_def drain_def)
qed

lemma legacy_readout:
  assumes "mc_queue m = []" "pb_reqs B \<noteq> []" "0 < block_size"
    "sizing (pb_reqs B) (2 * block_size) = (cur, nxt, needed)" "length cur = length (pb_reqs B)" "length nxt = length (pb_reqs B)"
  shows "map_sum id (\<lambda>(B, I, m). plan_readout B I m) (prepare_legacy sizing block_size B I m)
    = (if list_all (fits I64) (map pr_committed (pb_reqs B)) \<and> list_all (fits I32) cur \<and> list_all (fits I32) nxt
       then Inr (map (\<lambda>r. r\<lparr>pr_decode_batch_idx := pr_decode_batch_idx r + 1\<rparr>) (pb_reqs B), sum_list (map pr_committed (pb_reqs B)),
         map pr_committed (pb_reqs B), max_top_k (map pr_top_k (pb_reqs B)), uniform_top_k (map pr_top_k (pb_reqs B)), Some nxt, Some (sum_list nxt),
         mc_log m @ (if 0 < needed then [((cur, nxt), cur, nxt)] else []))
       else Inl (RuntimeError ''overflow''))"
proof -
  obtain a d I1 m1 x y where e: "ensure_buffers (length (pb_reqs B)) I m = (I1, m1)" "di_cpu_buf I1 = Some (x, a)" "di_gpu_buf I1 = Some (y, d)"
    "mc_queue m1 = []" "mc_log m1 = mc_log m" by (rule ensure_buffers_ready [OF assms(1)])
  have z: "map (f \<circ> fst) (zip (pb_reqs B) (zip cur nxt)) = map f (pb_reqs B)" for f :: "'a plan_req \<Rightarrow> int"
    using assms(5,6) by (simp flip: map_map)
  have z2: "map (fst \<circ> snd) (zip (pb_reqs B) (zip cur nxt)) = cur" "map (snd \<circ> snd) (zip (pb_reqs B) (zip cur nxt)) = nxt"
    using assms(5,6) by (simp_all flip: map_map)
  obtain u v where "mc_dev m1 d = (u, v)" by (cases "mc_dev m1 d")
  then show ?thesis
    using assms(2-6) e
    by (simp add: prepare_legacy_def z z2 Let_def plan_readout_def bump_batch_def planned_def
      write_slot_def put_front_def submit_def drain_def)
qed

text \<open>C19: On an idle device the staged path leaves the same batch, draft input and allocation readings behind as the
  older path with buffers per draft input, and refuses the same inputs.\<close>

theorem staged_like_legacy:
  assumes "runs_ahead sizing S m" "mc_queue m = []" "rows_per_request sizing"
  shows "map_sum id (\<lambda>(B, I, S, m). plan_readout B I m) (prepare_staged sizing block_size chk B I S m)
    = map_sum id (\<lambda>(B, I, m). plan_readout B I m) (prepare_legacy sizing block_size B I m)"
proof -
  have S: "staged_ok S m" using runs_ahead_ok [OF assms(1)] by simp
  obtain cur nxt needed where z: "sizing (pb_reqs B) (2 * block_size) = (cur, nxt, needed)" by (cases "sizing (pb_reqs B) (2 * block_size)")
  then have l: "length cur = length (pb_reqs B)" "length nxt = length (pb_reqs B)"
    using assms(3) by (metis rows_per_request_def fst_conv snd_conv)+
  consider "pb_reqs B = []" | "pb_reqs B \<noteq> []" "block_size \<le> 0" | "pb_reqs B \<noteq> []" "0 < block_size" by linarith
  then show ?thesis
  proof cases
    case 3
    show ?thesis
      unfolding staged_readout [where sizing = sizing and block_size = block_size, OF S assms(2) 3 z l]
        legacy_readout [where sizing = sizing and block_size = block_size, OF assms(2) 3 z l] by (rule refl)
  qed (simp_all add: prepare_staged_def prepare_legacy_def Let_def split: prod.splits)
qed

section \<open>Examples\<close>

definition ex_sizing :: "nat sizing" where
  "ex_sizing reqs k = (map pr_allocated reqs, map (\<lambda>r. pr_committed r + k) reqs, sum_list (map (\<lambda>r. pr_committed r + k - pr_allocated r) reqs))"

definition ex_machine :: machine where
  "ex_machine = \<lparr>mc_host = (\<lambda>_. zero_slot 0), mc_host_next = 0, mc_dev = (\<lambda>_. ([], [])), mc_dev_next = 0, mc_queue = [], mc_log = []\<rparr>"

definition ex_batch :: "int \<Rightarrow> int \<Rightarrow> nat plan_batch" where
  "ex_batch c a = \<lparr>pb_reqs = [\<lparr>pr_rid = 7, pr_committed = c, pr_allocated = a, pr_top_k = 1, pr_decode_batch_idx = 0\<rparr>],
     pb_seq_lens_cpu = Own [], pb_seq_lens_sum = 0\<rparr>"

definition ex_input :: "unit draft_input" where
  "ex_input = \<lparr>di_max_top_k = 1, di_uniform_top_k = None, di_nxt_cpu = None, di_nxt_sum = None, di_rows = [()], di_future = None,
     di_cpu_buf = None, di_gpu_buf = None\<rparr>"

definition ex_first :: "nat plan_batch \<times> unit draft_input \<times> nat staging \<times> machine" where
  "ex_first = projr (prepare_staged ex_sizing 4 False (ex_batch 5 6) ex_input new_staging ex_machine)"

lemma ex_rows: "rows_per_request ex_sizing"
  by (simp add: rows_per_request_def ex_sizing_def)

lemma ex_start: "runs_ahead ex_sizing new_staging ex_machine"
  by (rule runs_ahead.start) (simp_all add: ex_machine_def)

lemmas ex_defs = ex_sizing_def ex_machine_def ex_batch_def ex_input_def prepare_staged_def acquire_def grow_def new_staging_def ring_depth_def
  copy_pending_def copy_row_def tensor_of_def ship_def write_slot_def submit_def put_front_def zero_slot_def Let_def fits_def

lemma ex_first_ok: "prepare_staged ex_sizing 4 False (ex_batch 5 6) ex_input new_staging ex_machine = Inr ex_first"
  unfolding ex_first_def by (simp add: ex_defs)

lemma ex_ahead: "runs_ahead ex_sizing (fst (snd (snd ex_first))) (snd (snd (snd ex_first)))"
proof -
  have g: "list_all (\<lambda>x. sg_stage_ct (new_staging :: nat staging) \<le> op_step x) (mc_queue ex_machine)" by (simp add: ex_machine_def)
  obtain B1 I1 S1 m1 where e: "ex_first = (B1, I1, S1, m1)" by (cases ex_first)
  have "runs_ahead ex_sizing S1 m1" by (rule runs_ahead.host [OF ex_start g ex_first_ok [unfolded e]])
  then show ?thesis unfolding e by simp
qed

theorem plan_uses_exact_witness:
  "([6], [13]) = ([6 :: int], [13 :: int]) \<and> runs_ahead ex_sizing (fst (snd (snd ex_first))) ((run_next ^^ 2) (snd (snd (snd ex_first))))"
proof -
  have r: "runs_ahead ex_sizing (fst (snd (snd ex_first))) ((run_next ^^ 2) (snd (snd (snd ex_first))))"
    by (rule run_next_times_ahead [OF ex_ahead])
  have "(([6], [13]), [6], [13]) \<in> set (mc_log ((run_next ^^ 2) (snd (snd (snd ex_first)))))"
    by (simp add: ex_first_def ex_defs numeral_2_eq_2 run_next_def)
  from plan_uses_exact [OF r this] r show ?thesis by simp
qed

theorem handed_views_intact_witness:
  "\<exists>C J S2 m2. prepare_staged ex_sizing 4 False (ex_batch 9 13) ex_input (fst (snd (snd ex_first))) ((run_next ^^ 1) (snd (snd (snd ex_first)))) = Inr (C, J, S2, m2)
    \<and> view_seq m2 (pb_seq_lens_cpu (fst ex_first)) = [5] \<and> map_option (view_nxt m2) (di_nxt_cpu (fst (snd ex_first))) = Some [13]"
proof -
  have "list_all (\<lambda>x. sg_stage_ct (new_staging :: nat staging) \<le> op_step x) (mc_queue ex_machine)" by (simp add: ex_machine_def)
  moreover have "pb_reqs (ex_batch 5 6) \<noteq> []" by (simp add: ex_batch_def)
  moreover obtain B1 I1 S1 m1 where e: "ex_first = (B1, I1, S1, m1)" by (cases ex_first)
  moreover have "\<not> isl (prepare_staged ex_sizing 4 False (ex_batch 9 13) ex_input (fst (snd (snd ex_first))) ((run_next ^^ 1) (snd (snd (snd ex_first)))))"
    by (simp add: ex_first_def ex_defs run_next_def)
  then have "\<not> isl (prepare_staged ex_sizing 4 False (ex_batch 9 13) ex_input S1 ((run_next ^^ 1) m1))" unfolding e by simp
  moreover from this obtain C J S2 m2 where
    p: "prepare_staged ex_sizing 4 False (ex_batch 9 13) ex_input S1 ((run_next ^^ 1) m1) = Inr (C, J, S2, m2)"
    by (cases "prepare_staged ex_sizing 4 False (ex_batch 9 13) ex_input S1 ((run_next ^^ 1) m1)") auto
  ultimately have "view_seq m2 (pb_seq_lens_cpu B1) = map pr_committed (pb_reqs (ex_batch 5 6))
      \<and> map_option (view_nxt m2) (di_nxt_cpu I1) = Some (fst (snd (ex_sizing (pb_reqs (ex_batch 5 6)) (2 * 4))))"
    using handed_views_intact [OF ex_start _ ex_rows ex_first_ok [unfolded e] _ p] by blast
  then show ?thesis using p unfolding e by (simp add: ex_batch_def ex_sizing_def)
qed

theorem staged_like_legacy_witness:
  "map_sum id (\<lambda>(B, I, m). plan_readout B I m) (prepare_legacy ex_sizing 4 (ex_batch 5 6) ex_input ex_machine)
    = Inr ([\<lparr>pr_rid = 7, pr_committed = 5, pr_allocated = 6, pr_top_k = 1, pr_decode_batch_idx = 1\<rparr>], 5, [5], 1, Some 1, Some [13], Some 13,
        [(([6], [13]), [6], [13])])"
proof -
  have q: "mc_queue ex_machine = []" by (simp add: ex_machine_def)
  show ?thesis
    unfolding staged_like_legacy [OF ex_start q ex_rows, where chk = False, symmetric]
    by (simp add: ex_defs plan_readout_def bump_batch_def planned_def drain_def max_top_k_def uniform_top_k_def)
qed

end
