(* ===== verification/Fp4Codes.thy ===== *)
theory Fp4Codes
  imports Prelude
begin

unbundle bit_operations_syntax

text \<open>
  The number formats of the key/value cache as bits: single precision words, the four-bit codes e2m1 with the
  quantizer and the two decoders of the sources (\<open>torch_quant.py\<close>, \<open>dequant_k_cache.py\<close>), the power-of-two scales
  (\<open>ceil_pow2\<close>, ue8m0 bytes) and the e4m3 bytes. What torch and the device compute without rounding is written
  out on the bits.
\<close>

section \<open>Single precision\<close>

type_synonym f32 = "32 word"
type_synonym byte = "8 word"

definition f32_exp :: "f32 \<Rightarrow> nat" where
  "f32_exp w = unat (drop_bit 23 w AND 0xFF)"

definition f32_frac :: "f32 \<Rightarrow> nat" where
  "f32_frac w = unat (w AND 0x7FFFFF)"

definition signbit :: "f32 \<Rightarrow> bool" where
  "signbit w \<longleftrightarrow> w AND 0x80000000 \<noteq> 0"

definition f32_abs :: "f32 \<Rightarrow> f32" where
  "f32_abs w = w AND 0x7FFFFFFF"

definition f32_neg :: "f32 \<Rightarrow> f32" where
  "f32_neg w = w XOR 0x80000000"

definition f32_nan :: "f32 \<Rightarrow> bool" where
  "f32_nan w \<longleftrightarrow> f32_exp w = 255 \<and> f32_frac w \<noteq> 0"

definition f32_inf :: "f32 \<Rightarrow> bool" where
  "f32_inf w \<longleftrightarrow> f32_exp w = 255 \<and> f32_frac w = 0"

definition f32_finite :: "f32 \<Rightarrow> bool" where
  "f32_finite w \<longleftrightarrow> f32_exp w < 255"

text \<open>Magnitude and value of a finite word.\<close>

definition f32_mag :: "f32 \<Rightarrow> real" where
  "f32_mag w = (if f32_exp w = 0 then real (f32_frac w) / 2 ^ 149
     else real (2 ^ 23 + f32_frac w) * 2 ^ f32_exp w / 2 ^ 150)"

definition f32_val :: "f32 \<Rightarrow> real" where
  "f32_val w = (if signbit w then - f32_mag w else f32_mag w)"

section \<open>E2M1\<close>

definition e2m1_magnitudes :: "real list" where
  "e2m1_magnitudes = [0, 1/2, 1, 3/2, 2, 3, 4, 6]"

text \<open>The same table as the bits of single precision.\<close>

definition e2m1_bits :: "f32 list" where
  "e2m1_bits = [0, 0x3F000000, 0x3F800000, 0x3FC00000, 0x40000000, 0x40400000, 0x40800000, 0x40C00000]"

text \<open>\<open>torch.bucketize\<close> on ascending boundaries.\<close>

definition bucketize :: "real list \<Rightarrow> bool \<Rightarrow> real \<Rightarrow> nat" where
  "bucketize bounds right v = length (filter (\<lambda>b. if right then b \<le> v else b < v) bounds)"

definition e2m1_mids :: "real list" where
  "e2m1_mids = map2 (\<lambda>x y. (x + y) / 2) (butlast e2m1_magnitudes) (tl e2m1_magnitudes)"

text \<open>The magnitude that is rounded: not a number counts as zero, larger values as six.\<close>

definition e2m1_clamped :: "f32 \<Rightarrow> real" where
  "e2m1_clamped x = (if f32_nan x then 0 else if f32_inf x then 6 else min (f32_mag x) 6)"

definition quantize_to_e2m1_codes :: "f32 \<Rightarrow> byte" where
  "quantize_to_e2m1_codes x =
     (let sign = push_bit 3 (if signbit x then 1 else 0);
          a = e2m1_clamped x;
          code = bucketize e2m1_mids True a;
          on_tie = a \<in> set e2m1_mids;
          tie_code = bucketize e2m1_mids False a
      in sign OR of_nat (if on_tie then tie_code + (tie_code AND 1) else code))"

definition dequantize_e2m1_codes :: "byte \<Rightarrow> f32" where
  "dequantize_e2m1_codes c =
     (let v = e2m1_bits ! unat (c AND 7) in if c AND 8 \<noteq> 0 then f32_neg v else v)"

text \<open>\<open>_e2m1_code_to_fp32\<close>: \<open>0.5 * f\<close>, or \<open>1 + 0.5 * f\<close> with \<open>e - 1\<close> added to its exponent; all of it exact.\<close>

definition e2m1_code_to_fp32 :: "byte \<Rightarrow> f32" where
  "e2m1_code_to_fp32 c =
     (let m = c AND 7; e = drop_bit 1 m; f = m AND 1;
          mag = (if e = 0 then (if f = 0 then 0 else 0x3F000000)
             else (if f = 0 then 0x3F800000 else 0x3FC00000) + push_bit 23 (ucast (e - 1)));
          sign = push_bit 28 (ucast (c AND 8))
      in mag OR sign)"

text \<open>The decoder of the reference of the repack bridge: the table times \<open>-1.0\<close> for codes from eight on.\<close>

definition e2m1_lut_decode :: "(f32 \<Rightarrow> f32 \<Rightarrow> f32) \<Rightarrow> byte \<Rightarrow> f32" where
  "e2m1_lut_decode mul c = mul (e2m1_bits ! unat (c AND 7)) (if 8 \<le> c then 0xBF800000 else 0x3F800000)"

text \<open>\<open>round_fp4\<close> on values; \<open>torch.round\<close> takes ties to the even number.\<close>

definition round_half_even :: "real \<Rightarrow> int" where
  "round_half_even x =
     (let f = \<lfloor>x\<rfloor>; d = x - of_int f
      in if d < 1/2 then f else if 1/2 < d then f + 1 else if even f then f else f + 1)"

definition round_fp4 :: "real \<Rightarrow> real" where
  "round_fp4 x =
     (let step = (if \<bar>x\<bar> < 2 then 1/2 else if \<bar>x\<bar> < 4 then 1 else 2)
      in of_int (round_half_even (\<bar>x\<bar> / step)) * step * sgn x)"

section \<open>Scales\<close>

definition ceil_pow2 :: "f32 \<Rightarrow> f32" where
  "ceil_pow2 x =
     (let exponent = (signed_drop_bit 23 x AND 0xFF) - 127;
          exponent = exponent + (if x AND 0x7FFFFF \<noteq> 0 then 1 else 0)
      in push_bit 23 (exponent + 127))"

text \<open>The scale byte and the reciprocal of the repack bridge, and the decoder \<open>_ue8m0_to_fp32\<close>.\<close>

definition ue8m0_of :: "f32 \<Rightarrow> f32" where
  "ue8m0_of u = (signed_drop_bit 23 u AND 0xFF) + (if u AND 0x7FFFFF \<noteq> 0 then 1 else 0)"

definition inv_scale :: "f32 \<Rightarrow> f32" where
  "inv_scale b = push_bit 23 (254 - b)"

definition ue8m0_to_fp32 :: "byte \<Rightarrow> f32" where
  "ue8m0_to_fp32 b = (if b = 255 then 0x7FC00000 else if b = 0 then 0x00400000 else push_bit 23 (ucast b))"

text \<open>\<open>cast_scale_inv_to_ue8m0\<close>; the floor is 1e-4 in single precision.\<close>

definition cast_scale_inv_to_ue8m0 :: "f32 \<Rightarrow> f32" where
  "cast_scale_inv_to_ue8m0 s =
     (if f32_finite s then ceil_pow2 (if f32_val s < f32_val 0x38D1B717 then 0x38D1B717 else s) else s)"

text \<open>The value of an e4m3 byte; \<open>0x7F\<close> and \<open>0xFF\<close> are not numbers.\<close>

definition e4m3_nan :: "byte \<Rightarrow> bool" where
  "e4m3_nan b \<longleftrightarrow> b AND 0x7F = 0x7F"

definition e4m3_mag :: "byte \<Rightarrow> real" where
  "e4m3_mag b =
     (let e = unat (drop_bit 3 b AND 0xF); m = unat (b AND 7)
      in if e = 0 then real m / 2 ^ 9 else real (8 + m) * 2 ^ e / 2 ^ 10)"

end
