(* ===== verification/KvFormats.thy ===== *)
theory KvFormats
  imports Fp4Codes KvLayout Tensors
begin

unbundle bit_operations_syntax

text \<open>
  Key/value rows in the paged byte layouts: the writers and readers in torch (\<open>torch_quant.py\<close>) and the gather
  kernels with their references (\<open>dequant_k_cache.py\<close>). Arithmetic that rounds is a parameter, shared by both
  sides of a comparison; conversions are one function each.
\<close>

section \<open>Arithmetic of the device and of torch\<close>

record float_ops =
  fmul :: "f32 \<Rightarrow> f32 \<Rightarrow> f32"
  fdiv :: "f32 \<Rightarrow> f32 \<Rightarrow> f32"
  of_e4m3 :: "byte \<Rightarrow> f32"
  to_e4m3 :: "f32 \<Rightarrow> byte"
  of_e8m0 :: "byte \<Rightarrow> f32"
  to_e8m0 :: "f32 \<Rightarrow> byte"
  to_bf16 :: "f32 \<Rightarrow> 16 word"
  of_bf16 :: "16 word \<Rightarrow> f32"
  bf16_mul :: "16 word \<Rightarrow> 16 word \<Rightarrow> 16 word"
  exp2_dev :: "int \<Rightarrow> f32"

text \<open>\<open>torch.exp2\<close> of an integer, exact.\<close>

definition exp2_exact :: "int \<Rightarrow> f32" where
  "exp2_exact n = (if n \<le> -127 then 0x00400000 else if 128 \<le> n then 0x7F800000 else push_bit 23 (of_int (n + 127)))"

text \<open>A load of the device from a buffer, whatever lies behind its end; an index of torch is checked.\<close>

definition ldb :: "(nat \<Rightarrow> byte) \<Rightarrow> byte list \<Rightarrow> nat \<Rightarrow> byte" where
  "ldb oob xs a = (if a < length xs then xs ! a else oob a)"

definition gather_flat :: "byte list \<Rightarrow> nat list \<Rightarrow> py_error + byte list" where
  "gather_flat xs idx = (if list_all (\<lambda>i. i < length xs) idx then Inr (map ((!) xs) idx) else Inl IndexError)"

text \<open>The bytes as a view of 16-bit words, low byte first.\<close>

definition word16 :: "byte \<Rightarrow> byte \<Rightarrow> 16 word" where
  "word16 lo hi = ucast lo OR push_bit 8 (ucast hi)"

definition bytes16 :: "16 word \<Rightarrow> byte list" where
  "bytes16 w = [ucast w, ucast (drop_bit 8 w)]"

definition ld16 :: "(nat \<Rightarrow> byte) \<Rightarrow> nat \<Rightarrow> 16 word" where
  "ld16 ld i = word16 (ld (2 * i)) (ld (2 * i + 1))"

text \<open>Rows cut into tiles (\<open>view\<close>), and \<open>repeat_interleave\<close>.\<close>

definition tiles :: "nat \<Rightarrow> 'a list \<Rightarrow> 'a list list" where
  "tiles n xs = map (\<lambda>i. take n (drop (i * n) xs)) [0..<length xs div n]"

definition repeat_each :: "nat \<Rightarrow> 'a list \<Rightarrow> 'a list" where
  "repeat_each n xs = concat (map (replicate n) xs)"

section \<open>Reading the layout V4\<close>

definition v4_data_base :: "nat \<Rightarrow> nat \<Rightarrow> nat \<Rightarrow> nat" where
  "v4_data_base bpp ps loc = loc div ps * bpp + loc mod ps * 576"

definition v4_scale_base :: "nat \<Rightarrow> nat \<Rightarrow> nat \<Rightarrow> nat" where
  "v4_scale_base bpp ps loc = loc div ps * bpp + ps * 576 + loc mod ps * 8"

text \<open>The programs \<open>_dequantize_k_cache_paged_kernel\<close> and \<open>_gather_dequant_requant_fp8_paged_kernel\<close>.\<close>

definition v4_nope_kernel :: "float_ops \<Rightarrow> (f32 \<Rightarrow> 'a) \<Rightarrow> (nat \<Rightarrow> byte) \<Rightarrow> nat \<Rightarrow> nat \<Rightarrow> nat \<Rightarrow> 'a list" where
  "v4_nope_kernel F store ld bpp ps loc =
     concat (map (\<lambda>tile. map (\<lambda>o'. store (fmul F (of_e4m3 F (ld (v4_data_base bpp ps loc + tile * 64 + o')))
         (exp2_dev F (int (unat (ld (v4_scale_base bpp ps loc + tile))) - 127)))) [0..<64]) [0..<7])"

definition dequantize_paged_kernel :: "float_ops \<Rightarrow> (nat \<Rightarrow> byte) \<Rightarrow> nat \<Rightarrow> nat \<Rightarrow> nat \<Rightarrow> 16 word list" where
  "dequantize_paged_kernel F ld bpp ps loc =
     v4_nope_kernel F (to_bf16 F) ld bpp ps loc @ map (\<lambda>r. ld16 ld ((v4_data_base bpp ps loc + 448) div 2 + r)) [0..<64]"

definition gather_requant_kernel :: "float_ops \<Rightarrow> (nat \<Rightarrow> byte) \<Rightarrow> nat \<Rightarrow> nat \<Rightarrow> nat \<Rightarrow> byte list" where
  "gather_requant_kernel F ld bpp ps loc =
     v4_nope_kernel F (to_e4m3 F) ld bpp ps loc
     @ map (\<lambda>r. to_e4m3 F (of_bf16 F (ld16 ld ((v4_data_base bpp ps loc + 448) div 2 + r)))) [0..<64]"

text \<open>Where the second kernel stores its row: its program number stays a 32-bit integer.\<close>

definition gather_out_base :: "nat \<Rightarrow> int" where
  "gather_out_base token = sint (of_nat token * 512 :: 32 word)"

text \<open>\<open>dequantize_k_cache_paged_ref\<close>, one row; scales below the smallest normal number count as zero.\<close>

definition flushed_scale :: "byte \<Rightarrow> f32" where
  "flushed_scale b = (let s = exp2_exact (int (unat b) - 127) in if f32_val s < 1 / 2 ^ 126 then 0 else s)"

definition ref_row :: "float_ops \<Rightarrow> byte list \<Rightarrow> nat \<Rightarrow> nat \<Rightarrow> nat \<Rightarrow> py_error + 16 word list" where
  "ref_row F flat bpp ps loc =
     (case gather_flat flat (map (\<lambda>i. v4_data_base bpp ps loc + i) [0..<448]) of
        Inl e \<Rightarrow> Inl e
      | Inr nope \<Rightarrow>
          (case gather_flat flat (map (\<lambda>i. v4_scale_base bpp ps loc + i) [0..<7]) of
             Inl e \<Rightarrow> Inl e
           | Inr scales \<Rightarrow>
               (let idx = map (\<lambda>r. (v4_data_base bpp ps loc + 448) div 2 + r) [0..<64]
                in if list_all (\<lambda>i. i < length flat div 2) idx
                   then Inr (map2 (\<lambda>v s. to_bf16 F (fmul F (of_e4m3 F v) s)) nope (repeat_each 64 (map flushed_scale scales))
                       @ map (\<lambda>i. word16 (flat ! (2 * i)) (flat ! (2 * i + 1))) idx)
                   else Inl IndexError)))"

definition dequantize_k_cache_paged_ref :: "float_ops \<Rightarrow> byte list \<Rightarrow> nat \<Rightarrow> nat \<Rightarrow> nat list \<Rightarrow> py_error + 16 word list list" where
  "dequantize_k_cache_paged_ref F flat bpp ps locs =
     (if ps = 0 \<and> locs \<noteq> [] then Inl (RuntimeError ''ZeroDivisionError'') else sequence (map (ref_row F flat bpp ps) locs))"

section \<open>Reading the layouts V41 and V41_FP4\<close>

definition v41_fp8_kernel :: "float_ops \<Rightarrow> (nat \<Rightarrow> byte) \<Rightarrow> nat \<Rightarrow> nat \<Rightarrow> nat \<Rightarrow> 16 word list" where
  "v41_fp8_kernel F ld bpp ps loc =
     (let data = loc div ps * bpp + loc mod ps * 512; scale = loc div ps * bpp + ps * 512 + loc mod ps * 16
      in map (\<lambda>i. to_bf16 F (fmul F (of_e4m3 F (ld (data + i))) (ue8m0_to_fp32 (ld (scale + i div 32))))) [0..<512])"

definition v41_fp4_kernel :: "float_ops \<Rightarrow> (nat \<Rightarrow> byte) \<Rightarrow> nat \<Rightarrow> nat \<Rightarrow> nat \<Rightarrow> 16 word list" where
  "v41_fp4_kernel F ld bpp ps loc =
     (let data = loc div ps * bpp + loc mod ps * 256; scale = loc div ps * bpp + ps * 256 + loc mod ps * 32
      in concat (map (\<lambda>b. let packed = ld (data + b); s = of_e4m3 F (ld (scale + 2 * b div 16))
           in [to_bf16 F (fmul F (e2m1_code_to_fp32 (packed AND 0xF)) s), to_bf16 F (fmul F (e2m1_code_to_fp32 (drop_bit 4 packed)) s)]) [0..<256]))"

text \<open>\<open>dequantize_k_cache_paged\<close> and \<open>dequantize_k_cache_paged_v41\<close>.\<close>

definition dequantize_k_cache_paged ::
    "float_ops \<Rightarrow> (nat \<Rightarrow> byte) \<Rightarrow> byte list \<Rightarrow> nat \<Rightarrow> kv_layout \<Rightarrow> nat \<Rightarrow> nat list \<Rightarrow> py_error + 16 word list list" where
  "dequantize_k_cache_paged F oob flat bpp l ps locs =
     (case l of
        V4 \<Rightarrow> Inr (map (dequantize_paged_kernel F (ldb oob flat) bpp ps) locs)
      | V41 \<Rightarrow> if int bpp < int ps * bytes_per_token V41 then Inl AssertionError
          else Inr (map (v41_fp8_kernel F (ldb oob flat) bpp ps) locs)
      | V41_FP4 \<Rightarrow> if int bpp < int ps * bytes_per_token V41_FP4 then Inl AssertionError
          else Inr (map (v41_fp4_kernel F (ldb oob flat) bpp ps) locs))"

text \<open>\<open>gather_dequant_requant_fp8_paged\<close> (a fresh output) and its reference: rows of zeros behind.\<close>

definition gather_dequant_requant_fp8_paged ::
    "float_ops \<Rightarrow> (nat \<Rightarrow> byte) \<Rightarrow> byte list \<Rightarrow> nat \<Rightarrow> nat \<Rightarrow> nat \<Rightarrow> nat list \<Rightarrow> byte list list" where
  "gather_dequant_requant_fp8_paged F oob flat bpp ps extra locs =
     map (gather_requant_kernel F (ldb oob flat) bpp ps) locs @ replicate extra (replicate 512 0)"

definition gather_dequant_requant_fp8_paged_ref ::
    "float_ops \<Rightarrow> byte list \<Rightarrow> nat \<Rightarrow> nat \<Rightarrow> nat \<Rightarrow> nat list \<Rightarrow> py_error + byte list list" where
  "gather_dequant_requant_fp8_paged_ref F flat bpp ps extra locs =
     map_sum id (\<lambda>rows. map (map (\<lambda>x. to_e4m3 F (of_bf16 F x))) rows @ replicate extra (replicate 512 0))
       (dequantize_k_cache_paged_ref F flat bpp ps locs)"

section \<open>The heads of the query\<close>

definition q8kv8_padded_num_heads :: "int \<Rightarrow> py_error + int" where
  "q8kv8_padded_num_heads n =
     (if n \<le> 0 then Inl (ValueError ''num_heads'') else if n \<le> 64 then Inr 64 else if n \<le> 128 then Inr 128 else Inl (ValueError ''num_heads''))"

text \<open>\<open>cast_q_fp8_for_q8kv8_prefill\<close> with a given output (or fresh zeros): per token, its heads.\<close>

definition cast_q_fp8 :: "float_ops \<Rightarrow> int option \<Rightarrow> byte list list list option \<Rightarrow> nat \<Rightarrow> 16 word list list list \<Rightarrow> py_error + byte list list list" where
  "cast_q_fp8 F padded out num_heads q =
     (case (case padded of Some p \<Rightarrow> Inr p | None \<Rightarrow> q8kv8_padded_num_heads (int num_heads)) of
        Inl e \<Rightarrow> Inl e
      | Inr p \<Rightarrow>
          if p \<notin> {64, 128} \<or> p < int num_heads then Inl (ValueError ''padded_num_heads'')
          else
            (let zeros = replicate (nat p) (replicate 512 0);
                 rows = (case out of None \<Rightarrow> replicate (length q) zeros | Some ys \<Rightarrow> map (\<lambda>y. take num_heads y @ drop num_heads zeros) ys)
             in if length rows \<noteq> length q \<or> \<not> list_all (\<lambda>y. length y = nat p) (case out of None \<Rightarrow> [] | Some ys \<Rightarrow> ys)
                then Inl (ValueError ''shape'')
                else Inr (map2 (\<lambda>x y. map (map (\<lambda>v. to_e4m3 F (of_bf16 F v))) x @ drop num_heads y) q rows)))"

section \<open>Writing pages\<close>

text \<open>\<open>x.abs().amax\<close>: among words without sign the order of the bits is the order of the numbers, with what is no
  number above all.\<close>

definition amax_bits :: "f32 list \<Rightarrow> f32" where
  "amax_bits xs = fold (\<lambda>x m. max m (f32_abs x)) xs 0"

definition drop_nan :: "f32 \<Rightarrow> f32" where
  "drop_nan x = (if f32_nan x then 0 else x)"

definition f32_clamp :: "f32 \<Rightarrow> f32 \<Rightarrow> f32 \<Rightarrow> f32" where
  "f32_clamp lo hi x = (if f32_nan x then x else if f32_val x < f32_val lo then lo else if f32_val hi < f32_val x then hi else x)"

definition add_zero :: "f32 \<Rightarrow> f32" where
  "add_zero x = (if x = 0x80000000 then 0 else x)"

text \<open>Scale and payload of a tile in the layout V41: the floor of the scale is 1e-4.\<close>

definition v41_scale :: "float_ops \<Rightarrow> f32 list \<Rightarrow> f32" where
  "v41_scale F tile = cast_scale_inv_to_ue8m0 (fdiv F (amax_bits tile) 0x43E00000)"

definition v41_token :: "float_ops \<Rightarrow> f32 list \<Rightarrow> byte list \<times> byte list" where
  "v41_token F xs =
     (concat (map (\<lambda>tile. map (\<lambda>x. to_e4m3 F (fdiv F x (v41_scale F tile))) tile) (tiles 32 xs)),
      map (\<lambda>tile. to_e8m0 F (v41_scale F tile)) (tiles 32 xs))"

text \<open>The same in V41_FP4: the reciprocal of six, between \<open>2 ** -9\<close> and 448, as an e4m3 byte.\<close>

definition fp4_scale :: "float_ops \<Rightarrow> f32 list \<Rightarrow> byte" where
  "fp4_scale F tile = to_e4m3 F (f32_clamp 0x3B000000 0x43E00000 (fmul F (amax_bits (map drop_nan tile)) 0x3E2AAAAB))"

definition fp4_codes :: "float_ops \<Rightarrow> f32 list \<Rightarrow> byte list" where
  "fp4_codes F tile = map (\<lambda>x. quantize_to_e2m1_codes (add_zero (fdiv F x (of_e4m3 F (fp4_scale F tile))))) tile"

text \<open>Even elements into the low nibbles.\<close>

fun pack_nibbles :: "byte list \<Rightarrow> byte list" where
  "pack_nibbles (a # b # cs) = (a OR push_bit 4 b) # pack_nibbles cs"
| "pack_nibbles cs = []"

fun unpack_nibbles :: "byte list \<Rightarrow> byte list" where
  "unpack_nibbles [] = []"
| "unpack_nibbles (p # ps) = (p AND 0xF) # drop_bit 4 p # unpack_nibbles ps"

definition fp4_token :: "float_ops \<Rightarrow> f32 list \<Rightarrow> byte list \<times> byte list" where
  "fp4_token F xs = (pack_nibbles (concat (map (fp4_codes F) (tiles 16 xs))), map (fp4_scale F) (tiles 16 xs))"

text \<open>A page: data rows, scale rows, zeros up to the stride.\<close>

definition page_of :: "nat \<Rightarrow> (byte list \<times> byte list) list \<Rightarrow> byte list" where
  "page_of pb toks =
     (let raw = concat (map fst toks) @ concat (map snd toks) in raw @ replicate (pb - length raw) 0)"

definition stride_of :: "nat \<Rightarrow> nat \<Rightarrow> nat \<Rightarrow> nat option \<Rightarrow> nat" where
  "stride_of bpt align ps pb = (case pb of Some n \<Rightarrow> n | None \<Rightarrow> cdiv (ps * bpt) align * align)"

text \<open>\<open>quantize_k_cache_v41\<close> and \<open>quantize_k_cache_v41_fp4\<close>; the tensor has \<open>ps\<close> rows of 512 values in every page.\<close>

definition quantize_k_cache_v41 :: "float_ops \<Rightarrow> nat \<Rightarrow> nat option \<Rightarrow> f32 list list list \<Rightarrow> py_error + byte list list" where
  "quantize_k_cache_v41 F ps pb k =
     (let n = stride_of 528 512 ps pb
      in if n < ps * 528 then Inl AssertionError else Inr (map (\<lambda>page. page_of n (map (v41_token F) page)) k))"

definition quantize_k_cache_v41_fp4 :: "float_ops \<Rightarrow> nat \<Rightarrow> nat option \<Rightarrow> f32 list list list \<Rightarrow> py_error + byte list list" where
  "quantize_k_cache_v41_fp4 F ps pb k =
     (let n = stride_of 288 256 ps pb
      in if n < ps * 288 then Inl AssertionError else Inr (map (\<lambda>page. page_of n (map (fp4_token F) page)) k))"

text \<open>\<open>dequantize_k_cache_v41\<close> and \<open>dequantize_k_cache_v41_fp4\<close> on one page that is long enough.\<close>

definition data_rows :: "nat \<Rightarrow> nat \<Rightarrow> byte list \<Rightarrow> byte list list" where
  "data_rows ps w page = tiles w (take (ps * w) page)"

definition scale_rows :: "nat \<Rightarrow> nat \<Rightarrow> nat \<Rightarrow> byte list \<Rightarrow> byte list list" where
  "scale_rows ps w v page = tiles v (take (ps * v) (drop (ps * w) page))"

definition dequantize_k_cache_v41 :: "float_ops \<Rightarrow> nat \<Rightarrow> byte list list \<Rightarrow> 16 word list list list" where
  "dequantize_k_cache_v41 F ps pages =
     map (\<lambda>page. map2 (\<lambda>vs ss. map2 (\<lambda>v s. bf16_mul F (to_bf16 F (of_e4m3 F v)) (to_bf16 F (of_e8m0 F s))) vs (repeat_each 32 ss))
       (data_rows ps 512 page) (scale_rows ps 512 16 page)) pages"

definition dequantize_k_cache_v41_fp4 :: "float_ops \<Rightarrow> nat \<Rightarrow> byte list list \<Rightarrow> 16 word list list list" where
  "dequantize_k_cache_v41_fp4 F ps pages =
     map (\<lambda>page. map2 (\<lambda>ds ss. map2 (\<lambda>c s. to_bf16 F (fmul F (dequantize_e2m1_codes c) (of_e4m3 F s))) (unpack_nibbles ds) (repeat_each 16 ss))
       (data_rows ps 256 page) (scale_rows ps 256 32 page)) pages"

end
