(* ===== verification/RepackBridge.thy ===== *)
theory RepackBridge
  imports KvFormats
begin

unbundle bit_operations_syntax

text \<open>
  The bridge that lets a reader of the layout V4 read an fp4 pool (\<open>repack_fp4_to_v4.py\<close>): the gathered slots are
  decoded and written as V4 rows into a scratch that grows and is never cleared. The kernel, its torch reference,
  the buffers and the slicing of a batch. A page of the scratch is a page of \<open>KvLayout\<close> with 64 tokens.
\<close>

section \<open>The kernel\<close>

text \<open>\<open>tl.max\<close> among words without sign skips what is no number.\<close>

definition dev_max :: "f32 \<Rightarrow> f32 \<Rightarrow> f32" where
  "dev_max a b = (if f32_nan a then b else if f32_nan b then a else max a b)"

definition src_data :: "nat \<Rightarrow> nat \<Rightarrow> int \<Rightarrow> nat" where
  "src_data spb bits idx = (let loc = nat (max idx 0) in drop_bit bits loc * spb + take_bit bits loc * 256)"

definition src_scale :: "nat \<Rightarrow> nat \<Rightarrow> int \<Rightarrow> nat" where
  "src_scale spb bits idx = (let loc = nat (max idx 0) in drop_bit bits loc * spb + 2 ^ bits * 256 + take_bit bits loc * 32)"

definition gate :: "int \<Rightarrow> f32" where
  "gate idx = (if 0 \<le> idx then 0x3F800000 else 0)"

text \<open>Both values of byte \<open>b\<close> of a slot; bytes from 224 on are the rope part.\<close>

definition kernel_lo :: "float_ops \<Rightarrow> (nat \<Rightarrow> byte) \<Rightarrow> nat \<Rightarrow> nat \<Rightarrow> int \<Rightarrow> nat \<Rightarrow> f32" where
  "kernel_lo F ld spb bits idx b = fmul F (fmul F (e2m1_code_to_fp32 (ld (src_data spb bits idx + b) AND 0xF))
     (of_e4m3 F (ld (src_scale spb bits idx + b div 8)))) (gate idx)"

definition kernel_hi :: "float_ops \<Rightarrow> (nat \<Rightarrow> byte) \<Rightarrow> nat \<Rightarrow> nat \<Rightarrow> int \<Rightarrow> nat \<Rightarrow> f32" where
  "kernel_hi F ld spb bits idx b = fmul F (fmul F (e2m1_code_to_fp32 (drop_bit 4 (ld (src_data spb bits idx + b))))
     (of_e4m3 F (ld (src_scale spb bits idx + b div 8)))) (gate idx)"

definition kernel_ue8m0 :: "float_ops \<Rightarrow> (nat \<Rightarrow> byte) \<Rightarrow> nat \<Rightarrow> nat \<Rightarrow> int \<Rightarrow> nat \<Rightarrow> f32" where
  "kernel_ue8m0 F ld spb bits idx t =
     (let amax = fold (\<lambda>b m. dev_max m (dev_max (f32_abs (kernel_lo F ld spb bits idx b)) (f32_abs (kernel_hi F ld spb bits idx b))))
            [32 * t..<32 * t + 32] 0
      in ue8m0_of (fdiv F (dev_max amax 0x38D1B717) 0x43E00000))"

definition kernel_data :: "float_ops \<Rightarrow> (nat \<Rightarrow> byte) \<Rightarrow> nat \<Rightarrow> nat \<Rightarrow> int \<Rightarrow> byte list" where
  "kernel_data F ld spb bits idx =
     concat (map (\<lambda>b. let inv = inv_scale (kernel_ue8m0 F ld spb bits idx (b div 32))
       in [to_e4m3 F (fmul F (kernel_lo F ld spb bits idx b) inv), to_e4m3 F (fmul F (kernel_hi F ld spb bits idx b) inv)]) [0..<224])
     @ concat (map (\<lambda>j. bytes16 (to_bf16 F (kernel_lo F ld spb bits idx (224 + j))) @ bytes16 (to_bf16 F (kernel_hi F ld spb bits idx (224 + j)))) [0..<32])"

definition kernel_footer :: "float_ops \<Rightarrow> (nat \<Rightarrow> byte) \<Rightarrow> nat \<Rightarrow> nat \<Rightarrow> int \<Rightarrow> byte list" where
  "kernel_footer F ld spb bits idx = map (\<lambda>t. if t < 7 then ucast (kernel_ue8m0 F ld spb bits idx t) else 0) [0..<8]"

text \<open>A program writes the row of its number; pages of 64 rows.\<close>

definition write_v4 :: "byte list \<Rightarrow> byte list \<Rightarrow> nat \<Rightarrow> paged_buf \<Rightarrow> paged_buf" where
  "write_v4 data footer pid b = put_row 64 (64 * 576) 8 pid footer (put_row 64 0 576 pid data b)"

definition repack_kernel :: "float_ops \<Rightarrow> (nat \<Rightarrow> byte) \<Rightarrow> nat \<Rightarrow> nat \<Rightarrow> int list \<Rightarrow> paged_buf \<Rightarrow> paged_buf" where
  "repack_kernel F ld spb bits idx b =
     fold (\<lambda>pid. write_v4 (kernel_data F ld spb bits (idx ! pid)) (kernel_footer F ld spb bits (idx ! pid)) pid) [0..<length idx] b"

section \<open>The buffers\<close>

record bridge_buffers =
  bb_scratch :: "paged_buf option"
  bb_ids :: "int list option"
  bb_filled :: nat
  bb_retired :: nat

definition dst_page_bytes :: nat where
  "dst_page_bytes = (64 * (576 + 8) + 575) div 576 * 576"

text \<open>\<open>_persistent_buffer\<close>: an old buffer that is too short is kept aside, for graphs that still read it. What a
  new one holds is not known.\<close>

definition scratch_buffer :: "(nat \<Rightarrow> nat \<Rightarrow> byte) \<Rightarrow> nat \<Rightarrow> bridge_buffers \<Rightarrow> paged_buf \<times> bridge_buffers" where
  "scratch_buffer junk pages B =
     (case bb_scratch B of
        Some b \<Rightarrow> if pages \<le> num_pages b then (b\<lparr>num_pages := pages\<rparr>, B)
          else (let n = \<lparr>num_pages = pages, page_stride = dst_page_bytes, mem = junk\<rparr>
            in (n, B\<lparr>bb_scratch := Some n, bb_retired := bb_retired B + 1\<rparr>))
      | None \<Rightarrow> (let n = \<lparr>num_pages = pages, page_stride = dst_page_bytes, mem = junk\<rparr> in (n, B\<lparr>bb_scratch := Some n\<rparr>)))"

definition ids_buffer :: "int \<Rightarrow> nat \<Rightarrow> bridge_buffers \<Rightarrow> bridge_buffers" where
  "ids_buffer junk n B =
     (case bb_ids B of
        Some xs \<Rightarrow> if n \<le> length xs then B else B\<lparr>bb_ids := Some (replicate n junk), bb_retired := bb_retired B + 1\<rparr>
      | None \<Rightarrow> B\<lparr>bb_ids := Some (replicate n junk)\<rparr>)"

definition fill_ids :: "nat \<Rightarrow> bridge_buffers \<Rightarrow> bridge_buffers" where
  "fill_ids n B =
     (if bb_filled B < n
      then B\<lparr>bb_ids := map_option (\<lambda>xs. map int [0..<n] @ drop n xs) (bb_ids B), bb_filled := n\<rparr>
      else B)"

fun page_bit_length :: "nat \<Rightarrow> nat" where
  "page_bit_length n = (if n = 0 then 0 else Suc (page_bit_length (n div 2)))"

declare page_bit_length.simps [simp del]

text \<open>\<open>repack_fp4_extra_to_v4\<close>: the scratch and the identity indices. The pool is flat with its page stride.\<close>

definition repack_fp4_extra_to_v4 ::
    "float_ops \<Rightarrow> (nat \<Rightarrow> byte) \<Rightarrow> (nat \<Rightarrow> nat \<Rightarrow> byte) \<Rightarrow> int \<Rightarrow> byte list \<Rightarrow> nat \<Rightarrow> int list \<Rightarrow> nat \<Rightarrow> bridge_buffers
     \<Rightarrow> py_error + paged_buf \<times> int list \<times> bridge_buffers" where
  "repack_fp4_extra_to_v4 F oob junk_page junk_id flat spb indices src_ps B =
     (if src_ps \<notin> {128, 256} \<or> spb < src_ps * (256 + 32) then Inl AssertionError
      else
        (let idx = map (cast I32) indices; n = length idx
         in if n = 0 then Inl AssertionError
            else
              (let (scratch, B) = scratch_buffer junk_page (cdiv n 64) B;
                   B = fill_ids n (ids_buffer junk_id n B);
                   scratch = repack_kernel F (ldb oob flat) spb (page_bit_length src_ps - 1) idx scratch
               in Inr (scratch, (case bb_ids B of Some xs \<Rightarrow> take n xs | None \<Rightarrow> []),
                    B\<lparr>bb_scratch := map_option (\<lambda>b. b\<lparr>mem := mem scratch\<rparr>) (bb_scratch B)\<rparr>))))"

section \<open>The reference\<close>

definition ref_scale :: "float_ops \<Rightarrow> f32 list \<Rightarrow> f32" where
  "ref_scale F tile = ue8m0_of (fdiv F (max (amax_bits tile) 0x38D1B717) 0x43E00000)"

definition ref_vals :: "float_ops \<Rightarrow> int \<Rightarrow> byte list \<Rightarrow> byte list \<Rightarrow> f32 list" where
  "ref_vals F idx packed scales =
     map2 (\<lambda>c s. fmul F (fmul F (e2m1_lut_decode (fmul F) c) (of_e4m3 F s)) (gate idx)) (unpack_nibbles packed) (repeat_each 16 scales)"

definition ref_data :: "float_ops \<Rightarrow> f32 list \<Rightarrow> byte list" where
  "ref_data F vals =
     concat (map (\<lambda>tile. map (\<lambda>v. to_e4m3 F (fmul F v (inv_scale (ref_scale F tile)))) tile) (tiles 64 (take 448 vals)))
     @ concat (map (\<lambda>v. bytes16 (to_bf16 F v)) (drop 448 vals))"

definition ref_footer :: "float_ops \<Rightarrow> f32 list \<Rightarrow> byte list" where
  "ref_footer F vals = map (\<lambda>tile. ucast (ref_scale F tile)) (tiles 64 (take 448 vals)) @ [0]"

definition repack_ref_row :: "float_ops \<Rightarrow> byte list \<Rightarrow> nat \<Rightarrow> nat \<Rightarrow> int \<Rightarrow> py_error + byte list \<times> byte list" where
  "repack_ref_row F flat spb src_ps idx =
     (let loc = nat (max idx 0); base = loc div src_ps * spb in
      case gather_flat flat (map (\<lambda>i. base + loc mod src_ps * 256 + i) [0..<256]) of
        Inl e \<Rightarrow> Inl e
      | Inr packed \<Rightarrow>
          (case gather_flat flat (map (\<lambda>i. base + src_ps * 256 + loc mod src_ps * 32 + i) [0..<32]) of
             Inl e \<Rightarrow> Inl e
           | Inr scales \<Rightarrow> (let vals = ref_vals F idx packed scales in Inr (ref_data F vals, ref_footer F vals))))"

text \<open>\<open>repack_fp4_extra_to_v4_ref\<close>: the rows scattered into zeros.\<close>

definition repack_fp4_extra_to_v4_ref :: "float_ops \<Rightarrow> byte list \<Rightarrow> nat \<Rightarrow> int list \<Rightarrow> nat \<Rightarrow> py_error + paged_buf \<times> int list" where
  "repack_fp4_extra_to_v4_ref F flat spb indices src_ps =
     map_sum id
       (\<lambda>rows. (fold (\<lambda>pid. write_v4 (fst (rows ! pid)) (snd (rows ! pid)) pid) [0..<length rows]
            \<lparr>num_pages = cdiv (length indices) 64, page_stride = dst_page_bytes, mem = (\<lambda>_ _. 0)\<rparr>,
          map int [0..<length indices]))
       (sequence (map (repack_ref_row F flat spb src_ps) indices))"

section \<open>Slices of a batch\<close>

definition bridge_max_rows :: "int \<Rightarrow> int" where
  "bridge_max_rows scratch_mb = max 16 scratch_mb * 1024 * 1024 div int dst_page_bytes * 64"

text \<open>\<open>range(i, n, step)\<close>.\<close>

function steps_from :: "nat \<Rightarrow> nat \<Rightarrow> nat \<Rightarrow> nat list" where
  "steps_from step n i = (if step = 0 \<or> n \<le> i then [] else i # steps_from step n (i + step))"
  by auto
termination
  by (relation "measure (\<lambda>(step, n, i). n - i)") auto

declare steps_from.simps [simp del]

definition bridge_slice_bounds :: "nat \<Rightarrow> nat \<Rightarrow> nat \<Rightarrow> nat list" where
  "bridge_slice_bounds n topk max_rows =
     (let step = max 1 (max_rows div max 1 topk)
      in if n \<le> step then [0, n]
         else (let bounds = steps_from step n 0 in if last bounds \<noteq> n then bounds @ [n] else bounds))"

section \<open>Statistics\<close>

record bridge_stats =
  bs_calls :: int
  bs_prefill_calls :: int
  bs_rows :: int
  bs_real_rows :: int
  bs_tokens :: int
  bs_prefill_tokens :: int
  bs_slices :: int
  bs_extra_slices :: int
  bs_timed_calls :: int

definition bridge_note_slices :: "int \<Rightarrow> int \<Rightarrow> bridge_stats \<Rightarrow> bridge_stats" where
  "bridge_note_slices period n S =
     (if period = 0 then S else S\<lparr>bs_slices := bs_slices S + 1, bs_extra_slices := bs_extra_slices S + max 0 (n - 1)\<rparr>)"

text \<open>Without the two sums of times.\<close>

definition bridge_note_call :: "int \<Rightarrow> int \<Rightarrow> int \<Rightarrow> int \<Rightarrow> bridge_stats \<Rightarrow> bridge_stats" where
  "bridge_note_call period num_tokens topk real_rows S =
     (if period = 0 then S
      else
        (let S = S\<lparr>bs_calls := bs_calls S + 1, bs_tokens := bs_tokens S + num_tokens, bs_rows := bs_rows S + num_tokens * topk\<rparr>
         in if 0 \<le> real_rows
            then S\<lparr>bs_prefill_calls := bs_prefill_calls S + 1, bs_prefill_tokens := bs_prefill_tokens S + num_tokens,
              bs_real_rows := bs_real_rows S + real_rows, bs_timed_calls := bs_timed_calls S + 1\<rparr>
            else S))"

end
