(* ===== verification/Fp4Facts.thy ===== *)
theory Fp4Facts
  imports Fp4Codes
begin

text \<open>Codes and scales: nearest codes with ties to even, both decoders, powers of two.\<close>

lemma mids: "e2m1_mids = [1/4, 3/4, 5/4, 7/4, 5/2, 7/2, 5]"
  by (simp add: e2m1_mids_def e2m1_magnitudes_def)

lemma clamped_range: "0 \<le> e2m1_clamped x" "e2m1_clamped x \<le> 6"
  by (simp_all add: e2m1_clamped_def f32_mag_def)

definition code_index :: "real \<Rightarrow> nat" where
  "code_index a = (let t = bucketize e2m1_mids False a in if a \<in> set e2m1_mids then t + (t AND 1) else bucketize e2m1_mids True a)"

lemma code_index_cases:
  assumes "0 \<le> a" "a \<le> 6"
  shows "code_index a =
    (if a \<le> 1/4 then 0 else if a < 3/4 then 1 else if a \<le> 5/4 then 2 else if a < 7/4 then 3 else if a \<le> 5/2 then 4
     else if a < 7/2 then 5 else if a \<le> 5 then 6 else 7)"
  using assms by (simp add: code_index_def mids bucketize_def Let_def)

lemma code_index_less: "0 \<le> a \<Longrightarrow> a \<le> 6 \<Longrightarrow> code_index a < 8"
  by (simp add: code_index_cases)

lemma quantize_index:
  "quantize_to_e2m1_codes x = (if signbit x then 8 else 0) OR of_nat (code_index (e2m1_clamped x))"
  by (simp add: quantize_to_e2m1_codes_def code_index_def Let_def)

lemma less_8_cases:
  assumes "(k :: nat) < 8"
  shows "k = 0 \<or> k = 1 \<or> k = 2 \<or> k = 3 \<or> k = 4 \<or> k = 5 \<or> k = 6 \<or> k = 7"
  using assms by arith

lemma quantize_fields:
  "unat (quantize_to_e2m1_codes x AND 7) = code_index (e2m1_clamped x)"
  "quantize_to_e2m1_codes x AND 8 \<noteq> 0 \<longleftrightarrow> signbit x"
  "quantize_to_e2m1_codes x < 16"
  using less_8_cases [OF code_index_less [OF clamped_range, of x]] unfolding quantize_index by (elim disjE; simp)+

text \<open>C24: The code of a value is a nearest one of the eight magnitudes, larger values count as six, of two nearest the
  even code is taken, and the sign is kept, also for values that round to zero.\<close>

theorem e2m1_nearest:
  assumes "\<not> f32_nan x" "j < 8"
  shows "let c = quantize_to_e2m1_codes x; k = unat (c AND 7); a = (if f32_inf x then 6 else min (f32_mag x) 6)
    in c < 16 \<and> (c AND 8 \<noteq> 0 \<longleftrightarrow> signbit x)
      \<and> \<bar>e2m1_magnitudes ! k - a\<bar> \<le> \<bar>e2m1_magnitudes ! j - a\<bar>
      \<and> (\<bar>e2m1_magnitudes ! k - a\<bar> = \<bar>e2m1_magnitudes ! j - a\<bar> \<and> j \<noteq> k \<longrightarrow> even k)"
proof -
  let ?a = "e2m1_clamped x" and ?k = "code_index (e2m1_clamped x)"
  have a: "(if f32_inf x then 6 else min (f32_mag x) 6) = ?a" using assms(1) by (simp add: e2m1_clamped_def)
  have "\<bar>e2m1_magnitudes ! ?k - ?a\<bar> \<le> \<bar>e2m1_magnitudes ! j - ?a\<bar>
      \<and> (\<bar>e2m1_magnitudes ! ?k - ?a\<bar> = \<bar>e2m1_magnitudes ! j - ?a\<bar> \<and> j \<noteq> ?k \<longrightarrow> even ?k)"
    using less_8_cases [OF assms(2)] clamped_range [of x]
    by (elim disjE) (auto simp: code_index_cases e2m1_magnitudes_def)
  then show ?thesis unfolding Let_def quantize_fields(1) a using quantize_fields(2,3) by blast
qed

theorem e2m1_nearest_witness:
  "let c = quantize_to_e2m1_codes 0xC0200000; k = unat (c AND 7); a = 5 / 2
    in c < 16 \<and> c AND 8 \<noteq> 0 \<and> \<bar>e2m1_magnitudes ! k - a\<bar> \<le> \<bar>e2m1_magnitudes ! 5 - a\<bar> \<and> even k"
proof -
  have x: "\<not> f32_nan 0xC0200000" "\<not> f32_inf 0xC0200000" "f32_mag 0xC0200000 = 5 / 2" "signbit 0xC0200000"
    by (simp_all add: f32_nan_def f32_inf_def f32_mag_def f32_exp_def f32_frac_def signbit_def)
  have k: "unat (quantize_to_e2m1_codes 0xC0200000 AND 7) = 4"
    using x by (simp add: quantize_fields e2m1_clamped_def code_index_cases)
  show ?thesis using e2m1_nearest [of "0xC0200000" 5] x k by (simp add: Let_def)
qed

text \<open>A number that is none keeps its sign: with the sign bit set the code is eight, not zero.\<close>

lemma negative_nan_code: "quantize_to_e2m1_codes 0xFFC00000 = 8"
  by (simp add: quantize_to_e2m1_codes_def e2m1_clamped_def f32_nan_def f32_exp_def f32_frac_def signbit_def mids bucketize_def)

lemma small_byte_cases:
  assumes "(c :: byte) < 16"
  shows "c \<in> {0, 1, 2, 3, 4, 5, 6, 7, 8, 9, 10, 11, 12, 13, 14, 15}"
proof -
  have "unat c < 16" using assms by (simp add: word_less_nat_alt)
  then have "unat c \<in> set [0..<16]" by simp
  then have "(of_nat (unat c) :: byte) \<in> of_nat ` set [0..<16]" by blast
  then show ?thesis by (simp add: upt_rec)
qed

lemma e2m1_kernel_decodes:
  assumes "c < 16"
  shows "e2m1_code_to_fp32 c = dequantize_e2m1_codes c"
  using small_byte_cases [OF assms]
  by (elim insertE emptyE) (simp_all add: e2m1_code_to_fp32_def dequantize_e2m1_codes_def e2m1_bits_def f32_neg_def Let_def)

definition exact_on_codes :: "(f32 \<Rightarrow> f32 \<Rightarrow> f32) \<Rightarrow> bool" where
  "exact_on_codes mul \<longleftrightarrow> (\<forall>x \<in> set e2m1_bits. mul x 0x3F800000 = x \<and> mul x 0xBF800000 = f32_neg x)"

lemma e2m1_lut_decodes:
  assumes "c < 16" "exact_on_codes mul"
  shows "e2m1_lut_decode mul c = dequantize_e2m1_codes c"
  using small_byte_cases [OF assms(1)] assms(2) unfolding exact_on_codes_def
  by (elim insertE emptyE)
    (simp_all add: dequantize_e2m1_codes_def e2m1_lut_decode_def e2m1_bits_def f32_neg_def word_le_nat_alt Let_def)

text \<open>The decoders agree on all codes, bit for bit: the table, the arithmetic of the kernels, and the table times
  a sign in the reference of the repack bridge, for every multiplication that is exact on plus and minus one.\<close>

theorem e2m1_decoders_agree:
  assumes "c < 16" "exact_on_codes mul"
  shows "e2m1_code_to_fp32 c = dequantize_e2m1_codes c \<and> e2m1_lut_decode mul c = dequantize_e2m1_codes c"
  using e2m1_kernel_decodes e2m1_lut_decodes assms by blast

theorem e2m1_decoders_agree_witness:
  "e2m1_code_to_fp32 13 = 0xC0400000 \<and> e2m1_lut_decode (\<lambda>x y. if y = 0x3F800000 then x else f32_neg x) 13 = 0xC0400000"
proof -
  have "(13 :: byte) < 16" "exact_on_codes (\<lambda>x y. if y = 0x3F800000 then x else f32_neg x)" by (simp_all add: exact_on_codes_def)
  from e2m1_decoders_agree [OF this] show ?thesis
    by (simp add: dequantize_e2m1_codes_def e2m1_bits_def f32_neg_def Let_def)
qed

text \<open>Quantizing what a code decodes to gives the code back.\<close>

theorem e2m1_codes_return:
  assumes "c < 16"
  shows "quantize_to_e2m1_codes (dequantize_e2m1_codes c) = c"
  using small_byte_cases [OF assms]
  by (elim insertE emptyE)
    (simp_all add: dequantize_e2m1_codes_def quantize_index e2m1_clamped_def e2m1_bits_def f32_neg_def signbit_def f32_nan_def f32_inf_def
      f32_exp_def f32_frac_def f32_mag_def code_index_cases Let_def)

theorem e2m1_codes_return_witness: "quantize_to_e2m1_codes (dequantize_e2m1_codes 13) = 13"
proof -
  have "(13 :: byte) < 16" by simp
  then show ?thesis by (rule e2m1_codes_return)
qed

lemma round_half_even_near:
  assumes "of_int k - 1/2 < x" "x < of_int k + 1/2"
  shows "round_half_even x = k"
proof (cases "of_int k \<le> x")
  case True
  then have "\<lfloor>x\<rfloor> = k" using assms by (intro floor_unique) auto
  then show ?thesis using assms by (simp add: round_half_even_def)
next
  case False
  then have "\<lfloor>x\<rfloor> = k - 1" using assms by (intro floor_unique) auto
  then show ?thesis using assms by (simp add: round_half_even_def)
qed

lemma round_half_even_tie: "round_half_even (of_int k + 1/2) = (if even k then k else k + 1)"
proof -
  have "\<lfloor>of_int k + 1/2 :: real\<rfloor> = k" by (rule floor_unique) auto
  then show ?thesis by (simp add: round_half_even_def)
qed

lemma round_half_even_even:
  assumes "even k" "of_int k - 1/2 \<le> x" "x \<le> of_int k + 1/2"
  shows "round_half_even x = k"
proof -
  consider "x = of_int (k - 1) + 1/2" | "of_int k - 1/2 < x" "x < of_int k + 1/2" | "x = of_int k + 1/2"
    using assms(2,3) by fastforce
  then show ?thesis
  proof cases
    case 1
    show ?thesis unfolding 1 round_half_even_tie using assms(1) by simp
  next
    case 2
    then show ?thesis by (rule round_half_even_near)
  next
    case 3
    show ?thesis unfolding 3 round_half_even_tie using assms(1) by simp
  qed
qed

lemma round_steps:
  "0 \<le> x \<Longrightarrow> x \<le> 1/2 \<Longrightarrow> round_half_even x = 0" "1/2 < x \<Longrightarrow> x < 3/2 \<Longrightarrow> round_half_even x = 1"
  "3/2 \<le> x \<Longrightarrow> x \<le> 5/2 \<Longrightarrow> round_half_even x = 2" "5/2 < x \<Longrightarrow> x < 7/2 \<Longrightarrow> round_half_even x = 3"
  "7/2 \<le> x \<Longrightarrow> x \<le> 9/2 \<Longrightarrow> round_half_even x = 4"
  using round_half_even_even [of 0 x] round_half_even_near [of 1 x] round_half_even_even [of 2 x] round_half_even_near [of 3 x]
    round_half_even_even [of 4 x] by simp_all

lemma round_fp4_nonneg:
  assumes "0 \<le> a" "a \<le> 6"
  shows "of_int (round_half_even (a / (if a < 2 then 1/2 else if a < 4 then 1 else 2))) * (if a < 2 then 1/2 else if a < 4 then 1 else 2)
    = e2m1_magnitudes ! code_index a"
proof -
  consider "a < 2" | "2 \<le> a" "a < 4" | "4 \<le> a" by linarith
  then show ?thesis
  proof cases
    case 1
    then show ?thesis using assms by (simp add: code_index_cases e2m1_magnitudes_def round_steps)
  next
    case 2
    then show ?thesis using assms by (simp add: code_index_cases e2m1_magnitudes_def round_steps)
  next
    case 3
    then show ?thesis using assms by (simp add: code_index_cases e2m1_magnitudes_def round_steps)
  qed
qed

lemma e2m1_bits_val:
  assumes "k < 8"
  shows "f32_mag (e2m1_bits ! k) = e2m1_magnitudes ! k" "\<not> signbit (e2m1_bits ! k)"
    "f32_mag (f32_neg (e2m1_bits ! k)) = e2m1_magnitudes ! k" "signbit (f32_neg (e2m1_bits ! k))"
  using less_8_cases [OF assms]
  by (elim disjE; simp add: e2m1_bits_def e2m1_magnitudes_def f32_mag_def f32_exp_def f32_frac_def signbit_def f32_neg_def)+

lemma dequantize_val:
  "f32_val (dequantize_e2m1_codes c) = (if c AND 8 \<noteq> 0 then - (e2m1_magnitudes ! unat (c AND 7)) else e2m1_magnitudes ! unat (c AND 7))"
proof -
  have "c AND 7 \<le> 7" by (rule word_and_le1)
  then have "unat (c AND 7) < 8" by (simp add: word_le_nat_alt)
  then show ?thesis by (simp add: dequantize_e2m1_codes_def f32_val_def e2m1_bits_val Let_def)
qed

text \<open>Rounding a value in range onto the grid by halves, ones and twos gives what its code decodes to.\<close>

theorem round_fp4_agrees:
  assumes "f32_finite x" "f32_mag x \<le> 6"
  shows "round_fp4 (f32_val x) = f32_val (dequantize_e2m1_codes (quantize_to_e2m1_codes x))"
proof -
  have n: "0 \<le> f32_mag x" by (simp add: f32_mag_def)
  have a: "e2m1_clamped x = f32_mag x"
    using assms by (simp add: e2m1_clamped_def f32_nan_def f32_inf_def f32_finite_def)
  have abs: "\<bar>f32_val x\<bar> = f32_mag x" using n by (simp add: f32_val_def)
  have "e2m1_magnitudes ! code_index 0 = 0" by (simp add: code_index_cases e2m1_magnitudes_def)
  then have s: "e2m1_magnitudes ! code_index (f32_mag x) * sgn (f32_val x)
      = (if signbit x then - (e2m1_magnitudes ! code_index (f32_mag x)) else e2m1_magnitudes ! code_index (f32_mag x))"
    using n by (cases "f32_mag x = 0") (simp_all add: f32_val_def)
  show ?thesis
    using round_fp4_nonneg [OF n assms(2)] s
    unfolding round_fp4_def abs Let_def dequantize_val quantize_fields(1,2) a by simp
qed

theorem round_fp4_agrees_witness: "round_fp4 (f32_val 0xC0200000) = -2"
proof -
  have "f32_finite 0xC0200000" "f32_mag 0xC0200000 \<le> 6"
    by (simp_all add: f32_finite_def f32_mag_def f32_exp_def f32_frac_def)
  from round_fp4_agrees [OF this] show ?thesis
    unfolding dequantize_val quantize_fields(1,2)
    by (simp add: e2m1_clamped_def f32_nan_def f32_inf_def f32_mag_def f32_exp_def f32_frac_def signbit_def code_index_cases e2m1_magnitudes_def)
qed

section \<open>Powers of two\<close>

lemma mask_values: "(0xFF :: f32) = mask 8" "(0x7FFFFF :: f32) = mask 23"
  by (simp_all add: mask_eq_exp_minus_1)

lemma exponent_field: "signed_drop_bit 23 (x :: f32) AND 0xFF = drop_bit 23 x AND 0xFF"
  unfolding mask_values
  by (rule bit_word_eqI) (auto simp: bit_simps)

lemma f32_fields: "f32_exp w = unat w div 2 ^ 23 mod 2 ^ 8" "f32_frac w = unat w mod 2 ^ 23"
  unfolding f32_exp_def f32_frac_def mask_values take_bit_eq_mask [symmetric] unsigned_take_bit_eq unat_drop_bit_eq
  by (simp_all only: take_bit_eq_mod drop_bit_eq_div)

lemma frac_less: "f32_frac w < 2 ^ 23" and exp_le: "f32_exp w \<le> 255"
  using mod_less_divisor [of "2 ^ 23" "unat w"] mod_less_divisor [of "2 ^ 8" "unat w div 2 ^ 23"]
  by (simp_all add: f32_fields del: mod_less_divisor)

lemma frac_zero: "w AND 0x7FFFFF \<noteq> 0 \<longleftrightarrow> f32_frac w \<noteq> 0"
  by (simp add: f32_frac_def unat_eq_0)

definition next_exp :: "f32 \<Rightarrow> nat" where
  "next_exp w = f32_exp w + (if f32_frac w \<noteq> 0 then 1 else 0)"

lemma ue8m0_unat: "unat (ue8m0_of w) = next_exp w"
proof -
  have e: "unat (drop_bit 23 w AND 0xFF) = f32_exp w" by (simp add: f32_exp_def)
  have "f32_exp w + 1 < 2 ^ 32" using exp_le [of w] by simp
  then show ?thesis
    unfolding ue8m0_of_def exponent_field next_exp_def frac_zero by (simp add: unat_word_ariths e)
qed

lemma ceil_pow2_ue8m0: "ceil_pow2 w = push_bit 23 (ue8m0_of w)"
  by (simp add: ceil_pow2_def ue8m0_of_def Let_def)

lemma push_fields:
  assumes "unat (b :: f32) < 256"
  shows "f32_exp (push_bit 23 b) = unat b" "f32_frac (push_bit 23 b) = 0"
proof -
  have "unat (push_bit 23 b) = unat b * 2 ^ 23"
    using assms by (simp add: push_bit_eq_mult unat_word_ariths)
  then show "f32_exp (push_bit 23 b) = unat b" "f32_frac (push_bit 23 b) = 0" using assms by (simp_all add: f32_fields)
qed

lemma signbit_unat: "signbit w \<longleftrightarrow> 2 ^ 31 \<le> unat w"
proof -
  have "(0x80000000 :: f32) = 2 ^ 31" by simp
  then have "signbit w \<longleftrightarrow> bit w 31" unfolding signbit_def by (simp only: and_exp_eq_0_iff_not_bit not_not)
  also have "\<dots> \<longleftrightarrow> odd (unat w div 2 ^ 31)" by (simp only: flip: bit_iff_odd) (simp add: bit_unsigned_iff)
  also have "\<dots> \<longleftrightarrow> 2 ^ 31 \<le> unat w"
  proof -
    have "unat w < 2 ^ 32" using unsigned_less [of w] by simp
    then have "unat w div 2 ^ 31 < 2" by (simp add: less_mult_imp_div_less)
    then have "odd (unat w div 2 ^ 31) \<longleftrightarrow> unat w div 2 ^ 31 \<noteq> 0" by (cases "unat w div 2 ^ 31") auto
    then show ?thesis by (simp add: div_eq_0_iff not_less)
  qed
  finally show ?thesis .
qed

lemma push_val:
  assumes "0 < unat (b :: f32)" "unat b < 255"
  shows "f32_val (push_bit 23 b) = 2 ^ unat b / 2 ^ 127"
proof -
  have u: "unat (push_bit 23 b) = unat b * 2 ^ 23" using assms by (simp add: push_bit_eq_mult unat_word_ariths)
  then have "\<not> signbit (push_bit 23 b)" using assms by (simp add: signbit_unat)
  then show ?thesis using push_fields [of b] assms by (simp add: f32_val_def f32_mag_def)
qed

text \<open>On positive normal words \<open>ceil_pow2\<close> is the least power of two that is not below, unless that is beyond
  single precision; the scale byte is its exponent field, and the reciprocal of the repack bridge is exact.\<close>

theorem ceil_pow2_least:
  assumes "\<not> signbit x" "0 < f32_exp x" "next_exp x < 254"
  shows "f32_val (ceil_pow2 x) = 2 ^ next_exp x / 2 ^ 127 \<and> f32_val x \<le> f32_val (ceil_pow2 x) \<and> f32_val (ceil_pow2 x) < 2 * f32_val x
    \<and> unat (ue8m0_of x) = next_exp x \<and> ue8m0_to_fp32 (ucast (ue8m0_of x)) = ceil_pow2 x
    \<and> f32_val (inv_scale (ue8m0_of x)) * f32_val (ceil_pow2 x) = 1"
proof -
  have n: "unat (ue8m0_of x) = next_exp x" by (rule ue8m0_unat)
  have pos: "0 < next_exp x" using assms(2) by (simp add: next_exp_def)
  have c: "f32_val (ceil_pow2 x) = 2 ^ next_exp x / 2 ^ 127"
    unfolding ceil_pow2_ue8m0 using push_val [of "ue8m0_of x"] n pos assms(3) by simp
  have x: "f32_val x = real (2 ^ 23 + f32_frac x) * 2 ^ f32_exp x / 2 ^ 150" using assms(1,2) by (simp add: f32_val_def f32_mag_def)
  have le: "f32_val x \<le> 2 ^ next_exp x / 2 ^ 127" "2 ^ next_exp x / 2 ^ 127 < 2 * f32_val x"
    using frac_less [of x] by (simp_all add: x next_exp_def field_simps)
  have w: "ue8m0_of x = of_nat (next_exp x)" unfolding n [symmetric] by simp
  have "ucast (of_nat (next_exp x) :: f32) = (of_nat (next_exp x) :: byte)"
    using assms(3) by (simp add: word_unat_eq_iff unat_of_nat unsigned_ucast_eq take_bit_eq_mod)
  moreover have "(of_nat (next_exp x) :: byte) \<noteq> 255" "(of_nat (next_exp x) :: byte) \<noteq> 0"
    using assms(3) pos by (simp_all add: word_unat_eq_iff unat_of_nat)
  moreover have "ucast (of_nat (next_exp x) :: byte) = (of_nat (next_exp x) :: f32)"
    using assms(3) by (simp add: word_unat_eq_iff unat_of_nat unsigned_ucast_eq take_bit_eq_mod)
  ultimately have dec: "ue8m0_to_fp32 (ucast (ue8m0_of x)) = ceil_pow2 x" unfolding ceil_pow2_ue8m0 w by (simp add: ue8m0_to_fp32_def)
  have "unat (254 - ue8m0_of x) = 254 - next_exp x" using n assms(3) by (simp add: unat_sub word_le_nat_alt)
  then have i: "f32_val (inv_scale (ue8m0_of x)) = 2 ^ (254 - next_exp x) / 2 ^ 127"
    unfolding inv_scale_def using assms(3) pos by (subst push_val) auto
  have "(2 :: real) ^ (254 - next_exp x) * 2 ^ next_exp x = 2 ^ 254" using assms(3) by (simp flip: power_add)
  then have inv: "f32_val (inv_scale (ue8m0_of x)) * f32_val (ceil_pow2 x) = 1" unfolding i c times_divide_times_eq by (simp flip: power_add)
  show ?thesis unfolding c [symmetric] using c le [folded c] n dec inv by blast
qed

theorem ceil_pow2_least_witness: "f32_val (ceil_pow2 0x40A00000) = 8 \<and> f32_val 0x40A00000 = 5 \<and> f32_val (inv_scale (ue8m0_of 0x40A00000)) = 1 / 8"
proof -
  have n: "next_exp 0x40A00000 = 130" by (simp add: next_exp_def f32_exp_def f32_frac_def)
  have "\<not> signbit 0x40A00000" "0 < f32_exp 0x40A00000" "next_exp 0x40A00000 < 254"
    by (simp_all add: n signbit_def f32_exp_def)
  note r = ceil_pow2_least [OF this]
  have "f32_val (ceil_pow2 0x40A00000) = 2 ^ 130 / 2 ^ 127" using r n by metis
  then have c: "f32_val (ceil_pow2 0x40A00000) = 8" by simp
  have "f32_val (inv_scale (ue8m0_of 0x40A00000)) * f32_val (ceil_pow2 0x40A00000) = 1" using r by blast
  moreover have "f32_val 0x40A00000 = 5" by (simp add: f32_val_def f32_mag_def f32_exp_def f32_frac_def signbit_def)
  ultimately show ?thesis using c by (simp add: field_simps)
qed

text \<open>A subnormal power of two is not its own ceiling; the callers keep the argument above.\<close>

lemma ceil_pow2_subnormal: "ceil_pow2 0x00400000 = 0x00800000 \<and> f32_val 0x00400000 = 1 / 2 ^ 127 \<and> f32_val 0x00800000 = 1 / 2 ^ 126"
  by (simp add: ceil_pow2_def f32_val_def f32_mag_def f32_exp_def f32_frac_def signbit_def Let_def)

section \<open>Products of codes and scales\<close>

lemma magnitude_split:
  assumes "k < 8"
  obtains p q where "e2m1_magnitudes ! k = real p * 2 ^ q / 2" "p \<le> 3" "q \<le> 2"
proof -
  have "(\<exists>p q. e2m1_magnitudes ! k = real p * 2 ^ q / 2 \<and> p \<le> 3 \<and> q \<le> 2)"
    using less_8_cases [OF assms]
  proof (elim disjE)
    show "k = 0 \<Longrightarrow> ?thesis" by (rule exI [of _ 0], rule exI [of _ 0]) (simp add: e2m1_magnitudes_def)
    show "k = 1 \<Longrightarrow> ?thesis" by (rule exI [of _ 1], rule exI [of _ 0]) (simp add: e2m1_magnitudes_def)
    show "k = 2 \<Longrightarrow> ?thesis" by (rule exI [of _ 1], rule exI [of _ 1]) (simp add: e2m1_magnitudes_def)
    show "k = 3 \<Longrightarrow> ?thesis" by (rule exI [of _ 3], rule exI [of _ 0]) (simp add: e2m1_magnitudes_def)
    show "k = 4 \<Longrightarrow> ?thesis" by (rule exI [of _ 1], rule exI [of _ 2]) (simp add: e2m1_magnitudes_def)
    show "k = 5 \<Longrightarrow> ?thesis" by (rule exI [of _ 3], rule exI [of _ 1]) (simp add: e2m1_magnitudes_def)
    show "k = 6 \<Longrightarrow> ?thesis" by (rule exI [of _ 2], rule exI [of _ 2]) (simp add: e2m1_magnitudes_def)
    show "k = 7 \<Longrightarrow> ?thesis" by (rule exI [of _ 3], rule exI [of _ 2]) (simp add: e2m1_magnitudes_def)
  qed
  then show thesis using that by blast
qed

lemma e4m3_split: obtains m e where "e4m3_mag s = real m * 2 ^ e / 2 ^ 10" "m < 16" "0 < e" "e \<le> 15"
proof -
  let ?e = "unat (drop_bit 3 s AND 0xF)" and ?m = "unat (s AND 7)"
  have "s AND 7 \<le> 7" "drop_bit 3 s AND 0xF \<le> 0xF" by (rule word_and_le1)+
  then have "?m \<le> 7" "?e \<le> 15" by (simp_all add: word_le_nat_alt)
  then show thesis
    using that [of ?m 1] that [of "8 + ?m" ?e] by (cases "?e = 0") (auto simp: e4m3_mag_def Let_def)
qed

text \<open>The product of a code's magnitude and an e4m3 scale has at most six significant bits, far from both ends of
  the exponent range, so no format on its way rounds it.\<close>

theorem code_times_scale_exact:
  assumes "k < 8"
  shows "\<exists>n j. n < 64 \<and> j \<le> 17 \<and> e2m1_magnitudes ! k * e4m3_mag s = real n * 2 ^ j / 2 ^ 11"
proof -
  obtain p q where p: "e2m1_magnitudes ! k = real p * 2 ^ q / 2" "p \<le> 3" "q \<le> 2" by (rule magnitude_split [OF assms])
  obtain m e where m: "e4m3_mag s = real m * 2 ^ e / 2 ^ 10" "m < 16" "0 < e" "e \<le> 15" by (rule e4m3_split)
  have "p * m \<le> 3 * 15" using p(2) m(2) by (intro mult_le_mono) auto
  moreover have "e2m1_magnitudes ! k * e4m3_mag s = real (p * m) * 2 ^ (q + e) / 2 ^ 11" by (simp add: p(1) m(1) power_add)
  ultimately show ?thesis using p(3) m(4) by (intro exI [of _ "p * m"] exI [of _ "q + e"]) auto
qed

theorem code_times_scale_exact_witness:
  "\<exists>n j. n < 64 \<and> j \<le> 17 \<and> e2m1_magnitudes ! 7 * e4m3_mag 0x7E = real n * 2 ^ j / 2 ^ 11"
proof -
  have "(7 :: nat) < 8" by simp
  then show ?thesis by (rule code_times_scale_exact)
qed

end
