(* ===== verification/KvFormatFacts.thy ===== *)
theory KvFormatFacts
  imports KvFormats Fp4Facts
begin

text \<open>The gather kernels read what their references read, and what the writers stored.\<close>

section \<open>Tiles\<close>

lemma tiles_length [simp]: "length (tiles n xs) = length xs div n"
  by (simp add: tiles_def)

lemma tiles_nth: "i < length xs div n \<Longrightarrow> tiles n xs ! i = take n (drop (i * n) xs)"
  by (simp add: tiles_def)

lemma tile_end:
  assumes "i < length xs div n"
  shows "i * n + n \<le> length xs"
proof -
  have "Suc i * n \<le> length xs div n * n" using assms by (intro mult_le_mono1) simp
  also have "\<dots> \<le> length xs" by (rule div_times_less_eq_dividend)
  finally show ?thesis by simp
qed

lemma tile_length: "i < length xs div n \<Longrightarrow> length (tiles n xs ! i) = n"
  using tile_end [of i xs n] by (simp add: tiles_nth)

lemma tile_elem: "i < length xs div n \<Longrightarrow> j < n \<Longrightarrow> tiles n xs ! i ! j = xs ! (i * n + j)"
  using tile_end [of i xs n] by (simp add: tiles_nth)

lemma concat_uniform:
  assumes "\<forall>xs \<in> set xss. length xs = n" "i < n * length xss"
  shows "concat xss ! i = xss ! (i div n) ! (i mod n)"
  using assms
proof (induction xss arbitrary: i)
  case (Cons xs xss)
  show ?case
  proof (cases "i < n")
    case True
    then show ?thesis using Cons.prems by (simp add: nth_append)
  next
    case False
    then have "0 < n" using Cons.prems by (cases n) auto
    moreover have "i - n < n * length xss" using Cons.prems False by simp
    ultimately show ?thesis
      using Cons.IH [of "i - n"] Cons.prems False
      by (simp add: nth_append le_div_geq le_mod_geq not_less)
  qed
qed simp

lemma concat_uniform_length: "\<forall>xs \<in> set xss. length xs = n \<Longrightarrow> length (concat xss) = n * length xss"
  by (induction xss) auto

lemma repeat_each_length [simp]: "length (repeat_each n xs) = n * length xs"
  by (simp add: repeat_each_def length_concat comp_def sum_list_triv)

lemma repeat_each_nth:
  assumes "i < n * length xs"
  shows "repeat_each n xs ! i = xs ! (i div n)"
proof -
  have "0 < n" using assms by (cases n) auto
  moreover have "i div n < length xs" using assms by (simp add: less_mult_imp_div_less mult.commute)
  ultimately show ?thesis
    using assms by (simp add: repeat_each_def concat_uniform [where n = n])
qed

lemma concat_tabulate:
  assumes "i < n * m"
  shows "concat (map (\<lambda>t. map (f t) [0..<n]) [0..<m]) ! i = f (i div n) (i mod n)"
proof -
  have "0 < n" using assms by (cases n) auto
  moreover have "i div n < m" using assms by (simp add: less_mult_imp_div_less mult.commute)
  ultimately show ?thesis using assms by (simp add: concat_uniform [where n = n])
qed

lemma concat_tabulate_length: "length (concat (map (\<lambda>t. map (f t) [0..<n]) [0..<m])) = n * m"
  by (simp add: length_concat comp_def sum_list_triv)

lemma concat_pairs:
  assumes "i < 2 * m"
  shows "concat (map (\<lambda>b. [f b, g b]) [0..<m]) ! i = (if even i then f (i div 2) else g (i div 2))"
proof -
  have "i div 2 < m" using assms by simp
  then show ?thesis using assms by (auto simp: concat_uniform [where n = 2] even_iff_mod_2_eq_zero odd_iff_mod_2_eq_one)
qed

lemma concat_pairs_length: "length (concat (map (\<lambda>b. [f b, g b]) [0..<m])) = 2 * m"
  by (simp add: length_concat comp_def sum_list_triv)

section \<open>The layout V4\<close>

definition device_exp2 :: "float_ops \<Rightarrow> bool" where
  "device_exp2 F \<longleftrightarrow> (\<forall>n. -127 \<le> n \<and> n \<le> 128 \<longrightarrow> exp2_dev F n = (if n < -126 then 0 else exp2_exact n))"

lemma flushed_scale_dev:
  assumes "device_exp2 F"
  shows "flushed_scale b = exp2_dev F (int (unat b) - 127)"
proof -
  let ?n = "int (unat b) - 127"
  have b: "unat b \<le> 255" using unsigned_less [of b, where 'a = nat] by simp
  have dev: "exp2_dev F ?n = (if ?n < -126 then 0 else exp2_exact ?n)" 
  proof -
    have "-127 \<le> ?n \<and> ?n \<le> 128" using b by linarith
    then show ?thesis using assms unfolding device_exp2_def by blast
  qed
  have v: "f32_val (exp2_exact ?n) < 1 / 2 ^ 126 \<longleftrightarrow> ?n < -126"
  proof -
    consider "unat b = 0" | "unat b = 255" | "0 < unat b" "unat b < 255" using b by linarith
    then show ?thesis
    proof cases
      case 3
      let ?w = "of_int (?n + 127) :: f32"
      have "unat (ucast b :: f32) = unat b" using b by (simp add: unsigned_ucast_eq take_bit_nat_eq_self_iff)
      then have "unat ?w = unat b" by simp
      moreover have "exp2_exact ?n = push_bit 23 ?w" 
      proof -
        have "uint b = int (unat b)" by (rule uint_nat)
        then have "0 < uint b" "uint b < 255" using 3 by linarith+
        then show ?thesis by (simp add: exp2_exact_def)
      qed
      ultimately have "f32_val (exp2_exact ?n) = 2 ^ unat b / 2 ^ 127" using push_val [of ?w] 3 by simp
      moreover have "(2 :: real) ^ 1 \<le> 2 ^ unat b" using 3 by (intro power_increasing) auto
      ultimately have "\<not> f32_val (exp2_exact ?n) < 1 / 2 ^ 126" by simp
      moreover have "\<not> ?n < -126" using 3 by linarith
      ultimately show ?thesis by blast
    qed (simp_all add: exp2_exact_def f32_val_def f32_mag_def f32_exp_def f32_frac_def signbit_def)
  qed
  show ?thesis unfolding flushed_scale_def Let_def v dev by simp
qed

lemma v4_nope_length: "length (v4_nope_kernel F st ld bpp ps loc) = 448"
  by (simp add: v4_nope_kernel_def concat_tabulate_length)

lemma v4_nope_nth:
  assumes "i < 448"
  shows "v4_nope_kernel F st ld bpp ps loc ! i
    = st (fmul F (of_e4m3 F (ld (v4_data_base bpp ps loc + i))) (exp2_dev F (int (unat (ld (v4_scale_base bpp ps loc + i div 64))) - 127)))"
  unfolding v4_nope_kernel_def using assms by (subst concat_tabulate) (simp_all add: add.assoc)

lemma gather_flat_Inr: "gather_flat xs idx = Inr ys \<Longrightarrow> length ys = length idx \<and> (\<forall>i < length idx. idx ! i < length xs \<and> ys ! i = xs ! (idx ! i))"
  by (auto simp: gather_flat_def list_all_length split: if_splits)

lemma ref_row_parts:
  assumes "ref_row F flat bpp ps loc = Inr row"
  obtains nope scales where "length nope = 448" "length scales = 7"
    "\<forall>i < 448. v4_data_base bpp ps loc + i < length flat \<and> nope ! i = flat ! (v4_data_base bpp ps loc + i)"
    "\<forall>i < 7. v4_scale_base bpp ps loc + i < length flat \<and> scales ! i = flat ! (v4_scale_base bpp ps loc + i)"
    "\<forall>i < 64. (v4_data_base bpp ps loc + 448) div 2 + i < length flat div 2"
    "row = map2 (\<lambda>v s. to_bf16 F (fmul F (of_e4m3 F v) s)) nope (repeat_each 64 (map flushed_scale scales))
       @ map (\<lambda>i. word16 (flat ! (2 * i)) (flat ! (2 * i + 1))) (map (\<lambda>r. (v4_data_base bpp ps loc + 448) div 2 + r) [0..<64])"
proof -
  obtain nope scales where g: "gather_flat flat (map (\<lambda>i. v4_data_base bpp ps loc + i) [0..<448]) = Inr nope"
    "gather_flat flat (map (\<lambda>i. v4_scale_base bpp ps loc + i) [0..<7]) = Inr scales"
    "list_all (\<lambda>i. i < length flat div 2) (map (\<lambda>r. (v4_data_base bpp ps loc + 448) div 2 + r) [0..<64])"
    "row = map2 (\<lambda>v s. to_bf16 F (fmul F (of_e4m3 F v) s)) nope (repeat_each 64 (map flushed_scale scales))
       @ map (\<lambda>i. word16 (flat ! (2 * i)) (flat ! (2 * i + 1))) (map (\<lambda>r. (v4_data_base bpp ps loc + 448) div 2 + r) [0..<64])"
    using assms unfolding ref_row_def Let_def by (auto split: sum.splits if_splits)
  show thesis
    using gather_flat_Inr [OF g(1)] gather_flat_Inr [OF g(2)] g(3,4)
    by (intro that [of nope scales]) (auto simp: list_all_length)
qed

lemma ref_row_kernel:
  assumes "device_exp2 F" "ref_row F flat bpp ps loc = Inr row"
  shows "dequantize_paged_kernel F (ldb oob flat) bpp ps loc = row"
proof -
  obtain nope scales where R: "length nope = 448" "length scales = 7"
    "\<forall>i < 448. v4_data_base bpp ps loc + i < length flat \<and> nope ! i = flat ! (v4_data_base bpp ps loc + i)"
    "\<forall>i < 7. v4_scale_base bpp ps loc + i < length flat \<and> scales ! i = flat ! (v4_scale_base bpp ps loc + i)"
    "\<forall>i < 64. (v4_data_base bpp ps loc + 448) div 2 + i < length flat div 2"
    "row = map2 (\<lambda>v s. to_bf16 F (fmul F (of_e4m3 F v) s)) nope (repeat_each 64 (map flushed_scale scales))
       @ map (\<lambda>i. word16 (flat ! (2 * i)) (flat ! (2 * i + 1))) (map (\<lambda>r. (v4_data_base bpp ps loc + 448) div 2 + r) [0..<64])"
    by (rule ref_row_parts [OF assms(2)])
  have "v4_nope_kernel F (to_bf16 F) (ldb oob flat) bpp ps loc
      = map2 (\<lambda>v s. to_bf16 F (fmul F (of_e4m3 F v) s)) nope (repeat_each 64 (map flushed_scale scales))"
  proof (rule nth_equalityI)
    fix i assume "i < length (v4_nope_kernel F (to_bf16 F) (ldb oob flat) bpp ps loc)"
    then have i: "i < 448" by (simp add: v4_nope_length)
    then have "i div 64 < 7" by simp
    then show "v4_nope_kernel F (to_bf16 F) (ldb oob flat) bpp ps loc ! i
        = map2 (\<lambda>v s. to_bf16 F (fmul F (of_e4m3 F v) s)) nope (repeat_each 64 (map flushed_scale scales)) ! i"
      using i R(1,2) R(3) [rule_format, OF i] R(4) [rule_format, of "i div 64"]
      by (simp add: v4_nope_nth repeat_each_nth ldb_def flushed_scale_dev [OF assms(1)])
  qed (simp add: v4_nope_length R)
  moreover have "ld16 (ldb oob flat) i = word16 (flat ! (2 * i)) (flat ! (2 * i + 1))" if "i < length flat div 2" for i
  proof -
    have "2 * i + 1 < length flat" using that by presburger
    then show ?thesis by (simp add: ld16_def ldb_def)
  qed
  ultimately show ?thesis using R(5,6) by (simp add: dequantize_paged_kernel_def comp_def)
qed

lemma ref_rows_kernel:
  assumes "device_exp2 F" "dequantize_k_cache_paged_ref F flat bpp ps locs = Inr rows"
  shows "map (dequantize_paged_kernel F (ldb oob flat) bpp ps) locs = rows"
proof -
  have "sequence (map (ref_row F flat bpp ps) locs) = Inr rows"
    using assms(2) by (simp add: dequantize_k_cache_paged_ref_def split: if_splits)
  then show ?thesis
    by (induction locs arbitrary: rows)
      (auto split: sum.splits dest!: ref_row_kernel [OF assms(1), where oob = oob] elim!: sequence.elims)
qed

text \<open>C21: Where the reference of the V4 gather reads at all, the kernel gives the same rows, bit for bit, whatever the
  arithmetic, if the device's power of two is exact and flushes subnormal results.\<close>

theorem paged_dequant_is_ref:
  assumes "device_exp2 F" "dequantize_k_cache_paged_ref F flat bpp ps locs = Inr rows"
  shows "dequantize_k_cache_paged F oob flat bpp V4 ps locs = Inr rows"
  using ref_rows_kernel [OF assms] by (simp add: dequantize_k_cache_paged_def)

text \<open>Rounding to bf16 on the way leaves the e4m3 byte of a scaled value as it is.\<close>

definition bf16_between :: "float_ops \<Rightarrow> bool" where
  "bf16_between F \<longleftrightarrow> (\<forall>v n. to_e4m3 F (of_bf16 F (to_bf16 F (fmul F (of_e4m3 F v) (exp2_dev F n)))) = to_e4m3 F (fmul F (of_e4m3 F v) (exp2_dev F n)))"

lemma gather_kernel_row:
  assumes "bf16_between F"
  shows "gather_requant_kernel F ld bpp ps loc = map (\<lambda>x. to_e4m3 F (of_bf16 F x)) (dequantize_paged_kernel F ld bpp ps loc)"
  using assms
  by (simp add: gather_requant_kernel_def dequantize_paged_kernel_def v4_nope_kernel_def bf16_between_def map_concat comp_def)

text \<open>The gather into an fp8 workspace gives the rows of its reference, and zeros behind them.\<close>

theorem gather_requant_is_ref:
  assumes "device_exp2 F" "bf16_between F" "gather_dequant_requant_fp8_paged_ref F flat bpp ps extra locs = Inr rows"
  shows "gather_dequant_requant_fp8_paged F oob flat bpp ps extra locs = rows"
proof -
  obtain rs where r: "dequantize_k_cache_paged_ref F flat bpp ps locs = Inr rs"
    "rows = map (map (\<lambda>x. to_e4m3 F (of_bf16 F x))) rs @ replicate extra (replicate 512 0)"
    using assms(3) unfolding gather_dequant_requant_fp8_paged_ref_def
    by (cases "dequantize_k_cache_paged_ref F flat bpp ps locs") auto
  have "map (dequantize_paged_kernel F (ldb oob flat) bpp ps) locs = rs" by (rule ref_rows_kernel [OF assms(1) r(1)])
  then show ?thesis unfolding gather_dequant_requant_fp8_paged_def r(2) gather_kernel_row [OF assms(2)] by auto
qed

text \<open>From row 2 ^ 22 on the address of a row no longer fits.\<close>

lemma gather_out_base_wraps: "gather_out_base (2 ^ 22) = - (2 ^ 31)"
  by (simp add: gather_out_base_def)

lemma gather_out_base_ok:
  assumes "n < 2 ^ 22"
  shows "gather_out_base n = int n * 512"
proof -
  have "(of_nat n * 512 :: 32 word) = of_int (int n * 512)" by simp
  moreover have "sint (of_int (int n * 512) :: 32 word) = int n * 512" 
  proof -
    have "(int n * 512 + 2 ^ 31) mod 2 ^ 32 = int n * 512 + 2 ^ 31" using assms by (intro mod_pos_pos_trivial) auto
    then show ?thesis unfolding int_word_sint by simp
  qed
  ultimately show ?thesis by (simp only: gather_out_base_def)
qed

section \<open>Pages\<close>

lemma concat_flat:
  assumes "\<forall>xs \<in> set xss. length xs = n" "p < length xss" "c < n"
  shows "concat xss ! (p * n + c) = xss ! p ! c"
proof -
  have "p * n + c < Suc p * n" using assms(3) by simp
  also have "\<dots> \<le> length xss * n" using assms(2) by (intro mult_le_mono1) simp
  finally have "p * n + c < n * length xss" by (simp add: mult.commute)
  then show ?thesis using concat_uniform [OF assms(1)] assms(3) by simp
qed

definition toks_ok :: "nat \<Rightarrow> nat \<Rightarrow> nat \<Rightarrow> (byte list \<times> byte list) list \<Rightarrow> bool" where
  "toks_ok ps w v toks \<longleftrightarrow> length toks = ps \<and> (\<forall>t \<in> set toks. length (fst t) = w \<and> length (snd t) = v)"

lemma toks_concat:
  assumes "toks_ok ps w v toks"
  shows "length (concat (map fst toks)) = ps * w" "length (concat (map snd toks)) = ps * v"
  using assms concat_uniform_length [of "map fst toks" w] concat_uniform_length [of "map snd toks" v]
  by (auto simp: toks_ok_def mult.commute)

lemma page_length: "toks_ok ps w v toks \<Longrightarrow> ps * (w + v) \<le> pb \<Longrightarrow> length (page_of pb toks) = pb"
  by (simp add: page_of_def Let_def toks_concat algebra_simps)

lemma page_data:
  assumes "toks_ok ps w v toks" "t < ps" "j < w"
  shows "page_of pb toks ! (t * w + j) = fst (toks ! t) ! j"
proof -
  have "t * w + j < Suc t * w" using assms(3) by simp
  also have "\<dots> \<le> ps * w" using assms(2) by (intro mult_le_mono1) simp
  finally have "t * w + j < ps * w" .
  then have "page_of pb toks ! (t * w + j) = concat (map fst toks) ! (t * w + j)"
    by (simp add: page_of_def Let_def nth_append toks_concat [OF assms(1)])
  also have "\<dots> = map fst toks ! t ! j" using assms by (intro concat_flat) (auto simp: toks_ok_def)
  finally show ?thesis using assms by (simp add: toks_ok_def)
qed

lemma page_scale:
  assumes "toks_ok ps w v toks" "t < ps" "j < v"
  shows "page_of pb toks ! (ps * w + t * v + j) = snd (toks ! t) ! j"
proof -
  have "t * v + j < Suc t * v" using assms(3) by simp
  also have "\<dots> \<le> ps * v" using assms(2) by (intro mult_le_mono1) simp
  finally have "t * v + j < ps * v" .
  then have "page_of pb toks ! (ps * w + t * v + j) = concat (map snd toks) ! (t * v + j)"
    by (simp add: page_of_def Let_def nth_append toks_concat [OF assms(1)] add.assoc)
  also have "\<dots> = map snd toks ! t ! j" using assms by (intro concat_flat) (auto simp: toks_ok_def)
  finally show ?thesis using assms by (simp add: toks_ok_def)
qed

text \<open>The pages of a cache, read by address.\<close>

lemma cache_data:
  assumes "\<forall>toks \<in> set tokss. toks_ok ps w v toks" "ps * (w + v) \<le> pb" "loc < length tokss * ps" "j < w"
  shows "ldb oob (concat (map (page_of pb) tokss)) (loc div ps * pb + loc mod ps * w + j) = fst (tokss ! (loc div ps) ! (loc mod ps)) ! j"
    and "loc div ps < length tokss" "loc mod ps < ps"
proof -
  have ps: "0 < ps" using assms(3) by (cases ps) auto
  show p: "loc div ps < length tokss" using assms(3) by (simp add: less_mult_imp_div_less)
  show t: "loc mod ps < ps" using ps by simp
  have ok: "toks_ok ps w v (tokss ! (loc div ps))" using assms(1) p by simp
  have "Suc (loc mod ps) * w \<le> ps * w" using t by (intro mult_le_mono1) simp
  then have c: "loc mod ps * w + j < pb" using assms(2,4) by (simp add: algebra_simps)
  have u: "\<forall>xs \<in> set (map (page_of pb) tokss). length xs = pb" using assms(1,2) page_length by auto
  have "concat (map (page_of pb) tokss) ! (loc div ps * pb + (loc mod ps * w + j)) = fst (tokss ! (loc div ps) ! (loc mod ps)) ! j"
    using concat_flat [OF u _ c, of "loc div ps"] p page_data [OF ok t assms(4)] by simp
  moreover have "loc div ps * pb + (loc mod ps * w + j) < length (concat (map (page_of pb) tokss))"
  proof -
    have "Suc (loc div ps) * pb \<le> length tokss * pb" using p by (intro mult_le_mono1) simp
    then show ?thesis using c concat_uniform_length [OF u] by (simp add: mult.commute)
  qed
  ultimately show "ldb oob (concat (map (page_of pb) tokss)) (loc div ps * pb + loc mod ps * w + j) = fst (tokss ! (loc div ps) ! (loc mod ps)) ! j"
    by (simp add: ldb_def add.assoc)
qed

lemma cache_scale:
  assumes "\<forall>toks \<in> set tokss. toks_ok ps w v toks" "ps * (w + v) \<le> pb" "loc < length tokss * ps" "j < v"
  shows "ldb oob (concat (map (page_of pb) tokss)) (loc div ps * pb + ps * w + loc mod ps * v + j) = snd (tokss ! (loc div ps) ! (loc mod ps)) ! j"
proof -
  have ps: "0 < ps" using assms(3) by (cases ps) auto
  have p: "loc div ps < length tokss" using assms(3) by (simp add: less_mult_imp_div_less)
  have t: "loc mod ps < ps" using ps by simp
  have ok: "toks_ok ps w v (tokss ! (loc div ps))" using assms(1) p by simp
  have "Suc (loc mod ps) * v \<le> ps * v" using t by (intro mult_le_mono1) simp
  then have c: "ps * w + loc mod ps * v + j < pb" using assms(2,4) by (simp add: algebra_simps)
  have u: "\<forall>xs \<in> set (map (page_of pb) tokss). length xs = pb" using assms(1,2) page_length by auto
  have "concat (map (page_of pb) tokss) ! (loc div ps * pb + (ps * w + loc mod ps * v + j)) = snd (tokss ! (loc div ps) ! (loc mod ps)) ! j"
    using concat_flat [OF u _ c, of "loc div ps"] p page_scale [OF ok t assms(4)] by simp
  moreover have "loc div ps * pb + (ps * w + loc mod ps * v + j) < length (concat (map (page_of pb) tokss))"
  proof -
    have "Suc (loc div ps) * pb \<le> length tokss * pb" using p by (intro mult_le_mono1) simp
    then show ?thesis using c concat_uniform_length [OF u] by (simp add: mult.commute)
  qed
  ultimately show ?thesis by (simp add: ldb_def add.assoc)
qed

section \<open>Tokens\<close>

lemma concat_map_tiles_nth:
  assumes "\<And>tile. length (f tile) = length tile" "length xs = n * m" "0 < n" "i < n * m"
  shows "concat (map f (tiles n xs)) ! i = f (tiles n xs ! (i div n)) ! (i mod n)" "length (concat (map f (tiles n xs))) = n * m"
proof -
  have m: "length xs div n = m" using assms(2,3) by simp
  have u: "\<forall>ys \<in> set (map f (tiles n xs)). length ys = n"
  proof
    fix ys assume "ys \<in> set (map f (tiles n xs))"
    then obtain j where "j < m" "ys = f (tiles n xs ! j)" using m by (auto simp: in_set_conv_nth)
    then show "length ys = n" using assms(1) tile_length [of j xs n] m by simp
  qed
  show "length (concat (map f (tiles n xs))) = n * m" using concat_uniform_length [OF u] m by simp
  have "i div n < m" using assms(3,4) by (simp add: less_mult_imp_div_less mult.commute)
  then show "concat (map f (tiles n xs)) ! i = f (tiles n xs ! (i div n)) ! (i mod n)"
    using concat_uniform [OF u, of i] assms(4) m by simp
qed

lemma pack_length: "length (pack_nibbles cs) = length cs div 2"
  by (induction cs rule: pack_nibbles.induct) auto

lemma pack_nth: "b < length cs div 2 \<Longrightarrow> pack_nibbles cs ! b = cs ! (2 * b) OR push_bit 4 (cs ! (2 * b + 1))"
proof (induction cs arbitrary: b rule: pack_nibbles.induct)
  case (1 a c cs)
  then show ?case by (cases b) auto
qed auto

lemma unpack_length [simp]: "length (unpack_nibbles ps) = 2 * length ps"
  by (induction ps) auto

lemma unpack_nth:
  "b < length ps \<Longrightarrow> unpack_nibbles ps ! (2 * b) = ps ! b AND 0xF \<and> unpack_nibbles ps ! (2 * b + 1) = drop_bit 4 (ps ! b)"
proof (induction ps arbitrary: b)
  case (Cons p ps)
  then show ?case by (cases b) auto
qed simp

lemma nibbles:
  assumes "(a :: byte) < 16" "c < 16"
  shows "(a OR push_bit 4 c) AND 0xF = a" "drop_bit 4 (a OR push_bit 4 c) = c"
proof -
  have m: "(0xF :: byte) = mask 4" by (simp add: mask_eq_exp_minus_1)
  have t: "take_bit 4 a = a" "take_bit 4 c = c" 
    using assms by (simp_all add: word_unat_eq_iff unsigned_take_bit_eq take_bit_nat_eq_self word_less_nat_alt)
  have bits: "bit a n \<Longrightarrow> n < 4" "bit c n \<Longrightarrow> n < 4" for n
    using t by (metis bit_take_bit_iff)+
  show "(a OR push_bit 4 c) AND 0xF = a"
    unfolding m by (rule bit_word_eqI) (auto simp: bit_simps dest: bits)
  show "drop_bit 4 (a OR push_bit 4 c) = c"
    by (rule bit_word_eqI) (auto simp: bit_simps dest: bits)
qed

lemma fp4_codes_length: "length (fp4_codes F tile) = length tile"
  by (simp add: fp4_codes_def)

lemma fp4_codes_small: "c \<in> set (fp4_codes F tile) \<Longrightarrow> c < 16"
  by (auto simp: fp4_codes_def quantize_fields(3))

text \<open>The codes of a token, and what an element of it is read back as.\<close>

definition fp4_code :: "float_ops \<Rightarrow> f32 list \<Rightarrow> nat \<Rightarrow> byte" where
  "fp4_code F xs i = fp4_codes F (tiles 16 xs ! (i div 16)) ! (i mod 16)"

definition fp4_value :: "float_ops \<Rightarrow> f32 list \<Rightarrow> nat \<Rightarrow> 16 word" where
  "fp4_value F xs i = to_bf16 F (fmul F (dequantize_e2m1_codes (fp4_code F xs i)) (of_e4m3 F (fp4_scale F (tiles 16 xs ! (i div 16)))))"

lemma fp4_code_small:
  assumes "length xs = 512" "i < 512"
  shows "fp4_code F xs i < 16"
proof -
  have "i mod 16 < length (fp4_codes F (tiles 16 xs ! (i div 16)))"
    using assms tile_length [of "i div 16" xs 16] by (simp add: fp4_codes_length)
  then show ?thesis unfolding fp4_code_def using fp4_codes_small nth_mem by blast
qed

lemma fp4_token_shape:
  assumes "length xs = 512"
  shows "length (fst (fp4_token F xs)) = 256" "length (snd (fp4_token F xs)) = 32"
  using concat_map_tiles_nth(2) [of "fp4_codes F" xs 16 32 0] assms
  by (simp_all add: fp4_token_def pack_length fp4_codes_length)

lemma fp4_token_bytes:
  assumes "length xs = 512" "b < 256"
  shows "fst (fp4_token F xs) ! b AND 0xF = fp4_code F xs (2 * b)" "drop_bit 4 (fst (fp4_token F xs) ! b) = fp4_code F xs (2 * b + 1)"
proof -
  have e: "concat (map (fp4_codes F) (tiles 16 xs)) ! i = fp4_code F xs i" if "i < 512" for i
    unfolding fp4_code_def using concat_map_tiles_nth(1) [of "fp4_codes F" xs 16 32 i] assms(1) that by (simp add: fp4_codes_length)
  have "fst (fp4_token F xs) ! b = fp4_code F xs (2 * b) OR push_bit 4 (fp4_code F xs (2 * b + 1))"
    using pack_nth [of b "concat (map (fp4_codes F) (tiles 16 xs))"] concat_map_tiles_nth(2) [of "fp4_codes F" xs 16 32 0] assms
    by (simp add: fp4_token_def e fp4_codes_length)
  then show "fst (fp4_token F xs) ! b AND 0xF = fp4_code F xs (2 * b)" "drop_bit 4 (fst (fp4_token F xs) ! b) = fp4_code F xs (2 * b + 1)"
    using nibbles [OF fp4_code_small fp4_code_small, of xs "2 * b" xs "2 * b + 1"] assms by simp_all
qed

lemma fp4_token_scale: "length xs = 512 \<Longrightarrow> t < 32 \<Longrightarrow> snd (fp4_token F xs) ! t = fp4_scale F (tiles 16 xs ! t)"
  by (simp add: fp4_token_def)

section \<open>Stored and read\<close>

definition cache_shape :: "nat \<Rightarrow> f32 list list list \<Rightarrow> bool" where
  "cache_shape ps k \<longleftrightarrow> (\<forall>page \<in> set k. length page = ps \<and> (\<forall>xs \<in> set page. length xs = 512))"

lemma quantize_fp4_pages:
  assumes "quantize_k_cache_v41_fp4 F ps pb k = Inr pages" "cache_shape ps k"
  shows "pages = map (page_of (stride_of 288 256 ps pb)) (map (map (fp4_token F)) k)" "ps * (256 + 32) \<le> stride_of 288 256 ps pb"
    "\<forall>toks \<in> set (map (map (fp4_token F)) k). toks_ok ps 256 32 toks"
  using assms by (auto simp: quantize_k_cache_v41_fp4_def cache_shape_def toks_ok_def Let_def fp4_token_shape comp_def split: if_splits)

lemma fp4_kernel_reads:
  assumes "quantize_k_cache_v41_fp4 F ps pb k = Inr pages" "cache_shape ps k" "loc < length k * ps"
  shows "v41_fp4_kernel F (ldb oob (concat pages)) (stride_of 288 256 ps pb) ps loc = map (fp4_value F (k ! (loc div ps) ! (loc mod ps))) [0..<512]"
proof -
  let ?n = "stride_of 288 256 ps pb" and ?ld = "ldb oob (concat pages)"
  let ?xs = "k ! (loc div ps) ! (loc mod ps)"
  note Q = quantize_fp4_pages [OF assms(1,2)]
  have l: "loc < length (map (map (fp4_token F)) k) * ps" using assms(3) by simp
  have p: "loc div ps < length k" "loc mod ps < ps" using cache_data(2,3) [OF Q(3,2) l, of 0] by simp_all
  have xs: "length ?xs = 512" "length (k ! (loc div ps)) = ps" using assms(2) p unfolding cache_shape_def by (metis nth_mem)+
  have t: "map (map (fp4_token F)) k ! (loc div ps) ! (loc mod ps) = fp4_token F ?xs" using p xs by simp
  have data: "?ld (loc div ps * ?n + loc mod ps * 256 + b) = fst (fp4_token F ?xs) ! b" if "b < 256" for b
    unfolding Q(1) t [symmetric] by (rule cache_data(1) [OF Q(3,2) l that])
  have scale: "?ld (loc div ps * ?n + ps * 256 + loc mod ps * 32 + j) = fp4_scale F (tiles 16 ?xs ! j)" if "j < 32" for j
    unfolding Q(1) using cache_scale [OF Q(3,2) l that] t fp4_token_scale [OF xs(1) that] by simp
  have "[to_bf16 F (fmul F (e2m1_code_to_fp32 (?ld (loc div ps * ?n + loc mod ps * 256 + b) AND 0xF)) (of_e4m3 F (?ld (loc div ps * ?n + ps * 256 + loc mod ps * 32 + 2 * b div 16)))),
      to_bf16 F (fmul F (e2m1_code_to_fp32 (drop_bit 4 (?ld (loc div ps * ?n + loc mod ps * 256 + b)))) (of_e4m3 F (?ld (loc div ps * ?n + ps * 256 + loc mod ps * 32 + 2 * b div 16))))]
    = [fp4_value F ?xs (2 * b), fp4_value F ?xs (2 * b + 1)]" if b: "b < 256" for b
  proof -
    have h: "n div 16 = n div 2 div 8" for n :: nat using div_mult2_eq [of n 2 8] by simp
    then have j: "2 * b div 16 < 32" "(2 * b + 1) div 16 = 2 * b div 16" using b by simp_all
    have i: "2 * b < 512" "2 * b + 1 < 512" using b by simp_all
    show ?thesis
      unfolding data [OF b] scale [OF j(1)] fp4_token_bytes [OF xs(1) b] fp4_value_def j(2)
        e2m1_kernel_decodes [OF fp4_code_small [OF xs(1) i(1)]] e2m1_kernel_decodes [OF fp4_code_small [OF xs(1) i(2)]]
      by (rule refl)
  qed
  then have k: "v41_fp4_kernel F ?ld ?n ps loc = concat (map (\<lambda>b. [fp4_value F ?xs (2 * b), fp4_value F ?xs (2 * b + 1)]) [0..<256])"
    unfolding v41_fp4_kernel_def Let_def by (intro arg_cong [where f = concat] map_cong) auto
  show ?thesis
  proof (rule nth_equalityI)
    fix i assume "i < length (v41_fp4_kernel F ?ld ?n ps loc)"
    then have i: "i < 2 * 256" unfolding k concat_pairs_length .
    then show "v41_fp4_kernel F ?ld ?n ps loc ! i = map (fp4_value F ?xs) [0..<512] ! i" unfolding k concat_pairs [OF i] by auto
  qed (simp only: k concat_pairs_length, simp)
qed

lemma tiles_concat:
  assumes "\<forall>xs \<in> set xss. length xs = n" "0 < n"
  shows "tiles n (concat xss) = xss"
proof (rule nth_equalityI)
  have l: "length (concat xss) = n * length xss" by (rule concat_uniform_length [OF assms(1)])
  then show ln: "length (tiles n (concat xss)) = length xss" using assms(2) by simp
  fix i assume "i < length (tiles n (concat xss))"
  then have i: "i < length xss" "i < length (concat xss) div n" using ln by simp_all
  show "tiles n (concat xss) ! i = xss ! i"
  proof (rule nth_equalityI)
    show "length (tiles n (concat xss) ! i) = length (xss ! i)" using tile_length [OF i(2)] assms(1) i(1) by simp
    fix j assume "j < length (tiles n (concat xss) ! i)"
    then have j: "j < n" using tile_length [OF i(2)] by simp
    show "tiles n (concat xss) ! i ! j = xss ! i ! j"
      using tile_elem [OF i(2) j] concat_flat [OF assms(1) i(1) j] by simp
  qed
qed

lemma page_rows:
  assumes "toks_ok ps w v toks" "0 < w" "0 < v"
  shows "data_rows ps w (page_of pb toks) = map fst toks" "scale_rows ps w v (page_of pb toks) = map snd toks"
proof -
  have "take (ps * w) (page_of pb toks) = concat (map fst toks)"
    using toks_concat [OF assms(1)] by (simp add: page_of_def Let_def)
  moreover have "tiles w (concat (map fst toks)) = map fst toks" by (rule tiles_concat) (use assms in \<open>auto simp: toks_ok_def\<close>)
  ultimately show "data_rows ps w (page_of pb toks) = map fst toks" by (simp add: data_rows_def)
  have "take (ps * v) (drop (ps * w) (page_of pb toks)) = concat (map snd toks)"
    using toks_concat [OF assms(1)] by (simp add: page_of_def Let_def)
  moreover have "tiles v (concat (map snd toks)) = map snd toks" by (rule tiles_concat) (use assms in \<open>auto simp: toks_ok_def\<close>)
  ultimately show "scale_rows ps w v (page_of pb toks) = map snd toks" by (simp add: scale_rows_def)
qed

lemma unpack_token:
  assumes "length xs = 512" "i < 512"
  shows "unpack_nibbles (fst (fp4_token F xs)) ! i = fp4_code F xs i"
proof -
  have b: "i div 2 < 256" using assms(2) by simp
  have "i = 2 * (i div 2) \<or> i = 2 * (i div 2) + 1" by presburger
  then show ?thesis
    using unpack_nth [of "i div 2" "fst (fp4_token F xs)"] fp4_token_bytes [OF assms(1) b] b fp4_token_shape [OF assms(1)] by metis
qed

lemma fp4_row_torch:
  assumes "length xs = 512"
  shows "map2 (\<lambda>c s. to_bf16 F (fmul F (dequantize_e2m1_codes c) (of_e4m3 F s))) (unpack_nibbles (fst (fp4_token F xs)))
      (repeat_each 16 (snd (fp4_token F xs))) = map (fp4_value F xs) [0..<512]"
proof (rule nth_equalityI)
  show "length (map2 (\<lambda>c s. to_bf16 F (fmul F (dequantize_e2m1_codes c) (of_e4m3 F s))) (unpack_nibbles (fst (fp4_token F xs)))
      (repeat_each 16 (snd (fp4_token F xs)))) = length (map (fp4_value F xs) [0..<512])"
    using fp4_token_shape [OF assms] by simp
  fix i assume "i < length (map2 (\<lambda>c s. to_bf16 F (fmul F (dequantize_e2m1_codes c) (of_e4m3 F s))) (unpack_nibbles (fst (fp4_token F xs)))
      (repeat_each 16 (snd (fp4_token F xs))))"
  then have i: "i < 512" using fp4_token_shape [OF assms] by simp
  then have "i div 16 < 32" by simp
  then show "map2 (\<lambda>c s. to_bf16 F (fmul F (dequantize_e2m1_codes c) (of_e4m3 F s))) (unpack_nibbles (fst (fp4_token F xs)))
      (repeat_each 16 (snd (fp4_token F xs))) ! i = map (fp4_value F xs) [0..<512] ! i"
    using i fp4_token_shape [OF assms] by (simp add: unpack_token [OF assms] repeat_each_nth fp4_token_scale [OF assms] fp4_value_def)
qed

lemma map2_fst_snd: "map2 f (map (fst \<circ> g) ts) (map (snd \<circ> g) ts) = map (\<lambda>t. f (fst (g t)) (snd (g t))) ts"
  by (induction ts) (simp_all add: case_prod_beta)

text \<open>C20: Reading a stored fp4 cache: for any token the gather kernel and the torch dequantizer both give, element by
  element, the decoded code of that very element times the scale of its own tile.\<close>

theorem fp4_store_read:
  assumes "quantize_k_cache_v41_fp4 F ps pb k = Inr pages" "cache_shape ps k" "list_all (\<lambda>loc. loc < length k * ps) locs"
  shows "dequantize_k_cache_paged F oob (concat pages) (stride_of 288 256 ps pb) V41_FP4 ps locs
      = Inr (map (\<lambda>loc. map (fp4_value F (k ! (loc div ps) ! (loc mod ps))) [0..<512]) locs)
    \<and> dequantize_k_cache_v41_fp4 F ps pages = map (map (\<lambda>xs. map (fp4_value F xs) [0..<512])) k"
proof
  note Q = quantize_fp4_pages [OF assms(1,2)]
  have "\<not> int (stride_of 288 256 ps pb) < int ps * bytes_per_token V41_FP4" using Q(2) by (simp add: bytes_per_token_def)
  then show "dequantize_k_cache_paged F oob (concat pages) (stride_of 288 256 ps pb) V41_FP4 ps locs
      = Inr (map (\<lambda>loc. map (fp4_value F (k ! (loc div ps) ! (loc mod ps))) [0..<512]) locs)"
    using assms(3) by (simp add: dequantize_k_cache_paged_def fp4_kernel_reads [OF assms(1,2)] list_all_iff)
  have "map2 (\<lambda>ds ss. map2 (\<lambda>c s. to_bf16 F (fmul F (dequantize_e2m1_codes c) (of_e4m3 F s))) (unpack_nibbles ds) (repeat_each 16 ss))
      (data_rows ps 256 (page_of (stride_of 288 256 ps pb) (map (fp4_token F) page)))
      (scale_rows ps 256 32 (page_of (stride_of 288 256 ps pb) (map (fp4_token F) page))) = map (\<lambda>xs. map (fp4_value F xs) [0..<512]) page"
    if "page \<in> set k" for page
  proof -
    have ok: "toks_ok ps 256 32 (map (fp4_token F) page)" using Q(3) that by simp
    have "\<forall>xs \<in> set page. length xs = 512" using assms(2) that by (simp add: cache_shape_def)
    then show ?thesis unfolding page_rows [OF ok, of "stride_of 288 256 ps pb", simplified] map2_fst_snd
      by (simp add: fp4_row_torch)
  qed
  then show "dequantize_k_cache_v41_fp4 F ps pages = map (map (\<lambda>xs. map (fp4_value F xs) [0..<512])) k"
    unfolding dequantize_k_cache_v41_fp4_def Q(1) by simp
qed

section \<open>The layout V41\<close>

definition v41_byte :: "float_ops \<Rightarrow> f32 list \<Rightarrow> nat \<Rightarrow> byte" where
  "v41_byte F xs i = to_e4m3 F (fdiv F (xs ! i) (v41_scale F (tiles 32 xs ! (i div 32))))"

definition v41_scale_byte :: "float_ops \<Rightarrow> f32 list \<Rightarrow> nat \<Rightarrow> byte" where
  "v41_scale_byte F xs j = to_e8m0 F (v41_scale F (tiles 32 xs ! j))"

definition v41_value :: "float_ops \<Rightarrow> f32 list \<Rightarrow> nat \<Rightarrow> 16 word" where
  "v41_value F xs i = to_bf16 F (fmul F (of_e4m3 F (v41_byte F xs i)) (ue8m0_to_fp32 (v41_scale_byte F xs (i div 32))))"

text \<open>What torch documents of its conversions: ue8m0 bytes decode as the kernel decodes them, and the product of an
  e4m3 value and such a scale is rounded to bf16 once either way.\<close>

definition bf16_exact :: "float_ops \<Rightarrow> bool" where
  "bf16_exact F \<longleftrightarrow> (\<forall>s. of_e8m0 F s = ue8m0_to_fp32 s)
     \<and> (\<forall>v s. bf16_mul F (to_bf16 F (of_e4m3 F v)) (to_bf16 F (ue8m0_to_fp32 s)) = to_bf16 F (fmul F (of_e4m3 F v) (ue8m0_to_fp32 s)))"

lemma v41_token_shape:
  assumes "length xs = 512"
  shows "length (fst (v41_token F xs)) = 512" "length (snd (v41_token F xs)) = 16"
  using concat_map_tiles_nth(2) [of "\<lambda>tile. map (\<lambda>x. to_e4m3 F (fdiv F x (v41_scale F tile))) tile" xs 32 16 0] assms
  by (simp_all add: v41_token_def)

lemma v41_token_nth:
  assumes "length xs = 512" "i < 512"
  shows "fst (v41_token F xs) ! i = v41_byte F xs i"
proof -
  let ?f = "\<lambda>tile. map (\<lambda>x. to_e4m3 F (fdiv F x (v41_scale F tile))) tile"
  have d: "i div 32 < length xs div 32" using assms by simp
  have "fst (v41_token F xs) ! i = ?f (tiles 32 xs ! (i div 32)) ! (i mod 32)"
    unfolding v41_token_def fst_conv by (rule concat_map_tiles_nth(1) [where m = 16]) (use assms in auto)
  also have "\<dots> = v41_byte F xs i"
    using tile_length [OF d] tile_elem [OF d, of "i mod 32"] by (simp add: v41_byte_def)
  finally show ?thesis .
qed

lemma v41_token_scale: "length xs = 512 \<Longrightarrow> t < 16 \<Longrightarrow> snd (v41_token F xs) ! t = v41_scale_byte F xs t"
  by (simp add: v41_token_def v41_scale_byte_def)

lemma quantize_v41_pages:
  assumes "quantize_k_cache_v41 F ps pb k = Inr pages" "cache_shape ps k"
  shows "pages = map (page_of (stride_of 528 512 ps pb)) (map (map (v41_token F)) k)" "ps * (512 + 16) \<le> stride_of 528 512 ps pb"
    "\<forall>toks \<in> set (map (map (v41_token F)) k). toks_ok ps 512 16 toks"
  using assms by (auto simp: quantize_k_cache_v41_def cache_shape_def toks_ok_def Let_def v41_token_shape comp_def split: if_splits)

lemma v41_kernel_reads:
  assumes "quantize_k_cache_v41 F ps pb k = Inr pages" "cache_shape ps k" "loc < length k * ps"
  shows "v41_fp8_kernel F (ldb oob (concat pages)) (stride_of 528 512 ps pb) ps loc = map (v41_value F (k ! (loc div ps) ! (loc mod ps))) [0..<512]"
proof -
  let ?n = "stride_of 528 512 ps pb" and ?ld = "ldb oob (concat pages)"
  let ?xs = "k ! (loc div ps) ! (loc mod ps)"
  note Q = quantize_v41_pages [OF assms(1,2)]
  have l: "loc < length (map (map (v41_token F)) k) * ps" using assms(3) by simp
  have p: "loc div ps < length k" "loc mod ps < ps" using cache_data(2,3) [OF Q(3,2) l, of 0] by simp_all
  have xs: "length ?xs = 512" "length (k ! (loc div ps)) = ps" using assms(2) p unfolding cache_shape_def by (metis nth_mem)+
  have t: "map (map (v41_token F)) k ! (loc div ps) ! (loc mod ps) = v41_token F ?xs" using p xs by simp
  have data: "?ld (loc div ps * ?n + loc mod ps * 512 + i) = v41_byte F ?xs i" if "i < 512" for i
    unfolding Q(1) using cache_data(1) [OF Q(3,2) l that] t v41_token_nth [OF xs(1) that] by simp
  have scale: "?ld (loc div ps * ?n + ps * 512 + loc mod ps * 16 + j) = v41_scale_byte F ?xs j" if "j < 16" for j
    unfolding Q(1) using cache_scale [OF Q(3,2) l that] t v41_token_scale [OF xs(1) that] by simp
  show ?thesis unfolding v41_fp8_kernel_def Let_def
    by (rule map_cong) (auto simp: v41_value_def data scale)
qed

lemma v41_row_torch:
  assumes "length xs = 512" "bf16_exact F"
  shows "map2 (\<lambda>v s. bf16_mul F (to_bf16 F (of_e4m3 F v)) (to_bf16 F (of_e8m0 F s))) (fst (v41_token F xs))
      (repeat_each 32 (snd (v41_token F xs))) = map (v41_value F xs) [0..<512]"
  by (rule nth_equalityI)
    (use assms in \<open>auto simp: v41_token_shape v41_token_nth repeat_each_nth v41_token_scale v41_value_def bf16_exact_def\<close>)

text \<open>The same for the V41 cache, where torch multiplies in bf16 and the kernel in single precision.\<close>

theorem v41_store_read:
  assumes "quantize_k_cache_v41 F ps pb k = Inr pages" "cache_shape ps k" "list_all (\<lambda>loc. loc < length k * ps) locs" "bf16_exact F"
  shows "dequantize_k_cache_paged F oob (concat pages) (stride_of 528 512 ps pb) V41 ps locs
      = Inr (map (\<lambda>loc. dequantize_k_cache_v41 F ps pages ! (loc div ps) ! (loc mod ps)) locs)
    \<and> dequantize_k_cache_v41 F ps pages = map (map (\<lambda>xs. map (v41_value F xs) [0..<512])) k"
proof -
  note Q = quantize_v41_pages [OF assms(1,2)]
  have "map2 (\<lambda>vs ss. map2 (\<lambda>v s. bf16_mul F (to_bf16 F (of_e4m3 F v)) (to_bf16 F (of_e8m0 F s))) vs (repeat_each 32 ss))
      (data_rows ps 512 (page_of (stride_of 528 512 ps pb) (map (v41_token F) page)))
      (scale_rows ps 512 16 (page_of (stride_of 528 512 ps pb) (map (v41_token F) page))) = map (\<lambda>xs. map (v41_value F xs) [0..<512]) page"
    if "page \<in> set k" for page
  proof -
    have ok: "toks_ok ps 512 16 (map (v41_token F) page)" using Q(3) that by simp
    have "\<forall>xs \<in> set page. length xs = 512" using assms(2) that by (simp add: cache_shape_def)
    then show ?thesis unfolding page_rows [OF ok, of "stride_of 528 512 ps pb", simplified] map2_fst_snd
      by (simp add: v41_row_torch [OF _ assms(4)])
  qed
  then have d: "dequantize_k_cache_v41 F ps pages = map (map (\<lambda>xs. map (v41_value F xs) [0..<512])) k"
    unfolding dequantize_k_cache_v41_def Q(1) by simp
  have "v41_fp8_kernel F (ldb oob (concat pages)) (stride_of 528 512 ps pb) ps loc = dequantize_k_cache_v41 F ps pages ! (loc div ps) ! (loc mod ps)"
    if loc: "loc < length k * ps" for loc
  proof -
    have "0 < ps" using loc by (cases ps) auto
    then have "loc div ps < length k" "loc mod ps < ps" using loc by (simp_all add: less_mult_imp_div_less)
    moreover from this(1) have "length (k ! (loc div ps)) = ps" using assms(2) unfolding cache_shape_def by (metis nth_mem)
    ultimately show ?thesis unfolding v41_kernel_reads [OF assms(1,2) loc] d by simp
  qed
  moreover have "\<not> int (stride_of 528 512 ps pb) < int ps * bytes_per_token V41" using Q(2) by (simp add: bytes_per_token_def)
  ultimately show ?thesis using assms(3) d by (simp add: dequantize_k_cache_paged_def list_all_iff)
qed

section \<open>Examples\<close>

definition ex_ops :: float_ops where
  "ex_ops = \<lparr>fmul = (\<lambda>x y. x), fdiv = (\<lambda>x y. x), of_e4m3 = (\<lambda>b. push_bit 24 (ucast b)), to_e4m3 = (\<lambda>x. ucast (drop_bit 24 x)),
     of_e8m0 = ue8m0_to_fp32, to_e8m0 = (\<lambda>x. ucast (drop_bit 23 x)), to_bf16 = (\<lambda>x. ucast (drop_bit 16 x)),
     of_bf16 = (\<lambda>h. push_bit 16 (ucast h)), bf16_mul = (\<lambda>x y. x), exp2_dev = (\<lambda>n. if n < -126 then 0 else exp2_exact n)\<rparr>"

lemma ex_ops_laws: "device_exp2 ex_ops" "bf16_exact ex_ops"
  by (simp_all add: device_exp2_def bf16_exact_def ex_ops_def)

lemma ex_ops_between: "bf16_between ex_ops"
proof -
  have "(ucast (drop_bit 24 (push_bit 16 (ucast (ucast (drop_bit 16 x :: f32) :: 16 word)) :: f32)) :: byte) = ucast (drop_bit 24 x)" for x
    by (rule bit_word_eqI) (auto simp: bit_simps)
  then show ?thesis by (simp add: bf16_between_def ex_ops_def)
qed

definition ex_page :: "byte list" where
  "ex_page = replicate 584 1"

lemma ex_ref: "\<exists>rows. dequantize_k_cache_paged_ref F ex_page 584 1 [0] = Inr rows"
  by (simp add: dequantize_k_cache_paged_ref_def ref_row_def ex_page_def gather_flat_def v4_data_base_def v4_scale_base_def list_all_iff Let_def)

theorem paged_dequant_is_ref_witness:
  "\<exists>rows. dequantize_k_cache_paged_ref ex_ops ex_page 584 1 [0] = Inr rows
    \<and> dequantize_k_cache_paged ex_ops (\<lambda>_. 0) ex_page 584 V4 1 [0] = Inr rows"
  using ex_ref [of ex_ops] paged_dequant_is_ref [OF ex_ops_laws(1)] by metis

theorem gather_requant_is_ref_witness:
  "\<exists>rows. gather_dequant_requant_fp8_paged_ref ex_ops ex_page 584 1 2 [0] = Inr rows
    \<and> gather_dequant_requant_fp8_paged ex_ops (\<lambda>_. 0) ex_page 584 1 2 [0] = rows"
proof -
  obtain rs where "dequantize_k_cache_paged_ref ex_ops ex_page 584 1 [0] = Inr rs" using ex_ref by blast
  then have "\<exists>rows. gather_dequant_requant_fp8_paged_ref ex_ops ex_page 584 1 2 [0] = Inr rows"
    by (simp add: gather_dequant_requant_fp8_paged_ref_def)
  then show ?thesis using gather_requant_is_ref [OF ex_ops_laws(1) ex_ops_between] by metis
qed

definition ex_cache :: "f32 list list list" where
  "ex_cache = [[replicate 512 0x3F800000, replicate 512 0xC0000000]]"

lemma ex_cache_shape: "cache_shape 2 ex_cache"
  by (simp add: cache_shape_def ex_cache_def)

theorem fp4_store_read_witness:
  "\<exists>pages. quantize_k_cache_v41_fp4 ex_ops 2 None ex_cache = Inr pages
    \<and> dequantize_k_cache_v41_fp4 ex_ops 2 pages = map (map (\<lambda>xs. map (fp4_value ex_ops xs) [0..<512])) ex_cache"
proof -
  have "\<exists>pages. quantize_k_cache_v41_fp4 ex_ops 2 None ex_cache = Inr pages"
    by (simp add: quantize_k_cache_v41_fp4_def stride_of_def cdiv_def)
  then obtain pages where p: "quantize_k_cache_v41_fp4 ex_ops 2 None ex_cache = Inr pages" by blast
  have "list_all (\<lambda>loc. loc < length ex_cache * 2) [1, 0]" by (simp add: ex_cache_def)
  from fp4_store_read [OF p ex_cache_shape this] p show ?thesis by blast
qed

theorem v41_store_read_witness:
  "\<exists>pages. quantize_k_cache_v41 ex_ops 2 (Some 2000) ex_cache = Inr pages
    \<and> dequantize_k_cache_v41 ex_ops 2 pages = map (map (\<lambda>xs. map (v41_value ex_ops xs) [0..<512])) ex_cache"
proof -
  have "\<exists>pages. quantize_k_cache_v41 ex_ops 2 (Some 2000) ex_cache = Inr pages"
    by (simp add: quantize_k_cache_v41_def stride_of_def)
  then obtain pages where p: "quantize_k_cache_v41 ex_ops 2 (Some 2000) ex_cache = Inr pages" by blast
  have "list_all (\<lambda>loc. loc < length ex_cache * 2) [1, 0]" by (simp add: ex_cache_def)
  from v41_store_read [OF p ex_cache_shape this ex_ops_laws(2)] p show ?thesis by blast
qed

end
