(* ===== verification/RepackFacts.thy ===== *)
theory RepackFacts
  imports RepackBridge KvFormatFacts
begin

text \<open>
  The bridge writes what its reference writes, in rows a reader of the layout V4 reads back; its indices are the
  identity whatever happened to the buffers; the slices of a batch fit the scratch.
\<close>

section \<open>Rows of the scratch\<close>

lemma write_rows:
  assumes "\<And>pid. length (f pid) = 576" "\<And>pid. length (g pid) = 8" "distinct pids"
  shows "token_at 64 V4 (fold (\<lambda>pid. write_v4 (f pid) (g pid) pid) pids b) l = (if l \<in> set pids then (f l, g l) else token_at 64 V4 b l)"
  using assms(3)
proof (induction pids arbitrary: b)
  case (Cons p ps)
  have w: "token_at 64 V4 (write_v4 (f p) (g p) p b) l = (if l = p then (f p, g p) else token_at 64 V4 b l)" for l
    using assms(1,2) gather_data_put_scale [of 64 576 8 p "g p" "put_row 64 0 576 p (f p) b" l] gather_scale_put_data [of 64 576 8 p "f p" b l]
    by (auto simp: token_at_def write_v4_def gather_put_same gather_put_other)
  have "token_at 64 V4 (fold (\<lambda>pid. write_v4 (f pid) (g pid) pid) (p # ps) b) l
      = (if l \<in> set ps then (f l, g l) else token_at 64 V4 (write_v4 (f p) (g p) p b) l)"
    using Cons by simp
  then show ?case using w Cons.prems by auto
qed simp

lemma kernel_row_lengths: "length (kernel_data F ld spb bits idx) = 576" "length (kernel_footer F ld spb bits idx) = 8"
  by (simp_all add: kernel_data_def kernel_footer_def Let_def length_concat comp_def sum_list_triv bytes16_def)

lemma repack_kernel_rows:
  assumes "j < length idx"
  shows "token_at 64 V4 (repack_kernel F ld spb bits idx b) j = (kernel_data F ld spb bits (idx ! j), kernel_footer F ld spb bits (idx ! j))"
  unfolding repack_kernel_def
  using assms write_rows [of "\<lambda>pid. kernel_data F ld spb bits (idx ! pid)" "\<lambda>pid. kernel_footer F ld spb bits (idx ! pid)" "[0..<length idx]" b j]
  by (simp add: kernel_row_lengths)

section \<open>Maxima\<close>

lemma abs_nan [simp]: "f32_nan (f32_abs x) = f32_nan x"
proof -
  have m: "(0x7FFFFFFF :: f32) = mask 31" by (simp add: mask_eq_exp_minus_1)
  have u: "unat (f32_abs x) = unat x mod 2 ^ 31"
    unfolding f32_abs_def m take_bit_eq_mask [symmetric] unsigned_take_bit_eq by (simp only: take_bit_eq_mod)
  have "unat x mod 2 ^ 31 div 2 ^ 23 mod 2 ^ 8 = unat x div 2 ^ 23 mod 2 ^ 8"
    using drop_bit_take_bit [of 23 31 "unat x"] by (simp add: take_bit_eq_mod drop_bit_eq_div)
  moreover have "unat x mod 2 ^ 31 mod 2 ^ 23 = unat x mod 2 ^ 23" by (rule mod_mod_cancel) simp
  ultimately show ?thesis by (simp add: f32_nan_def f32_fields u)
qed

lemma max_number: "\<not> f32_nan a \<Longrightarrow> \<not> f32_nan b \<Longrightarrow> \<not> f32_nan (max a b) \<and> dev_max a b = max a b"
  by (simp add: dev_max_def max_def)

lemma fold_dev_max:
  assumes "\<forall>b \<in> set bs. \<not> f32_nan (x b) \<and> \<not> f32_nan (y b)" "\<not> f32_nan m"
  shows "fold (\<lambda>b m. dev_max m (dev_max (f32_abs (x b)) (f32_abs (y b)))) bs m
      = fold (\<lambda>v m. max m (f32_abs v)) (concat (map (\<lambda>b. [x b, y b]) bs)) m
    \<and> \<not> f32_nan (fold (\<lambda>v m. max m (f32_abs v)) (concat (map (\<lambda>b. [x b, y b]) bs)) m)"
  using assms
proof (induction bs arbitrary: m)
  case (Cons b bs)
  have n: "\<not> f32_nan (f32_abs (x b))" "\<not> f32_nan (f32_abs (y b))" using Cons.prems(1) by simp_all
  have "dev_max m (dev_max (f32_abs (x b)) (f32_abs (y b))) = max (max m (f32_abs (x b))) (f32_abs (y b))"
    using max_number n Cons.prems(2) by (simp add: max.assoc)
  moreover have "\<not> f32_nan (max (max m (f32_abs (x b))) (f32_abs (y b)))" using max_number n Cons.prems(2) by simp
  ultimately show ?case using Cons.IH [of "max (max m (f32_abs (x b))) (f32_abs (y b))"] Cons.prems(1) by simp
qed simp

lemma pairs_of:
  assumes "length xs = 2 * m"
  shows "xs = concat (map (\<lambda>j. [xs ! (2 * j), xs ! (2 * j + 1)]) [0..<m])"
proof (rule nth_equalityI)
  show "length xs = length (concat (map (\<lambda>j. [xs ! (2 * j), xs ! (2 * j + 1)]) [0..<m]))"
    using assms by (simp only: concat_pairs_length)
  fix i assume "i < length xs"
  then have i: "i < 2 * m" using assms by simp
  show "xs ! i = concat (map (\<lambda>j. [xs ! (2 * j), xs ! (2 * j + 1)]) [0..<m]) ! i"
    unfolding concat_pairs [OF i] by auto
qed

section \<open>A row and its reference\<close>

text \<open>What the bytes of a slot hold, as the reference has gathered them.\<close>

definition slot_bytes :: "(nat \<Rightarrow> byte) \<Rightarrow> nat \<Rightarrow> nat \<Rightarrow> int \<Rightarrow> byte list \<Rightarrow> byte list \<Rightarrow> bool" where
  "slot_bytes ld spb bits idx packed scales \<longleftrightarrow> length packed = 256 \<and> length scales = 32
     \<and> (\<forall>b < 256. ld (src_data spb bits idx + b) = packed ! b) \<and> (\<forall>j < 32. ld (src_scale spb bits idx + j) = scales ! j)"

lemma nibble_small: "(p :: byte) AND 0xF < 16" "drop_bit 4 (p :: byte) < 16"
proof -
  have "p AND 0xF \<le> 0xF" by (rule word_and_le1)
  then show "p AND 0xF < 16" by (simp add: word_le_nat_alt word_less_nat_alt)
  have "unat p < 256" using unsigned_less [of p] by simp
  moreover have "unat (drop_bit 4 p) = unat p div 2 ^ 4" unfolding unat_drop_bit_eq by (rule drop_bit_eq_div)
  ultimately show "drop_bit 4 p < 16" by (simp add: word_less_nat_alt less_mult_imp_div_less)
qed

lemma ref_vals_length: "length packed = 256 \<Longrightarrow> length scales = 32 \<Longrightarrow> length (ref_vals F idx packed scales) = 512"
  by (simp add: ref_vals_def)

lemma kernel_vals:
  assumes "slot_bytes ld spb bits idx packed scales" "exact_on_codes (fmul F)" "b < 256"
  shows "kernel_lo F ld spb bits idx b = ref_vals F idx packed scales ! (2 * b)"
    "kernel_hi F ld spb bits idx b = ref_vals F idx packed scales ! (2 * b + 1)"
proof -
  have h: "n div 16 = n div 2 div 8" for n :: nat using div_mult2_eq [of n 2 8] by simp
  have j: "b div 8 < 32" "2 * b div 16 = b div 8" "(2 * b + 1) div 16 = b div 8" using assms(3) h [of "2 * b"] h [of "2 * b + 1"] by simp_all
  have dec: "e2m1_lut_decode (fmul F) c = e2m1_code_to_fp32 c" if "c < 16" for c
    using that e2m1_lut_decodes assms(2) e2m1_kernel_decodes by simp
  have p: "ld (src_data spb bits idx + b) = packed ! b" "ld (src_scale spb bits idx + b div 8) = scales ! (b div 8)"
    "length packed = 256" "length scales = 32" using assms(1,3) j by (simp_all add: slot_bytes_def)
  note u = unpack_nth [of b packed]
  have i: "2 * b < 512" "2 * b + 1 < 512" using assms(3) by simp_all
  have v: "ref_vals F idx packed scales ! i = fmul F (fmul F (e2m1_lut_decode (fmul F) (unpack_nibbles packed ! i)) (of_e4m3 F (scales ! (i div 16)))) (gate idx)"
    if "i < 512" for i using that p(3,4) by (simp add: ref_vals_def repeat_each_nth)
  show "kernel_lo F ld spb bits idx b = ref_vals F idx packed scales ! (2 * b)"
    "kernel_hi F ld spb bits idx b = ref_vals F idx packed scales ! (2 * b + 1)"
    unfolding kernel_lo_def kernel_hi_def p(1,2) v [OF i(1)] v [OF i(2)] j(2,3)
    using u assms(3) p(3) by (simp_all add: dec nibble_small)
qed

lemma rope_tile:
  assumes "length xs = 512" "t < 7"
  shows "tiles 64 (take 448 xs) ! t = concat (map (\<lambda>b. [xs ! (2 * b), xs ! (2 * b + 1)]) [32 * t..<32 * t + 32])"
proof -
  have e: "tiles 64 (take 448 xs) ! t = take 64 (drop (64 * t) xs)"
  proof -
    have "drop (64 * t) (take 448 xs) = take (448 - 64 * t) (drop (64 * t) xs)" by (rule drop_take)
    then show ?thesis using assms by (simp add: tiles_nth mult.commute min_def)
  qed
  have r: "[32 * t..<32 * t + 32] = map (\<lambda>b. 32 * t + b) [0..<32]" by (simp add: map_add_upt add.commute)
  have "concat (map (\<lambda>b. [xs ! (2 * b), xs ! (2 * b + 1)]) [32 * t..<32 * t + 32])
      = concat (map (\<lambda>b. [take 64 (drop (64 * t) xs) ! (2 * b), take 64 (drop (64 * t) xs) ! (2 * b + 1)]) [0..<32])"
    unfolding r map_map comp_def using assms by (intro arg_cong [where f = concat] map_cong) (auto simp: algebra_simps)
  then show ?thesis unfolding e using pairs_of [of "take 64 (drop (64 * t) xs)" 32] assms by simp
qed

lemma kernel_scale:
  assumes "slot_bytes ld spb bits idx packed scales" "exact_on_codes (fmul F)" "t < 7"
    "\<forall>v \<in> set (ref_vals F idx packed scales). \<not> f32_nan v"
  shows "kernel_ue8m0 F ld spb bits idx t = ref_scale F (tiles 64 (take 448 (ref_vals F idx packed scales)) ! t)"
proof -
  let ?v = "ref_vals F idx packed scales"
  let ?bs = "[32 * t..<32 * t + 32]"
  have l: "length ?v = 512" using assms(1) by (simp add: slot_bytes_def ref_vals_length)
  have b: "b < 256" if "b \<in> set ?bs" for b using that assms(3) by simp
  have "fold (\<lambda>b m. dev_max m (dev_max (f32_abs (kernel_lo F ld spb bits idx b)) (f32_abs (kernel_hi F ld spb bits idx b)))) ?bs 0
      = fold (\<lambda>b m. dev_max m (dev_max (f32_abs (?v ! (2 * b))) (f32_abs (?v ! (2 * b + 1))))) ?bs 0"
    by (rule fold_cong) (simp_all add: kernel_vals [OF assms(1,2) b])
  moreover have n: "\<forall>b \<in> set ?bs. \<not> f32_nan (?v ! (2 * b)) \<and> \<not> f32_nan (?v ! (2 * b + 1))" 
  proof
    fix c assume "c \<in> set ?bs"
    then have "2 * c < length ?v" "2 * c + 1 < length ?v" using b [of c] l by simp_all
    then have "?v ! (2 * c) \<in> set ?v" "?v ! (2 * c + 1) \<in> set ?v" by (simp_all only: nth_mem)
    then show "\<not> f32_nan (?v ! (2 * c)) \<and> \<not> f32_nan (?v ! (2 * c + 1))" using assms(4) by blast
  qed
  moreover have "\<not> f32_nan 0" by (simp add: f32_nan_def f32_exp_def)
  ultimately have m: "fold (\<lambda>b m. dev_max m (dev_max (f32_abs (kernel_lo F ld spb bits idx b)) (f32_abs (kernel_hi F ld spb bits idx b)))) ?bs 0
      = amax_bits (tiles 64 (take 448 ?v) ! t)" "\<not> f32_nan (amax_bits (tiles 64 (take 448 ?v) ! t))"
    using fold_dev_max [OF n] unfolding rope_tile [OF l assms(3)] amax_bits_def by simp_all
  have "\<not> f32_nan 0x38D1B717" by (simp add: f32_nan_def f32_exp_def)
  then show ?thesis unfolding kernel_ue8m0_def ref_scale_def Let_def m(1) using max_number m(2) by simp
qed

lemma ref_nope_nth:
  assumes "length xs = 512" "i < 448"
  shows "concat (map (\<lambda>tile. map (\<lambda>v. to_e4m3 F (fmul F v (inv_scale (ref_scale F tile)))) tile) (tiles 64 (take 448 xs))) ! i
    = to_e4m3 F (fmul F (xs ! i) (inv_scale (ref_scale F (tiles 64 (take 448 xs) ! (i div 64)))))"
proof -
  have d: "i div 64 < length (take 448 xs) div 64" using assms by simp
  have "concat (map (\<lambda>tile. map (\<lambda>v. to_e4m3 F (fmul F v (inv_scale (ref_scale F tile)))) tile) (tiles 64 (take 448 xs))) ! i
      = map (\<lambda>v. to_e4m3 F (fmul F v (inv_scale (ref_scale F (tiles 64 (take 448 xs) ! (i div 64)))))) (tiles 64 (take 448 xs) ! (i div 64)) ! (i mod 64)"
    by (rule concat_map_tiles_nth(1) [where m = 7]) (use assms in auto)
  then show ?thesis using tile_length [OF d] tile_elem [OF d, of "i mod 64"] assms by simp
qed

lemma ref_nope_length:
  assumes "length xs = 512"
  shows "length (concat (map (\<lambda>tile. map (\<lambda>v. to_e4m3 F (fmul F v (inv_scale (ref_scale F tile)))) tile) (tiles 64 (take 448 xs)))) = 448"
  using concat_map_tiles_nth(2) [of "\<lambda>tile. map (\<lambda>v. to_e4m3 F (fmul F v (inv_scale (ref_scale F tile)))) tile" "take 448 xs" 64 7 0] assms
  by simp

lemma concat_map_concat: "concat (map f (concat xss)) = concat (map (\<lambda>xs. concat (map f xs)) xss)"
  by (induction xss) simp_all

lemma kernel_data_ref:
  assumes "slot_bytes ld spb bits idx packed scales" "exact_on_codes (fmul F)"
    "\<forall>v \<in> set (ref_vals F idx packed scales). \<not> f32_nan v"
  shows "kernel_data F ld spb bits idx = ref_data F (ref_vals F idx packed scales)"
proof -
  let ?v = "ref_vals F idx packed scales"
  have l: "length ?v = 512" using assms(1) by (simp add: slot_bytes_def ref_vals_length)
  have "concat (map (\<lambda>b. let inv = inv_scale (kernel_ue8m0 F ld spb bits idx (b div 32))
       in [to_e4m3 F (fmul F (kernel_lo F ld spb bits idx b) inv), to_e4m3 F (fmul F (kernel_hi F ld spb bits idx b) inv)]) [0..<224])
    = concat (map (\<lambda>tile. map (\<lambda>v. to_e4m3 F (fmul F v (inv_scale (ref_scale F tile)))) tile) (tiles 64 (take 448 ?v)))" (is "?K = ?R")
  proof (rule nth_equalityI)
    have k: "?K = concat (map (\<lambda>b. [to_e4m3 F (fmul F (kernel_lo F ld spb bits idx b) (inv_scale (kernel_ue8m0 F ld spb bits idx (b div 32)))),
        to_e4m3 F (fmul F (kernel_hi F ld spb bits idx b) (inv_scale (kernel_ue8m0 F ld spb bits idx (b div 32))))]) [0..<224])"
      by (simp add: Let_def)
    have kl: "length ?K = 448" unfolding k concat_pairs_length by simp
    then show "length ?K = length ?R" using ref_nope_length [OF l] by simp
    fix i assume "i < length ?K"
    then have i: "i < 2 * 224" "i < 448" using kl by simp_all
    have d: "i div 2 div 32 = i div 64" using div_mult2_eq [of i 2 32] by simp
    have t: "i div 64 < 7" "i div 2 < 256" using i(2) by simp_all
    have "?K ! i = to_e4m3 F (fmul F (?v ! i) (inv_scale (ref_scale F (tiles 64 (take 448 ?v) ! (i div 64)))))"
      unfolding k concat_pairs [OF i(1)] d kernel_scale [OF assms(1,2) t(1) assms(3)] kernel_vals [OF assms(1,2) t(2)] by auto
    then show "?K ! i = ?R ! i" unfolding ref_nope_nth [OF l i(2)] .
  qed
  moreover have "concat (map (\<lambda>j. bytes16 (to_bf16 F (kernel_lo F ld spb bits idx (224 + j))) @ bytes16 (to_bf16 F (kernel_hi F ld spb bits idx (224 + j)))) [0..<32])
    = concat (map (\<lambda>v. bytes16 (to_bf16 F v)) (drop 448 ?v))"
  proof -
    have "drop 448 ?v = concat (map (\<lambda>j. [?v ! (448 + 2 * j), ?v ! (448 + 2 * j + 1)]) [0..<32])"
      using pairs_of [of "drop 448 ?v" 32] l by (simp add: add.assoc cong: map_cong)
    moreover have "map (\<lambda>j. bytes16 (to_bf16 F (kernel_lo F ld spb bits idx (224 + j))) @ bytes16 (to_bf16 F (kernel_hi F ld spb bits idx (224 + j)))) [0..<32]
      = map (\<lambda>j. concat (map (\<lambda>v. bytes16 (to_bf16 F v)) [?v ! (448 + 2 * j), ?v ! (448 + 2 * j + 1)])) [0..<32]"
      by (rule map_cong) (simp_all add: kernel_vals [OF assms(1,2)] algebra_simps)
    ultimately show ?thesis by (simp only: concat_map_concat map_map comp_def)
  qed
  ultimately show ?thesis unfolding kernel_data_def ref_data_def by simp
qed

lemma kernel_footer_ref:
  assumes "slot_bytes ld spb bits idx packed scales" "exact_on_codes (fmul F)"
    "\<forall>v \<in> set (ref_vals F idx packed scales). \<not> f32_nan v"
  shows "kernel_footer F ld spb bits idx = ref_footer F (ref_vals F idx packed scales)"
proof -
  let ?v = "ref_vals F idx packed scales"
  have l: "length ?v = 512" using assms(1) by (simp add: slot_bytes_def ref_vals_length)
  show ?thesis unfolding kernel_footer_def ref_footer_def
    by (rule nth_equalityI) (use l kernel_scale [OF assms(1,2) _ assms(3)] in \<open>auto simp: nth_append less_Suc_eq\<close>)
qed

section \<open>The bridge and its reference\<close>

text \<open>Products of a code, a scale that is a number and a gate are numbers.\<close>

definition products_are_numbers :: "float_ops \<Rightarrow> bool" where
  "products_are_numbers F \<longleftrightarrow> (\<forall>c s idx. c < 16 \<longrightarrow> \<not> e4m3_nan s \<longrightarrow>
     \<not> f32_nan (fmul F (fmul F (dequantize_e2m1_codes c) (of_e4m3 F s)) (gate idx)))"

text \<open>The scales a slot is read with are numbers (the writer clamps them).\<close>

definition scales_are_numbers :: "(nat \<Rightarrow> byte) \<Rightarrow> nat \<Rightarrow> nat \<Rightarrow> int list \<Rightarrow> bool" where
  "scales_are_numbers ld spb bits indices \<longleftrightarrow> (\<forall>idx \<in> set indices. \<forall>j < 32. \<not> e4m3_nan (ld (src_scale spb bits idx + j)))"

lemma unpack_small: "c \<in> set (unpack_nibbles ps) \<Longrightarrow> c < 16"
  by (induction ps) (auto simp: nibble_small)

lemma ref_vals_numbers:
  assumes "slot_bytes ld spb bits idx packed scales" "exact_on_codes (fmul F)" "products_are_numbers F"
    "\<forall>j < 32. \<not> e4m3_nan (ld (src_scale spb bits idx + j))"
  shows "\<forall>v \<in> set (ref_vals F idx packed scales). \<not> f32_nan v"
proof
  fix v assume "v \<in> set (ref_vals F idx packed scales)"
  then obtain c s where v: "v = fmul F (fmul F (e2m1_lut_decode (fmul F) c) (of_e4m3 F s)) (gate idx)"
    "(c, s) \<in> set (zip (unpack_nibbles packed) (repeat_each 16 scales))" by (auto simp: ref_vals_def)
  then have c: "c < 16" using unpack_small set_zip_leftD by metis
  have "s \<in> set (repeat_each 16 scales)" using v(2) set_zip_rightD by metis
  then have "s \<in> set scales" by (auto simp: repeat_each_def)
  then have "\<not> e4m3_nan s" using assms(1,4) by (auto simp: slot_bytes_def in_set_conv_nth)
  then show "\<not> f32_nan v" using assms(3) c e2m1_lut_decodes [OF c assms(2)] unfolding v products_are_numbers_def by simp
qed

lemma bit_length_step: "0 < n \<Longrightarrow> page_bit_length n = Suc (page_bit_length (n div 2))" "page_bit_length 0 = 0"
  by (subst page_bit_length.simps, simp)+

lemma page_bits:
  assumes "ps \<in> {128, 256}"
  shows "2 ^ (page_bit_length ps - 1) = ps"
proof -
  have "page_bit_length 128 = 8" by (simp add: bit_length_step)
  moreover have "page_bit_length 256 = 9" by (simp add: bit_length_step)
  ultimately show ?thesis using assms by auto
qed

lemma src_addresses:
  assumes "ps \<in> {128, 256}"
  shows "src_data spb (page_bit_length ps - 1) idx = nat (max idx 0) div ps * spb + nat (max idx 0) mod ps * 256"
    "src_scale spb (page_bit_length ps - 1) idx = nat (max idx 0) div ps * spb + ps * 256 + nat (max idx 0) mod ps * 32"
  unfolding src_data_def src_scale_def Let_def drop_bit_eq_div take_bit_eq_mod page_bits [OF assms] by simp_all

lemma repack_ref_row_kernel:
  assumes "repack_ref_row F flat spb ps idx = Inr row" "ps \<in> {128, 256}" "exact_on_codes (fmul F)" "products_are_numbers F"
    "\<forall>j < 32. \<not> e4m3_nan (ldb oob flat (src_scale spb (page_bit_length ps - 1) idx + j))"
  shows "row = (kernel_data F (ldb oob flat) spb (page_bit_length ps - 1) idx, kernel_footer F (ldb oob flat) spb (page_bit_length ps - 1) idx)"
proof -
  let ?b = "nat (max idx 0) div ps * spb" and ?bits = "page_bit_length ps - 1"
  obtain packed scales where g: "gather_flat flat (map (\<lambda>i. ?b + nat (max idx 0) mod ps * 256 + i) [0..<256]) = Inr packed"
    "gather_flat flat (map (\<lambda>i. ?b + ps * 256 + nat (max idx 0) mod ps * 32 + i) [0..<32]) = Inr scales"
    "row = (ref_data F (ref_vals F idx packed scales), ref_footer F (ref_vals F idx packed scales))"
    using assms(1) unfolding repack_ref_row_def Let_def by (auto split: sum.splits)
  have sb: "slot_bytes (ldb oob flat) spb ?bits idx packed scales"
    using gather_flat_Inr [OF g(1)] gather_flat_Inr [OF g(2)] unfolding slot_bytes_def src_addresses [OF assms(2)]
    by (simp add: ldb_def)
  note n = ref_vals_numbers [OF sb assms(3,4,5)]
  show ?thesis unfolding g(3) kernel_data_ref [OF sb assms(3) n] kernel_footer_ref [OF sb assms(3) n] by (rule refl)
qed

text \<open>The buffers between calls: the identity up to what has been filled.\<close>

definition bridge_ok :: "bridge_buffers \<Rightarrow> bool" where
  "bridge_ok B \<longleftrightarrow>
     (case bb_ids B of None \<Rightarrow> bb_filled B = 0 | Some xs \<Rightarrow> bb_filled B \<le> length xs \<and> take (bb_filled B) xs = map int [0..<bb_filled B])
     \<and> (case bb_scratch B of None \<Rightarrow> True | Some b \<Rightarrow> page_stride b = dst_page_bytes)"

lemma ids_identity:
  assumes "bridge_ok B" "0 < n"
  shows "bridge_ok (fill_ids n (ids_buffer junk n B))"
    "\<exists>xs. bb_ids (fill_ids n (ids_buffer junk n B)) = Some xs \<and> take n xs = map int [0..<n]"
proof -
  have "\<exists>xs. bb_ids (ids_buffer junk n B) = Some xs \<and> n \<le> length xs \<and> bb_filled (ids_buffer junk n B) = bb_filled B
    \<and> (bb_filled B < n \<or> (bb_ids B = Some xs \<and> bb_filled B \<le> length xs \<and> take (bb_filled B) xs = map int [0..<bb_filled B]))
    \<and> bb_scratch (ids_buffer junk n B) = bb_scratch B"
  proof (cases "bb_ids B")
    case None
    then show ?thesis using assms by (simp add: ids_buffer_def bridge_ok_def)
  next
    case (Some a)
    then show ?thesis using assms by (cases "n \<le> length a") (auto simp: ids_buffer_def bridge_ok_def)
  qed
  then obtain xs where xs: "bb_ids (ids_buffer junk n B) = Some xs" "n \<le> length xs" "bb_filled (ids_buffer junk n B) = bb_filled B"
    "bb_filled B < n \<or> (bb_ids B = Some xs \<and> bb_filled B \<le> length xs \<and> take (bb_filled B) xs = map int [0..<bb_filled B])"
    "bb_scratch (ids_buffer junk n B) = bb_scratch B" by blast
  have "bridge_ok (fill_ids n (ids_buffer junk n B)) \<and> (\<exists>ys. bb_ids (fill_ids n (ids_buffer junk n B)) = Some ys \<and> take n ys = map int [0..<n])"
  proof (cases "bb_filled B < n")
    case True
    then show ?thesis using xs assms by (auto simp: fill_ids_def bridge_ok_def)
  next
    case False
    then have "take n xs = map int [0..<n]" using xs(4)
      by (metis not_less take_map take_take min.absorb1 take_upt add_0)
    then show ?thesis using False xs assms by (auto simp: fill_ids_def bridge_ok_def)
  qed
  then show "bridge_ok (fill_ids n (ids_buffer junk n B))"
    "\<exists>ys. bb_ids (fill_ids n (ids_buffer junk n B)) = Some ys \<and> take n ys = map int [0..<n]" by auto
qed

lemma scratch_ok:
  assumes "bridge_ok B" "scratch_buffer junk pages B = (b, B')"
  shows "num_pages b = pages" "page_stride b = dst_page_bytes" "bridge_ok B'"
  using assms by (auto simp: scratch_buffer_def bridge_ok_def Let_def split: option.splits if_splits)

lemma repack_kernel_shape [simp]:
  "num_pages (repack_kernel F ld spb bits idx b) = num_pages b" "page_stride (repack_kernel F ld spb bits idx b) = page_stride b"
proof -
  have "num_pages (fold (\<lambda>pid. write_v4 (f pid) (g pid) pid) pids b) = num_pages b
      \<and> page_stride (fold (\<lambda>pid. write_v4 (f pid) (g pid) pid) pids b) = page_stride b" for f g pids
    by (induction pids arbitrary: b) (simp_all add: write_v4_def)
  then show "num_pages (repack_kernel F ld spb bits idx b) = num_pages b" "page_stride (repack_kernel F ld spb bits idx b) = page_stride b"
    by (simp_all add: repack_kernel_def)
qed

lemma map_cast_fits: "list_all (fits d) xs \<Longrightarrow> map (cast d) xs = xs"
  by (induction xs) simp_all

lemma repack_outcome:
  assumes "ps \<in> {128, 256}" "ps * 288 \<le> spb" "indices \<noteq> []" "list_all (fits I32) indices" "bridge_ok B"
  obtains b B' b0 where "repack_fp4_extra_to_v4 F oob jp ji flat spb indices ps B = Inr (b, map int [0..<length indices], B')" "bridge_ok B'"
    "b = repack_kernel F (ldb oob flat) spb (page_bit_length ps - 1) indices b0" "num_pages b = cdiv (length indices) 64" "page_stride b = dst_page_bytes"
proof -
  obtain b0 B0 where s: "scratch_buffer jp (cdiv (length indices) 64) B = (b0, B0)" by (cases "scratch_buffer jp (cdiv (length indices) 64) B")
  let ?B1 = "fill_ids (length indices) (ids_buffer ji (length indices) B0)"
  let ?b = "repack_kernel F (ldb oob flat) spb (page_bit_length ps - 1) indices b0"
  note S = scratch_ok [OF assms(5) s]
  obtain xs where xs: "bb_ids ?B1 = Some xs" "take (length indices) xs = map int [0..<length indices]" using ids_identity(2) [OF S(3)] assms(3) by (metis length_greater_0_conv)
  have "repack_fp4_extra_to_v4 F oob jp ji flat spb indices ps B
      = Inr (?b, map int [0..<length indices], ?B1\<lparr>bb_scratch := map_option (\<lambda>b. b\<lparr>mem := mem ?b\<rparr>) (bb_scratch ?B1)\<rparr>)"
    using assms(1-3) s xs by (simp add: repack_fp4_extra_to_v4_def map_cast_fits [OF assms(4)] Let_def)
  moreover have "bridge_ok (?B1\<lparr>bb_scratch := map_option (\<lambda>b. b\<lparr>mem := mem ?b\<rparr>) (bb_scratch ?B1)\<rparr>)"
    using ids_identity(1) [OF S(3), of "length indices" ji] assms(3) by (auto simp: bridge_ok_def split: option.splits)
  ultimately show thesis using that S(1,2) by simp
qed

lemma sequence_map_nth:
  "sequence (map f xs) = Inr ys \<Longrightarrow> length ys = length xs \<and> (\<forall>i < length xs. f (xs ! i) = Inr (ys ! i))"
proof (induction xs arbitrary: ys)
  case (Cons x xs)
  then obtain y zs where y: "f x = Inr y" "sequence (map f xs) = Inr zs" "ys = y # zs" by (auto split: sum.splits elim!: sequence.elims)
  then show ?case using Cons.IH [OF y(2)] by (auto simp: nth_Cons split: nat.splits)
qed simp

lemma reference_rows:
  assumes "repack_fp4_extra_to_v4_ref F flat spb indices ps = Inr (rb, ids)" "ps \<in> {128, 256}" "exact_on_codes (fmul F)" "products_are_numbers F"
    "scales_are_numbers (ldb oob flat) spb (page_bit_length ps - 1) indices"
  shows "num_pages rb = cdiv (length indices) 64 \<and> page_stride rb = dst_page_bytes \<and> ids = map int [0..<length indices]
    \<and> (\<forall>j < length indices. token_at 64 V4 rb j
        = (kernel_data F (ldb oob flat) spb (page_bit_length ps - 1) (indices ! j), kernel_footer F (ldb oob flat) spb (page_bit_length ps - 1) (indices ! j)))"
proof -
  let ?z = "\<lparr>num_pages = cdiv (length indices) 64, page_stride = dst_page_bytes, mem = (\<lambda>_ _. 0)\<rparr> :: paged_buf"
  let ?K = "\<lambda>j. (kernel_data F (ldb oob flat) spb (page_bit_length ps - 1) (indices ! j), kernel_footer F (ldb oob flat) spb (page_bit_length ps - 1) (indices ! j))"
  obtain rows where r: "sequence (map (repack_ref_row F flat spb ps) indices) = Inr rows"
    "rb = fold (\<lambda>pid. write_v4 (fst (rows ! pid)) (snd (rows ! pid)) pid) [0..<length rows] ?z" "ids = map int [0..<length indices]"
    using assms(1) unfolding repack_fp4_extra_to_v4_ref_def by (cases "sequence (map (repack_ref_row F flat spb ps) indices)") auto
  note S = sequence_map_nth [OF r(1)]
  have row: "rows ! j = ?K j" if "j < length indices" for j
  proof -
    have "repack_ref_row F flat spb ps (indices ! j) = Inr (rows ! j)" using S that by blast
    moreover have "\<forall>k < 32. \<not> e4m3_nan (ldb oob flat (src_scale spb (page_bit_length ps - 1) (indices ! j) + k))"
      using assms(5) nth_mem [OF that] unfolding scales_are_numbers_def by blast
    ultimately show ?thesis using repack_ref_row_kernel [OF _ assms(2,3,4)] by blast
  qed
  have "rb = fold (\<lambda>pid. write_v4 (fst (?K pid)) (snd (?K pid)) pid) [0..<length indices] ?z"
    unfolding r(2) using S row by (intro fold_cong) simp_all
  then have rb: "rb = repack_kernel F (ldb oob flat) spb (page_bit_length ps - 1) indices ?z" by (simp add: repack_kernel_def)
  show ?thesis unfolding rb using r(3) by (simp add: repack_kernel_rows)
qed

text \<open>C22: The bridge fills the scratch with the very rows of its reference, whatever the scratch held before and
  whatever batches came before, and hands out the identity; both refuse or both succeed only by their own checks.\<close>

theorem repack_is_ref:
  assumes "repack_fp4_extra_to_v4_ref F flat spb indices ps = Inr (rb, ids)" "ps \<in> {128, 256}" "ps * 288 \<le> spb"
    "indices \<noteq> []" "list_all (fits I32) indices" "exact_on_codes (fmul F)" "products_are_numbers F"
    "scales_are_numbers (ldb oob flat) spb (page_bit_length ps - 1) indices" "bridge_ok B"
  shows "\<exists>b B'. repack_fp4_extra_to_v4 F oob junk_page junk_id flat spb indices ps B = Inr (b, ids, B') \<and> bridge_ok B'
    \<and> num_pages b = num_pages rb \<and> page_stride b = page_stride rb
    \<and> (\<forall>j < length indices. token_at 64 V4 b j = token_at 64 V4 rb j)"
proof -
  obtain b B' b0 where o: "repack_fp4_extra_to_v4 F oob junk_page junk_id flat spb indices ps B = Inr (b, map int [0..<length indices], B')"
    "bridge_ok B'" "b = repack_kernel F (ldb oob flat) spb (page_bit_length ps - 1) indices b0" "num_pages b = cdiv (length indices) 64"
    "page_stride b = dst_page_bytes"
    by (rule repack_outcome [OF assms(2-5,9)])
  note R = reference_rows [OF assms(1,2,6-8)]
  have tok: "token_at 64 V4 b j = token_at 64 V4 rb j" if "j < length indices" for j
    using R that unfolding o(3) repack_kernel_rows [OF that] by simp
  show ?thesis
  proof (intro exI conjI)
    show "repack_fp4_extra_to_v4 F oob junk_page junk_id flat spb indices ps B = Inr (b, ids, B')" using o(1) R by simp
    show "bridge_ok B'" by (rule o(2))
    show "num_pages b = num_pages rb" "page_stride b = page_stride rb" using o(4,5) R by simp_all
    show "\<forall>j < length indices. token_at 64 V4 b j = token_at 64 V4 rb j" using tok by blast
  qed
qed

section \<open>Read back as V4\<close>

definition flat_view :: "paged_buf \<Rightarrow> nat \<Rightarrow> byte" where
  "flat_view b a = mem b (a div page_stride b) (a mod page_stride b)"

lemma stride_37440: "dst_page_bytes = 37440" "int dst_page_bytes = page_bytes V4 64"
  by (simp_all add: dst_page_bytes_def page_bytes_def bytes_per_token_def ceil_div_def Let_def)

lemma flat_view_data:
  assumes "page_stride b = 37440" "i < 576"
  shows "flat_view b (v4_data_base 37440 64 j + i) = fst (token_at 64 V4 b j) ! i"
proof -
  have "Suc (j mod 64) * 576 \<le> 64 * 576" by (intro mult_le_mono1) simp
  then have c: "j mod 64 * 576 + i < 37440" using assms(2) by simp
  have "(j div 64 * 37440 + (j mod 64 * 576 + i)) div 37440 = j div 64" "(j div 64 * 37440 + (j mod 64 * 576 + i)) mod 37440 = j mod 64 * 576 + i"
    using c by simp_all
  then show ?thesis using assms by (simp add: flat_view_def v4_data_base_def token_at_def gather_row_nth add.assoc)
qed

lemma flat_view_scale:
  assumes "page_stride b = 37440" "i < 8"
  shows "flat_view b (v4_scale_base 37440 64 j + i) = snd (token_at 64 V4 b j) ! i"
proof -
  have "Suc (j mod 64) * 8 \<le> 64 * 8" by (intro mult_le_mono1) simp
  then have c: "64 * 576 + j mod 64 * 8 + i < 37440" using assms(2) by simp
  have "(j div 64 * 37440 + (64 * 576 + j mod 64 * 8 + i)) div 37440 = j div 64"
    "(j div 64 * 37440 + (64 * 576 + j mod 64 * 8 + i)) mod 37440 = 64 * 576 + j mod 64 * 8 + i"
    using c by simp_all
  then show ?thesis using assms by (simp add: flat_view_def v4_scale_base_def token_at_def gather_row_nth add.assoc)
qed

lemma word16_bytes16: "word16 (bytes16 w ! 0) (bytes16 w ! 1) = w"
  unfolding word16_def bytes16_def
  by (rule bit_word_eqI) (auto simp: bit_simps)

lemma even_data_base: "even (v4_data_base 37440 64 j)"
  by (simp add: v4_data_base_def)

lemma flat_view_rope:
  assumes "page_stride b = 37440" "r < 64" "fst (token_at 64 V4 b j) = xs @ concat (map (\<lambda>v. bytes16 (f v)) vs)" "length xs = 448" "length vs = 64"
  shows "ld16 (flat_view b) ((v4_data_base 37440 64 j + 448) div 2 + r) = f (vs ! r)"
proof -
  have e: "2 * ((v4_data_base 37440 64 j + 448) div 2 + r) = v4_data_base 37440 64 j + (448 + 2 * r)"
    using even_data_base [of j] by (elim evenE) simp
  have u: "\<forall>ys \<in> set (map (\<lambda>v. bytes16 (f v)) vs). length ys = 2" by (simp add: bytes16_def)
  have n: "fst (token_at 64 V4 b j) ! (448 + 2 * r + k) = bytes16 (f (vs ! r)) ! k" if "k < 2" for k
  proof -
    have "concat (map (\<lambda>v. bytes16 (f v)) vs) ! (r * 2 + k) = map (\<lambda>v. bytes16 (f v)) vs ! r ! k"
      by (rule concat_flat [OF u]) (use assms that in auto)
    then show ?thesis using assms by (simp add: nth_append mult.commute)
  qed
  have "flat_view b (v4_data_base 37440 64 j + (448 + 2 * r)) = bytes16 (f (vs ! r)) ! 0"
    using flat_view_data [OF assms(1), of "448 + 2 * r" j] n [of 0] assms(2) by simp
  moreover have "flat_view b (v4_data_base 37440 64 j + (448 + 2 * r) + 1) = bytes16 (f (vs ! r)) ! 1"
  proof -
    have lt: "448 + 2 * r + 1 < 576" using assms(2) by simp
    show ?thesis unfolding add.assoc [of "v4_data_base 37440 64 j"] flat_view_data [OF assms(1) lt] by (rule n) simp
  qed
  ultimately show ?thesis unfolding ld16_def e by (simp only: word16_bytes16)
qed

text \<open>What the reader of the scratch gets for a gathered slot: requantized values times their scale, and the rope part.\<close>

definition bridged_row :: "float_ops \<Rightarrow> f32 list \<Rightarrow> 16 word list" where
  "bridged_row F vals =
     map (\<lambda>i. let u = ref_scale F (tiles 64 (take 448 vals) ! (i div 64))
        in to_bf16 F (fmul F (of_e4m3 F (to_e4m3 F (fmul F (vals ! i) (inv_scale u)))) (exp2_dev F (int (unat (ucast u :: byte)) - 127)))) [0..<448]
     @ map (\<lambda>r. to_bf16 F (vals ! (448 + r))) [0..<64]"

lemma v4_reads_row:
  assumes "page_stride b = 37440" "token_at 64 V4 b j = (ref_data F vals, ref_footer F vals)" "length vals = 512"
  shows "dequantize_paged_kernel F (flat_view b) 37440 64 j = bridged_row F vals"
proof -
  let ?nope = "concat (map (\<lambda>tile. map (\<lambda>v. to_e4m3 F (fmul F v (inv_scale (ref_scale F tile)))) tile) (tiles 64 (take 448 vals)))"
  have d: "fst (token_at 64 V4 b j) = ?nope @ concat (map (\<lambda>v. bytes16 (to_bf16 F v)) (drop 448 vals))"
    using assms(2) by (simp add: ref_data_def)
  have nl: "length ?nope = 448" by (rule ref_nope_length [OF assms(3)])
  have data: "flat_view b (v4_data_base 37440 64 j + i) = to_e4m3 F (fmul F (vals ! i) (inv_scale (ref_scale F (tiles 64 (take 448 vals) ! (i div 64)))))"
    if "i < 448" for i
  proof -
    have "i < 576" using that by simp
    then show ?thesis unfolding flat_view_data [OF assms(1) \<open>i < 576\<close>] d nth_append nl
      using that ref_nope_nth [OF assms(3) that] by simp
  qed
  have scale: "flat_view b (v4_scale_base 37440 64 j + t) = ucast (ref_scale F (tiles 64 (take 448 vals) ! t))" if "t < 7" for t
  proof -
    have "t < 8" using that by simp
    then show ?thesis unfolding flat_view_scale [OF assms(1) \<open>t < 8\<close>] using assms(2,3) that by (simp add: ref_footer_def nth_append)
  qed
  have "v4_nope_kernel F (to_bf16 F) (flat_view b) 37440 64 j
      = map (\<lambda>i. let u = ref_scale F (tiles 64 (take 448 vals) ! (i div 64))
        in to_bf16 F (fmul F (of_e4m3 F (to_e4m3 F (fmul F (vals ! i) (inv_scale u)))) (exp2_dev F (int (unat (ucast u :: byte)) - 127)))) [0..<448]"
  proof (rule nth_equalityI)
    fix i assume "i < length (v4_nope_kernel F (to_bf16 F) (flat_view b) 37440 64 j)"
    then have i: "i < 448" by (simp add: v4_nope_length)
    then have t: "i div 64 < 7" by simp
    show "v4_nope_kernel F (to_bf16 F) (flat_view b) 37440 64 j ! i = map (\<lambda>i. let u = ref_scale F (tiles 64 (take 448 vals) ! (i div 64))
        in to_bf16 F (fmul F (of_e4m3 F (to_e4m3 F (fmul F (vals ! i) (inv_scale u)))) (exp2_dev F (int (unat (ucast u :: byte)) - 127)))) [0..<448] ! i"
      unfolding v4_nope_nth [OF i] data [OF i] scale [OF t] using i by (simp add: Let_def)
  qed (simp add: v4_nope_length)
  moreover have "ld16 (flat_view b) ((v4_data_base 37440 64 j + 448) div 2 + r) = to_bf16 F (vals ! (448 + r))" if "r < 64" for r
    using flat_view_rope [OF assms(1) that d nl] assms(3) that by simp
  ultimately show ?thesis unfolding dequantize_paged_kernel_def bridged_row_def by simp
qed

text \<open>C23: Read as V4 at the index the bridge hands out, the scratch gives for every gathered slot its decoded values,
  requantized under the scale of their tile of 64, and the rope part rounded once; slot numbers below zero read as
  the gated values of slot zero.\<close>

theorem bridge_reads_back:
  assumes "repack_fp4_extra_to_v4 F oob junk_page junk_id flat spb indices ps B = Inr (b, ids, B')" "bridge_ok B" "list_all (fits I32) indices"
    "j < length indices" "slot_bytes (ldb oob flat) spb (page_bit_length ps - 1) (indices ! j) packed scales"
    "exact_on_codes (fmul F)" "\<forall>v \<in> set (ref_vals F (indices ! j) packed scales). \<not> f32_nan v"
  shows "dequantize_paged_kernel F (flat_view b) dst_page_bytes 64 (nat (ids ! j)) = bridged_row F (ref_vals F (indices ! j) packed scales)"
proof -
  have a: "ps \<in> {128, 256}" "ps * 288 \<le> spb" "indices \<noteq> []"
    using assms(1,4) by (auto simp: repack_fp4_extra_to_v4_def split: if_splits)
  obtain b1 B1 b0 where o: "repack_fp4_extra_to_v4 F oob junk_page junk_id flat spb indices ps B = Inr (b1, map int [0..<length indices], B1)"
    "b1 = repack_kernel F (ldb oob flat) spb (page_bit_length ps - 1) indices b0" "page_stride b1 = dst_page_bytes"
    by (rule repack_outcome [OF a assms(3,2)])
  have e: "b = b1" "ids = map int [0..<length indices]" using o(1) assms(1) by simp_all
  have i: "nat (ids ! j) = j" using e(2) assms(4) by simp
  have l: "length (ref_vals F (indices ! j) packed scales) = 512" using assms(5) by (simp add: slot_bytes_def ref_vals_length)
  have "token_at 64 V4 b j = (ref_data F (ref_vals F (indices ! j) packed scales), ref_footer F (ref_vals F (indices ! j) packed scales))"
    unfolding e(1) o(2) repack_kernel_rows [OF assms(4)] kernel_data_ref [OF assms(5-7)] kernel_footer_ref [OF assms(5-7)] by (rule refl)
  then show ?thesis unfolding i stride_37440(1) using o(3) e(1) l by (intro v4_reads_row) (simp_all add: stride_37440)
qed

section \<open>Examples\<close>

definition ex_bridge_ops :: float_ops where
  "ex_bridge_ops = ex_ops\<lparr>fmul := (\<lambda>x y. if y = 0xBF800000 then f32_neg x else x)\<rparr>"

definition ex_pool :: "byte list" where
  "ex_pool = replicate 36864 1"

definition ex_buffers :: bridge_buffers where
  "ex_buffers = \<lparr>bb_scratch = None, bb_ids = None, bb_filled = 0, bb_retired = 0\<rparr>"

lemma ex_bridge_exact: "exact_on_codes (fmul ex_bridge_ops)"
  by (simp add: exact_on_codes_def ex_bridge_ops_def)

lemma codes_are_numbers:
  assumes "c < 16"
  shows "\<not> f32_nan (dequantize_e2m1_codes c)" "\<not> f32_nan (f32_neg (dequantize_e2m1_codes c))"
  using small_byte_cases [OF assms]
  by (elim insertE emptyE, simp_all add: dequantize_e2m1_codes_def e2m1_bits_def f32_neg_def f32_nan_def f32_exp_def f32_frac_def Let_def)+

lemma ex_bridge_numbers: "products_are_numbers ex_bridge_ops"
proof -
  have "fmul ex_bridge_ops (fmul ex_bridge_ops x s) (gate idx) \<in> {x, f32_neg x}" for x s idx
    by (simp add: ex_bridge_ops_def gate_def)
  then show ?thesis unfolding products_are_numbers_def using codes_are_numbers by (metis insertE singletonD)
qed

lemma ex_pool_byte: "ldb (\<lambda>_. 1) ex_pool a = 1"
  by (simp add: ldb_def ex_pool_def)

lemma ex_bridge_ref: "\<exists>rb ids. repack_fp4_extra_to_v4_ref F ex_pool 36864 [5, -1] 128 = Inr (rb, ids)"
  by (simp add: repack_fp4_extra_to_v4_ref_def repack_ref_row_def ex_pool_def gather_flat_def list_all_iff Let_def)

lemma ex_buffers_ok: "bridge_ok ex_buffers"
  by (simp add: bridge_ok_def ex_buffers_def)

lemma ex_slot: "slot_bytes (ldb (\<lambda>_. 1) ex_pool) 36864 7 idx (replicate 256 1) (replicate 32 1)"
  by (simp add: slot_bytes_def ex_pool_byte)

lemma ex_bridge_inputs:
  "(128 :: nat) \<in> {128, 256}" "(128 :: nat) * 288 \<le> 36864" "[5, -1 :: int] \<noteq> []" "list_all (fits I32) [5, -1 :: int]"
  "scales_are_numbers (ldb (\<lambda>_. 1) ex_pool) 36864 (page_bit_length 128 - 1) [5, -1]"
  by (simp_all add: scales_are_numbers_def ex_pool_byte e4m3_nan_def fits_def)

theorem repack_is_ref_witness:
  "\<exists>rb ids b B. repack_fp4_extra_to_v4_ref ex_bridge_ops ex_pool 36864 [5, -1] 128 = Inr (rb, ids)
    \<and> repack_fp4_extra_to_v4 ex_bridge_ops (\<lambda>_. 1) (\<lambda>_ _. 7) 9 ex_pool 36864 [5, -1] 128 ex_buffers = Inr (b, ids, B)
    \<and> token_at 64 V4 b 1 = token_at 64 V4 rb 1"
proof -
  obtain rb ids where r: "repack_fp4_extra_to_v4_ref ex_bridge_ops ex_pool 36864 [5, -1] 128 = Inr (rb, ids)"
    using ex_bridge_ref by blast
  obtain b B where b: "repack_fp4_extra_to_v4 ex_bridge_ops (\<lambda>_. 1) (\<lambda>_ _. 7) 9 ex_pool 36864 [5, -1] 128 ex_buffers = Inr (b, ids, B)"
    "\<forall>j < length [5, -1 :: int]. token_at 64 V4 b j = token_at 64 V4 rb j"
    using repack_is_ref [OF r ex_bridge_inputs(1-4) ex_bridge_exact ex_bridge_numbers ex_bridge_inputs(5) ex_buffers_ok] by blast
  have "token_at 64 V4 b 1 = token_at 64 V4 rb 1" using b(2) by simp
  then show ?thesis using r b(1) by blast
qed

lemma page_bits_128: "page_bit_length 128 - 1 = 7"
  by (simp add: bit_length_step)

theorem bridge_reads_back_witness:
  "\<exists>b ids B. repack_fp4_extra_to_v4 ex_bridge_ops (\<lambda>_. 1) (\<lambda>_ _. 7) 9 ex_pool 36864 [5, -1] 128 ex_buffers = Inr (b, ids, B)
    \<and> dequantize_paged_kernel ex_bridge_ops (flat_view b) dst_page_bytes 64 (nat (ids ! 1))
      = bridged_row ex_bridge_ops (ref_vals ex_bridge_ops (-1) (replicate 256 1) (replicate 32 1))"
proof -
  obtain b ids B where b: "repack_fp4_extra_to_v4 ex_bridge_ops (\<lambda>_. 1) (\<lambda>_ _. 7) 9 ex_pool 36864 [5, -1] 128 ex_buffers = Inr (b, ids, B)"
    using repack_outcome [OF ex_bridge_inputs(1-4) ex_buffers_ok] by metis
  have i: "(1 :: nat) < length [5, -1 :: int]" "[5, -1 :: int] ! 1 = -1" by simp_all
  have s: "slot_bytes (ldb (\<lambda>_. 1) ex_pool) 36864 (page_bit_length 128 - 1) ([5, -1] ! 1) (replicate 256 1) (replicate 32 1)"
    unfolding page_bits_128 by (rule ex_slot)
  have "\<forall>j < 32. \<not> e4m3_nan (ldb (\<lambda>_. 1) ex_pool (src_scale 36864 (page_bit_length 128 - 1) ([5, -1] ! 1) + j))"
    by (simp add: ex_pool_byte e4m3_nan_def)
  note n = ref_vals_numbers [OF s ex_bridge_exact ex_bridge_numbers this]
  show ?thesis using b bridge_reads_back [OF b ex_buffers_ok ex_bridge_inputs(4) i(1) s ex_bridge_exact n] unfolding i(2) by blast
qed

section \<open>Slices\<close>

lemma steps_from_chain:
  assumes "0 < step" "i < n"
  shows "successively (\<lambda>a b. a < b \<and> b \<le> a + step) (steps_from step n i @ [n]) \<and> hd (steps_from step n i @ [n]) = i
    \<and> steps_from step n i \<noteq> [] \<and> last (steps_from step n i) < n"
  using assms
proof (induction step n i rule: steps_from.induct)
  case (1 step n i)
  have e: "steps_from step n i = i # steps_from step n (i + step)" using 1(2,3) by (subst steps_from.simps) simp
  show ?case
  proof (cases "i + step < n")
    case True
    then have "successively (\<lambda>a b. a < b \<and> b \<le> a + step) (steps_from step n (i + step) @ [n]) \<and> hd (steps_from step n (i + step) @ [n]) = i + step
      \<and> steps_from step n (i + step) \<noteq> [] \<and> last (steps_from step n (i + step)) < n"
      using 1 by simp
    then show ?thesis unfolding e using 1(2) by (auto simp: successively_Cons)
  next
    case False
    then have "steps_from step n (i + step) = []" by (subst steps_from.simps) simp
    then show ?thesis unfolding e using False 1(2,3) by simp
  qed
qed

lemma successively_at: "successively P xs \<Longrightarrow> Suc i < length xs \<Longrightarrow> P (xs ! i) (xs ! Suc i)"
proof (induction xs arbitrary: i)
  case (Cons x xs)
  then show ?case by (cases i; cases xs) (auto simp: successively_Cons)
qed simp

lemma slices_chain:
  assumes "0 < n"
  shows "successively (\<lambda>a b. a < b \<and> b \<le> a + max 1 (m div max 1 k)) (bridge_slice_bounds n k m)
    \<and> hd (bridge_slice_bounds n k m) = 0 \<and> last (bridge_slice_bounds n k m) = n"
proof (cases "n \<le> max 1 (m div max 1 k)")
  case True
  then show ?thesis using assms by (simp add: bridge_slice_bounds_def Let_def)
next
  case False
  have "0 < max 1 (m div max 1 k)" by simp
  note c = steps_from_chain [OF this assms]
  then have "bridge_slice_bounds n k m = steps_from (max 1 (m div max 1 k)) n 0 @ [n]"
    using False by (auto simp: bridge_slice_bounds_def Let_def)
  then show ?thesis using c by simp
qed

text \<open>The slices of a batch start at its first token, end behind its last one, follow each other without gap or
  overlap, and if one token fits at all, the pages for the rows of each slice fit the configured scratch.\<close>

theorem bridge_slices_fit:
  assumes "0 < n" "0 < topk" "topk \<le> nat (bridge_max_rows mb)"
  shows "let bs = bridge_slice_bounds n topk (nat (bridge_max_rows mb)) in
    hd bs = 0 \<and> last bs = n \<and> (\<forall>i. Suc i < length bs \<longrightarrow> bs ! i < bs ! Suc i
      \<and> int (cdiv ((bs ! Suc i - bs ! i) * topk) 64 * dst_page_bytes) \<le> max 16 mb * 1024 * 1024)"
proof -
  let ?m = "nat (bridge_max_rows mb)" and ?budget = "max 16 mb * 1024 * 1024"
  note c = slices_chain [OF assms(1), of ?m topk]
  have pages: "int (cdiv r 64 * dst_page_bytes) \<le> ?budget" if "r \<le> ?m" for r
  proof -
    have q: "0 \<le> ?budget div 37440" by (rule pos_imp_zdiv_nonneg_iff [THEN iffD2]) auto
    have m: "bridge_max_rows mb = ?budget div 37440 * 64" by (simp add: bridge_max_rows_def stride_37440)
    have "r \<le> nat (?budget div 37440) * 64" using that q m by (simp add: nat_mult_distrib)
    then have "r + 63 < (nat (?budget div 37440) + 1) * 64" by simp
    then have "(r + 63) div 64 < nat (?budget div 37440) + 1" by (rule less_mult_imp_div_less)
    then have "cdiv r 64 \<le> nat (?budget div 37440)" by (simp add: cdiv_def)
    then have "int (cdiv r 64) \<le> ?budget div 37440" using q by linarith
    then have "int (cdiv r 64) * 37440 \<le> ?budget div 37440 * 37440" by (rule mult_right_mono) simp
    also have "\<dots> \<le> ?budget" using pos_mod_sign [of 37440 ?budget] by (simp add: minus_mod_eq_div_mult [symmetric])
    finally show ?thesis by (simp add: stride_37440)
  qed
  have step: "max 1 (?m div max 1 topk) * topk \<le> ?m"
  proof -
    have "1 \<le> ?m div topk" using assms(2,3) by (simp add: Suc_le_eq div_greater_zero_iff)
    then have "max 1 (?m div max 1 topk) = ?m div topk" using assms(2) by simp
    then show ?thesis by (simp add: div_times_less_eq_dividend)
  qed
  show ?thesis unfolding Let_def
  proof (intro conjI allI impI)
    let ?bs = "bridge_slice_bounds n topk ?m"
    fix i assume i: "Suc i < length ?bs"
    have a: "?bs ! i < ?bs ! Suc i \<and> ?bs ! Suc i \<le> ?bs ! i + max 1 (?m div max 1 topk)" using successively_at [OF conjunct1 [OF c] i] .
    then show "?bs ! i < ?bs ! Suc i" by simp
    have "(?bs ! Suc i - ?bs ! i) * topk \<le> max 1 (?m div max 1 topk) * topk" using a by (intro mult_le_mono1) linarith
    then show "int (cdiv ((?bs ! Suc i - ?bs ! i) * topk) 64 * dst_page_bytes) \<le> ?budget" using step by (intro pages) linarith
  qed (use c in simp_all)
qed

theorem bridge_slices_fit_witness:
  "let bs = bridge_slice_bounds 100 512 (nat (bridge_max_rows 16)) in hd bs = 0 \<and> last bs = 100 \<and> bs ! 0 < bs ! 1"
proof -
  have m: "nat (bridge_max_rows 16) = 28672" by (simp add: bridge_max_rows_def stride_37440)
  have bs: "bridge_slice_bounds 100 512 28672 = [0, 56, 100]" by (simp add: bridge_slice_bounds_def steps_from.simps Let_def)
  have "(0 :: nat) < 100" "(0 :: nat) < 512" "512 \<le> nat (bridge_max_rows 16)" by (simp_all add: m)
  from bridge_slices_fit [OF this] show ?thesis unfolding m bs by (simp add: Let_def)
qed

end
