(* ===== verification/Spec2Isabelle.thy ===== *)
theory Spec2Isabelle
  imports RequestWindow SchedPolicy PrefillAdmission GatewayFacts SpecAcceptFacts PoolSizing EngramClaims DecodeFacts Retraction DsmlClaims DecodePlanFacts RepackFacts
begin

text \<open>
  Verification library for the serving stack of this repository: an SGLang overlay
  (\<open>sglang-overlay/\<close>) that serves a compressed-attention model, and the gateway in front of it
  (\<open>gateway/concurrency_proxy_v2.py\<close>). A client's request enters the gateway, which authenticates,
  rewrites, deduplicates and queues it, relays the engine's answer and streams it with heartbeats. In the
  engine the scheduler orders the waiting queue by prefixes already cached, admits requests within the
  token budgets of the pools, the decode loop verifies draft tokens and ends requests, and requests are
  put back when memory runs out; tool calls are picked out of the answer as it streams. The pools are sized once, from
  the bytes each rank has left, and hold pages in one of three byte layouts; the sliding-window layers
  keep their recent tokens in a ring per request.

  Conventions. A raised exception is \<open>Inl\<close> of \<open>py_error\<close>, a returned value \<open>Inr\<close>; operations on shared
  objects return the updated record. Python integers are \<open>int\<close>, tensor elements are \<open>int\<close> in the range
  of a \<open>dtype\<close> with conversions written out (\<open>Tensors.cast\<close>), bytes are \<open>8 word\<close>. Python and device
  floats are \<open>real\<close>: what rounding could change is not claimed; the argmax runs over any linear order
  with a bottom (\<open>-inf\<close>) and so excludes NaN. What the sources import from elsewhere (the radix cache and
  the allocators, the sampling kernels, \<open>aiohttp\<close>, \<open>ceil_align\<close>) is an argument of the definitions, and
  what is assumed of it is a premise of the theorem.

  Theories, bottom up.

  \<^item> \<open>Prelude\<close>: error type, \<open>len\<close>, \<open>int()\<close>, rounding to pages, lists as tensors, and masked kernel
    launches (\<open>launch_tabulate\<close>: any launch that covers its buffer computes its function everywhere).
  \<^item> \<open>TokenStore\<close> is the interface between paged buffers and the request window (a locale);
    \<open>KvLayout\<close> models \<open>kv_layout.py\<close> and the byte-level copy of packed tokens
    (\<open>copy_packed_tokens\<close>) and interprets the locale. \<open>WindowLayout\<close> and \<open>RequestWindow\<close> model
    \<open>dsv41_request_window.py\<close>: the state is \<open>request_window\<close> (ring, tags, workspace, active layout), the
    operations \<open>reset_slots\<close>, \<open>activate\<close>, \<open>buffer\<close>, \<open>commit\<close>, \<open>initialize_dummy_history\<close>. Shown: pages hold
    their rows, indices of a query name the right rows, history is never stale, tags and ring agree,
    every operation keeps the window well formed.
  \<^item> \<open>SchedReq\<close>, \<open>SchedPolicy\<close>: the part of \<open>Req\<close> (\<open>schedule_batch.py\<close>) the scheduler reads and
    \<open>SchedulePolicy\<close> of \<open>schedule_policy.py\<close>. Shown: prioritizing permutes the queue, a request is put off
    only for an earlier one that shares its prefix.
  \<^item> \<open>PrefillAdder\<close>, \<open>PrefillFacts\<close>, \<open>PrefillAdmission\<close>: \<open>PrefillAdder\<close> of \<open>schedule_policy.py\<close>. The state
    \<open>adder\<close> has the offsets, budgets and lists of the object and an environment \<open>env\<close> for cache and
    allocators, reached through \<open>env_ops\<close>. Shown: admission charges exactly what it admits and overcommits
    by less than a page, locks are balanced, preemption is minimal and atomic, the gate for requests
    without an end token is sound; and two defects of the code.
  \<^item> \<open>GatewayText\<close>: the pure functions of the gateway. \<open>GatewayStream\<close>: \<open>handle_stream\<close> as a step function
    \<open>step\<close> over the events of its four tasks (producer, consumer, heartbeat, supervisor) between two
    awaits. \<open>GatewayCore\<close> is the abstract queue protocol, \<open>GatewayStreamFacts\<close> the refinement and what
    follows from it (no data lost, the end contract, cleanup), \<open>GatewayProgress\<close> that a stream can always
    finish. \<open>Gateway\<close> is the machine of all requests (\<open>dispatch\<close>, semaphore, deduplication table, relay),
    \<open>GatewayFacts\<close> its invariants: permits, keys and counters are exact.
  \<^item> \<open>Tensors\<close>, \<open>FastArgmax\<close>, \<open>SpecAccept\<close>, \<open>SpecAcceptFacts\<close>: \<open>fast_argmax.py\<close> and \<open>dspark_accept.py\<close>.
    Every step exists as torch code and as Triton kernels; they are proved equal for any content of fresh
    buffers, and the capped step commits between one token and its limit.
  \<^item> \<open>PoolConfig\<close>, \<open>PoolConfigFacts\<close>, \<open>PoolDsv4\<close>, \<open>PoolDsv4Facts\<close>, \<open>PoolSizing\<close>: \<open>pool_configurator.py\<close> and the
    size functions of \<open>deepseek_v4_memory_pool.py\<close>. The contract \<open>pool_sizer\<close> (sizes fit the bytes, a
    smaller token count costs less) is a locale with one interpretation per configurator; its lemma
    \<open>ranks_fit\<close> carries the claims for all ranks.
  \<^item> \<open>EngramHash\<close> to \<open>EngramClaims\<close>: \<open>EngramHasher\<close> of \<open>engram.py\<close> and the kernels of \<open>engram_hash.py\<close>.
    \<open>EngramHash\<close> has both devices over one state \<open>hasher\<close> (tables and the history row of each request),
    \<open>EngramFacts\<close> the arithmetic and the reference \<open>ngram_ids\<close>, \<open>EngramLaunch\<close> the invariant of a launch for
    any order of its programs, \<open>EngramBatch\<close> a batch as runs of requests and what serving it means
    (\<open>serves\<close>, \<open>ids_served\<close>, \<open>rows_served\<close>), \<open>EngramServe\<close> the torch path, \<open>EngramDevice\<close> the kernels and
    \<open>EngramCommit\<close> the commit after a verification. \<open>EngramLayout\<close> and \<open>EngramBuild\<close> build the hasher: the
    prime sizes, the multipliers, the compressed vocabulary. Shown: both devices give every position the
    ids of the request's whole sequence and keep the histories exact, the prime search ends, and a built
    hasher meets what the passes assume of it.
  \<^item> \<open>Texts\<close>: texts as lists of code points, shared by the gateway and the engine. \<open>FinishState\<close>,
    \<open>FinishFacts\<close>: when a request ends (\<open>Req.update_finish_state\<close>); \<open>DecodeResult\<close>, \<open>DecodeFacts\<close>: the decode
    path of \<open>roce_batch_result_processor.py\<close>, from the padded tokens of a verification over the grammars to
    outputs, committed lengths and ends. Shown: a step never emits beyond the budget, accounts for every
    token, and ends a request where one token per step would have; three orders of checks for which it does
    not. \<open>Retraction\<close>: which decoding requests give way when memory runs out (\<open>retract_decode\<close>), and that they
    are exactly released, the longest answers stay and what stays fits.
  \<^item> \<open>DsmlDetector\<close>, \<open>DsmlFacts\<close>, \<open>DsmlClaims\<close>: the detector of tool calls in the model's output
    (\<open>deepseekv32_detector.py\<close>, \<open>deepseekv41_detector.py\<close>). The state is \<open>detector\<close>, the operations are
    \<open>parse_streaming_increment\<close>, \<open>finish\<close> and the one-shot \<open>detect_and_parse\<close>; each regular expression is a
    matcher. \<open>complete_calls\<close> reads the finished calls off a whole text. Shown: a call found in a text is found
    in every continuation, so that calls do not depend on how the stream is cut; written calls are read
    back; prose streams through unchanged; and concrete streams on which text or names are lost.
  \<^item> \<open>DecodePlan\<close>, \<open>DecodePlanFacts\<close>: how the lengths of a speculative decode step reach the device
    (\<open>dflash_info_v2.py\<close>): the two-deep ring of host slots \<open>staging\<close>, the older buffers, and a \<open>machine\<close> that holds
    host memory, device rows and the queue of submitted work. \<open>runs_ahead\<close> interleaves host and device as the
    overlap loop allows. Shown: every allocation reads the lengths of its own step, views handed out stay
    valid for a step more, and both paths leave the same results.
  \<^item> \<open>Fp4Codes\<close>, \<open>Fp4Facts\<close>: the number formats of the cache on the bits of single precision (e2m1 codes,
    ue8m0 and power-of-two scales); \<open>KvFormats\<close>, \<open>KvFormatFacts\<close>: the writers and readers of the paged layouts
    (\<open>torch_quant.py\<close>) and the gather kernels with their references (\<open>dequant_k_cache.py\<close>). Arithmetic that rounds is
    the parameter \<open>float_ops\<close>. Shown: codes are nearest with ties to even, scales are least powers of two, what is
    stored is read back element by element, and kernels and references give the same bits.
  \<^item> \<open>RepackBridge\<close>, \<open>RepackFacts\<close>: the bridge that writes gathered fp4 slots as V4 rows (\<open>repack_fp4_to_v4.py\<close>).
    The state \<open>bridge_buffers\<close> is the scratch, which is never cleared, and the identity indices, which are only
    filled when they grow. Shown: the kernel leaves the rows of its torch reference whatever came before, the reader
    of V4 gets back the requantized values of each slot, and the slices of a batch fit the scratch.

  Termination and bounds. Loops over lists recurse on the list, the binary search and the retry loops have
  measures, the tasks of the gateway are steps and need no fuel. The search for a prime has no bound: it is
  a partial function into \<open>option\<close>, and that it returns is proved (\<open>layout_build_returns\<close>).

  Not modelled. The model itself (\<open>deepseek_v4_model.py\<close>, \<open>deepseek_v2.py\<close>, the attention backends, the
  compressors and indexers, the CUDA headers): floating-point kernels whose meaning rests on a device
  library. The tables of the engram (host memory,
  sharded lookups, the gate), the memory pools' tensor traffic, graph capture and distributed start-up (\<open>roce_parallel_state.py\<close>, \<open>roce_pynccl.py\<close>): calls
  into torch and NCCL. \<open>server_args.py\<close>, \<open>environ.py\<close>, \<open>overrides.py\<close>: tables of options. \<open>b12x-site/\<close> is
  a vendored package. Start scripts, adapters, benchmarks, tests, reports and data are tooling around the
  program.
\<close>

end
